(* ===== verification/Prelude.thy ===== *)
theory Prelude
  imports Main "HOL-Library.Char_ord" "HOL-Library.List_Lexorder" "HOL-Library.AList"
    "HOL-Library.Multiset" "HOL-Library.Sublist" "HOL-Library.Word"
begin

text \<open>
  What every component shares: Go's (value, error) results as a sum, Go maps as association
  lists with distinct keys whose list order is the iteration order chosen by the runtime, the
  relation that one element stands before another in a list, and the collections of rewrite
  rules the component proofs use.
\<close>

named_theorems result_simps \<open>Rewriting of results, binds and folds over results\<close>
named_theorems step_simps \<open>Effect of the operations of the state machines\<close>
named_theorems op_defs \<open>Unfolding of non-recursive operations\<close>

section \<open>Results\<close>

text \<open>A Go function that returns \<^verbatim>\<open>(T, error)\<close> returns \<open>'e + 't\<close>: \<open>Inl\<close> the
  error, \<open>Inr\<close> the value.\<close>

type_synonym ('e, 'a) result = "'e + 'a"

definition bind_res :: "('e, 'a) result \<Rightarrow> ('a \<Rightarrow> ('e, 'b) result) \<Rightarrow> ('e, 'b) result" where
  "bind_res r f = (case r of Inl e \<Rightarrow> Inl e | Inr x \<Rightarrow> f x)"

definition is_ok :: "('e, 'a) result \<Rightarrow> bool" where
  "is_ok r = (case r of Inl _ \<Rightarrow> False | Inr _ \<Rightarrow> True)"

lemma bind_res_simps [simp, result_simps]:
  "bind_res (Inl e) f = Inl e"
  "bind_res (Inr x) f = f x"
  by (simp_all add: bind_res_def)

lemma bind_res_eq_Inr [result_simps]:
  "bind_res r f = Inr y \<longleftrightarrow> (\<exists>x. r = Inr x \<and> f x = Inr y)"
  by (cases r) auto

lemma bind_res_eq_Inl [result_simps]:
  "bind_res r f = Inl e \<longleftrightarrow> r = Inl e \<or> (\<exists>x. r = Inr x \<and> f x = Inl e)"
  by (cases r) auto

lemma is_ok_simps [simp, result_simps]:
  "is_ok (Inr x)" "\<not> is_ok (Inl e)"
  by (simp_all add: is_ok_def)

lemma is_ok_iff: "is_ok r \<longleftrightarrow> (\<exists>x. r = Inr x)"
  by (cases r) auto

lemma not_is_ok_iff: "\<not> is_ok r \<longleftrightarrow> (\<exists>e. r = Inl e)"
  by (cases r) auto

text \<open>The loop \<^verbatim>\<open>for _, x := range xs { if err := check(x); err != nil { return err } }\<close>.\<close>

fun for_each :: "('a \<Rightarrow> ('e, unit) result) \<Rightarrow> 'a list \<Rightarrow> ('e, unit) result" where
  "for_each f [] = Inr ()"
| "for_each f (x # xs) = (case f x of Inl e \<Rightarrow> Inl e | Inr _ \<Rightarrow> for_each f xs)"

lemma for_each_ok [result_simps]: "for_each f xs = Inr () \<longleftrightarrow> (\<forall>x\<in>set xs. f x = Inr ())"
  by (induction xs) (auto split: sum.splits)

lemma for_each_err:
  "for_each f xs = Inl e \<Longrightarrow> \<exists>ys x zs. xs = ys @ x # zs \<and> f x = Inl e \<and> (\<forall>y\<in>set ys. f y = Inr ())"
proof (induction xs)
  case (Cons a xs)
  show ?case
  proof (cases "f a")
    case (Inl e')
    with Cons.prems have "f a = Inl e" by simp
    then show ?thesis by (metis append_Nil empty_iff list.set(1))
  next
    case (Inr u)
    with Cons.prems have "for_each f xs = Inl e" by simp
    from Cons.IH [OF this] obtain ys x zs where "xs = ys @ x # zs" "f x = Inl e" "\<forall>y\<in>set ys. f y = Inr ()"
      by blast
    with Inr show ?thesis by (intro exI [of _ "a # ys"]) auto
  qed
qed simp

lemma unit_result_cases: "(r :: ('e, unit) result) = Inr () \<or> (\<exists>e. r = Inl e)"
  by (cases r) auto

section \<open>Lists\<close>

text \<open>\<open>before xs a b\<close>: \<open>a\<close> occurs in \<open>xs\<close>, and so does \<open>b\<close> after it.\<close>

definition before :: "'a list \<Rightarrow> 'a \<Rightarrow> 'a \<Rightarrow> bool" where
  "before xs a b \<longleftrightarrow> (\<exists>us vs. xs = us @ vs \<and> a \<in> set us \<and> b \<in> set vs)"

lemma before_append_left: "before xs a b \<Longrightarrow> before (xs @ ys) a b"
  by (auto simp: before_def) (metis append.assoc Un_iff set_append)

lemma before_append_both: "a \<in> set xs \<Longrightarrow> b \<in> set ys \<Longrightarrow> before (xs @ ys) a b"
  by (auto simp: before_def)

lemma before_in_set: "before xs a b \<Longrightarrow> a \<in> set xs \<and> b \<in> set xs"
  by (auto simp: before_def)

lemma before_rev [simp]: "before (rev xs) a b \<longleftrightarrow> before xs b a"
  unfolding before_def
  by (metis rev_append rev_rev_ident set_rev)

lemma before_Nil [simp]: "\<not> before [] a b"
  by (simp add: before_def)

lemma before_Cons: "before (x # xs) a b \<longleftrightarrow> (x = a \<and> b \<in> set xs) \<or> before xs a b"
proof
  assume "before (x # xs) a b"
  then obtain us vs where *: "x # xs = us @ vs" "a \<in> set us" "b \<in> set vs"
    by (auto simp: before_def)
  then show "(x = a \<and> b \<in> set xs) \<or> before xs a b"
    by (cases us) (auto simp: before_def)
next
  assume "(x = a \<and> b \<in> set xs) \<or> before xs a b"
  then show "before (x # xs) a b"
  proof
    assume "x = a \<and> b \<in> set xs"
    then show ?thesis unfolding before_def by (intro exI [of _ "[x]"] exI [of _ xs]) auto
  next
    assume "before xs a b"
    then obtain us vs where "xs = us @ vs" "a \<in> set us" "b \<in> set vs"
      by (auto simp: before_def)
    then show ?thesis unfolding before_def by (intro exI [of _ "x # us"] exI [of _ vs]) auto
  qed
qed

lemma before_code [code]:
  "before [] a b = False"
  "before (x # xs) a b = ((x = a \<and> b \<in> set xs) \<or> before xs a b)"
  by (simp_all add: before_Cons)

lemma before_asym: "distinct xs \<Longrightarrow> before xs a b \<Longrightarrow> \<not> before xs b a"
  by (induction xs) (auto simp: before_Cons dest: before_in_set)

lemma before_irrefl: "distinct xs \<Longrightarrow> \<not> before xs a a"
  by (induction xs) (auto simp: before_Cons)

lemma before_trans: "distinct xs \<Longrightarrow> before xs a b \<Longrightarrow> before xs b c \<Longrightarrow> before xs a c"
  by (induction xs) (auto simp: before_Cons dest: before_in_set)

lemma before_total:
  "a \<in> set xs \<Longrightarrow> b \<in> set xs \<Longrightarrow> a \<noteq> b \<Longrightarrow> before xs a b \<or> before xs b a"
  by (induction xs) (auto simp: before_Cons)

lemma sort_set_unique:
  assumes "distinct xs" "distinct ys" "set xs = set ys"
  shows "sort xs = sort ys"
  using assms by (intro sorted_distinct_set_unique) auto

lemma distinct_length_eq_set:
  assumes "distinct xs" "distinct ys" "set xs \<subseteq> set ys"
  shows "length xs = length ys \<longleftrightarrow> set xs = set ys"
  using assms by (metis card_subset_eq distinct_card List.finite_set)

section \<open>Go maps\<close>

text \<open>A Go map is an association list. The order of the list stands for the (arbitrary) order
  of \<^verbatim>\<open>range\<close>; statements that must not depend on it are proved for every order.\<close>

type_synonym ('k, 'v) gomap = "('k \<times> 'v) list"

definition keys :: "('k, 'v) gomap \<Rightarrow> 'k list" where
  "keys m = map fst m"

definition gomap_ok :: "('k, 'v) gomap \<Rightarrow> bool" where
  "gomap_ok m = distinct (keys m)"

lemma keys_simps [simp]:
  "keys [] = []" "keys ((k, v) # m) = k # keys m" "keys (m @ n) = keys m @ keys n"
  by (simp_all add: keys_def)

lemma set_keys: "set (keys m) = dom (map_of m)"
  by (simp add: keys_def dom_map_of_conv_image_fst)

lemma keys_update [simp]: "set (keys (AList.update k v m)) = insert k (set (keys m))"
  by (simp add: keys_def dom_update)

lemma gomap_ok_update [simp]: "gomap_ok m \<Longrightarrow> gomap_ok (AList.update k v m)"
  by (simp add: gomap_ok_def keys_def distinct_update)

lemma gomap_ok_delete [simp]: "gomap_ok m \<Longrightarrow> gomap_ok (AList.delete k m)"
  by (simp add: gomap_ok_def keys_def distinct_delete)

lemma gomap_ok_map_of: "gomap_ok m \<Longrightarrow> (k, v) \<in> set m \<longleftrightarrow> map_of m k = Some v"
  by (simp add: gomap_ok_def keys_def)

end
