(* ===== verification/ControlChannel.thy ===== *)
theory ControlChannel
  imports GoStrings
begin

text \<open>
  \<^verbatim>\<open>core/agentmgr/control_channel.go\<close>: the reader of an agent's control channel. What it
  reads is a list of frames and the way the stream ended; what it does is the list of its effects.
  The framing of messages is the protobuf library's.
\<close>

section \<open>Model\<close>

record agent_status_frame =
  fs_state :: string
  fs_message :: string
  fs_run :: string

record heartbeat =
  hb_agent :: string
  hb_run :: string

datatype frame_event = StatusArm agent_status_frame | HeartbeatArm heartbeat | NoArm

record frame =
  schema_version :: int
  frame_arm :: frame_event

datatype stream_end = EndOfFile | UnexpectedEOF | MalformedStream

definition controlSchemaVersion :: int where "controlSchemaVersion = 1"

definition maxBadControlFrames :: nat where "maxBadControlFrames = 32"

definition terminalAnnouncedStates :: "string set" where
  "terminalAnnouncedStates = {''STOPPED'', ''FAILED'', ''COMPLETED''}"

datatype reader_effect =
    NoteFrameSeen
  | NoteAnnounced string string
  | PublishStatus string string string
  | PublishHeartbeat heartbeat
  | LogRefused string
  | LogClosing
  | LogMidFrame
  | LogStreamFailed

definition end_effects :: "stream_end \<Rightarrow> reader_effect list" where
  "end_effects e = (case e of EndOfFile \<Rightarrow> [] | UnexpectedEOF \<Rightarrow> [LogMidFrame] | MalformedStream \<Rightarrow> [LogStreamFailed])"

text \<open>What a frame does, or why it is refused.\<close>

definition judge :: "frame \<Rightarrow> (string, reader_effect list) result" where
  "judge f =
     (if schema_version f \<noteq> controlSchemaVersion then Inl ''refusing agent control frame of unknown schema version''
      else case frame_arm f of
        StatusArm st \<Rightarrow>
          if fs_state st = [] then Inl ''agent status frame carries no state''
          else Inr [NoteAnnounced (fs_state st) (fs_run st), PublishStatus (fs_state st) (fs_message st) (fs_run st)]
      | HeartbeatArm hb \<Rightarrow> Inr [PublishHeartbeat hb]
      | NoArm \<Rightarrow> Inl ''agent control frame carries no known event'')"

text \<open>\<open>bad\<close> counts the frames refused so far.\<close>

fun read_frames :: "nat \<Rightarrow> frame list \<Rightarrow> stream_end \<Rightarrow> reader_effect list" where
  "read_frames bad [] e = end_effects e"
| "read_frames bad (f # fs) e = NoteFrameSeen #
     (case judge f of
        Inr effs \<Rightarrow> effs @ read_frames bad fs e
      | Inl msg \<Rightarrow>
          if bad + 1 > maxBadControlFrames then [LogClosing]
          else LogRefused msg # read_frames (bad + 1) fs e)"

definition readControl :: "frame list \<Rightarrow> stream_end \<Rightarrow> reader_effect list" where
  "readControl = read_frames 0"

subsection \<open>The runner's half\<close>

record announced =
  announcedState :: string
  announcedRunID :: string
  spoke :: bool
  spawnedAt :: "int option"
  firstFrameAt :: int

definition new_run_marks :: announced where
  "new_run_marks = \<lparr>announcedState = [], announcedRunID = [], spoke = False, spawnedAt = None, firstFrameAt = 0\<rparr>"

definition noteAnnouncedState :: "string \<Rightarrow> string \<Rightarrow> announced \<Rightarrow> announced" where
  "noteAnnouncedState state runID a = a \<lparr>announcedState := state, announcedRunID := runID\<rparr>"

definition noteFrameSeen :: "int \<Rightarrow> announced \<Rightarrow> announced" where
  "noteFrameSeen now a = (if \<not> spoke a then a \<lparr>spoke := True, firstFrameAt := now\<rparr> else a)"

definition HasSpoken :: "announced \<Rightarrow> bool" where "HasSpoken a = spoke a"

definition FirstFrameLatency :: "announced \<Rightarrow> int" where
  "FirstFrameLatency a = (case spawnedAt a of
     None \<Rightarrow> 0 | Some t \<Rightarrow> if \<not> spoke a then 0 else firstFrameAt a - t)"

definition announcedOwnExit :: "string \<Rightarrow> announced \<Rightarrow> bool" where
  "announcedOwnExit runID a \<longleftrightarrow> announcedRunID a = runID \<and> announcedState a \<in> terminalAnnouncedStates"

text \<open>How the effects of the reader, each at its instant, change the marks.\<close>

fun apply_effect :: "int \<Rightarrow> reader_effect \<Rightarrow> announced \<Rightarrow> announced" where
  "apply_effect now NoteFrameSeen a = noteFrameSeen now a"
| "apply_effect now (NoteAnnounced st rid) a = noteAnnouncedState st rid a"
| "apply_effect now _ a = a"

fun apply_effects :: "(int \<times> reader_effect) list \<Rightarrow> announced \<Rightarrow> announced" where
  "apply_effects [] a = a"
| "apply_effects ((now, e) # es) a = apply_effects es (apply_effect now e a)"

section \<open>What the reader does\<close>

definition refused :: "frame \<Rightarrow> bool" where "refused f \<longleftrightarrow> \<not> is_ok (judge f)"

definition is_log :: "reader_effect \<Rightarrow> bool" where
  "is_log e = (case e of LogRefused _ \<Rightarrow> True | LogClosing \<Rightarrow> True | LogMidFrame \<Rightarrow> True | LogStreamFailed \<Rightarrow> True | _ \<Rightarrow> False)"

text \<open>What the frames of a list publish and record, refused ones left out.\<close>

definition accepted_effects :: "frame list \<Rightarrow> reader_effect list" where
  "accepted_effects fs = concat (map (\<lambda>f. case judge f of Inr effs \<Rightarrow> effs | Inl _ \<Rightarrow> []) fs)"

definition acts :: "reader_effect list \<Rightarrow> reader_effect list" where
  "acts es = filter (\<lambda>e. \<not> is_log e \<and> e \<noteq> NoteFrameSeen) es"

lemma judge_effects: "judge f = Inr effs \<Longrightarrow> acts effs = effs \<and> filter is_log effs = [] \<and> filter (\<lambda>e. e = NoteFrameSeen) effs = []"
  by (auto simp: judge_def acts_def is_log_def split: if_splits frame_event.splits)

lemma end_effects_logs: "acts (end_effects e) = []" "length (filter is_log (end_effects e)) \<le> 1"
  "filter (\<lambda>e. e = NoteFrameSeen) (end_effects e) = []"
  by (auto simp: end_effects_def acts_def is_log_def split: stream_end.split)

definition read_ok :: "nat \<Rightarrow> frame list \<Rightarrow> frame list \<Rightarrow> reader_effect list \<Rightarrow> bool" where
  "read_ok bad read rest out \<longleftrightarrow>
     (rest \<noteq> [] \<longrightarrow> read \<noteq> [] \<and> refused (last read) \<and> bad + length (filter refused read) = maxBadControlFrames + 1) \<and>
     bad + length (filter refused read) \<le> maxBadControlFrames + 1 \<and>
     acts out = accepted_effects read \<and>
     length (filter is_log out) \<le> length (filter refused read) + 1 \<and>
     length (filter (\<lambda>x. x = NoteFrameSeen) out) = length read"

lemma effect_simps:
  "acts (NoteFrameSeen # es) = acts es" "acts (LogRefused m # es) = acts es" "acts (as @ es) = acts as @ acts es"
  "acts [LogClosing] = []" "acts [] = []"
  "is_log (LogRefused m)" "is_log LogClosing" "\<not> is_log NoteFrameSeen"
  "accepted_effects [] = []"
  "accepted_effects (f # fs) = (case judge f of Inr effs \<Rightarrow> effs | Inl _ \<Rightarrow> []) @ accepted_effects fs"
  by (simp_all add: acts_def is_log_def accepted_effects_def)

lemma read_ok_refused:
  "read_ok (Suc bad) us vs out \<Longrightarrow> judge f = Inl msg \<Longrightarrow> read_ok bad (f # us) vs (NoteFrameSeen # LogRefused msg # out)"
  unfolding read_ok_def refused_def by (simp add: effect_simps)

lemma read_ok_accepted:
  "read_ok bad us vs out \<Longrightarrow> judge f = Inr effs \<Longrightarrow> read_ok bad (f # us) vs (NoteFrameSeen # effs @ out)"
  unfolding read_ok_def refused_def using judge_effects [of f effs] by (simp add: effect_simps)

lemma read_frames_spec:
  "bad \<le> maxBadControlFrames \<Longrightarrow> \<exists>read rest. fs = read @ rest \<and> read_ok bad read rest (read_frames bad fs e)"
proof (induction fs arbitrary: bad)
  case Nil
  then show ?case using end_effects_logs [of e] by (simp add: read_ok_def effect_simps)
next
  case (Cons f fs)
  show ?case
  proof (cases "judge f")
    case (Inr effs)
    from Cons.IH [OF Cons.prems] obtain us vs where u: "fs = us @ vs" "read_ok bad us vs (read_frames bad fs e)" by blast
    from read_ok_accepted [OF u(2) Inr] show ?thesis
      by (intro exI [of _ "f # us"] exI [of _ vs]) (simp add: Inr u(1))
  next
    case (Inl msg)
    show ?thesis
    proof (cases "bad + 1 > maxBadControlFrames")
      case True
      with Cons.prems have "bad = maxBadControlFrames" by simp
      then have "read_ok bad [f] fs [NoteFrameSeen, LogClosing]" by (simp add: read_ok_def effect_simps refused_def Inl)
      with True show ?thesis by (intro exI [of _ "[f]"] exI [of _ fs]) (simp add: Inl)
    next
      case False
      with Cons.IH [of "Suc bad"] obtain us vs where u: "fs = us @ vs" "read_ok (Suc bad) us vs (read_frames (Suc bad) fs e)"
        by auto
      from read_ok_refused [OF u(2) Inl] False show ?thesis
        by (intro exI [of _ "f # us"] exI [of _ vs]) (simp add: Inl u(1))
    qed
  qed
qed



end
