(* ===== verification/GoConv.thy ===== *)
theory GoConv
  imports GoStrings
begin

text \<open>
  What the program uses of Go's \<^verbatim>\<open>strconv\<close> and of \<^verbatim>\<open>time.ParseDuration\<close>, written from the
  library's sources: integers with their range checks, binary64 numbers as sign, mantissa and
  exponent with rounding to nearest even, and durations as nanoseconds with the library's
  overflow tests. A failed parse is \<open>None\<close>; the callers never look at the error itself.
\<close>

section \<open>Integers\<close>

definition digit_val :: "char \<Rightarrow> int" where
  "digit_val c = int (of_char c) - 48"

fun digits_acc :: "int \<Rightarrow> string \<Rightarrow> int option" where
  "digits_acc n [] = Some n"
| "digits_acc n (c # s) = (if is_digit c then digits_acc (10 * n + digit_val c) s else None)"

definition parse_digits :: "string \<Rightarrow> int option" where
  "parse_digits s = (if s = [] then None else digits_acc 0 s)"

text \<open>\<^verbatim>\<open>strconv.ParseUint(s, 10, bits)\<close>.\<close>

definition ParseUint :: "nat \<Rightarrow> string \<Rightarrow> int option" where
  "ParseUint bits s = (case parse_digits s of
     None \<Rightarrow> None | Some n \<Rightarrow> if n < 2 ^ bits then Some n else None)"

text \<open>\<^verbatim>\<open>strconv.ParseInt(s, 10, 64)\<close>, and \<^verbatim>\<open>strconv.Atoi\<close> on a 64-bit machine.\<close>

definition ParseInt64 :: "string \<Rightarrow> int option" where
  "ParseInt64 s =
     (let neg = (s \<noteq> [] \<and> hd s = CHR ''-'');
          body = (if s \<noteq> [] \<and> (hd s = CHR ''-'' \<or> hd s = CHR ''+'') then tl s else s)
      in case parse_digits body of
           None \<Rightarrow> None
         | Some n \<Rightarrow>
           if neg then (if n \<le> 2 ^ 63 then Some (- n) else None)
           else (if n < 2 ^ 63 then Some n else None))"

abbreviation Atoi :: "string \<Rightarrow> int option" where "Atoi \<equiv> ParseInt64"

text \<open>\<^verbatim>\<open>strconv.Itoa\<close>, least significant digit first.\<close>

definition digit_char :: "int \<Rightarrow> char" where
  "digit_char d = char_of (nat (48 + d))"

function rev_digits :: "int \<Rightarrow> string" where
  "rev_digits n = (if n < 10 then [digit_char n] else digit_char (n mod 10) # rev_digits (n div 10))"
  by pat_completeness auto

termination by (relation "measure nat") auto

declare rev_digits.simps [simp del]

definition Utoa :: "int \<Rightarrow> string" where "Utoa n = rev (rev_digits n)"
definition Itoa :: "int \<Rightarrow> string" where
  "Itoa i = (if i < 0 then CHR ''-'' # Utoa (- i) else Utoa i)"

lemma digit_val_nonneg: "is_digit c \<Longrightarrow> digit_val c \<ge> 0"
  by (simp add: is_digit_def digit_val_def less_eq_char_def)

lemma digits_acc_nonneg: "0 \<le> n \<Longrightarrow> digits_acc n s = Some m \<Longrightarrow> 0 \<le> m"
  by (induction n s rule: digits_acc.induct) (auto split: if_splits dest: digit_val_nonneg)

lemma parse_digits_nonneg: "parse_digits s = Some n \<Longrightarrow> 0 \<le> n"
  using digits_acc_nonneg [of 0] by (auto simp: parse_digits_def split: if_splits)

lemma ParseInt64_range: "ParseInt64 s = Some i \<Longrightarrow> - (2 ^ 63) \<le> i \<and> i < 2 ^ 63"
  by (auto simp: ParseInt64_def Let_def split: option.splits if_splits dest: parse_digits_nonneg)

lemma ParseUint_range: "ParseUint bits s = Some n \<Longrightarrow> 0 \<le> n \<and> n < 2 ^ bits"
  by (auto simp: ParseUint_def split: option.splits if_splits dest: parse_digits_nonneg)

lemma digit_char_props:
  assumes "0 \<le> n" "n < 10"
  shows "is_digit (digit_char n)" and "digit_val (digit_char n) = n"
  using assms by (simp_all add: is_digit_def digit_val_def less_eq_char_def digit_char_def of_char_of nat_add_distrib)

lemma digits_acc_append:
  "digits_acc n (s @ t) = (case digits_acc n s of None \<Rightarrow> None | Some m \<Rightarrow> digits_acc m t)"
  by (induction n s rule: digits_acc.induct) auto

lemma digits_acc_Utoa: "0 \<le> n \<Longrightarrow> digits_acc 0 (rev (rev_digits n)) = Some n"
proof (induction n rule: rev_digits.induct)
  case (1 n)
  then show ?case
    by (subst rev_digits.simps) (auto simp: digit_char_props digits_acc_append)
qed

lemma Utoa_ne [simp]: "Utoa n \<noteq> []"
  unfolding Utoa_def by (subst rev_digits.simps) simp

lemma parse_Utoa [simp]: "0 \<le> n \<Longrightarrow> parse_digits (Utoa n) = Some n"
  using Utoa_ne [of n] digits_acc_Utoa [of n] by (simp add: parse_digits_def Utoa_def)

lemma digits_acc_digits: "digits_acc n s = Some m \<Longrightarrow> \<forall>c\<in>set s. is_digit c"
  by (induction n s rule: digits_acc.induct) (auto split: if_splits)

lemma Utoa_digits: "0 \<le> n \<Longrightarrow> \<forall>c\<in>set (Utoa n). is_digit c"
  using digits_acc_digits [OF digits_acc_Utoa] by (simp add: Utoa_def)

lemma not_digit_signs [simp]: "\<not> is_digit CHR ''-''" "\<not> is_digit CHR ''+''" "\<not> is_digit CHR ''.''"
  by (simp_all add: is_digit_def less_eq_char_def)

lemma Utoa_hd: "0 \<le> n \<Longrightarrow> hd (Utoa n) \<noteq> CHR ''-'' \<and> hd (Utoa n) \<noteq> CHR ''+''"
  using Utoa_digits [of n] Utoa_ne [of n] not_digit_signs by (metis list.set_sel(1))

lemma ParseInt_Itoa: "- (2 ^ 63) \<le> i \<Longrightarrow> i < 2 ^ 63 \<Longrightarrow> ParseInt64 (Itoa i) = Some i"
  using Utoa_hd [of i] by (cases "i < 0") (simp_all add: ParseInt64_def Itoa_def Let_def)

lemma ParseUint_Utoa: "0 \<le> n \<Longrightarrow> n < 2 ^ bits \<Longrightarrow> ParseUint bits (Utoa n) = Some n"
  by (simp add: ParseUint_def)

section \<open>Binary64\<close>

text \<open>\<open>Fin s m e\<close> is the number of magnitude \<open>m * 2 ^ e\<close>, negative when \<open>s\<close>.\<close>

datatype f64 = NaN | Inf bool | Fin bool int int

function bitlen :: "int \<Rightarrow> int" where
  "bitlen n = (if n \<le> 0 then 0 else 1 + bitlen (n div 2))"
  by pat_completeness auto

termination by (relation "measure nat") auto

declare bitlen.simps [simp del]

text \<open>The quotient of \<open>num * 2 ^ k\<close> and \<open>den\<close> for a possibly negative \<open>k\<close>, as a fraction.\<close>

definition scale2 :: "int \<Rightarrow> int \<Rightarrow> int \<Rightarrow> int \<times> int" where
  "scale2 num den k = (if k \<ge> 0 then (num * 2 ^ nat k, den) else (num, den * 2 ^ nat (- k)))"

definition div_even :: "int \<times> int \<Rightarrow> int" where
  "div_even r = (case r of (n, d) \<Rightarrow>
     let q = n div d; t = 2 * (n mod d) in
     if t > d \<or> (t = d \<and> odd q) then q + 1 else q)"

text \<open>The binary64 number nearest to \<open>num / den\<close>; ties go to the even mantissa, subnormals keep
  the least exponent, and a magnitude of \<open>2 ^ 1024\<close> or more is infinite.\<close>

definition round64 :: "bool \<Rightarrow> int \<Rightarrow> int \<Rightarrow> f64" where
  "round64 s num den =
     (if num = 0 then Fin s 0 0
      else
        let e0 = bitlen num - bitlen den - 53;
            q0 = (case scale2 num den (- e0) of (n, d) \<Rightarrow> n div d);
            e1 = max (if q0 \<ge> 2 ^ 53 then e0 + 1 else e0) (- 1074);
            m = div_even (scale2 num den (- e1));
            (m', e) = (if m = 2 ^ 53 then (2 ^ 52, e1 + 1) else (m, e1))
        in if e > 971 then Inf s else Fin s m' e)"

definition f64_of_int :: "int \<Rightarrow> f64" where
  "f64_of_int i = round64 (i < 0) \<bar>i\<bar> 1"

fun f64_frac :: "f64 \<Rightarrow> int \<times> int" where
  "f64_frac (Fin s m e) = scale2 m 1 e"
| "f64_frac _ = (0, 1)"

fun f64_neg :: "f64 \<Rightarrow> bool" where
  "f64_neg (Fin s m e) = s" | "f64_neg (Inf s) = s" | "f64_neg NaN = False"

text \<open>Products and quotients of finite numbers, the divisor not zero.\<close>

definition f64_mul :: "f64 \<Rightarrow> f64 \<Rightarrow> f64" where
  "f64_mul a b = (case (f64_frac a, f64_frac b) of ((n, d), (n', d')) \<Rightarrow>
     round64 (f64_neg a \<noteq> f64_neg b) (n * n') (d * d'))"

definition f64_div :: "f64 \<Rightarrow> f64 \<Rightarrow> f64" where
  "f64_div a b = (case (f64_frac a, f64_frac b) of ((n, d), (n', d')) \<Rightarrow>
     round64 (f64_neg a \<noteq> f64_neg b) (n * d') (d * n'))"

text \<open>The comparisons \<^verbatim>\<open>v <= 0\<close> and \<^verbatim>\<open>v > w\<close>, false when an operand is not a number.\<close>

fun f64_le_zero :: "f64 \<Rightarrow> bool" where
  "f64_le_zero NaN = False"
| "f64_le_zero (Inf s) = s"
| "f64_le_zero (Fin s m e) = (s \<or> m \<le> 0)"

fun f64_gt :: "f64 \<Rightarrow> f64 \<Rightarrow> bool" where
  "f64_gt NaN _ = False"
| "f64_gt _ NaN = False"
| "f64_gt (Inf s) (Inf t) = (\<not> s \<and> t)"
| "f64_gt (Inf s) (Fin _ _ _) = (\<not> s)"
| "f64_gt (Fin _ _ _) (Inf t) = t"
| "f64_gt (Fin s m e) (Fin t m' e') =
     (case (scale2 m 1 e, scale2 m' 1 e') of ((n, d), (n', d')) \<Rightarrow>
        if s \<and> t then n * d' < n' * d
        else if s then False
        else if t then m \<noteq> 0 \<or> m' \<noteq> 0
        else n * d' > n' * d)"

text \<open>The conversion of a finite number to an integer truncates.\<close>

definition f64_trunc :: "f64 \<Rightarrow> int" where
  "f64_trunc a = (case f64_frac a of (n, d) \<Rightarrow>
     (if f64_neg a then - (n div d) else n div d))"

text \<open>\<^verbatim>\<open>strconv.ParseFloat\<close> on decimal input: an optional sign, \<^verbatim>\<open>inf\<close>, \<^verbatim>\<open>infinity\<close> or
  \<^verbatim>\<open>nan\<close> in any case, or digits with at most one point, at least one digit, and an optional
  exponent. A finite literal out of range is an error. Hexadecimal floats are not modelled.\<close>

fun span_digits :: "string \<Rightarrow> string \<times> string" where
  "span_digits [] = ([], [])"
| "span_digits (c # s) = (if is_digit c then (case span_digits s of (a, b) \<Rightarrow> (c # a, b)) else ([], c # s))"

definition digits_or_zero :: "string \<Rightarrow> int" where
  "digits_or_zero s = (case digits_acc 0 s of None \<Rightarrow> 0 | Some n \<Rightarrow> n)"

definition parse_exponent :: "string \<Rightarrow> int option" where
  "parse_exponent s = (case s of
     [] \<Rightarrow> Some 0
   | c # t \<Rightarrow>
     if c = CHR ''e'' \<or> c = CHR ''E'' then
       (let neg = (t \<noteq> [] \<and> hd t = CHR ''-'');
            body = (if t \<noteq> [] \<and> (hd t = CHR ''-'' \<or> hd t = CHR ''+'') then tl t else t)
        in case parse_digits body of None \<Rightarrow> None | Some n \<Rightarrow> Some (if neg then - n else n))
     else None)"

definition ParseFloat :: "string \<Rightarrow> f64 option" where
  "ParseFloat s =
     (let neg = (s \<noteq> [] \<and> hd s = CHR ''-'');
          signed = (s \<noteq> [] \<and> (hd s = CHR ''-'' \<or> hd s = CHR ''+''));
          body = (if signed then tl s else s);
          low = ToLower body
      in if low = ''inf'' \<or> low = ''infinity'' then Some (Inf neg)
         else if low = ''nan'' \<and> \<not> signed then Some NaN
         else
           let (ip, r1) = span_digits body;
               (fp, r2) = (case r1 of c # t \<Rightarrow> if c = CHR ''.'' then span_digits t else ([], r1) | [] \<Rightarrow> ([], []))
           in if ip = [] \<and> fp = [] then None
              else case parse_exponent r2 of
                None \<Rightarrow> None
              | Some ex \<Rightarrow>
                let m = digits_or_zero (ip @ fp); k = ex - int (length fp);
                    v = (if k \<ge> 0 then round64 neg (m * 10 ^ nat k) 1 else round64 neg m (10 ^ nat (- k)))
                in (case v of Inf _ \<Rightarrow> None | _ \<Rightarrow> Some v))"

section \<open>Durations\<close>

text \<open>\<^verbatim>\<open>leadingInt\<close> and \<^verbatim>\<open>leadingFraction\<close>.\<close>

fun leadingInt :: "int \<Rightarrow> string \<Rightarrow> (int \<times> string) option" where
  "leadingInt x [] = Some (x, [])"
| "leadingInt x (c # s) =
     (if \<not> is_digit c then Some (x, c # s)
      else if x > 2 ^ 63 div 10 then None
      else let x' = x * 10 + digit_val c in if x' > 2 ^ 63 then None else leadingInt x' s)"

fun leadingFraction :: "int \<Rightarrow> int \<Rightarrow> bool \<Rightarrow> string \<Rightarrow> int \<times> int \<times> string" where
  "leadingFraction x scale over [] = (x, scale, [])"
| "leadingFraction x scale over (c # s) =
     (if \<not> is_digit c then (x, scale, c # s)
      else if over \<or> x > (2 ^ 63 - 1) div 10 then leadingFraction x scale True s
      else let y = x * 10 + digit_val c in
        if y > 2 ^ 63 then leadingFraction x scale True s
        else leadingFraction y (scale * 10) False s)"

definition unitMap :: "(string, int) gomap" where
  "unitMap = [(''ns'', 1), (''us'', 1000),
     ([CHR 0xC2, CHR 0xB5, CHR ''s''], 1000), ([CHR 0xCE, CHR 0xBC, CHR ''s''], 1000),
     (''ms'', 1000000), (''s'', 1000000000), (''m'', 60000000000), (''h'', 3600000000000)]"

fun span_unit :: "string \<Rightarrow> string \<times> string" where
  "span_unit [] = ([], [])"
| "span_unit (c # s) =
     (if c = CHR ''.'' \<or> is_digit c then ([], c # s) else (case span_unit s of (a, b) \<Rightarrow> (c # a, b)))"

text \<open>One component, \<^verbatim>\<open>[0-9]*(\.[0-9]*)?[a-z]+\<close>: its nanoseconds and the rest.\<close>

definition duration_part :: "string \<Rightarrow> (int \<times> string) option" where
  "duration_part s =
     (if s = [] \<or> \<not> (hd s = CHR ''.'' \<or> is_digit (hd s)) then None
      else case leadingInt 0 s of
        None \<Rightarrow> None
      | Some (v, s1) \<Rightarrow>
        let pre = (length s1 \<noteq> length s);
            (f, scale, s2) = (if s1 \<noteq> [] \<and> hd s1 = CHR ''.'' then leadingFraction 0 1 False (tl s1) else (0, 1, s1));
            post = (s1 \<noteq> [] \<and> hd s1 = CHR ''.'' \<and> length s2 \<noteq> length (tl s1))
        in if \<not> pre \<and> \<not> post then None
           else let (u, rest) = span_unit s2 in
             if u = [] then None
             else case map_of unitMap u of
               None \<Rightarrow> None
             | Some unit \<Rightarrow>
               if v > 2 ^ 63 div unit then None
               else
                 let frac = (if f > 0 then (f64_trunc (f64_mul (f64_of_int f)
                               (f64_div (f64_of_int unit) (f64_of_int scale)))) else 0);
                     v' = v * unit + frac
                 in if v' > 2 ^ 63 then None else Some (v', rest))"

lemma leadingInt_length: "leadingInt x s = Some (v, r) \<Longrightarrow> length r \<le> length s"
  by (induction x s rule: leadingInt.induct) (auto simp: Let_def split: if_splits)

lemma leadingFraction_length: "leadingFraction x sc ov s = (f, sc', r) \<Longrightarrow> length r \<le> length s"
  by (induction x sc ov s rule: leadingFraction.induct) (auto simp: Let_def split: if_splits)

lemma span_unit_length: "span_unit s = (u, r) \<Longrightarrow> length s = length u + length r"
  by (induction s arbitrary: u) (auto split: if_splits prod.splits)

lemma duration_part_shrinks: "duration_part s = Some (v, r) \<Longrightarrow> length r < length s"
  unfolding duration_part_def Let_def
  by (auto split: if_splits option.splits prod.splits dest!: leadingInt_length leadingFraction_length span_unit_length)

function duration_parts :: "int \<Rightarrow> string \<Rightarrow> int option" where
  "duration_parts d s =
     (if s = [] then Some d
      else case duration_part s of
        None \<Rightarrow> None
      | Some (v, r) \<Rightarrow>
        let d' = (d + v) mod 2 ^ 64 in if d' > 2 ^ 63 then None else duration_parts d' r)"
  by pat_completeness auto

termination
  by (relation "measure (\<lambda>(d, s). length s)") (auto simp: duration_part_shrinks)

declare duration_parts.simps [simp del]

definition ParseDuration :: "string \<Rightarrow> int option" where
  "ParseDuration s =
     (let neg = (s \<noteq> [] \<and> hd s = CHR ''-'');
          body = (if s \<noteq> [] \<and> (hd s = CHR ''-'' \<or> hd s = CHR ''+'') then tl s else s)
      in if body = ''0'' then Some 0
         else if body = [] then None
         else case duration_parts 0 body of
           None \<Rightarrow> None
         | Some d \<Rightarrow> if neg then Some (- d) else if d > 2 ^ 63 - 1 then None else Some d)"

lemma duration_parts_bound:
  "0 \<le> d \<Longrightarrow> d \<le> 2 ^ 63 \<Longrightarrow> duration_parts d s = Some r \<Longrightarrow> 0 \<le> r \<and> r \<le> 2 ^ 63"
proof (induction d s arbitrary: r rule: duration_parts.induct)
  case (1 d s)
  show ?case
  proof (cases "s = []")
    case True
    with "1.prems" show ?thesis by (simp add: duration_parts.simps [of d "[]"])
  next
    case False
    from "1.prems"(3) False obtain v t where p: "duration_part s = Some (v, t)" "(d + v) mod 2 ^ 64 \<le> 2 ^ 63"
      "duration_parts ((d + v) mod 2 ^ 64) t = Some r"
      by (subst (asm) duration_parts.simps) (auto simp: Let_def split: option.splits if_splits)
    from "1.IH" [OF False p(1) refl refl _ _ p(2, 3)] p(2) show ?thesis by simp
  qed
qed

lemma ParseDuration_range:
  assumes "ParseDuration s = Some d"
  shows "- (2 ^ 63) \<le> d \<and> d < 2 ^ 63"
proof -
  let ?b = "if s \<noteq> [] \<and> (hd s = CHR ''-'' \<or> hd s = CHR ''+'') then tl s else s"
  show ?thesis
  proof (cases "duration_parts 0 ?b")
    case None
    with assms show ?thesis unfolding ParseDuration_def Let_def by (simp split: if_splits)
  next
    case (Some r)
    have "0 \<le> r \<and> r \<le> 2 ^ 63" by (rule duration_parts_bound [OF _ _ Some]) simp_all
    moreover have "d = 0 \<or> d = - r \<or> d = r \<and> \<not> r > 2 ^ 63 - 1"
      using assms Some unfolding ParseDuration_def Let_def by (simp split: if_splits)
    ultimately show ?thesis by auto
  qed
qed

lemma duration_examples:
  "ParseDuration ''1m30s'' = Some 90000000000"
  "ParseDuration ''-1.5h'' = Some (- 5400000000000)"
  "ParseDuration ''0.1us'' = Some 100"
  "ParseDuration ''5'' = None"
  "ParseDuration ''*/5 * * * *'' = None"
  by code_simp+

lemma float_examples:
  "ParseFloat ''0.5'' = Some (Fin False (2 ^ 52) (- 53))"
  "ParseFloat ''.1'' = Some (Fin False 7205759403792794 (- 56))"
  "ParseFloat ''-Inf'' = Some (Inf True)"
  "ParseFloat ''1 '' = None"
  by code_simp+

end
