(* ===== verification/ProcSig.thy ===== *)
theory ProcSig
  imports GoConv
begin

text \<open>
  \<^verbatim>\<open>core/procsig\<close> and the process side of \<^verbatim>\<open>core/agentmgr/adopted.go\<close>: signals to a
  process that is not a child, guarded by its start epoch. Each read of the process table and each
  system call sees the table of its own moment, an \<open>os\<close>, and between two of them any process
  may exit and any PID may be given to another.
\<close>

section \<open>Model\<close>

subsection \<open>The process table at one moment\<close>

record os =
  holder :: "int \<Rightarrow> nat option"
  stat_line :: "nat \<Rightarrow> string option"
  ns_inode :: "nat \<Rightarrow> int option"
  pidfd_ok :: bool
  reachable :: "nat \<Rightarrow> bool"
  send_ok :: bool

text \<open>\<open>holder\<close> names the process a PID belongs to; a process that has exited keeps its PID until
  it is waited for. \<open>stat_line\<close> is the text of its \<^verbatim>\<open>stat\<close> file, if it can be read.\<close>

datatype sig_error = ErrStaleEpoch | ErrProcessGone | ErrPidfdUnsupported | MalformedStat | StatFields nat
  | BadStartTime string | StatUnreadable | PidfdFailed | SendFailed | NamespaceUnreadable

definition LastIndexByte :: "string \<Rightarrow> char \<Rightarrow> int" where
  "LastIndexByte s c =
     (if c \<in> set s then int (length s) - 1 - int (length (takeWhile (\<lambda>d. d \<noteq> c) (rev s))) else - 1)"

definition parseStartEpoch :: "string \<Rightarrow> (sig_error, int) result" where
  "parseStartEpoch stat =
     (let end = LastIndexByte stat (CHR '')'') in
      if end < 0 \<or> end + 2 \<ge> int (length stat) then Inl MalformedStat
      else let fields = Fields (drop (nat (end + 2)) stat) in
        if length fields < 20 then Inl (StatFields (length fields))
        else case ParseUint 64 (fields ! 19) of None \<Rightarrow> Inl (BadStartTime (fields ! 19)) | Some epoch \<Rightarrow> Inr epoch)"

datatype read_result = NotExist | ReadError | Content string

definition read_stat :: "os \<Rightarrow> int \<Rightarrow> read_result" where
  "read_stat m pid = (case holder m pid of None \<Rightarrow> NotExist
     | Some p \<Rightarrow> (case stat_line m p of None \<Rightarrow> ReadError | Some s \<Rightarrow> Content s))"

definition StartEpoch :: "os \<Rightarrow> int \<Rightarrow> (sig_error, int) result" where
  "StartEpoch m pid =
     (if pid \<le> 0 then Inl ErrProcessGone
      else case read_stat m pid of
        NotExist \<Rightarrow> Inl ErrProcessGone
      | ReadError \<Rightarrow> Inl StatUnreadable
      | Content s \<Rightarrow> parseStartEpoch s)"

record ProcessIdentity =
  Pid :: int
  StartEpoch_i :: int
  PidNsInode :: int

text \<open>The second moment is that of the \<^verbatim>\<open>stat\<close> call on the namespace.\<close>

definition Identify :: "os \<Rightarrow> os \<Rightarrow> int \<Rightarrow> (sig_error, ProcessIdentity) result" where
  "Identify m0 m1 pid = bind_res (StartEpoch m0 pid) (\<lambda>epoch.
     case holder m1 pid of
       None \<Rightarrow> Inl ErrProcessGone
     | Some p \<Rightarrow> (case ns_inode m1 p of None \<Rightarrow> Inl NamespaceUnreadable
        | Some ino \<Rightarrow> Inr \<lparr>Pid = pid, StartEpoch_i = epoch, PidNsInode = ino\<rparr>))"

definition RequirePidfd :: "os \<Rightarrow> (sig_error, unit) result" where
  "RequirePidfd m = (if pidfd_ok m then Inr () else Inl ErrPidfdUnsupported)"

text \<open>The four moments of one delivery: the first check, the pin, the check while pinned and the
  delivery. The answer names the process the signal went to.\<close>

type_synonym moments = "os \<times> os \<times> os \<times> os"

fun Signal :: "moments \<Rightarrow> int \<Rightarrow> int \<Rightarrow> (sig_error, nat) result" where
  "Signal (m0, m1, m2, m3) pid startEpoch =
     bind_res (StartEpoch m0 pid) (\<lambda>current.
       if current \<noteq> startEpoch then Inl ErrStaleEpoch
       else case holder m1 pid of
         None \<Rightarrow> Inl ErrProcessGone
       | Some p \<Rightarrow>
         if \<not> pidfd_ok m1 then Inl PidfdFailed
         else bind_res (StartEpoch m2 pid) (\<lambda>current.
           if current \<noteq> startEpoch then Inl ErrStaleEpoch
           else if \<not> reachable m3 p then Inl ErrProcessGone
           else if \<not> send_ok m3 then Inl SendFailed
           else Inr p))"

subsection \<open>Stopping an adopted process\<close>

datatype stat_error = StatNotExist | StatOther

definition procStat :: "os \<Rightarrow> int \<Rightarrow> (stat_error, char \<times> int) result" where
  "procStat m pid =
     (case read_stat m pid of
        NotExist \<Rightarrow> Inl StatNotExist
      | ReadError \<Rightarrow> Inl StatOther
      | Content line \<Rightarrow>
        let end = LastIndexByte line (CHR '')'') in
        if end < 0 \<or> end + 2 \<ge> int (length line) then Inl StatOther
        else let fields = Fields (drop (nat (end + 2)) line) in
          if length fields < 20 \<or> fields ! 0 = [] then Inl StatOther
          else case ParseUint 64 (fields ! 19) of None \<Rightarrow> Inl StatOther
             | Some epoch \<Rightarrow> Inr (hd (fields ! 0), epoch))"

definition adoptedHasExited :: "int \<Rightarrow> int \<Rightarrow> os \<Rightarrow> bool" where
  "adoptedHasExited pid epoch m =
     (case procStat m pid of
        Inl e \<Rightarrow> e = StatNotExist
      | Inr (state, current) \<Rightarrow> if current \<noteq> epoch then True else state = CHR ''Z'' \<or> state = CHR ''X'')"

text \<open>The polls of a wait, in order; the last is the one made when the context has ended.\<close>

fun waitAdoptedExit :: "int \<Rightarrow> int \<Rightarrow> os list \<Rightarrow> bool" where
  "waitAdoptedExit pid epoch [] = False"
| "waitAdoptedExit pid epoch (m # ms) = (if adoptedHasExited pid epoch m then True else waitAdoptedExit pid epoch ms)"

datatype stop_error = DeadlineExceeded | SignalError sig_error

text \<open>The moments of one stop. The wait after the kill is not read by the code.\<close>

record stop_run =
  term_m :: moments
  polls_m :: "os list"
  kill_m :: moments

definition stopAdopted :: "stop_run \<Rightarrow> int \<Rightarrow> int \<Rightarrow> stop_error option" where
  "stopAdopted r pid epoch =
     (case Signal (term_m r) pid epoch of
        Inl e \<Rightarrow> if e = ErrProcessGone then None else Some (SignalError e)
      | Inr _ \<Rightarrow>
        if waitAdoptedExit pid epoch (polls_m r) then None
        else (case Signal (kill_m r) pid epoch of
            Inl e \<Rightarrow> if e \<noteq> ErrProcessGone then Some (SignalError e) else Some DeadlineExceeded
          | Inr _ \<Rightarrow> Some DeadlineExceeded))"

definition adoptedStopStatus :: "stop_error option \<Rightarrow> string \<times> string \<times> bool" where
  "adoptedStopStatus err =
     (case err of
        None \<Rightarrow> (''STOPPED'', ''process exited'', True)
      | Some DeadlineExceeded \<Rightarrow> (''STOPPED'', ''killed after timeout'', True)
      | Some (SignalError e) \<Rightarrow>
          if e = ErrStaleEpoch then (''FAILED'', ''adopted pid recycled before stop'', True) else ('''', '''', False))"

section \<open>Reading the process table\<close>

lemma LastIndexByte_last: "c \<notin> set b \<Longrightarrow> LastIndexByte (a @ c # b) c = int (length a)"
proof -
  assume "c \<notin> set b"
  then have "takeWhile (\<lambda>d. d \<noteq> c) (rev (a @ c # b)) = rev b"
    by (auto simp: takeWhile_tail takeWhile_append2)
  then show ?thesis by (simp add: LastIndexByte_def)
qed

lemma fields_acc_word: "\<forall>c \<in> set w. \<not> is_space c \<Longrightarrow> fields_acc (w @ s) v = fields_acc s (v @ w)"
  by (induction w arbitrary: v) auto

lemma Fields_Join:
  "\<forall>f \<in> set fs. f \<noteq> [] \<and> (\<forall>c \<in> set f. \<not> is_space c) \<Longrightarrow> Fields (Join fs '' '' @ [CHR 0x0A]) = fs"
proof (induction fs rule: induct_list012)
  case (2 f)
  then show ?case using fields_acc_word [of f "[CHR 0x0A]" "[]"] by (simp add: Fields_def is_space_def)
next
  case (3 f g fs)
  then show ?case
    using fields_acc_word [of f "'' '' @ Join (g # fs) '' '' @ [CHR 0x0A]" "[]"] by (simp add: Fields_def is_space_def)
qed (simp add: Fields_def is_space_def)

lemma Fields_nonempty: "f \<in> set (Fields s) \<Longrightarrow> f \<noteq> []"
proof -
  have "f \<in> set (fields_acc s w) \<Longrightarrow> f \<noteq> []" for w by (induction s w rule: fields_acc.induct) (auto split: if_splits)
  then show "f \<in> set (Fields s) \<Longrightarrow> f \<noteq> []" by (simp add: Fields_def)
qed

text \<open>A line of \<^verbatim>\<open>/proc/<pid>/stat\<close>: the PID, the command in parentheses, and the other fields.\<close>

definition stat_text :: "int \<Rightarrow> string \<Rightarrow> string list \<Rightarrow> string" where
  "stat_text pid comm fs = Utoa pid @ '' ('' @ comm @ '') '' @ Join fs '' '' @ [CHR 0x0A]"

definition stat_fields_ok :: "int \<Rightarrow> string list \<Rightarrow> bool" where
  "stat_fields_ok epoch fs \<longleftrightarrow> 20 \<le> length fs \<and> fs ! 19 = Utoa epoch \<and> 0 \<le> epoch \<and> epoch < 2 ^ 64 \<and>
     (\<forall>f \<in> set fs. f \<noteq> [] \<and> (\<forall>c \<in> set f. \<not> is_space c \<and> c \<noteq> CHR '')''))"

lemma Join_chars: "c \<in> set (Join fs sep) \<Longrightarrow> c \<in> set sep \<or> (\<exists>f \<in> set fs. c \<in> set f)"
  by (induction fs sep rule: Join.induct) auto

lemma stat_text_parts:
  assumes "stat_fields_ok epoch fs"
  shows "\<not> LastIndexByte (stat_text pid comm fs) (CHR '')'') < 0"
    and "\<not> LastIndexByte (stat_text pid comm fs) (CHR '')'') + 2 \<ge> int (length (stat_text pid comm fs))"
    and "Fields (drop (nat (LastIndexByte (stat_text pid comm fs) (CHR '')'') + 2)) (stat_text pid comm fs)) = fs"
proof -
  let ?a = "Utoa pid @ '' ('' @ comm" let ?b = "Join fs '' '' @ [CHR 0x0A]"
  have t: "stat_text pid comm fs = ?a @ CHR '')'' # '' '' @ ?b" by (simp add: stat_text_def)
  have "CHR '')'' \<notin> set ('' '' @ ?b)"
  proof
    assume "CHR '')'' \<in> set ('' '' @ ?b)"
    then have "CHR '')'' \<in> set (Join fs '' '')" by simp
    from Join_chars [OF this] assms show False by (auto simp: stat_fields_ok_def)
  qed
  then have l: "LastIndexByte (stat_text pid comm fs) (CHR '')'') = int (length ?a)"
    unfolding t by (rule LastIndexByte_last)
  then show "\<not> LastIndexByte (stat_text pid comm fs) (CHR '')'') < 0" by simp
  show "\<not> LastIndexByte (stat_text pid comm fs) (CHR '')'') + 2 \<ge> int (length (stat_text pid comm fs))"
    unfolding l by (simp add: t)
  have "drop (nat (int (length ?a) + 2)) (stat_text pid comm fs) = ?b"
    unfolding t by (simp add: nat_add_distrib del: append_assoc)
  then show "Fields (drop (nat (LastIndexByte (stat_text pid comm fs) (CHR '')'') + 2)) (stat_text pid comm fs)) = fs"
    unfolding l using Fields_Join [of fs] assms by (simp add: stat_fields_ok_def)
qed

lemma stat_parse_epoch:
  assumes "stat_fields_ok epoch fs"
  shows "parseStartEpoch (stat_text pid comm fs) = Inr epoch"
proof -
  have "ParseUint 64 (fs ! 19) = Some epoch" using assms by (simp add: stat_fields_ok_def ParseUint_Utoa)
  with stat_text_parts [OF assms, of pid comm] show ?thesis
    using assms by (simp add: parseStartEpoch_def Let_def stat_fields_ok_def)
qed

text \<open>Both readers of a \<^verbatim>\<open>stat\<close> line find the start time, whatever the command is called - it
  may hold spaces, parentheses and line ends -, and they agree on every other line too: one reads
  an epoch exactly when the other does, and the same.\<close>

theorem stat_parse_any_comm:
  assumes "stat_fields_ok epoch fs"
  shows "parseStartEpoch (stat_text pid comm fs) = Inr epoch \<and>
    (\<forall>m q line. read_stat m q = Content line \<longrightarrow>
      (\<forall>e. parseStartEpoch line = Inr e \<longleftrightarrow> (\<exists>state. procStat m q = Inr (state, e))))"
proof (intro conjI allI impI)
  show "parseStartEpoch (stat_text pid comm fs) = Inr epoch" by (rule stat_parse_epoch [OF assms])
next
  fix m q line e assume r: "read_stat m q = Content line"
  have "20 \<le> length (Fields s) \<Longrightarrow> Fields s ! 0 \<noteq> []" for s
    using Fields_nonempty [of "Fields s ! 0" s] nth_mem [of 0 "Fields s"] by (cases "Fields s") auto
  then show "parseStartEpoch line = Inr e \<longleftrightarrow> (\<exists>state. procStat m q = Inr (state, e))"
    unfolding parseStartEpoch_def procStat_def r Let_def read_result.case
    by (auto split: option.split)
qed

definition ex_fields :: "string \<Rightarrow> int \<Rightarrow> string list" where
  "ex_fields state epoch = state # replicate 18 ''0'' @ [Utoa epoch]"

lemma ex_fields_ok: "stat_fields_ok 4711 (ex_fields ''S'' 4711)"
  by code_simp

theorem stat_parse_any_comm_witness:
  "parseStartEpoch (stat_text 12 ''a) R (b'' (ex_fields ''S'' 4711)) = Inr 4711"
  using stat_parse_any_comm [OF ex_fields_ok] by blast

section \<open>Guarded delivery\<close>

text \<open>What the epochs of a host are taken to be: the file of a process reports its start time, the
  processes that hold one PID one after the other do not start before each other, and no two of them
  start in the same tick.\<close>

definition not_after :: "(nat \<Rightarrow> int) \<Rightarrow> os \<Rightarrow> os \<Rightarrow> bool" where
  "not_after start m m' \<longleftrightarrow> (\<forall>pid p q. holder m pid = Some p \<and> holder m' pid = Some q \<longrightarrow>
     start p \<le> start q \<and> (start p = start q \<longrightarrow> p = q))"

definition reports_start :: "(nat \<Rightarrow> int) \<Rightarrow> os \<Rightarrow> bool" where
  "reports_start start m \<longleftrightarrow> (\<forall>p s e. stat_line m p = Some s \<and> parseStartEpoch s = Inr e \<longrightarrow> e = start p)"

fun epochs_ok :: "(nat \<Rightarrow> int) \<Rightarrow> os list \<Rightarrow> bool" where
  "epochs_ok start [] \<longleftrightarrow> True"
| "epochs_ok start (m # ms) \<longleftrightarrow> reports_start start m \<and> (\<forall>m' \<in> set ms. not_after start m m') \<and> epochs_ok start ms"

lemma epochs_ok_append [simp]:
  "epochs_ok start (xs @ ys) \<longleftrightarrow> epochs_ok start xs \<and> epochs_ok start ys \<and> (\<forall>x \<in> set xs. \<forall>y \<in> set ys. not_after start x y)"
  by (induction xs) auto

lemma epochs_ok_reports: "epochs_ok start ms \<Longrightarrow> m \<in> set ms \<Longrightarrow> reports_start start m"
  by (induction ms) auto

lemma StartEpoch_holder:
  assumes "reports_start start m" "StartEpoch m pid = Inr e"
  obtains p where "holder m pid = Some p" "start p = e" "0 < pid"
proof -
  from assms(2) obtain p s where "holder m pid = Some p" "stat_line m p = Some s" "parseStartEpoch s = Inr e" "0 < pid"
    by (auto simp: StartEpoch_def read_stat_def split: if_splits option.splits)
  with assms(1) that show ?thesis unfolding reports_start_def by blast
qed

fun moment_list :: "moments \<Rightarrow> os list" where
  "moment_list (m0, m1, m2, m3) = [m0, m1, m2, m3]"

lemma pinned_is_target:
  assumes ok: "epochs_ok start (m # moment_list (m0, m1, m2, m3))"
    and captured: "StartEpoch m pid = Inr epoch" "holder m pid = Some t"
    and pin: "StartEpoch m0 pid = Inr epoch" "holder m1 pid = Some p" "StartEpoch m2 pid = Inr epoch"
  shows "p = t"
proof -
  obtain a where a: "holder m0 pid = Some a" "start a = epoch" by (rule StartEpoch_holder [OF _ pin(1), of start]) (use ok in simp)
  obtain c where c: "holder m2 pid = Some c" "start c = epoch" by (rule StartEpoch_holder [OF _ pin(3), of start]) (use ok in simp)
  have t: "start t = epoch" by (rule StartEpoch_holder [OF _ captured(1), of start]) (use ok captured(2) in simp_all)
  have "start a \<le> start p" using ok a(1) pin(2) by (auto simp: not_after_def)
  moreover have "start p \<le> start c" using ok c(1) pin(2) by (auto simp: not_after_def)
  moreover have "start t = start p \<longrightarrow> t = p" using ok captured(2) pin(2) by (auto simp: not_after_def)
  ultimately show ?thesis using a(2) c(2) t by auto
qed

lemma Signal_reaches:
  assumes "epochs_ok start (m # moment_list ms)" "StartEpoch m pid = Inr epoch" "holder m pid = Some t"
    and "Signal ms pid epoch = Inr p"
  shows "p = t"
proof (cases ms)
  case (fields m0 m1 m2 m3)
  from assms(4) [unfolded fields] have "StartEpoch m0 pid = Inr epoch" "holder m1 pid = Some p" "StartEpoch m2 pid = Inr epoch"
    by (auto simp: bind_res_eq_Inr split: if_splits option.splits)
  with pinned_is_target [OF assms(1) [unfolded fields] assms(2, 3)] show ?thesis by blast
qed

text \<open>C18: A guarded signal reaches the process whose epoch was captured, or none: whatever exits and
  whatever takes over its PID between the check, the pin, the second check and the delivery, the
  signal never goes to another process.\<close>

theorem Signal_hits_target:
  assumes "epochs_ok start (m # moment_list ms)" "StartEpoch m pid = Inr epoch" "holder m pid = Some t"
    and "Signal ms pid epoch = Inr p"
  shows "p = t"
  by (rule Signal_reaches [OF assms])

text \<open>A host on which process 1 is process number 5 until the second moment.\<close>

definition ex_os :: "(int \<times> nat) list \<Rightarrow> (nat \<times> string) list \<Rightarrow> os" where
  "ex_os hs ls = \<lparr>holder = map_of hs, stat_line = map_of ls, ns_inode = (\<lambda>_. Some 1), pidfd_ok = True,
     reachable = (\<lambda>p. p \<in> snd ` set hs), send_ok = True\<rparr>"

definition ex_line :: "int \<Rightarrow> string" where
  "ex_line e = stat_text 1 ''x'' (ex_fields ''S'' e)"

definition ex_now :: os where "ex_now = ex_os [(7, 5)] [(5, ex_line 4711)]"

lemma ex_now_facts: "reports_start (\<lambda>_. 4711) ex_now" "StartEpoch ex_now 7 = Inr 4711" "holder ex_now 7 = Some 5"
  "Signal (ex_now, ex_now, ex_now, ex_now) 7 4711 = Inr 5" "not_after (\<lambda>_. 4711) ex_now ex_now"
proof -
  have p: "parseStartEpoch (ex_line 4711) = Inr 4711"
    unfolding ex_line_def using stat_parse_epoch [OF ex_fields_ok] by blast
  then show "reports_start (\<lambda>_. 4711) ex_now" by (auto simp: reports_start_def ex_now_def ex_os_def split: if_splits)
  show "StartEpoch ex_now 7 = Inr 4711" using p by (simp add: StartEpoch_def read_stat_def ex_now_def ex_os_def)
  then show "Signal (ex_now, ex_now, ex_now, ex_now) 7 4711 = Inr 5" by (simp add: ex_now_def ex_os_def)
  show "holder ex_now 7 = Some 5" "not_after (\<lambda>_. 4711) ex_now ex_now"
    by (auto simp: ex_now_def ex_os_def not_after_def split: if_splits)
qed

theorem Signal_hits_target_witness: "Signal (ex_now, ex_now, ex_now, ex_now) 7 4711 = Inr 5 \<and> holder ex_now 7 = Some 5"
  using Signal_hits_target [of "\<lambda>_. 4711" ex_now "(ex_now, ex_now, ex_now, ex_now)" 7 4711 5 5] ex_now_facts by simp

section \<open>Stopping an adopted process\<close>

definition state_of :: "os \<Rightarrow> nat \<Rightarrow> char option" where
  "state_of m p = (case stat_line m p of None \<Rightarrow> None
     | Some s \<Rightarrow> map_option (\<lambda>f. hd f) (case Fields (drop (nat (LastIndexByte s (CHR '')'') + 2)) s) of [] \<Rightarrow> None | f # _ \<Rightarrow> Some f))"

text \<open>A process has gone from a PID when another holds it or none, when it can no longer be signalled,
  or when it is a zombie.\<close>

definition gone_from :: "int \<Rightarrow> nat \<Rightarrow> os \<Rightarrow> bool" where
  "gone_from pid t m \<longleftrightarrow> holder m pid \<noteq> Some t \<or> \<not> reachable m t \<or> state_of m t \<in> {Some (CHR ''Z''), Some (CHR ''X'')}"

definition stop_moments :: "stop_run \<Rightarrow> os list" where
  "stop_moments r = moment_list (term_m r) @ polls_m r @ moment_list (kill_m r)"

lemma Signal_gone:
  assumes ok: "epochs_ok start (m # moment_list ms)" and c: "StartEpoch m pid = Inr epoch" "holder m pid = Some t"
    and s: "Signal ms pid epoch = Inl ErrProcessGone"
  shows "\<exists>m' \<in> set (moment_list ms). gone_from pid t m'"
proof (cases ms)
  case (fields m0 m1 m2 m3)
  have pos: "0 < pid" using c(1) by (auto simp: StartEpoch_def split: if_splits)
  have no: "holder x pid = None" if "StartEpoch x pid = Inl ErrProcessGone" for x
    using that pos by (auto simp: StartEpoch_def read_stat_def parseStartEpoch_def Let_def split: option.splits if_splits)
  from s [unfolded fields] consider "holder m0 pid = None" | "holder m1 pid = None" | "holder m2 pid = None"
    | p where "StartEpoch m0 pid = Inr epoch" "holder m1 pid = Some p" "StartEpoch m2 pid = Inr epoch" "\<not> reachable m3 p"
    by (auto simp: bind_res_eq_Inl no split: if_splits option.splits)
  then show ?thesis
  proof cases
    case 4
    with pinned_is_target [OF ok [unfolded fields] c] have "p = t" by blast
    with 4 fields show ?thesis by (auto simp: gone_from_def)
  qed (auto simp: fields gone_from_def)
qed

lemma Signal_stale:
  assumes ok: "epochs_ok start (m # moment_list ms)" and c: "StartEpoch m pid = Inr epoch" "holder m pid = Some t"
    and s: "Signal ms pid epoch = Inl ErrStaleEpoch"
  shows "\<exists>m' \<in> set (moment_list ms). \<exists>q. holder m' pid = Some q \<and> q \<noteq> t"
proof (cases ms)
  case (fields m0 m1 m2 m3)
  have t: "start t = epoch" by (rule StartEpoch_holder [OF _ c(1), of start]) (use ok c(2) in simp_all)
  have no: "StartEpoch x pid \<noteq> Inl ErrStaleEpoch" for x
    by (auto simp: StartEpoch_def read_stat_def parseStartEpoch_def Let_def split: option.splits if_splits)
  from s [unfolded fields] obtain x e where x: "x \<in> {m0, m2}" "StartEpoch x pid = Inr e" "e \<noteq> epoch"
    by (auto simp: bind_res_eq_Inl no split: if_splits option.splits)
  obtain q where "holder x pid = Some q" "start q = e"
    by (rule StartEpoch_holder [OF _ x(2), of start]) (use ok fields x(1) in auto)
  with x t fields show ?thesis by auto
qed

lemma adoptedHasExited_gone:
  assumes "epochs_ok start [m, m']" "StartEpoch m pid = Inr epoch" "holder m pid = Some t" "adoptedHasExited pid epoch m'"
  shows "gone_from pid t m'"
proof (cases "procStat m' pid")
  case (Inl e)
  with assms(4) have "holder m' pid = None"
    by (auto simp: adoptedHasExited_def procStat_def read_stat_def Let_def split: option.splits if_splits)
  then show ?thesis by (simp add: gone_from_def)
next
  case (Inr r)
  then obtain st e where r: "procStat m' pid = Inr (st, e)" by (cases r) auto
  then obtain q s where q: "holder m' pid = Some q" "stat_line m' q = Some s" "st = hd (Fields (drop (nat (LastIndexByte s (CHR '')'') + 2)) s) ! 0)"
    "20 \<le> length (Fields (drop (nat (LastIndexByte s (CHR '')'') + 2)) s))" "parseStartEpoch s = Inr e"
    by (auto simp: procStat_def read_stat_def parseStartEpoch_def Let_def split: option.splits if_splits)
  have t: "start t = epoch" by (rule StartEpoch_holder [OF _ assms(2), of start]) (use assms in simp_all)
  have "start q = e" using assms(1) q by (auto simp: reports_start_def)
  with assms(4) r q t show ?thesis
    by (cases "Fields (drop (nat (LastIndexByte s (CHR '')'') + 2)) s)")
      (auto simp: adoptedHasExited_def gone_from_def state_of_def split: if_splits)
qed

lemma waitAdoptedExit_iff: "waitAdoptedExit pid epoch ms \<longleftrightarrow> (\<exists>m \<in> set ms. adoptedHasExited pid epoch m)"
  by (induction ms) auto

text \<open>A stop of an adopted process signals no other process. It reports success only when the
  process has gone, and a recycled PID only when another process holds it.\<close>

theorem stopAdopted_sound:
  assumes "epochs_ok start (m # stop_moments r)" "StartEpoch m pid = Inr epoch" "holder m pid = Some t"
  shows "(\<forall>p. Signal (term_m r) pid epoch = Inr p \<or> Signal (kill_m r) pid epoch = Inr p \<longrightarrow> p = t) \<and>
    (stopAdopted r pid epoch = None \<longrightarrow> (\<exists>m' \<in> set (stop_moments r). gone_from pid t m')) \<and>
    (stopAdopted r pid epoch = Some (SignalError ErrStaleEpoch) \<longrightarrow>
      (\<exists>m' \<in> set (stop_moments r). \<exists>q. holder m' pid = Some q \<and> q \<noteq> t))"
proof (intro conjI impI allI)
  have ok: "epochs_ok start (m # moment_list (term_m r))" "epochs_ok start (m # moment_list (kill_m r))"
    "\<And>x. x \<in> set (polls_m r) \<Longrightarrow> epochs_ok start [m, x]"
    using assms(1) epochs_ok_reports [of start "polls_m r"] by (auto simp: stop_moments_def)
  show "p = t" if "Signal (term_m r) pid epoch = Inr p \<or> Signal (kill_m r) pid epoch = Inr p" for p
    using that Signal_reaches [OF ok(1) assms(2, 3)] Signal_reaches [OF ok(2) assms(2, 3)] by blast
  show "\<exists>m' \<in> set (stop_moments r). gone_from pid t m'" if "stopAdopted r pid epoch = None"
    using that Signal_gone [OF ok(1) assms(2, 3)] adoptedHasExited_gone [OF ok(3) assms(2, 3)]
    by (auto simp: stopAdopted_def stop_moments_def waitAdoptedExit_iff split: sum.splits if_splits)
  show "\<exists>m' \<in> set (stop_moments r). \<exists>q. holder m' pid = Some q \<and> q \<noteq> t"
    if "stopAdopted r pid epoch = Some (SignalError ErrStaleEpoch)"
    using that Signal_stale [OF ok(1) assms(2, 3)] Signal_stale [OF ok(2) assms(2, 3)]
    by (auto simp: stopAdopted_def stop_moments_def split: sum.splits if_splits)
qed

definition ex_later :: os where "ex_later = ex_os [] []"

definition ex_stop :: stop_run where
  "ex_stop = \<lparr>term_m = (ex_now, ex_now, ex_now, ex_now), polls_m = [ex_now, ex_later],
     kill_m = (ex_later, ex_later, ex_later, ex_later)\<rparr>"

theorem stopAdopted_sound_witness:
  "stopAdopted ex_stop 7 4711 = None \<and> (\<exists>m \<in> set (stop_moments ex_stop). gone_from 7 5 m)"
proof -
  have l: "reports_start (\<lambda>_. 4711) ex_later" "not_after (\<lambda>_. 4711) ex_now ex_later" "not_after (\<lambda>_. 4711) ex_later ex_later"
    by (auto simp: ex_later_def ex_os_def reports_start_def not_after_def)
  have ok: "epochs_ok (\<lambda>_. 4711) (ex_now # stop_moments ex_stop)"
    using l ex_now_facts(1, 5) by (auto simp: stop_moments_def ex_stop_def)
  have "adoptedHasExited 7 4711 ex_later"
    by (simp add: adoptedHasExited_def procStat_def read_stat_def ex_later_def ex_os_def)
  then have "stopAdopted ex_stop 7 4711 = None" using ex_now_facts(4) by (simp add: stopAdopted_def ex_stop_def)
  with stopAdopted_sound [OF ok ex_now_facts(2, 3)] show ?thesis by blast
qed

text \<open>What the stop reports after the kill says nothing about the process: a stop of a process that
  runs on through every moment reports it as stopped. And a process that exits on the first signal
  and whose PID is taken before the second is reported as having gone by itself.\<close>

lemma killed_process_may_run_on:
  "adoptedStopStatus (stopAdopted (ex_stop \<lparr>polls_m := [ex_now], kill_m := (ex_now, ex_now, ex_now, ex_now)\<rparr>) 7 4711)
    = (''STOPPED'', ''killed after timeout'', True)"
proof -
  have "parseStartEpoch (ex_line 4711) = Inr 4711" unfolding ex_line_def using stat_parse_epoch [OF ex_fields_ok] by blast
  moreover have "procStat ex_now 7 = Inr (CHR ''S'', 4711)"
    unfolding procStat_def read_stat_def ex_now_def ex_os_def ex_line_def by code_simp
  ultimately show ?thesis
    using ex_now_facts(4) by (simp add: stopAdopted_def ex_stop_def adoptedHasExited_def adoptedStopStatus_def)
qed

end
