(* ===== verification/Limits.thy ===== *)
theory Limits
  imports GoConv
begin

text \<open>
  \<^verbatim>\<open>core/cgroups\<close>: what a limit string means (\<^verbatim>\<open>parse.go\<close>) and what is done with it
  (\<^verbatim>\<open>cgroups.go\<close>). The cgroup file system is a parameter: which directory creations and writes
  fail and what files hold; the operations record what they create and write, in order.
\<close>

section \<open>Parsing limits\<close>

record ResourceSpec =
  CPU :: f64
  Memory :: int

definition zero_f64 :: f64 where "zero_f64 = Fin False 0 0"

datatype limit_reason = NotMillicores | NotNumber | NotFinite | NotPositive | QuotaOutOfRange
  | NoUnit | NotWholeNumber | BytesOutOfRange

record LimitError =
  Field :: string
  Value :: string
  Reason :: limit_reason

definition cpuQuotaPeriodUS :: int where "cpuQuotaPeriodUS = 100000"

definition memUnits :: "(string \<times> int) list" where
  "memUnits = [(''GB'', 2 ^ 30), (''MB'', 2 ^ 20), (''KB'', 2 ^ 10), (''B'', 1),
     (''G'', 2 ^ 30), (''M'', 2 ^ 20), (''K'', 2 ^ 10)]"

fun cut_unit :: "string \<Rightarrow> (string \<times> int) list \<Rightarrow> (string \<times> int) option" where
  "cut_unit s [] = None"
| "cut_unit s ((sfx, mul) # us) =
     (if HasSuffix s sfx then Some (TrimSuffix s sfx, mul) else cut_unit s us)"

definition cpu_bad :: "string \<Rightarrow> limit_reason \<Rightarrow> (LimitError, f64) result" where
  "cpu_bad limit r = Inl \<lparr>Field = ''cpu'', Value = limit, Reason = r\<rparr>"

text \<open>The constant \<^verbatim>\<open>float64(math.MaxInt)/cpuQuotaPeriodUS\<close>.\<close>

definition max_cores :: f64 where
  "max_cores = f64_div (f64_of_int (2 ^ 63 - 1)) (f64_of_int cpuQuotaPeriodUS)"

definition check_cpu :: "string \<Rightarrow> f64 \<Rightarrow> (LimitError, f64) result" where
  "check_cpu limit v =
     (case v of
        NaN \<Rightarrow> cpu_bad limit NotFinite
      | Inf _ \<Rightarrow> cpu_bad limit NotFinite
      | Fin _ _ _ \<Rightarrow>
        if f64_le_zero v then cpu_bad limit NotPositive
        else if f64_gt v max_cores then cpu_bad limit QuotaOutOfRange
        else Inr v)"

definition parseCPU :: "string \<Rightarrow> (LimitError, f64) result" where
  "parseCPU limit =
     (if HasSuffix limit ''m'' then
        (case ParseInt64 (TrimSuffix limit ''m'') of
           None \<Rightarrow> cpu_bad limit NotMillicores
         | Some n \<Rightarrow> check_cpu limit (f64_div (f64_of_int n) (f64_of_int 1000)))
      else
        (case ParseFloat limit of
           None \<Rightarrow> cpu_bad limit NotNumber
         | Some v \<Rightarrow> check_cpu limit v))"

definition mem_bad :: "string \<Rightarrow> limit_reason \<Rightarrow> (LimitError, int) result" where
  "mem_bad limit r = Inl \<lparr>Field = ''memory'', Value = limit, Reason = r\<rparr>"

definition parseMemory :: "string \<Rightarrow> (LimitError, int) result" where
  "parseMemory limit =
     (case cut_unit (ToUpper limit) memUnits of
        None \<Rightarrow> mem_bad limit NoUnit
      | Some (num, mul) \<Rightarrow>
        (case ParseInt64 num of
           None \<Rightarrow> mem_bad limit NotWholeNumber
         | Some v \<Rightarrow>
           if v \<le> 0 then mem_bad limit NotPositive
           else if v > (2 ^ 63 - 1) div mul then mem_bad limit BytesOutOfRange
           else Inr (v * mul)))"

definition ParseResourceSpec :: "string \<Rightarrow> string \<Rightarrow> (LimitError, ResourceSpec) result" where
  "ParseResourceSpec cpu mem =
     (let c = TrimSpace cpu; m = TrimSpace mem in
      bind_res (if c \<noteq> [] then parseCPU c else Inr zero_f64) (\<lambda>v.
      bind_res (if m \<noteq> [] then parseMemory m else Inr 0) (\<lambda>b.
      Inr \<lparr>CPU = v, Memory = b\<rparr>)))"

section \<open>The contract of a limit parser\<close>

text \<open>A limit that is blank means no limit; any other accepted limit is effective, so that the
  writer, which writes only effective values, writes it.\<close>

locale limit_parser =
  fixes parse :: "string \<Rightarrow> ('e, 'v) result" and effective :: "'v \<Rightarrow> bool" and none :: 'v
  assumes blank: "TrimSpace s = [] \<Longrightarrow> parse s = Inr none"
    and accepted_effective: "TrimSpace s \<noteq> [] \<Longrightarrow> parse s = Inr v \<Longrightarrow> effective v"
    and none_not_effective: "\<not> effective none"
begin

lemma effective_iff: "parse s = Inr v \<Longrightarrow> effective v \<longleftrightarrow> TrimSpace s \<noteq> []"
  using blank accepted_effective none_not_effective by (metis Inr_inject)

lemma validator_iff:
  "(case parse s of Inl _ \<Rightarrow> False | Inr v \<Rightarrow> effective v) \<longleftrightarrow> TrimSpace s \<noteq> [] \<and> is_ok (parse s)"
  using effective_iff [of s] by (auto simp: is_ok_def split: sum.splits)

end

definition cpu_effective :: "ResourceSpec \<Rightarrow> bool" where
  "cpu_effective spec \<longleftrightarrow> f64_gt (CPU spec) zero_f64"

definition mem_effective :: "ResourceSpec \<Rightarrow> bool" where
  "mem_effective spec \<longleftrightarrow> Memory spec > 0"

lemma check_cpu_Inr: "check_cpu limit v = Inr w \<Longrightarrow>
  w = v \<and> (\<exists>m e. v = Fin False m e \<and> m > 0) \<and> \<not> f64_gt v max_cores"
  by (cases v) (auto simp: check_cpu_def cpu_bad_def split: if_splits)

lemma parseCPU_Inr: "parseCPU s = Inr v \<Longrightarrow> (\<exists>m e. v = Fin False m e \<and> m > 0) \<and> \<not> f64_gt v max_cores"
  unfolding parseCPU_def by (auto simp: cpu_bad_def split: if_splits option.splits dest: check_cpu_Inr)

lemma cut_unit_mult: "cut_unit s us = Some (num, mul) \<Longrightarrow> mul \<in> snd ` set us"
  by (induction s us rule: cut_unit.induct) (auto split: if_splits)

lemma memUnits_pos: "cut_unit s memUnits = Some (num, mul) \<Longrightarrow> mul > 0"
  using cut_unit_mult [of s memUnits num mul] by (auto simp: memUnits_def)

lemma parseMemory_Inr:
  assumes "parseMemory s = Inr b"
  shows "0 < b \<and> b < 2 ^ 63"
proof -
  from assms obtain num mul where c: "cut_unit (ToUpper s) memUnits = Some (num, mul)"
    by (cases "cut_unit (ToUpper s) memUnits") (auto simp: parseMemory_def mem_bad_def)
  with assms obtain v where i: "ParseInt64 num = Some v"
    by (cases "ParseInt64 num") (auto simp: parseMemory_def mem_bad_def)
  have *: "cut_unit (ToUpper s) memUnits = Some (num, mul)" "v > 0" "v \<le> (2 ^ 63 - 1) div mul" "b = v * mul"
    using assms c i by (auto simp: parseMemory_def mem_bad_def split: if_splits)
  have m: "mul > 0" by (rule memUnits_pos [OF *(1)])
  have "v * mul \<le> (2 ^ 63 - 1) div mul * mul" using *(3) m by (intro mult_right_mono) auto
  also have "\<dots> = (2 ^ 63 - 1) - (2 ^ 63 - 1) mod mul" by (simp add: minus_mod_eq_div_mult)
  also have "\<dots> \<le> 2 ^ 63 - 1" using pos_mod_sign [OF m] by simp
  finally show ?thesis using * m by simp
qed

lemma fin_positive: "m > 0 \<Longrightarrow> f64_gt (Fin False m e) zero_f64"
  by (auto simp: zero_f64_def scale2_def)

text \<open>Each half of \<open>ParseResourceSpec\<close> keeps the contract.\<close>

lemma ParseResourceSpec_Inr:
  "ParseResourceSpec cpu mem = Inr spec \<longleftrightarrow>
    (if TrimSpace cpu = [] then CPU spec = zero_f64 else parseCPU (TrimSpace cpu) = Inr (CPU spec)) \<and>
    (if TrimSpace mem = [] then Memory spec = 0 else parseMemory (TrimSpace mem) = Inr (Memory spec))"
  by (cases spec) (auto simp: ParseResourceSpec_def Let_def bind_res_eq_Inr)

lemma cpu_effective_iff: "parseCPU s = Inr (CPU spec) \<Longrightarrow> cpu_effective spec"
  unfolding cpu_effective_def using parseCPU_Inr fin_positive by metis

lemma not_effective_zero [simp]: "\<not> f64_gt zero_f64 zero_f64"
  by (simp add: zero_f64_def scale2_def)

interpretation cpu_limit: limit_parser "\<lambda>s. ParseResourceSpec s []" cpu_effective "\<lparr>CPU = zero_f64, Memory = 0\<rparr>"
proof
  show "ParseResourceSpec s [] = Inr \<lparr>CPU = zero_f64, Memory = 0\<rparr>" if "TrimSpace s = []" for s
    using that by (simp add: ParseResourceSpec_def)
  show "cpu_effective v" if "TrimSpace s \<noteq> []" "ParseResourceSpec s [] = Inr v" for s v
    using that cpu_effective_iff by (auto simp: ParseResourceSpec_Inr)
qed (simp add: cpu_effective_def)

interpretation mem_limit: limit_parser "\<lambda>s. ParseResourceSpec [] s" mem_effective "\<lparr>CPU = zero_f64, Memory = 0\<rparr>"
proof
  show "ParseResourceSpec [] s = Inr \<lparr>CPU = zero_f64, Memory = 0\<rparr>" if "TrimSpace s = []" for s
    using that by (simp add: ParseResourceSpec_def)
  show "mem_effective v" if "TrimSpace s \<noteq> []" "ParseResourceSpec [] s = Inr v" for s v
    using that parseMemory_Inr by (auto simp: ParseResourceSpec_Inr mem_effective_def)
qed (simp add: mem_effective_def)

section \<open>The cgroup file system\<close>

text \<open>Operations, in order; what the file system answers; and the name space of the daemon.\<close>

datatype cg_op = MkdirAll string | WriteFile string string | RemoveDir string

datatype cg_error = CgDisabled | CgNoCgroup2 | CgRead string | CgMkdir string | CgWrite string | CgRemove string

record cg_env =
  cg_daemon :: string
  cg_disabled :: bool
  cg_self :: "string option"
  cg_read :: "string \<Rightarrow> string option"
  cg_mkdir_ok :: "string \<Rightarrow> bool"
  cg_write_ok :: "string \<Rightarrow> bool"
  cg_remove_ok :: "string \<Rightarrow> bool"

type_synonym 'a cg = "cg_op list \<times> (cg_error, 'a) result"

definition cg_join :: "string \<Rightarrow> string \<Rightarrow> string" where
  "cg_join a b = a @ ''/'' @ b"

definition infraCgroup :: "cg_env \<Rightarrow> string" where
  "infraCgroup env = cg_daemon env @ ''-infra''"

definition AgentCgroup :: "cg_env \<Rightarrow> string \<Rightarrow> string" where
  "AgentCgroup env i = cg_daemon env @ ''-'' @ i"

text \<open>\<^verbatim>\<open>strings.SplitN(line, ":", 3)\<close>.\<close>

definition split3 :: "string \<Rightarrow> string list" where
  "split3 line = (case cut_at CHR '':'' line of
     None \<Rightarrow> [line]
   | Some (a, r) \<Rightarrow> (case cut_at CHR '':'' r of None \<Rightarrow> [a, r] | Some (b, c) \<Rightarrow> [a, b, c]))"

fun cgroup2_suffix :: "string list \<Rightarrow> string" where
  "cgroup2_suffix [] = []"
| "cgroup2_suffix (line # ls) =
     (case split3 line of [a, b, c] \<Rightarrow> if b = [] then c else cgroup2_suffix ls | _ \<Rightarrow> cgroup2_suffix ls)"

definition lines_of :: "string \<Rightarrow> string list" where
  "lines_of s = (let ls = split_on CHR 0x0A s in if last ls = [] then butlast ls else ls)"

definition detectRoot :: "cg_env \<Rightarrow> (cg_error, string) result" where
  "detectRoot env = (case cg_self env of
     None \<Rightarrow> Inl (CgRead ''/proc/self/cgroup'')
   | Some content \<Rightarrow>
     let sfx = cgroup2_suffix (lines_of content) in
     if sfx = [] then Inl CgNoCgroup2 else Inr (''/sys/fs/cgroup'' @ sfx))"

definition readPids :: "cg_env \<Rightarrow> string \<Rightarrow> (cg_error, int list) result" where
  "readPids env path = (case cg_read env path of
     None \<Rightarrow> Inl (CgRead path)
   | Some content \<Rightarrow> Inr (List.map_filter Atoi (lines_of content)))"

definition readFirstLine :: "cg_env \<Rightarrow> string \<Rightarrow> (cg_error, string) result" where
  "readFirstLine env path = (case cg_read env path of
     None \<Rightarrow> Inl (CgRead path)
   | Some content \<Rightarrow> Inr (hd (split_on CHR 0x0A content)))"

definition wanted_controllers :: "string \<Rightarrow> string \<Rightarrow> string list" where
  "wanted_controllers avail controllers =
     filter (\<lambda>p. HasPrefix p ''+'' \<and> Contains avail (TrimPrefix p ''+'')) (Fields controllers)"

definition cg_write :: "cg_env \<Rightarrow> string \<Rightarrow> string \<Rightarrow> unit cg" where
  "cg_write env path val =
     (if cg_write_ok env path then ([WriteFile path val], Inr ()) else ([], Inl (CgWrite path)))"

definition enableControllers :: "cg_env \<Rightarrow> string \<Rightarrow> string \<Rightarrow> unit cg" where
  "enableControllers env path controllers =
     (case readFirstLine env (cg_join path ''cgroup.controllers'') of
        Inl e \<Rightarrow> ([], Inl e)
      | Inr avail \<Rightarrow>
        let toWrite = wanted_controllers avail controllers in
        if toWrite \<noteq> [] then cg_write env (cg_join path ''cgroup.subtree_control'') (Join toWrite '' '')
        else ([], Inr ()))"

definition cg_mkdir :: "cg_env \<Rightarrow> string \<Rightarrow> unit cg" where
  "cg_mkdir env path = (if cg_mkdir_ok env path then ([MkdirAll path], Inr ()) else ([], Inl (CgMkdir path)))"

definition cg_bind :: "'a cg \<Rightarrow> ('a \<Rightarrow> 'b cg) \<Rightarrow> 'b cg" where
  "cg_bind m f = (case m of
     (ops, Inl e) \<Rightarrow> (ops, Inl e)
   | (ops, Inr x) \<Rightarrow> (case f x of (ops', r) \<Rightarrow> (ops @ ops', r)))"

text \<open>An effect whose error is only warned about.\<close>

definition cg_try :: "unit cg \<Rightarrow> unit cg" where
  "cg_try m = (fst m, Inr ())"

fun move_pids :: "cg_env \<Rightarrow> string \<Rightarrow> int list \<Rightarrow> unit cg" where
  "move_pids env path [] = ([], Inr ())"
| "move_pids env path (p # ps) = cg_bind (cg_try (cg_write env path (Itoa p))) (\<lambda>_. move_pids env path ps)"

text \<open>\<^verbatim>\<open>Setup\<close> returns the new service root.\<close>

definition Setup :: "cg_env \<Rightarrow> string cg" where
  "Setup env =
     (if cg_disabled env then ([], Inl CgDisabled)
      else case detectRoot env of
        Inl e \<Rightarrow> ([], Inl e)
      | Inr root \<Rightarrow>
        let infra = cg_join root (infraCgroup env); sup = cg_join infra ''supervisor'' in
        cg_bind (cg_mkdir env infra) (\<lambda>_.
        cg_bind (cg_mkdir env sup) (\<lambda>_.
        case readPids env (cg_join root ''cgroup.procs'') of
          Inl e \<Rightarrow> ([], Inl e)
        | Inr pids \<Rightarrow>
          cg_bind (move_pids env (cg_join sup ''cgroup.procs'') pids) (\<lambda>_.
          cg_bind (cg_try (enableControllers env root ''+cpu +memory'')) (\<lambda>_.
          cg_bind (enableControllers env infra ''+cpu +memory'') (\<lambda>_.
          ([], Inr infra)))))))"

definition root_of :: "cg_env \<Rightarrow> string \<Rightarrow> (cg_error, string) result" where
  "root_of env serviceRoot = (if serviceRoot = [] then detectRoot env else Inr serviceRoot)"

definition cpu_quota :: "f64 \<Rightarrow> int" where
  "cpu_quota v = f64_trunc (f64_mul (f64_of_int cpuQuotaPeriodUS) v)"

definition apply_memory :: "cg_env \<Rightarrow> string \<Rightarrow> ResourceSpec \<Rightarrow> unit cg" where
  "apply_memory env cg spec =
     (if mem_effective spec then
        cg_bind (cg_write env (cg_join cg ''memory.max'') (Itoa (Memory spec))) (\<lambda>_.
          cg_try (cg_write env (cg_join cg ''memory.swap.max'') ''0''))
      else ([], Inr ()))"

definition apply_cpu :: "cg_env \<Rightarrow> string \<Rightarrow> ResourceSpec \<Rightarrow> unit cg" where
  "apply_cpu env cg spec =
     (if cpu_effective spec then
        cg_write env (cg_join cg ''cpu.max'') (Itoa (cpu_quota (CPU spec)) @ '' '' @ Itoa cpuQuotaPeriodUS)
      else ([], Inr ()))"

definition Create :: "cg_env \<Rightarrow> string \<Rightarrow> string \<Rightarrow> ResourceSpec \<Rightarrow> string cg" where
  "Create env serviceRoot nm spec =
     (case root_of env serviceRoot of
        Inl e \<Rightarrow> ([], Inl e)
      | Inr root \<Rightarrow>
        let cg = cg_join root nm in
        cg_bind (cg_mkdir env cg) (\<lambda>_.
        cg_bind (apply_memory env cg spec) (\<lambda>_.
        cg_bind (apply_cpu env cg spec) (\<lambda>_. ([], Inr cg)))))"

definition Add :: "cg_env \<Rightarrow> string \<Rightarrow> int \<Rightarrow> unit cg" where
  "Add env cg pid = cg_write env (cg_join cg ''cgroup.procs'') (Itoa pid)"

definition Cleanup :: "cg_env \<Rightarrow> string \<Rightarrow> string \<Rightarrow> unit cg" where
  "Cleanup env serviceRoot nm =
     (case root_of env serviceRoot of
        Inl e \<Rightarrow> ([], Inl e)
      | Inr root \<Rightarrow>
        let p = cg_join root nm in
        if cg_remove_ok env p then ([RemoveDir p], Inr ()) else ([], Inl (CgRemove p)))"

text \<open>\<^verbatim>\<open>GetStats\<close>; the CPU usage is the constant zero, so only the memory is modelled.\<close>

definition GetStats :: "cg_env \<Rightarrow> string \<Rightarrow> string \<Rightarrow> (cg_error, int) result" where
  "GetStats env serviceRoot nm =
     bind_res (root_of env serviceRoot) (\<lambda>root.
       case readFirstLine env (cg_join (cg_join root nm) ''memory.current'') of
         Inl _ \<Rightarrow> Inr 0
       | Inr line \<Rightarrow> (case ParseInt64 line of None \<Rightarrow> Inr 0 | Some v \<Rightarrow> Inr v))"

section \<open>Properties\<close>



definition writes_to :: "string \<Rightarrow> cg_op list \<Rightarrow> string list" where
  "writes_to path ops = [v. WriteFile p v \<leftarrow> ops, p = path]"

lemma writes_to_simps [simp]:
  "writes_to path [] = []"
  "writes_to path (WriteFile p v # ops) = (if p = path then v # writes_to path ops else writes_to path ops)"
  "writes_to path (MkdirAll p # ops) = writes_to path ops"
  "writes_to path (ops @ ops') = writes_to path ops @ writes_to path ops'"
  by (auto simp: writes_to_def)

lemma cg_join_eq [simp]: "cg_join a b = cg_join a c \<longleftrightarrow> b = c"
  by (simp add: cg_join_def)

lemma cg_bind_Inr: "cg_bind m f = (ops, Inr y) \<longleftrightarrow>
  (\<exists>o1 x o2. m = (o1, Inr x) \<and> f x = (o2, Inr y) \<and> ops = o1 @ o2)"
  by (auto simp: cg_bind_def split: prod.splits sum.splits)

text \<open>What \<^verbatim>\<open>Create\<close> writes for a parsed specification: when it succeeds, the memory limit
  file holds exactly the parsed number of bytes if a memory limit was given and the CPU file the
  quota for the parsed quantity if a CPU limit was given, and neither file is touched otherwise.\<close>

theorem Create_writes_limits:
  assumes "ParseResourceSpec cpu mem = Inr spec" "Create env root nm spec = (ops, Inr cg)"
  shows "writes_to (cg_join cg ''memory.max'') ops = (if TrimSpace mem = [] then [] else [Itoa (Memory spec)]) \<and>
    writes_to (cg_join cg ''cpu.max'') ops =
      (if TrimSpace cpu = [] then [] else [Itoa (cpu_quota (CPU spec)) @ '' '' @ Itoa cpuQuotaPeriodUS])"
proof -
  have m: "mem_effective spec \<longleftrightarrow> TrimSpace mem \<noteq> []" and c: "cpu_effective spec \<longleftrightarrow> TrimSpace cpu \<noteq> []"
    using ParseResourceSpec_Inr [of cpu mem spec] assms(1) parseMemory_Inr cpu_effective_iff
    by (auto simp: mem_effective_def cpu_effective_def split: if_splits)
  from assms(2) obtain o1 o2 o3 where o: "cg_mkdir env cg = (o1, Inr ())" "apply_memory env cg spec = (o2, Inr ())"
    "apply_cpu env cg spec = (o3, Inr ())" "ops = o1 @ o2 @ o3"
    by (fastforce simp: Create_def cg_bind_Inr Let_def split: sum.splits)
  have "o1 = [MkdirAll cg]" using o(1) by (auto simp: cg_mkdir_def split: if_splits)
  moreover have "o2 = (if mem_effective spec then WriteFile (cg_join cg ''memory.max'') (Itoa (Memory spec)) #
      fst (cg_write env (cg_join cg ''memory.swap.max'') ''0'') else [])"
    using o(2) by (auto simp: apply_memory_def cg_bind_Inr cg_try_def cg_write_def split: if_splits)
  moreover have "o3 = (if cpu_effective spec then [WriteFile (cg_join cg ''cpu.max'')
      (Itoa (cpu_quota (CPU spec)) @ '' '' @ Itoa cpuQuotaPeriodUS)] else [])"
    using o(3) by (auto simp: apply_cpu_def cg_write_def split: if_splits)
  ultimately show ?thesis using o(4) m c by (auto simp: cg_write_def)
qed

abbreviation open_env :: cg_env where
  "open_env \<equiv> \<lparr>cg_daemon = ''gapid'', cg_disabled = False, cg_self = None, cg_read = (\<lambda>_. None),
     cg_mkdir_ok = (\<lambda>_. True), cg_write_ok = (\<lambda>_. True), cg_remove_ok = (\<lambda>_. True)\<rparr>"

theorem Create_writes_limits_witness:
  "writes_to ''/r/web/memory.max'' [MkdirAll ''/r/web'', WriteFile ''/r/web/memory.max'' ''1024'',
     WriteFile ''/r/web/memory.swap.max'' ''0''] = [''1024'']"
proof -
  let ?spec = "\<lparr>CPU = zero_f64, Memory = 1024\<rparr>"
  have p: "ParseResourceSpec [] ''1K'' = Inr ?spec" by code_simp
  have c: "Create open_env ''/r'' ''web'' ?spec = ([MkdirAll ''/r/web'', WriteFile ''/r/web/memory.max'' ''1024'',
     WriteFile ''/r/web/memory.swap.max'' ''0''], Inr ''/r/web'')" by code_simp
  have t: "TrimSpace ''1K'' \<noteq> []" "Itoa (Memory ?spec) = ''1024''" "cg_join ''/r/web'' ''memory.max'' = ''/r/web/memory.max''"
    by code_simp+
  from Create_writes_limits [OF p c] t show ?thesis by simp
qed

text \<open>An accepted CPU limit can still be written as no quota at all: a positive quantity below
  one microsecond per period truncates to the quota zero.\<close>

theorem accepted_cpu_limit_with_zero_quota:
  "case ParseResourceSpec ''0.000001'' [] of
     Inl _ \<Rightarrow> False
   | Inr spec \<Rightarrow> cpu_effective spec \<and> fst (Create open_env ''/r'' ''web'' spec) =
       [MkdirAll ''/r/web'', WriteFile ''/r/web/cpu.max'' ''0 100000'']"
  by code_simp

text \<open>The controller check matches names as substrings: on a host that offers only
  \<open>cpuset\<close>, the CPU controller is requested although it is not available.\<close>

theorem enableControllers_substring_match:
  "fst (enableControllers (open_env \<lparr>cg_read := (\<lambda>_. Some ''cpuset io'')\<rparr>) ''/r'' ''+cpu +memory'')
    = [WriteFile ''/r/cgroup.subtree_control'' ''+cpu'']"
  by code_simp

end
