(* ===== verification/Runner.thy ===== *)
theory Runner
  imports ControlChannel ProcSig Limits
begin

text \<open>
  \<^verbatim>\<open>core/agentmgr\<close>, \<^verbatim>\<open>go_agent.go\<close>, \<^verbatim>\<open>python_agent.go\<close>,
  \<^verbatim>\<open>adopted.go\<close> and \<^verbatim>\<open>checkpoint.go\<close>: the runners that own a separate
  process. An operation is the stretch of code between taking and releasing the agent's mutex; the
  goroutines it leaves behind - the exit watcher, the waiter of a stop, the watch of an adopted
  process - are threads of \<open>rworld\<close>, and a step relation interleaves them with the processes.
  Binding a socket, making a pipe and executing a program are answers of the environment.
\<close>

section \<open>Model\<close>

subsection \<open>The agent\<close>

datatype lang = GoLang | PythonLang

record spec =
  sp_id :: string
  sp_typ :: string
  sp_path :: string
  sp_runner :: string
  sp_production :: bool
  sp_listen :: string
  sp_cpu :: string
  sp_mem :: string

text \<open>\<open>a_cmd\<close> is the number of the run whose \<^verbatim>\<open>exec.Cmd\<close> the slot holds, and whether it has
  a process. \<open>waitOnce\<close> is the \<^verbatim>\<open>sync.Once\<close> of the field, with the run that reset it.\<close>

datatype once = Fresh | Busy | Done

record runner =
  a_cmd :: "(nat \<times> bool) option"
  waitOnce :: "nat \<times> once"
  stopping :: bool
  marks :: announced
  nextRunID :: string
  startTime :: "int option"
  listening :: bool
  hasHandler :: bool
  watching :: bool
  adoptedPid :: int
  adoptedEpoch :: int
  adoptedWatch :: "(int \<times> int) option"
  streams :: bool
  in_cgroup :: bool
  runs :: nat
  published :: "(string \<times> string \<times> string) list"

definition new_runner :: runner where
  "new_runner = \<lparr>a_cmd = None, waitOnce = (0, Fresh), stopping = False, marks = new_run_marks, nextRunID = [],
     startTime = None, listening = False, hasHandler = False, watching = False, adoptedPid = 0, adoptedEpoch = 0,
     adoptedWatch = None, streams = False, in_cgroup = False, runs = 0, published = []\<rparr>"

definition publishStatusWithRunID :: "string \<Rightarrow> string \<Rightarrow> string \<Rightarrow> runner \<Rightarrow> runner" where
  "publishStatusWithRunID state message rid a = a \<lparr>published := published a @ [(ToUpper state, message, rid)]\<rparr>"

definition SetRunID :: "string \<Rightarrow> runner \<Rightarrow> runner" where
  "SetRunID i a = a \<lparr>nextRunID := i\<rparr>"

definition Uptime :: "int \<Rightarrow> runner \<Rightarrow> int" where
  "Uptime now a = (case startTime a of None \<Rightarrow> 0 | Some t \<Rightarrow> now - t)"

definition running :: "runner \<Rightarrow> bool" where
  "running a = (case a_cmd a of None \<Rightarrow> False | Some (r, started) \<Rightarrow> started)"

lemma running_iff: "running a \<longleftrightarrow> (\<exists>r. a_cmd a = Some (r, True))"
  by (auto simp: running_def split: option.split)

text \<open>\<open>pid_of\<close> is the PID the system gave the process of a run.\<close>

definition agent_Pid :: "(nat \<Rightarrow> int) \<Rightarrow> runner \<Rightarrow> int option" where
  "agent_Pid pid_of a = (case a_cmd a of
     Some (r, True) \<Rightarrow> Some (pid_of r)
   | _ \<Rightarrow> if adoptedPid a \<noteq> 0 then Some (adoptedPid a) else None)"

definition cleanupAfterExit :: "spec \<Rightarrow> runner \<Rightarrow> runner" where
  "cleanupAfterExit sp a =
     (let a1 = (if sp_cpu sp \<noteq> [] \<or> sp_mem sp \<noteq> [] then a \<lparr>in_cgroup := False\<rparr> else a)
      in a1 \<lparr>streams := False, a_cmd := None, startTime := None\<rparr>)"

subsection \<open>Sockets\<close>

datatype listen_error = BindFailed string | NoListenerFile

definition listen_address :: "string \<Rightarrow> string \<times> string" where
  "listen_address listenSpec =
     (let network = (if HasPrefix listenSpec ''/'' \<or> HasPrefix listenSpec ''@'' then ''unix'' else ''tcp'')
      in (network, if \<not> Contains listenSpec '':'' \<and> network = ''tcp'' then '':'' @ listenSpec else listenSpec))"

text \<open>The first answer tells whether the address can be bound, the second whether the listener gives its
  file. The result tells whether there is a descriptor.\<close>

definition ensureListener :: "spec \<Rightarrow> bool \<Rightarrow> bool \<Rightarrow> runner \<Rightarrow> (listen_error, bool) result \<times> runner" where
  "ensureListener sp bind file a =
     (if sp_listen sp = [] then (Inr False, a)
      else if \<not> listening a \<and> \<not> bind then (Inl (BindFailed (snd (listen_address (sp_listen sp)))), a)
      else let a1 = a \<lparr>listening := True\<rparr> in if file then (Inr True, a1) else (Inl NoListenerFile, a1))"

datatype arm_error = NoTrafficHandler | ArmListen listen_error

definition arm :: "spec \<Rightarrow> bool \<Rightarrow> bool \<Rightarrow> runner \<Rightarrow> arm_error option \<times> runner" where
  "arm sp bind file a =
     (if watching a then (None, a)
      else if \<not> hasHandler a then (Some NoTrafficHandler, a)
      else case ensureListener sp bind file a of
        (Inl e, a1) \<Rightarrow> (Some (ArmListen e), a1)
      | (Inr _, a1) \<Rightarrow> (None, a1 \<lparr>watching := True\<rparr>))"

text \<open>What the watch does when its socket sees traffic: it disarms, and the answer tells whether there
  is a handler to call.\<close>

definition watch_traffic :: "runner \<Rightarrow> bool \<times> runner" where
  "watch_traffic a = (hasHandler a, a \<lparr>watching := False\<rparr>)"

subsection \<open>Starting\<close>

datatype inherited = ListenerFile | ControlWriteEnd

record child =
  argv :: "string list"
  env :: "(string \<times> string) list"
  extraFiles :: "inherited list"

definition child_env :: "string \<Rightarrow> (string \<times> string) list \<Rightarrow> nat \<Rightarrow> (string \<times> string) list" where
  "child_env runID own listeners =
     (if runID \<noteq> [] then [(''ADK_RUN_ID'', runID)] else []) @ own @
     [(''ADK_CONTROL_FD'', Itoa (3 + int listeners))] @
     (if listeners > 0 then [(''LISTEN_FDS'', Itoa (int listeners)), (''LISTEN_PID'', ''self'')] else [])"

definition go_child :: "spec \<Rightarrow> string \<Rightarrow> bool \<Rightarrow> child" where
  "go_child sp runID socket =
     (let files = (if socket then [ListenerFile] else [])
      in \<lparr>argv = [sp_path sp, ''--start''], env = child_env runID [] (length files),
          extraFiles = files @ [ControlWriteEnd]\<rparr>)"

definition py_child :: "spec \<Rightarrow> string \<Rightarrow> bool \<Rightarrow> child" where
  "py_child sp runID socket =
     (let files = (if socket then [ListenerFile] else [])
      in \<lparr>argv = [''python3'', ''-u'', sp_runner sp, ''--module'', sp_path sp, ''--id'', sp_id sp, ''--type'', sp_typ sp, ''--start''],
          env = child_env runID (if sp_production sp then [(''ADK_REJECT_DUMMY'', ''1'')] else []) (length files),
          extraFiles = files @ [ControlWriteEnd]\<rparr>)"

record start_answers =
  st_bind :: bool
  st_file :: bool
  st_pipe :: bool
  st_stdout :: bool
  st_stderr :: bool
  st_exec :: bool
  st_cgroup :: bool
  st_begin :: int
  st_spawned :: int

datatype run_error = BadLimits LimitError | Listen listen_error | PipeFailed | StreamFailed | ExecFailed
  | OneshotFailed | NotRunning | ReloadFailed | RunDeadlineExceeded | WaitError | AdoptedStop stop_error
  | NoProcess | CriuFailed | AdoptFailed sig_error

definition attachCgroup :: "ResourceSpec \<Rightarrow> bool \<Rightarrow> runner \<Rightarrow> runner" where
  "attachCgroup limits ok a =
     (if \<not> (f64_gt (CPU limits) zero_f64) \<and> Memory limits \<le> 0 then a else a \<lparr>in_cgroup := ok\<rparr>)"

datatype started = NotSpawned "run_error option" | Spawned child

text \<open>The start up to the point where the child runs and \<^verbatim>\<open>STARTING\<close> is published.\<close>

definition go_Start :: "spec \<Rightarrow> start_answers \<Rightarrow> runner \<Rightarrow> started \<times> runner" where
  "go_Start sp an a0 =
     (let a = a0 \<lparr>watching := False\<rparr> in
      if running a then (NotSpawned None, a)
      else case ParseResourceSpec (sp_cpu sp) (sp_mem sp) of
        Inl e \<Rightarrow> (NotSpawned (Some (BadLimits e)), a)
      | Inr limits \<Rightarrow>
        (case ensureListener sp (st_bind an) (st_file an) a of
           (Inl e, a1) \<Rightarrow> (NotSpawned (Some (Listen e)), a1)
         | (Inr socket, a1) \<Rightarrow>
           if \<not> st_pipe an then (NotSpawned (Some PipeFailed), a1)
           else
             let c = go_child sp (nextRunID a1) socket; r = runs a1;
                 a2 = a1 \<lparr>a_cmd := Some (r, False), runs := r + 1, startTime := Some (st_begin an),
                        waitOnce := (r, Fresh), stopping := False\<rparr>
             in if \<not> st_stdout an then (NotSpawned (Some StreamFailed), a2)
             else if \<not> st_stderr an then (NotSpawned (Some StreamFailed), a2 \<lparr>streams := True\<rparr>)
             else let a3 = a2 \<lparr>streams := True, marks := new_run_marks\<rparr> in
               if \<not> st_exec an then (NotSpawned (Some ExecFailed), a3)
               else let a4 = a3 \<lparr>a_cmd := Some (r, True), marks := (marks a3) \<lparr>spawnedAt := Some (st_spawned an)\<rparr>\<rparr>;
                        a5 = attachCgroup limits (st_cgroup an) a4
                    in (Spawned c, publishStatusWithRunID ''STARTING'' ''process spawned'' (nextRunID a5) a5)))"

definition py_Start :: "spec \<Rightarrow> start_answers \<Rightarrow> runner \<Rightarrow> started \<times> runner" where
  "py_Start sp an a0 =
     (let a = a0 \<lparr>watching := False\<rparr> in
      if running a then (NotSpawned None, a)
      else case ParseResourceSpec (sp_cpu sp) (sp_mem sp) of
        Inl e \<Rightarrow> (NotSpawned (Some (BadLimits e)), a)
      | Inr limits \<Rightarrow>
        (case ensureListener sp (st_bind an) (st_file an) a of
           (Inl e, a1) \<Rightarrow> (NotSpawned (Some (Listen e)), a1)
         | (Inr socket, a1) \<Rightarrow>
           let c = py_child sp (nextRunID a1) socket in
           if \<not> st_pipe an then (NotSpawned (Some PipeFailed), a1)
           else
             let r = runs a1;
                 a2 = a1 \<lparr>a_cmd := Some (r, False), runs := r + 1, startTime := Some (st_begin an),
                        waitOnce := (r, Fresh), stopping := False\<rparr>
             in if \<not> st_stdout an then (NotSpawned (Some StreamFailed), a2)
             else if \<not> st_stderr an then (NotSpawned (Some StreamFailed), a2 \<lparr>streams := True\<rparr>)
             else let a3 = a2 \<lparr>streams := True, marks := new_run_marks\<rparr> in
               if \<not> st_exec an then (NotSpawned (Some ExecFailed), a3)
               else let a4 = a3 \<lparr>a_cmd := Some (r, True), marks := (marks a3) \<lparr>spawnedAt := Some (st_spawned an)\<rparr>\<rparr>;
                        a5 = attachCgroup limits (st_cgroup an) a4
                    in (Spawned c, publishStatusWithRunID ''STARTING'' ''process spawned'' (nextRunID a5) a5)))"

text \<open>The end of a oneshot agent's start, when its process has exited; \<open>rid\<close> was read at the spawn.\<close>

definition go_oneshot_end :: "spec \<Rightarrow> string \<Rightarrow> bool \<Rightarrow> runner \<Rightarrow> run_error option \<times> runner" where
  "go_oneshot_end sp rid ok a =
     (if \<not> ok then (Some OneshotFailed, cleanupAfterExit sp (publishStatusWithRunID ''FAILED'' ''oneshot failed'' rid a))
      else (None, cleanupAfterExit sp (publishStatusWithRunID ''COMPLETED'' ''oneshot success'' rid a)))"

text \<open>What the exit watcher of run \<open>r\<close>, started under \<open>rid\<close>, decides once it has joined the
  control channel.\<close>

definition exit_watcher :: "spec \<Rightarrow> nat \<Rightarrow> string \<Rightarrow> runner \<Rightarrow> runner" where
  "exit_watcher sp r rid a =
     (if stopping a \<or> map_option fst (a_cmd a) \<noteq> Some r then a
      else if announcedOwnExit rid (marks a) then cleanupAfterExit sp a
      else cleanupAfterExit sp (publishStatusWithRunID ''FAILED'' ''process exited unexpectedly'' rid a))"

subsection \<open>Stopping and reloading\<close>

datatype stop_begun = NothingToStop | StopAdopted int int string | StopChild nat string

text \<open>The start of a stop: the process is signalled, and the answer says what the stop now waits for.\<close>

definition go_Stop_begin :: "runner \<Rightarrow> stop_begun \<times> runner" where
  "go_Stop_begin a =
     (case a_cmd a of
        Some (r, True) \<Rightarrow> (StopChild r (nextRunID a), a \<lparr>stopping := True\<rparr>)
      | _ \<Rightarrow>
        if adoptedPid a \<noteq> 0
        then (StopAdopted (adoptedPid a) (adoptedEpoch a) (nextRunID a), a \<lparr>adoptedWatch := None, stopping := True\<rparr>)
        else (NothingToStop, a \<lparr>adoptedWatch := None\<rparr>))"

text \<open>A listener is armed again when there is a traffic handler; an error of that is dropped.\<close>

definition rearm :: "spec \<Rightarrow> bool \<Rightarrow> bool \<Rightarrow> runner \<Rightarrow> runner" where
  "rearm sp bind file a = (if sp_listen sp \<noteq> [] \<and> hasHandler a then snd (arm sp bind file a) else a)"

text \<open>The end of a stop, in time or after the kill.\<close>

datatype child_exit = ExitOk | ExitSignal | ExitError

definition ignoreStopSignalExit :: "child_exit \<Rightarrow> run_error option" where
  "ignoreStopSignalExit e = (case e of ExitError \<Rightarrow> Some WaitError | _ \<Rightarrow> None)"

definition go_Stop_end :: "spec \<Rightarrow> string \<Rightarrow> child_exit option \<Rightarrow> bool \<Rightarrow> bool \<Rightarrow> runner \<Rightarrow> run_error option \<times> runner" where
  "go_Stop_end sp rid done bind file a =
     (case done of
        Some e \<Rightarrow> (ignoreStopSignalExit e,
          rearm sp bind file (cleanupAfterExit sp (publishStatusWithRunID ''STOPPED'' ''process exited'' rid a)))
      | None \<Rightarrow> (Some RunDeadlineExceeded,
          rearm sp bind file (cleanupAfterExit sp (publishStatusWithRunID ''STOPPED'' ''killed after timeout'' rid a))))"

definition stop_adopted_end :: "spec \<Rightarrow> string \<Rightarrow> stop_error option \<Rightarrow> bool \<Rightarrow> bool \<Rightarrow> runner \<Rightarrow> run_error option \<times> runner" where
  "stop_adopted_end sp rid err bind file a =
     (case adoptedStopStatus err of (state, message, settled) \<Rightarrow>
        if \<not> settled then (map_option AdoptedStop err, a \<lparr>stopping := False\<rparr>)
        else (map_option AdoptedStop err,
          rearm sp bind file (cleanupAfterExit sp
            (publishStatusWithRunID state message rid (a \<lparr>adoptedPid := 0, adoptedEpoch := 0\<rparr>)))))"

text \<open>A Go agent is sent \<^verbatim>\<open>SIGHUP\<close>; the answer tells whether a signal was sent.\<close>

definition go_Reload :: "runner \<Rightarrow> (run_error, nat) result" where
  "go_Reload a = (case a_cmd a of Some (r, True) \<Rightarrow> Inr r | _ \<Rightarrow> Inl NotRunning)"

text \<open>A Python agent is run once more with \<^verbatim>\<open>--reload\<close>; \<open>ok\<close> tells whether that succeeds.\<close>

definition py_Reload :: "bool \<Rightarrow> runner \<Rightarrow> run_error option \<times> runner" where
  "py_Reload ok a =
     (if \<not> running a then (Some NotRunning, a)
      else if \<not> ok then (Some ReloadFailed, a)
      else (None, publishStatusWithRunID ''RUNNING'' ''reload complete'' (nextRunID a) a))"

definition dropAdopted :: "runner \<Rightarrow> runner" where
  "dropAdopted a = a \<lparr>adoptedPid := 0, adoptedEpoch := 0, adoptedWatch := None\<rparr>"

definition Reset :: "spec \<Rightarrow> runner \<Rightarrow> runner" where
  "Reset sp a = cleanupAfterExit sp (dropAdopted a)"

subsection \<open>Adopted processes\<close>

definition adopt :: "int \<Rightarrow> (sig_error, int) result \<Rightarrow> runner \<Rightarrow> run_error option \<times> runner" where
  "adopt pid epoch a =
     (let a1 = a \<lparr>adoptedWatch := None, a_cmd := None, adoptedPid := pid, adoptedEpoch := 0, stopping := False\<rparr>
      in case epoch of
        Inl e \<Rightarrow> (Some (AdoptFailed e), a1)
      | Inr ep \<Rightarrow> (None, a1 \<lparr>adoptedEpoch := ep, adoptedWatch := Some (pid, ep)\<rparr>))"

definition agent_Restore :: "int option \<Rightarrow> os \<Rightarrow> runner \<Rightarrow> run_error option \<times> runner" where
  "agent_Restore restored m a = (case restored of None \<Rightarrow> (Some CriuFailed, a) | Some pid \<Rightarrow> adopt pid (StartEpoch m pid) a)"

definition agent_Checkpoint :: "(nat \<Rightarrow> int) \<Rightarrow> (int \<Rightarrow> bool) \<Rightarrow> runner \<Rightarrow> run_error option" where
  "agent_Checkpoint pid_of dump a = (case agent_Pid pid_of a of
     None \<Rightarrow> Some NoProcess | Some pid \<Rightarrow> if dump pid then None else Some CriuFailed)"

text \<open>What the watch on \<open>(pid, epoch)\<close> does when it sees the process go.\<close>

definition adoptedExited :: "spec \<Rightarrow> int \<Rightarrow> int \<Rightarrow> runner \<Rightarrow> runner" where
  "adoptedExited sp pid epoch a =
     (if stopping a \<or> adoptedPid a \<noteq> pid \<or> adoptedEpoch a \<noteq> epoch then a
      else cleanupAfterExit sp (publishStatusWithRunID ''FAILED'' ''adopted process exited unexpectedly'' (nextRunID a)
        (a \<lparr>adoptedPid := 0, adoptedEpoch := 0\<rparr>)))"

text \<open>The agent a reaped process is attributed to, in the iteration order of the agents.\<close>

fun NotifyExited :: "(nat \<Rightarrow> int) \<Rightarrow> (string \<times> runner) list \<Rightarrow> int \<Rightarrow> string option" where
  "NotifyExited pid_of [] pid = None"
| "NotifyExited pid_of ((i, a) # as) pid = (if agent_Pid pid_of a = Some pid then Some i else NotifyExited pid_of as pid)"

section \<open>The two runners\<close>

text \<open>C22: A start of a Python agent does, on every path, what a start of a Go agent does, but for the
  child it makes: both pass the same descriptors in the same order, and the same variables but for
  the one that forbids the stub.\<close>

theorem runners_start_alike:
  "py_Start sp an a = (case go_Start sp an a of
     (NotSpawned e, a') \<Rightarrow> (NotSpawned e, a')
   | (Spawned c, a') \<Rightarrow>
       (Spawned \<lparr>argv = [''python3'', ''-u'', sp_runner sp, ''--module'', sp_path sp, ''--id'', sp_id sp, ''--type'', sp_typ sp, ''--start''],
          env = filter (\<lambda>(k, v). k = ''ADK_RUN_ID'') (env c) @ (if sp_production sp then [(''ADK_REJECT_DUMMY'', ''1'')] else []) @
            filter (\<lambda>(k, v). k \<noteq> ''ADK_RUN_ID'') (env c),
          extraFiles = extraFiles c\<rparr>, a'))"
proof -
  have c: "py_child sp rid b = \<lparr>argv = [''python3'', ''-u'', sp_runner sp, ''--module'', sp_path sp, ''--id'', sp_id sp, ''--type'', sp_typ sp, ''--start''],
      env = filter (\<lambda>(k, v). k = ''ADK_RUN_ID'') (env (go_child sp rid b)) @ (if sp_production sp then [(''ADK_REJECT_DUMMY'', ''1'')] else []) @
        filter (\<lambda>(k, v). k \<noteq> ''ADK_RUN_ID'') (env (go_child sp rid b)),
      extraFiles = extraFiles (go_child sp rid b)\<rparr>" for rid b
    by (simp add: py_child_def go_child_def child_env_def Let_def)
  show ?thesis
    unfolding py_Start_def go_Start_def Let_def
    by (simp add: c split: sum.split prod.split)
qed

end
