(* ===== verification/RunnerSteps.thy ===== *)
theory RunnerSteps
  imports Runner
begin

text \<open>
  The threads of a runner, interleaved: the processes of its runs, the readers of their control
  channels, their exit watchers, and one stop at a time with the goroutine that waits for it. Each
  rule is one stretch of \<^verbatim>\<open>go_agent.go\<close> between two points where another thread can run. An
  \<^verbatim>\<open>orderly\<close> world is one in which a kill takes effect within the grace that is given it and an
  agent is started again only when the threads of its last run have ended.
\<close>

section \<open>Model\<close>

datatype thread = NoThread | AtOnce | InOnce nat nat | Joined | Drained | Ended

text \<open>\<open>AtOnce\<close> is about to call \<^verbatim>\<open>waitOnce.Do\<close>; \<open>InOnce g r\<close> waits for the process of run
  \<open>r\<close> inside the \<^verbatim>\<open>Do\<close> of the \<^verbatim>\<open>Once\<close> that run \<open>g\<close> reset. A watcher is then
  \<open>Joined\<close>, \<open>Drained\<close> and \<open>Ended\<close>.\<close>

record proc =
  p_rid :: string
  p_alive :: bool
  p_reaped :: bool
  p_pending :: "frame list"
  p_read :: "frame list"
  p_bad :: nat
  p_eof :: bool
  p_expired :: bool
  p_watch :: thread

definition no_proc :: proc where
  "no_proc = \<lparr>p_rid = [], p_alive = False, p_reaped = True, p_pending = [], p_read = [], p_bad = 0, p_eof = True,
     p_expired = False, p_watch = NoThread\<rparr>"

definition new_proc :: "string \<Rightarrow> proc" where
  "new_proc rid = \<lparr>p_rid = rid, p_alive = True, p_reaped = False, p_pending = [], p_read = [], p_bad = 0, p_eof = False,
     p_expired = False, p_watch = AtOnce\<rparr>"

record stop_call =
  s_run :: nat
  s_rid :: string
  s_waiter :: nat
  s_late :: bool

record rworld =
  r_ag :: runner
  procs :: "nat \<Rightarrow> proc"
  r_stop :: "stop_call option"
  waiters :: "thread list"
  crashed :: bool

definition initial_rworld :: rworld where
  "initial_rworld = \<lparr>r_ag = new_runner, procs = (\<lambda>_. no_proc), r_stop = None, waiters = [], crashed = False\<rparr>"

definition upd_proc :: "nat \<Rightarrow> (proc \<Rightarrow> proc) \<Rightarrow> rworld \<Rightarrow> rworld" where
  "upd_proc r f w = w \<lparr>procs := (procs w) (r := f (procs w r))\<rparr>"

definition set_once :: "once \<Rightarrow> rworld \<Rightarrow> rworld" where
  "set_once s w = w \<lparr>r_ag := (r_ag w) \<lparr>waitOnce := (fst (waitOnce (r_ag w)), s)\<rparr>\<rparr>"

definition idle_proc :: "proc \<Rightarrow> bool" where
  "idle_proc p \<longleftrightarrow> \<not> p_alive p \<and> p_eof p \<and> p_watch p \<in> {NoThread, Ended}"

definition quiet_threads :: "rworld \<Rightarrow> bool" where
  "quiet_threads w \<longleftrightarrow> (\<forall>r < runs (r_ag w). idle_proc (procs w r)) \<and> r_stop w = None \<and> set (waiters w) \<subseteq> {Ended}"

text \<open>Reading one frame: the marks change as its effects say, and the reader ends at the first refused
  frame beyond its budget.\<close>

definition read_frame :: "nat \<Rightarrow> int \<Rightarrow> frame \<Rightarrow> frame list \<Rightarrow> rworld \<Rightarrow> rworld" where
  "read_frame r now f rest w =
     (let effs = NoteFrameSeen # (case judge f of Inr effs \<Rightarrow> effs | Inl _ \<Rightarrow> []);
          bad = p_bad (procs w r) + (if is_ok (judge f) then 0 else 1)
      in upd_proc r (\<lambda>p. p \<lparr>p_pending := rest, p_read := p_read p @ [f], p_bad := bad, p_eof := bad > maxBadControlFrames\<rparr>)
           (w \<lparr>r_ag := (r_ag w) \<lparr>marks := apply_effects (map (\<lambda>e. (now, e)) effs) (marks (r_ag w))\<rparr>\<rparr>))"

text \<open>The wait of a thread inside \<^verbatim>\<open>Do\<close> ends when the process is dead, or at once with an error when
  somebody has waited for it before. Leaving the \<^verbatim>\<open>Do\<close> of a \<^verbatim>\<open>Once\<close> that was overwritten
  unlocks a mutex that is not locked, which ends the daemon.\<close>

definition wait_returns :: "nat \<Rightarrow> rworld \<Rightarrow> bool" where
  "wait_returns r w \<longleftrightarrow> \<not> p_alive (procs w r) \<or> p_reaped (procs w r)"

definition leave_once :: "nat \<Rightarrow> nat \<Rightarrow> rworld \<Rightarrow> rworld" where
  "leave_once g r w =
     (if fst (waitOnce (r_ag w)) \<noteq> g then w \<lparr>crashed := True\<rparr>
      else set_once Done (upd_proc r (\<lambda>p. p \<lparr>p_reaped := True\<rparr>) w))"

definition set_watch :: "nat \<Rightarrow> thread \<Rightarrow> rworld \<Rightarrow> rworld" where
  "set_watch r t = upd_proc r (\<lambda>p. p \<lparr>p_watch := t\<rparr>)"

definition set_waiter :: "nat \<Rightarrow> thread \<Rightarrow> rworld \<Rightarrow> rworld" where
  "set_waiter i t w = w \<lparr>waiters := (waiters w) [i := t]\<rparr>"

inductive rstep :: "bool \<Rightarrow> spec \<Rightarrow> rworld \<Rightarrow> rworld \<Rightarrow> bool" for orderly :: bool and sp :: spec where
  set_run: "rstep orderly sp w (w \<lparr>r_ag := SetRunID i (r_ag w)\<rparr>)"
| start: "go_Start sp an (r_ag w) = (Spawned c, a') \<Longrightarrow> sp_typ sp \<noteq> ''oneshot'' \<Longrightarrow> (orderly \<longrightarrow> quiet_threads w) \<Longrightarrow>
    rstep orderly sp w (w \<lparr>r_ag := a', procs := (procs w) (runs (r_ag w) := new_proc (nextRunID a'))\<rparr>)"
| start_none: "go_Start sp an (r_ag w) = (NotSpawned e, a') \<Longrightarrow> (orderly \<longrightarrow> quiet_threads w \<or> running (r_ag w)) \<Longrightarrow>
    rstep orderly sp w (w \<lparr>r_ag := a'\<rparr>)"
| agent_exits: "p_alive (procs w r) \<Longrightarrow> rstep orderly sp w (upd_proc r (\<lambda>p. p \<lparr>p_alive := False\<rparr>) w)"
| agent_writes: "p_alive (procs w r) \<Longrightarrow> rstep orderly sp w (upd_proc r (\<lambda>p. p \<lparr>p_pending := p_pending p @ [f]\<rparr>) w)"
| reader_reads: "p_pending (procs w r) = f # rest \<Longrightarrow> \<not> p_eof (procs w r) \<Longrightarrow> rstep orderly sp w (read_frame r now f rest w)"
| reader_ends: "\<not> p_alive (procs w r) \<Longrightarrow> p_pending (procs w r) = [] \<Longrightarrow> \<not> p_eof (procs w r) \<Longrightarrow>
    rstep orderly sp w (upd_proc r (\<lambda>p. p \<lparr>p_eof := True\<rparr>) w)"
| watch_enter: "p_watch (procs w r) = AtOnce \<Longrightarrow> waitOnce (r_ag w) = (g, Fresh) \<Longrightarrow>
    rstep orderly sp w (set_once Busy (set_watch r (InOnce g r) w))"
| watch_skip: "p_watch (procs w r) = AtOnce \<Longrightarrow> waitOnce (r_ag w) = (g, Done) \<Longrightarrow> rstep orderly sp w (set_watch r Joined w)"
| watch_wait: "p_watch (procs w r) = InOnce g r' \<Longrightarrow> wait_returns r' w \<Longrightarrow>
    rstep orderly sp w (leave_once g r' (set_watch r Joined w))"
| watch_drain: "p_watch (procs w r) = Joined \<Longrightarrow> p_eof (procs w r) \<Longrightarrow> rstep orderly sp w (set_watch r Drained w)"
| watch_expire: "p_watch (procs w r) = Joined \<Longrightarrow> \<not> p_eof (procs w r) \<Longrightarrow>
    rstep orderly sp w (set_watch r Drained (upd_proc r (\<lambda>p. p \<lparr>p_expired := True\<rparr>) w))"
| watch_classify: "p_watch (procs w r) = Drained \<Longrightarrow>
    rstep orderly sp w (set_watch r Ended (w \<lparr>r_ag := exit_watcher sp r (p_rid (procs w r)) (r_ag w)\<rparr>))"
| stop_none: "go_Stop_begin (r_ag w) = (NothingToStop, a') \<Longrightarrow> rstep orderly sp w (w \<lparr>r_ag := a'\<rparr>)"
| stop_begin: "r_stop w = None \<Longrightarrow> go_Stop_begin (r_ag w) = (StopChild r rid, a') \<Longrightarrow>
    rstep orderly sp w (w \<lparr>r_ag := a', r_stop := Some \<lparr>s_run = r, s_rid = rid, s_waiter = length (waiters w), s_late = False\<rparr>,
      waiters := waiters w @ [AtOnce]\<rparr>)"
| waiter_enter: "i < length (waiters w) \<Longrightarrow> waiters w ! i = AtOnce \<Longrightarrow> waitOnce (r_ag w) = (g, Fresh) \<Longrightarrow>
    a_cmd (r_ag w) = Some (r, True) \<Longrightarrow> rstep orderly sp w (set_once Busy (set_waiter i (InOnce g r) w))"
| waiter_nil: "i < length (waiters w) \<Longrightarrow> waiters w ! i = AtOnce \<Longrightarrow> waitOnce (r_ag w) = (g, Fresh) \<Longrightarrow>
    a_cmd (r_ag w) = None \<Longrightarrow> rstep orderly sp w (w \<lparr>crashed := True\<rparr>)"
| waiter_unstarted: "i < length (waiters w) \<Longrightarrow> waiters w ! i = AtOnce \<Longrightarrow> waitOnce (r_ag w) = (g, Fresh) \<Longrightarrow>
    a_cmd (r_ag w) = Some (r, False) \<Longrightarrow> rstep orderly sp w (set_once Done (set_waiter i Ended w))"
| waiter_skip: "i < length (waiters w) \<Longrightarrow> waiters w ! i = AtOnce \<Longrightarrow> waitOnce (r_ag w) = (g, Done) \<Longrightarrow>
    rstep orderly sp w (set_waiter i Ended w)"
| waiter_wait: "i < length (waiters w) \<Longrightarrow> waiters w ! i = InOnce g r \<Longrightarrow> wait_returns r w \<Longrightarrow>
    rstep orderly sp w (leave_once g r (set_waiter i Ended w))"
| stop_late: "r_stop w = Some s \<Longrightarrow> \<not> s_late s \<Longrightarrow>
    rstep orderly sp w (if \<not> running (r_ag w) then w \<lparr>crashed := True\<rparr> else w \<lparr>r_stop := Some (s \<lparr>s_late := True\<rparr>)\<rparr>)"
| stop_end: "r_stop w = Some s \<Longrightarrow> \<not> s_late s \<Longrightarrow> waiters w ! s_waiter s = Ended \<Longrightarrow>
    go_Stop_end sp (s_rid s) (Some ex) bind file (r_ag w) = (e, a') \<Longrightarrow> rstep orderly sp w (w \<lparr>r_ag := a', r_stop := None\<rparr>)"
| stop_end_late: "r_stop w = Some s \<Longrightarrow> s_late s \<Longrightarrow> (orderly \<longrightarrow> waiters w ! s_waiter s = Ended) \<Longrightarrow>
    go_Stop_end sp (s_rid s) None bind file (r_ag w) = (e, a') \<Longrightarrow> rstep orderly sp w (w \<lparr>r_ag := a', r_stop := None\<rparr>)"
| agent_reset: "(orderly \<longrightarrow> \<not> running (r_ag w)) \<Longrightarrow> rstep orderly sp w (w \<lparr>r_ag := Reset sp (r_ag w)\<rparr>)"

inductive rreachable :: "bool \<Rightarrow> spec \<Rightarrow> rworld \<Rightarrow> bool" for orderly :: bool and sp :: spec where
  rinit: "rreachable orderly sp initial_rworld"
| rnext: "rreachable orderly sp w \<Longrightarrow> rstep orderly sp w w' \<Longrightarrow> \<not> crashed w \<Longrightarrow> rreachable orderly sp w'"

section \<open>The invariant of orderly worlds\<close>

text \<open>The slot, the \<^verbatim>\<open>Once\<close>, the last run's process and the stop in progress, for the last of
  \<open>n\<close> runs.\<close>

definition waiter_ok :: "nat \<Rightarrow> once \<Rightarrow> thread \<Rightarrow> stop_call \<Rightarrow> thread list \<Rightarrow> bool" where
  "waiter_ok r oc w s ws \<longleftrightarrow> (\<exists>us t. ws = us @ [t] \<and> set us \<subseteq> {Ended} \<and> s_waiter s = length us \<and>
     t \<in> {AtOnce, InOnce r r, Ended} \<and> (t = InOnce r r \<longrightarrow> oc = Busy \<and> w \<noteq> InOnce r r) \<and> (t = Ended \<longrightarrow> oc = Done))"

definition core_ok :: "nat \<Rightarrow> (nat \<times> bool) option \<Rightarrow> nat \<times> once \<Rightarrow> bool \<Rightarrow> proc \<Rightarrow> stop_call option \<Rightarrow> thread list \<Rightarrow> bool" where
  "core_ok n cmd oc stp p stop ws \<longleftrightarrow>
     fst oc = n - 1 \<and>
     (cmd = None \<or> 0 < n \<and> (\<exists>b. cmd = Some (n - 1, b))) \<and>
     (p_alive p \<longrightarrow> cmd = Some (n - 1, True) \<and> snd oc \<noteq> Done \<and> \<not> p_reaped p) \<and>
     (\<forall>g r. p_watch p = InOnce g r \<longrightarrow> g = n - 1 \<and> r = n - 1 \<and> snd oc = Busy) \<and>
     (p_watch p \<in> {Joined, Drained, Ended} \<longrightarrow> snd oc = Done) \<and>
     (cmd = Some (n - 1, True) \<longrightarrow> p_watch p \<noteq> NoThread \<and> (p_watch p = Ended \<longrightarrow> stp) \<and> (stp \<longrightarrow> stop \<noteq> None)) \<and>
     (stop = None \<longrightarrow> set ws \<subseteq> {Ended}) \<and>
     (\<forall>s. stop = Some s \<longrightarrow> stp \<and> cmd = Some (n - 1, True) \<and> s_run s = n - 1 \<and> waiter_ok (n - 1) (snd oc) (p_watch p) s ws) \<and>
     (snd oc = Busy \<longrightarrow> p_watch p = InOnce (n - 1) (n - 1) \<or> (stop \<noteq> None \<and> ws \<noteq> [] \<and> last ws = InOnce (n - 1) (n - 1)))"

definition rinv :: "rworld \<Rightarrow> bool" where
  "rinv w \<longleftrightarrow> \<not> crashed w \<and> adoptedPid (r_ag w) = 0 \<and>
     (\<forall>r. runs (r_ag w) \<le> r \<longrightarrow> procs w r = no_proc) \<and>
     (\<forall>r. Suc r < runs (r_ag w) \<longrightarrow> idle_proc (procs w r)) \<and>
     core_ok (runs (r_ag w)) (a_cmd (r_ag w)) (waitOnce (r_ag w)) (stopping (r_ag w))
       (procs w (runs (r_ag w) - 1)) (r_stop w) (waiters w)"

lemma rinv_initial: "rinv initial_rworld"
  by (simp add: rinv_def initial_rworld_def new_runner_def core_ok_def no_proc_def)

lemma rinv_last:
  assumes "rinv w" "\<not> idle_proc (procs w r)"
  shows "r = runs (r_ag w) - 1" "0 < runs (r_ag w)"
proof -
  have "\<not> runs (r_ag w) \<le> r" using assms by (auto simp: rinv_def idle_proc_def no_proc_def)
  moreover have "\<not> Suc r < runs (r_ag w)" using assms by (auto simp: rinv_def)
  ultimately show "r = runs (r_ag w) - 1" "0 < runs (r_ag w)" by auto
qed

text \<open>A step on the last run's process that keeps the slot.\<close>

lemma rinv_proc:
  assumes "rinv w" "\<not> idle_proc (procs w r)"
    and "core_ok (runs (r_ag w)) (a_cmd a) (waitOnce a) (stopping a) (f (procs w r)) stop ws"
    and "runs a = runs (r_ag w)" "adoptedPid a = 0"
  shows "rinv (upd_proc r f (w \<lparr>r_ag := a, r_stop := stop, waiters := ws\<rparr>))"
  using assms(1, 3-5) rinv_last [OF assms(1, 2)] by (auto simp: rinv_def upd_proc_def)

lemma rinv_slot:
  assumes "rinv w" "core_ok (runs (r_ag w)) (a_cmd a) (waitOnce a) (stopping a) (procs w (runs (r_ag w) - 1)) stop ws"
    and "runs a = runs (r_ag w)" "adoptedPid a = 0"
  shows "rinv (w \<lparr>r_ag := a, r_stop := stop, waiters := ws\<rparr>)"
  using assms by (auto simp: rinv_def)

lemma rinv_core: "rinv w \<Longrightarrow> core_ok (runs (r_ag w)) (a_cmd (r_ag w)) (waitOnce (r_ag w)) (stopping (r_ag w))
    (procs w (runs (r_ag w) - 1)) (r_stop w) (waiters w) \<and> adoptedPid (r_ag w) = 0"
  by (simp add: rinv_def)

lemma waiter_last:
  assumes "core_ok n cmd oc stp p stop ws" "i < length ws" "ws ! i \<noteq> Ended"
  obtains s us where "stop = Some s" "ws = us @ [ws ! i]" "i = length us" "set us \<subseteq> {Ended}" "s_waiter s = length us"
proof (cases stop)
  case None
  then have "set ws \<subseteq> {Ended}" using assms(1) by (simp add: core_ok_def)
  with nth_mem [OF assms(2)] assms(3) show ?thesis by blast
next
  case (Some s)
  then have "waiter_ok (n - 1) (snd oc) (p_watch p) s ws" using assms(1) by (simp add: core_ok_def)
  then obtain us t where u: "ws = us @ [t]" "set us \<subseteq> {Ended}" "s_waiter s = length us"
    unfolding waiter_ok_def by blast
  have "i = length us"
  proof (rule ccontr)
    assume "i \<noteq> length us"
    with assms(2) u have "i < length us" by simp
    with nth_mem [OF this] u(2) have "us ! i = Ended" by blast
      with \<open>i < length us\<close> u(1) have "ws ! i = Ended" by (simp add: nth_append)
    with assms(3) show False by simp
  qed
  with u Some that show ?thesis by simp
qed

lemma core_ok_cong:
  "p_alive p = p_alive p' \<Longrightarrow> p_reaped p = p_reaped p' \<Longrightarrow> p_watch p = p_watch p' \<Longrightarrow>
    core_ok n cmd oc stp p stop ws = core_ok n cmd oc stp p' stop ws"
  by (simp add: core_ok_def)

lemma core_okD:
  assumes "core_ok n cmd oc stp p stop ws"
  shows "fst oc = n - 1"
    and "p_watch p = InOnce g r \<Longrightarrow> g = n - 1 \<and> r = n - 1 \<and> snd oc = Busy"
    and "p_alive p \<Longrightarrow> cmd = Some (n - 1, True) \<and> snd oc \<noteq> Done \<and> \<not> p_reaped p"
    and "stop = Some s \<Longrightarrow> stp \<and> cmd = Some (n - 1, True) \<and> s_run s = n - 1 \<and> waiter_ok (n - 1) (snd oc) (p_watch p) s ws"
    and "stop = None \<Longrightarrow> set ws \<subseteq> {Ended}"
    and "cmd = Some (m, b) \<Longrightarrow> m = n - 1 \<and> 0 < n"
    and "cmd = Some (n - 1, True) \<Longrightarrow> p_watch p \<noteq> NoThread \<and> (p_watch p = Ended \<longrightarrow> stp) \<and> (stp \<longrightarrow> stop \<noteq> None)"
    and "p_watch p \<in> {Joined, Drained, Ended} \<Longrightarrow> snd oc = Done"
    and "snd oc = Busy \<Longrightarrow> p_watch p = InOnce (n - 1) (n - 1) \<or> (stop \<noteq> None \<and> ws \<noteq> [] \<and> last ws = InOnce (n - 1) (n - 1))"
  using assms unfolding core_ok_def by simp_all

lemma core_okI:
  assumes "fst oc = n - 1" "cmd = None \<or> 0 < n \<and> (\<exists>b. cmd = Some (n - 1, b))"
    and "p_alive p \<Longrightarrow> cmd = Some (n - 1, True) \<and> snd oc \<noteq> Done \<and> \<not> p_reaped p"
    and "\<And>g r. p_watch p = InOnce g r \<Longrightarrow> g = n - 1 \<and> r = n - 1 \<and> snd oc = Busy"
    and "p_watch p \<in> {Joined, Drained, Ended} \<Longrightarrow> snd oc = Done"
    and "cmd = Some (n - 1, True) \<Longrightarrow> p_watch p \<noteq> NoThread \<and> (p_watch p = Ended \<longrightarrow> stp) \<and> (stp \<longrightarrow> stop \<noteq> None)"
    and "stop = None \<Longrightarrow> set ws \<subseteq> {Ended}"
    and "\<And>s. stop = Some s \<Longrightarrow> stp \<and> cmd = Some (n - 1, True) \<and> s_run s = n - 1 \<and> waiter_ok (n - 1) (snd oc) (p_watch p) s ws"
    and "snd oc = Busy \<Longrightarrow> p_watch p = InOnce (n - 1) (n - 1) \<or> (stop \<noteq> None \<and> ws \<noteq> [] \<and> last ws = InOnce (n - 1) (n - 1))"
  shows "core_ok n cmd oc stp p stop ws"
proof -
  have "p_alive p \<longrightarrow> cmd = Some (n - 1, True) \<and> snd oc \<noteq> Done \<and> \<not> p_reaped p" using assms(3) by blast
  moreover have "\<forall>g r. p_watch p = InOnce g r \<longrightarrow> g = n - 1 \<and> r = n - 1 \<and> snd oc = Busy" using assms(4) by blast
  moreover have "p_watch p \<in> {Joined, Drained, Ended} \<longrightarrow> snd oc = Done" using assms(5) by blast
  moreover have "cmd = Some (n - 1, True) \<longrightarrow> p_watch p \<noteq> NoThread \<and> (p_watch p = Ended \<longrightarrow> stp) \<and> (stp \<longrightarrow> stop \<noteq> None)"
    using assms(6) by blast
  moreover have "stop = None \<longrightarrow> set ws \<subseteq> {Ended}" using assms(7) by blast
  moreover have "\<forall>s. stop = Some s \<longrightarrow> stp \<and> cmd = Some (n - 1, True) \<and> s_run s = n - 1 \<and> waiter_ok (n - 1) (snd oc) (p_watch p) s ws"
    using assms(8) by blast
  moreover have "snd oc = Busy \<longrightarrow> p_watch p = InOnce (n - 1) (n - 1) \<or> (stop \<noteq> None \<and> ws \<noteq> [] \<and> last ws = InOnce (n - 1) (n - 1))"
    using assms(9) by blast
  ultimately show ?thesis unfolding core_ok_def using assms(1, 2) by (intro conjI)
qed

lemma core_ok_exit: "core_ok n cmd oc stp p stop ws \<Longrightarrow> core_ok n cmd oc stp (p \<lparr>p_alive := False\<rparr>) stop ws"
  unfolding core_ok_def by auto

lemma core_ok_watch:
  assumes "core_ok n cmd oc stp p stop ws"
  shows "p_watch p = AtOnce \<Longrightarrow> oc = (g, Fresh) \<Longrightarrow> core_ok n cmd (g, Busy) stp (p \<lparr>p_watch := InOnce g (n - 1)\<rparr>) stop ws"
    and "p_watch p = AtOnce \<Longrightarrow> oc = (g, Done) \<Longrightarrow> core_ok n cmd oc stp (p \<lparr>p_watch := Joined\<rparr>) stop ws"
    and "p_watch p = Joined \<Longrightarrow> core_ok n cmd oc stp (p \<lparr>p_watch := Drained\<rparr>) stop ws"
    and "p_watch p = InOnce g r \<Longrightarrow> \<not> p_alive p \<Longrightarrow>
      core_ok n cmd (fst oc, Done) stp (p \<lparr>p_watch := Joined, p_reaped := True\<rparr>) stop ws"
    and "p_watch p = Drained \<Longrightarrow> stp \<or> cmd = None \<Longrightarrow> core_ok n cmd oc stp (p \<lparr>p_watch := Ended\<rparr>) stop ws"
    and "p_watch p = Drained \<Longrightarrow> stop = None \<Longrightarrow> core_ok n None oc stp (p \<lparr>p_watch := Ended\<rparr>) stop ws"
proof -
  note C = assms [unfolded core_ok_def]
  show "core_ok n cmd (g, Busy) stp (p \<lparr>p_watch := InOnce g (n - 1)\<rparr>) stop ws" if "p_watch p = AtOnce" "oc = (g, Fresh)"
    using C that by (auto simp: core_ok_def waiter_ok_def split: option.splits)
  show "core_ok n cmd oc stp (p \<lparr>p_watch := Joined\<rparr>) stop ws" if "p_watch p = AtOnce" "oc = (g, Done)"
    using C that by (auto simp: core_ok_def waiter_ok_def split: option.splits)
  show "core_ok n cmd oc stp (p \<lparr>p_watch := Drained\<rparr>) stop ws" if "p_watch p = Joined"
    using C that by (auto simp: core_ok_def waiter_ok_def split: option.splits)
  show "core_ok n cmd (fst oc, Done) stp (p \<lparr>p_watch := Joined, p_reaped := True\<rparr>) stop ws"
    if "p_watch p = InOnce g r" "\<not> p_alive p"
    using C that by (auto simp: core_ok_def waiter_ok_def split: option.splits)
  show "core_ok n cmd oc stp (p \<lparr>p_watch := Ended\<rparr>) stop ws" if "p_watch p = Drained" "stp \<or> cmd = None"
    using C that by (auto simp: core_ok_def waiter_ok_def split: option.splits)
  show "core_ok n None oc stp (p \<lparr>p_watch := Ended\<rparr>) stop ws" if "p_watch p = Drained" "stop = None"
    using C that by (auto simp: core_ok_def waiter_ok_def split: option.splits)
qed

lemma core_ok_waiter:
  assumes "core_ok n cmd oc stp p (Some s) (us @ [t])" "set us \<subseteq> {Ended}" "s_waiter s = length us"
  shows "t = AtOnce \<Longrightarrow> oc = (g, Fresh) \<Longrightarrow> core_ok n cmd (g, Busy) stp p (Some s) (us @ [InOnce g (n - 1)])"
    and "t = AtOnce \<Longrightarrow> oc = (g, Done) \<Longrightarrow> core_ok n cmd oc stp p (Some s) (us @ [Ended])"
    and "t = InOnce g r \<Longrightarrow> \<not> p_alive p \<Longrightarrow> core_ok n cmd (fst oc, Done) stp (p \<lparr>p_reaped := True\<rparr>) (Some s) (us @ [Ended])"
  using assms by (auto simp: core_ok_def waiter_ok_def)

lemma waiter_ok_late [simp]: "waiter_ok r oc w (s \<lparr>s_late := b\<rparr>) ws = waiter_ok r oc w s ws"
  by (simp add: waiter_ok_def)

lemma core_ok_late: "core_ok n cmd oc stp p (Some s) ws \<Longrightarrow> core_ok n cmd oc stp p (Some (s \<lparr>s_late := True\<rparr>)) ws"
  by (simp add: core_ok_def) blast

lemma core_ok_stopped:
  assumes "core_ok n cmd oc stp p (Some s) ws" "ws ! s_waiter s = Ended"
  shows "core_ok n None oc stp p None ws"
proof -
  note D = core_okD [OF assms(1)]
  have w: "waiter_ok (n - 1) (snd oc) (p_watch p) s ws" using D(4) [OF refl] by simp
  then obtain us where u: "ws = us @ [Ended]" "set us \<subseteq> {Ended}" "snd oc = Done"
    using assms(2) by (auto simp: waiter_ok_def)
  with D(3) have "\<not> p_alive p" by auto
  with D(1, 2, 8) u show ?thesis unfolding core_ok_def by auto
qed

lemma core_ok_stop_begin:
  assumes "core_ok n (Some (r, True)) oc stp p None ws"
  shows "core_ok n (Some (r, True)) oc True p (Some \<lparr>s_run = r, s_rid = rid, s_waiter = length ws, s_late = False\<rparr>) (ws @ [AtOnce])"
proof -
  note D = core_okD [OF assms]
  have r: "r = n - 1" "0 < n" using D(6) [OF refl] by simp_all
  let ?s = "\<lparr>s_run = r, s_rid = rid, s_waiter = length ws, s_late = False\<rparr>"
  have w: "waiter_ok (n - 1) (snd oc) (p_watch p) ?s (ws @ [AtOnce])"
    using D(5) [OF refl] by (simp add: waiter_ok_def)
  show ?thesis
  proof (rule core_okI)
    show "fst oc = n - 1" by (rule D(1))
    show "Some (r, True) = None \<or> 0 < n \<and> (\<exists>b. Some (r, True) = Some (n - 1, b))" using r by blast
    show "Some (r, True) = Some (n - 1, True) \<and> snd oc \<noteq> Done \<and> \<not> p_reaped p" if "p_alive p" using D(3) [OF that] .
    show "g = n - 1 \<and> m = n - 1 \<and> snd oc = Busy" if "p_watch p = InOnce g m" for g m using D(2) [OF that] .
    show "snd oc = Done" if "p_watch p \<in> {Joined, Drained, Ended}" using D(8) [OF that] .
    show "p_watch p \<noteq> NoThread \<and> (p_watch p = Ended \<longrightarrow> True) \<and> (True \<longrightarrow> Some ?s \<noteq> None)" using D(7) r by simp
    show "True \<and> Some (r, True) = Some (n - 1, True) \<and> s_run s = n - 1 \<and> waiter_ok (n - 1) (snd oc) (p_watch p) s (ws @ [AtOnce])"
      if "Some ?s = Some s" for s using that r w by auto
    show "p_watch p = InOnce (n - 1) (n - 1) \<or> (Some ?s \<noteq> None \<and> ws @ [AtOnce] \<noteq> [] \<and> last (ws @ [AtOnce]) = InOnce (n - 1) (n - 1))"
      if "snd oc = Busy" using D(9) [OF that] by simp
  qed simp
qed

lemma upd_proc_simps:
  "upd_proc r f (upd_proc r h w) = upd_proc r (\<lambda>p. f (h p)) w"
  "set_once s (upd_proc r f w) = upd_proc r f (w \<lparr>r_ag := (r_ag w) \<lparr>waitOnce := (fst (waitOnce (r_ag w)), s)\<rparr>\<rparr>)"
  "r_ag (upd_proc r f w) = r_ag w" "procs (upd_proc r f w) r = f (procs w r)"
  by (simp_all add: upd_proc_def set_once_def)

subsection \<open>The operations\<close>

lemma cleanup_simps [simp]:
  "a_cmd (cleanupAfterExit sp a) = None" "waitOnce (cleanupAfterExit sp a) = waitOnce a"
  "stopping (cleanupAfterExit sp a) = stopping a" "marks (cleanupAfterExit sp a) = marks a"
  "runs (cleanupAfterExit sp a) = runs a" "adoptedPid (cleanupAfterExit sp a) = adoptedPid a"
  "published (cleanupAfterExit sp a) = published a"
  by (simp_all add: cleanupAfterExit_def Let_def)

lemma publish_simps [simp]:
  "a_cmd (publishStatusWithRunID s m rid a) = a_cmd a" "waitOnce (publishStatusWithRunID s m rid a) = waitOnce a"
  "stopping (publishStatusWithRunID s m rid a) = stopping a" "marks (publishStatusWithRunID s m rid a) = marks a"
  "runs (publishStatusWithRunID s m rid a) = runs a" "adoptedPid (publishStatusWithRunID s m rid a) = adoptedPid a"
  "published (publishStatusWithRunID s m rid a) = published a @ [(ToUpper s, m, rid)]"
  "nextRunID (publishStatusWithRunID s m rid a) = nextRunID a"
  by (simp_all add: publishStatusWithRunID_def)

definition keeps_slot :: "runner \<Rightarrow> runner \<Rightarrow> bool" where
  "keeps_slot a a' \<longleftrightarrow> a_cmd a' = a_cmd a \<and> waitOnce a' = waitOnce a \<and> stopping a' = stopping a \<and> runs a' = runs a \<and>
     adoptedPid a' = adoptedPid a \<and> published a' = published a \<and> nextRunID a' = nextRunID a \<and> marks a' = marks a"

lemma keeps_slot_ensure: "ensureListener sp b f a = (r, a') \<Longrightarrow> keeps_slot a a'"
  by (auto simp: ensureListener_def keeps_slot_def Let_def split: if_splits)

lemma keeps_slot_arm: "arm sp b f a = (r, a') \<Longrightarrow> keeps_slot a a'"
  by (auto simp: arm_def keeps_slot_def ensureListener_def Let_def split: if_splits prod.splits sum.splits)

lemma keeps_slot_rearm: "keeps_slot a (rearm sp b f a)"
  using keeps_slot_arm [of sp b f a] by (cases "arm sp b f a") (auto simp: rearm_def keeps_slot_def)

lemma attach_simps [simp]:
  "a_cmd (attachCgroup l b a) = a_cmd a" "waitOnce (attachCgroup l b a) = waitOnce a"
  "stopping (attachCgroup l b a) = stopping a" "marks (attachCgroup l b a) = marks a"
  "runs (attachCgroup l b a) = runs a" "adoptedPid (attachCgroup l b a) = adoptedPid a"
  "published (attachCgroup l b a) = published a" "nextRunID (attachCgroup l b a) = nextRunID a"
  by (simp_all add: attachCgroup_def)

text \<open>What a start does to the slot.\<close>

lemma go_Start_cases:
  assumes "go_Start sp an a = (res, a')"
  obtains (kept) e where "res = NotSpawned e" "keeps_slot a a'" "running a \<longrightarrow> e = None"
    | (failed) e where "res = NotSpawned (Some e)" "\<not> running a" "a_cmd a' = Some (runs a, False)" "runs a' = runs a + 1"
        "waitOnce a' = (runs a, Fresh)" "stopping a' = False" "adoptedPid a' = adoptedPid a" "published a' = published a"
    | (spawned) c where "res = Spawned c" "\<not> running a" "a_cmd a' = Some (runs a, True)" "runs a' = runs a + 1"
        "waitOnce a' = (runs a, Fresh)" "stopping a' = False" "adoptedPid a' = adoptedPid a"
        "published a' = published a @ [(''STARTING'', ''process spawned'', nextRunID a)]" "nextRunID a' = nextRunID a"
        "announcedState (marks a') = []" "announcedRunID (marks a') = []"
proof -
  let ?a = "a \<lparr>watching := False\<rparr>"
  have k: "keeps_slot a ?a" by (simp add: keeps_slot_def)
  have r: "running ?a = running a" by (simp add: running_iff)
  show ?thesis
  proof (cases "running a")
    case True
    with assms r have "res = NotSpawned None" "a' = ?a" by (simp_all add: go_Start_def Let_def)
    with k show ?thesis by (intro kept [of None]) simp_all
  next
    case nr: False
    show ?thesis
    proof (cases "ParseResourceSpec (sp_cpu sp) (sp_mem sp)")
      case (Inl e)
      with assms r nr have "res = NotSpawned (Some (BadLimits e))" "a' = ?a" by (simp_all add: go_Start_def Let_def)
      with k nr show ?thesis by (intro kept) simp_all
    next
      case lim: (Inr limits)
      obtain socket a1 where l: "ensureListener sp (st_bind an) (st_file an) ?a = (socket, a1)" by fastforce
      have k1: "keeps_slot a a1" using keeps_slot_ensure [OF l] by (simp add: keeps_slot_def)
      show ?thesis
      proof (cases socket)
        case (Inl e)
        with assms r nr lim l have "res = NotSpawned (Some (Listen e))" "a' = a1" by (simp_all add: go_Start_def Let_def)
        with k1 nr show ?thesis by (intro kept) simp_all
      next
        case (Inr b)
        note defs = go_Start_def Let_def r nr lim l Inr
        show ?thesis
        proof (cases "st_pipe an")
          case False
          with assms have "res = NotSpawned (Some PipeFailed)" "a' = a1" by (simp_all add: defs)
          with k1 nr show ?thesis by (intro kept) simp_all
        next
          case pipe: True
          show ?thesis
          proof (cases "st_stdout an \<and> st_stderr an \<and> st_exec an")
            case True
            have "ToUpper ''STARTING'' = ''STARTING''" by code_simp
            with True assms pipe k1 nr show ?thesis
              by (intro spawned) (auto simp: defs keeps_slot_def new_run_marks_def)
          next
            case False
            with assms pipe k1 nr have "\<exists>e. res = NotSpawned (Some e)" and
              f: "a_cmd a' = Some (runs a, False)" "runs a' = runs a + 1" "waitOnce a' = (runs a, Fresh)" "stopping a' = False"
                "adoptedPid a' = adoptedPid a" "published a' = published a"
              by (auto simp: defs keeps_slot_def split: if_splits)
            then obtain e where "res = NotSpawned (Some e)" by blast
            from failed [OF this nr f] show ?thesis .
          qed
        qed
      qed
    qed
  qed
qed

lemma rinv_waiters:
  assumes "rinv w" "core_ok (runs (r_ag w)) (a_cmd a) (waitOnce a) (stopping a) (procs w (runs (r_ag w) - 1)) (r_stop w) ws"
    and "runs a = runs (r_ag w)" "adoptedPid a = 0"
  shows "rinv (w \<lparr>waiters := ws, r_ag := a\<rparr>)"
  using assms by (auto simp: rinv_def)

text \<open>A start is counted as one more run.\<close>

lemma rinv_start:
  assumes i: "rinv w" and q: "quiet_threads w" and n: "\<not> running (r_ag w)"
    and a: "a_cmd a = Some (runs (r_ag w), b)" "runs a = runs (r_ag w) + 1" "waitOnce a = (runs (r_ag w), Fresh)"
      "stopping a = False" "adoptedPid a = adoptedPid (r_ag w)"
    and p: "b \<longrightarrow> p_watch p = AtOnce \<and> \<not> p_reaped p" "\<not> b \<longrightarrow> p = no_proc"
  shows "rinv (w \<lparr>r_ag := a, procs := (procs w) (runs (r_ag w) := p)\<rparr>)"
proof -
  have idle: "r < runs (r_ag w) \<Longrightarrow> idle_proc (procs w r)" for r using q by (simp add: quiet_threads_def)
  have "p_watch p = AtOnce \<or> (p_watch p = NoThread \<and> \<not> p_alive p)" using p by (cases b) (auto simp: no_proc_def)
  then have "core_ok (runs (r_ag w) + 1) (a_cmd a) (waitOnce a) (stopping a) p (r_stop w) (waiters w)"
    using q p by (auto simp: core_ok_def a quiet_threads_def no_proc_def)
  with i idle a show ?thesis by (auto simp: rinv_def)
qed

lemma exit_watcher_cases:
  "exit_watcher sp r rid a = a \<and> (stopping a \<or> map_option fst (a_cmd a) \<noteq> Some r) \<or>
   a_cmd (exit_watcher sp r rid a) = None \<and> \<not> stopping a \<and> map_option fst (a_cmd a) = Some r"
  by (auto simp: exit_watcher_def)

lemma exit_watcher_simps [simp]:
  "waitOnce (exit_watcher sp r rid a) = waitOnce a" "stopping (exit_watcher sp r rid a) = stopping a"
  "marks (exit_watcher sp r rid a) = marks a" "runs (exit_watcher sp r rid a) = runs a"
  "adoptedPid (exit_watcher sp r rid a) = adoptedPid a"
  by (simp_all add: exit_watcher_def)

lemma go_Stop_end_slot:
  assumes "go_Stop_end sp rid d b f a = (e, a')"
  shows "a_cmd a' = None" "waitOnce a' = waitOnce a" "stopping a' = stopping a" "runs a' = runs a"
    "adoptedPid a' = adoptedPid a" "\<exists>m. published a' = published a @ [(''STOPPED'', m, rid)]" "marks a' = marks a"
proof -
  obtain m where m: "a' = rearm sp b f (cleanupAfterExit sp (publishStatusWithRunID ''STOPPED'' m rid a))"
    using assms by (auto simp: go_Stop_end_def split: option.splits)
  have "ToUpper ''STOPPED'' = ''STOPPED''" by code_simp
  with m keeps_slot_rearm [of "cleanupAfterExit sp (publishStatusWithRunID ''STOPPED'' m rid a)" sp b f]
  show "a_cmd a' = None" "waitOnce a' = waitOnce a" "stopping a' = stopping a" "runs a' = runs a"
    "adoptedPid a' = adoptedPid a" "\<exists>m. published a' = published a @ [(''STOPPED'', m, rid)]" "marks a' = marks a"
    by (auto simp: keeps_slot_def)
qed

lemma set_once_eq: "set_once s (w \<lparr>r_ag := a\<rparr>) = w \<lparr>r_ag := a \<lparr>waitOnce := (fst (waitOnce a), s)\<rparr>\<rparr>"
  by (simp add: set_once_def)

lemma rinv_step: "rstep True sp w w' \<Longrightarrow> rinv w \<Longrightarrow> rinv w'"
proof (induction rule: rstep.induct)
  case (set_run w i)
  then show ?case by (simp add: rinv_def SetRunID_def)
next
  case (start an w c a')
  from start(1) show ?case
  proof (cases rule: go_Start_cases)
    case (spawned c)
    with start show ?thesis by (intro rinv_start [where b = True]) (simp_all add: new_proc_def)
  qed simp_all
next
  case (start_none an w e a')
  from start_none(1) show ?case
  proof (cases rule: go_Start_cases)
    case (kept e)
    with start_none show ?thesis by (simp add: rinv_def keeps_slot_def)
  next
    case (failed e)
    with start_none(2) have "quiet_threads w" by simp
    from rinv_start [OF start_none(3) this failed(2-7), of no_proc]
    have "rinv (w \<lparr>r_ag := a', procs := (procs w) (runs (r_ag w) := no_proc)\<rparr>)" by simp
    moreover have "(procs w) (runs (r_ag w) := no_proc) = procs w" using start_none(3) by (auto simp: rinv_def)
    ultimately show ?thesis by simp
  qed simp_all
next
  case (agent_exits w r)
  note C = rinv_core [OF agent_exits(2)]
  have r: "\<not> idle_proc (procs w r)" using agent_exits(1) by (simp add: idle_proc_def)
  show ?case
    using rinv_proc [OF agent_exits(2) r, of "r_ag w" "\<lambda>p. p \<lparr>p_alive := False\<rparr>" "r_stop w" "waiters w"]
      C rinv_last [OF agent_exits(2) r] core_ok_exit by simp
next
  case (agent_writes w r f)
  have r: "\<not> idle_proc (procs w r)" using agent_writes(1) by (simp add: idle_proc_def)
  show ?case
    using rinv_proc [OF agent_writes(2) r, of "r_ag w" "\<lambda>p. p \<lparr>p_pending := p_pending p @ [f]\<rparr>" "r_stop w" "waiters w"]
      rinv_core [OF agent_writes(2)] rinv_last [OF agent_writes(2) r] core_ok_cong [of "procs w r" "procs w r \<lparr>p_pending := p_pending (procs w r) @ [f]\<rparr>"] by simp
next
  case (reader_ends w r)
  have r: "\<not> idle_proc (procs w r)" using reader_ends(3) by (simp add: idle_proc_def)
  show ?case
    using rinv_proc [OF reader_ends(4) r, of "r_ag w" "\<lambda>p. p \<lparr>p_eof := True\<rparr>" "r_stop w" "waiters w"]
      rinv_core [OF reader_ends(4)] rinv_last [OF reader_ends(4) r] core_ok_cong [of "procs w r" "procs w r \<lparr>p_eof := True\<rparr>"] by simp
next
  case (stop_none w a')
  then show ?case by (auto simp: rinv_def go_Stop_begin_def split: option.splits prod.splits bool.splits if_splits)
next
  case (agent_reset w)
  then have "a_cmd (r_ag w) \<noteq> Some (runs (r_ag w) - 1, True)" by (auto simp: running_iff)
  with agent_reset rinv_core [OF agent_reset(2)] show ?case
    by (auto simp: rinv_def Reset_def dropAdopted_def core_ok_def)
next
  case (stop_late w s)
  then have "running (r_ag w)" by (simp add: rinv_def core_ok_def running_iff)
  moreover have "core_ok (runs (r_ag w)) (a_cmd (r_ag w)) (waitOnce (r_ag w)) (stopping (r_ag w))
      (procs w (runs (r_ag w) - 1)) (Some (s \<lparr>s_late := True\<rparr>)) (waiters w)"
    using rinv_core [OF stop_late(3)] stop_late(1) core_ok_late by simp
  ultimately show ?case
    using rinv_slot [OF stop_late(3), of "r_ag w" "Some (s \<lparr>s_late := True\<rparr>)" "waiters w"] rinv_core [OF stop_late(3)] by simp
next
  case (reader_reads w r f rest now)
  let ?p = "\<lambda>p bad. p \<lparr>p_pending := rest, p_read := p_read p @ [f], p_bad := bad, p_eof := bad > maxBadControlFrames\<rparr>"
  have r: "\<not> idle_proc (procs w r)" using reader_reads(2) by (simp add: idle_proc_def)
  have "rinv (upd_proc r (\<lambda>p. ?p p bad) (w \<lparr>r_ag := (r_ag w) \<lparr>marks := m\<rparr>, r_stop := r_stop w, waiters := waiters w\<rparr>))" for bad m
    using rinv_proc [OF reader_reads(3) r, of "(r_ag w) \<lparr>marks := m\<rparr>" "\<lambda>p. ?p p bad" "r_stop w" "waiters w"]
      rinv_core [OF reader_reads(3)] rinv_last [OF reader_reads(3) r] core_ok_cong [of "procs w r" "?p (procs w r) bad"] by simp
  then show ?case by (simp add: read_frame_def Let_def)
next
  case (watch_enter w r g)
  have r: "\<not> idle_proc (procs w r)" using watch_enter(1) by (simp add: idle_proc_def)
  note L = rinv_last [OF watch_enter(3) r]
  have C: "core_ok (runs (r_ag w)) (a_cmd (r_ag w)) (g, Fresh) (stopping (r_ag w)) (procs w r) (r_stop w) (waiters w)"
    using rinv_core [OF watch_enter(3)] L watch_enter(2) by simp
  show ?case
    using rinv_proc [OF watch_enter(3) r, of "(r_ag w) \<lparr>waitOnce := (g, Busy)\<rparr>" "\<lambda>p. p \<lparr>p_watch := InOnce g r\<rparr>" "r_stop w" "waiters w"]
      core_ok_watch(1) [OF C watch_enter(1)] rinv_core [OF watch_enter(3)] L watch_enter(2)
    by (simp add: set_watch_def upd_proc_simps)
next
  case (watch_skip w r g)
  have r: "\<not> idle_proc (procs w r)" using watch_skip(1) by (simp add: idle_proc_def)
  note L = rinv_last [OF watch_skip(3) r]
  show ?case
    using rinv_proc [OF watch_skip(3) r, of "r_ag w" "\<lambda>p. p \<lparr>p_watch := Joined\<rparr>" "r_stop w" "waiters w"]
      core_ok_watch(2) [of _ _ _ _ "procs w r" _ _ g, OF _ watch_skip(1, 2)] rinv_core [OF watch_skip(3)] L
    by (simp add: set_watch_def)
next
  case (watch_wait w r g r')
  have r: "\<not> idle_proc (procs w r)" using watch_wait(1) by (simp add: idle_proc_def)
  note L = rinv_last [OF watch_wait(3) r]
  have C: "core_ok (runs (r_ag w)) (a_cmd (r_ag w)) (waitOnce (r_ag w)) (stopping (r_ag w)) (procs w r) (r_stop w) (waiters w)"
    using rinv_core [OF watch_wait(3)] L by simp
  have g: "g = r" "r' = r" "fst (waitOnce (r_ag w)) = r" using core_okD(1) [OF C] core_okD(2) [OF C watch_wait(1)] L by simp_all
  have d: "\<not> p_alive (procs w r)" using core_okD(3) [OF C] watch_wait(2) g by (auto simp: wait_returns_def)
  show ?case
    using rinv_proc [OF watch_wait(3) r, of "(r_ag w) \<lparr>waitOnce := (r, Done)\<rparr>" "\<lambda>p. p \<lparr>p_watch := Joined, p_reaped := True\<rparr>"
        "r_stop w" "waiters w"]
      core_ok_watch(4) [OF C watch_wait(1) d] rinv_core [OF watch_wait(3)] L g
    by (simp add: leave_once_def set_watch_def upd_proc_simps)
next
  case (watch_drain w r)
  have r: "\<not> idle_proc (procs w r)" using watch_drain(1) by (simp add: idle_proc_def)
  show ?case
    using rinv_proc [OF watch_drain(3) r, of "r_ag w" "\<lambda>p. p \<lparr>p_watch := Drained\<rparr>" "r_stop w" "waiters w"]
      core_ok_watch(3) [OF _ watch_drain(1)] rinv_core [OF watch_drain(3)] rinv_last [OF watch_drain(3) r]
    by (simp add: set_watch_def)
next
  case (watch_expire w r)
  have r: "\<not> idle_proc (procs w r)" using watch_expire(1) by (simp add: idle_proc_def)
  let ?f = "\<lambda>p. p \<lparr>p_expired := True, p_watch := Drained\<rparr>"
  have "core_ok (runs (r_ag w)) (a_cmd (r_ag w)) (waitOnce (r_ag w)) (stopping (r_ag w)) (?f (procs w r)) (r_stop w) (waiters w)"
    using core_ok_watch(3) [OF _ watch_expire(1)] rinv_core [OF watch_expire(3)] rinv_last [OF watch_expire(3) r]
      core_ok_cong [of "(procs w r) \<lparr>p_watch := Drained\<rparr>" "?f (procs w r)"] by simp
  with rinv_proc [OF watch_expire(3) r, of "r_ag w" ?f "r_stop w" "waiters w"] rinv_core [OF watch_expire(3)]
  show ?case by (simp add: set_watch_def upd_proc_simps)
next
  case (watch_classify w r)
  have r: "\<not> idle_proc (procs w r)" using watch_classify(1) by (simp add: idle_proc_def)
  note L = rinv_last [OF watch_classify(2) r]
  let ?a = "exit_watcher sp r (p_rid (procs w r)) (r_ag w)"
  have C: "core_ok (runs (r_ag w)) (a_cmd (r_ag w)) (waitOnce (r_ag w)) (stopping (r_ag w)) (procs w r) (r_stop w) (waiters w)"
    using rinv_core [OF watch_classify(2)] L by simp
  have "core_ok (runs (r_ag w)) (a_cmd ?a) (waitOnce (r_ag w)) (stopping (r_ag w)) ((procs w r) \<lparr>p_watch := Ended\<rparr>) (r_stop w) (waiters w)"
    using exit_watcher_cases [of sp r "p_rid (procs w r)" "r_ag w"]
  proof
    assume e: "?a = r_ag w \<and> (stopping (r_ag w) \<or> map_option fst (a_cmd (r_ag w)) \<noteq> Some r)"
    have "stopping (r_ag w) \<or> a_cmd (r_ag w) = None"
    proof (cases "a_cmd (r_ag w)")
      case (Some mb)
      then have "fst mb = r" using core_okD(6) [OF C, of "fst mb" "snd mb"] L by simp
      with conjunct2 [OF e] Some show ?thesis by simp
    qed simp
    from core_ok_watch(5) [OF C watch_classify(1) this] show ?thesis using conjunct1 [OF e] by simp
  next
    assume e: "a_cmd ?a = None \<and> \<not> stopping (r_ag w) \<and> map_option fst (a_cmd (r_ag w)) = Some r"
    have "r_stop w = None"
    proof (cases "r_stop w")
      case (Some s)
      with core_okD(4) [OF C Some] e show ?thesis by simp
    qed simp
    from core_ok_watch(6) [OF C watch_classify(1) this] show ?thesis using conjunct1 [OF e] by simp
  qed
  with rinv_proc [OF watch_classify(2) r, of ?a "\<lambda>p. p \<lparr>p_watch := Ended\<rparr>" "r_stop w" "waiters w"]
    rinv_core [OF watch_classify(2)] show ?case by (simp add: set_watch_def)
next
  case (stop_begin w r rid a')
  have a: "a' = (r_ag w) \<lparr>stopping := True\<rparr>" "a_cmd (r_ag w) = Some (r, True)"
    using stop_begin(2) by (auto simp: go_Stop_begin_def split: option.splits prod.splits bool.splits if_splits)
  note C = rinv_core [OF stop_begin(3), unfolded stop_begin(1) a(2)]
  show ?case
    using rinv_slot [OF stop_begin(3), of a' "Some \<lparr>s_run = r, s_rid = rid, s_waiter = length (waiters w), s_late = False\<rparr>"
        "waiters w @ [AtOnce]"] C core_ok_stop_begin [OF conjunct1 [OF C]]
    by (simp add: a)
next
  case (waiter_enter i w g r)
  obtain s us where u: "r_stop w = Some s" "waiters w = us @ [AtOnce]" "i = length us" "set us \<subseteq> {Ended}" "s_waiter s = length us"
    by (rule waiter_last [OF conjunct1 [OF rinv_core [OF waiter_enter(5)]] waiter_enter(1)]) (use waiter_enter(2) in simp_all)
  note C = rinv_core [OF waiter_enter(5), unfolded u(1, 2) waiter_enter(3)]
  have r: "r = runs (r_ag w) - 1" using core_okD(6) [OF conjunct1 [OF C] waiter_enter(4)] by simp
  have "core_ok (runs (r_ag w)) (a_cmd (r_ag w)) (g, Busy) (stopping (r_ag w)) (procs w (runs (r_ag w) - 1)) (Some s) (us @ [InOnce g r])"
    using core_ok_waiter(1) [OF conjunct1 [OF C] u(4, 5) refl refl] r by simp
  with rinv_waiters [OF waiter_enter(5), of "(r_ag w) \<lparr>waitOnce := (g, Busy)\<rparr>" "us @ [InOnce g r]"] C show ?case
    by (simp add: set_once_def set_waiter_def u waiter_enter(3))
next
  case (waiter_nil i w g)
  obtain s us where "r_stop w = Some s"
    by (rule waiter_last [OF conjunct1 [OF rinv_core [OF waiter_nil(5)]] waiter_nil(1)]) (use waiter_nil(2) in simp_all)
  with core_okD(4) [OF conjunct1 [OF rinv_core [OF waiter_nil(5)]]] waiter_nil(4) show ?case by simp
next
  case (waiter_unstarted i w g r)
  obtain s us where "r_stop w = Some s"
    by (rule waiter_last [OF conjunct1 [OF rinv_core [OF waiter_unstarted(5)]] waiter_unstarted(1)]) (use waiter_unstarted(2) in simp_all)
  with core_okD(4) [OF conjunct1 [OF rinv_core [OF waiter_unstarted(5)]]] waiter_unstarted(4) show ?case by simp
next
  case (waiter_skip i w g)
  obtain s us where u: "r_stop w = Some s" "waiters w = us @ [AtOnce]" "i = length us" "set us \<subseteq> {Ended}" "s_waiter s = length us"
    by (rule waiter_last [OF conjunct1 [OF rinv_core [OF waiter_skip(4)]] waiter_skip(1)]) (use waiter_skip(2) in simp_all)
  note C = rinv_core [OF waiter_skip(4), unfolded u(1, 2) waiter_skip(3)]
  have "core_ok (runs (r_ag w)) (a_cmd (r_ag w)) (g, Done) (stopping (r_ag w)) (procs w (runs (r_ag w) - 1)) (Some s) (us @ [Ended])"
    using core_ok_waiter(2) [OF conjunct1 [OF C] u(4, 5) refl refl] by simp
  with rinv_waiters [OF waiter_skip(4), of "r_ag w" "us @ [Ended]"] C show ?case
    by (simp add: set_waiter_def u waiter_skip(3))
next
  case (waiter_wait i w g r)
  obtain s us where u: "r_stop w = Some s" "waiters w = us @ [InOnce g r]" "i = length us" "set us \<subseteq> {Ended}" "s_waiter s = length us"
    by (rule waiter_last [OF conjunct1 [OF rinv_core [OF waiter_wait(4)]] waiter_wait(1)]) (use waiter_wait(2) in simp_all)
  note C = rinv_core [OF waiter_wait(4), unfolded u(1, 2)]
  note D = core_okD [OF conjunct1 [OF C]]
  have t: "InOnce g r = InOnce (runs (r_ag w) - 1) (runs (r_ag w) - 1)"
    using D(4) [OF refl] by (auto simp: waiter_ok_def)
  have g: "g = runs (r_ag w) - 1" "r = g" "fst (waitOnce (r_ag w)) = g" "a_cmd (r_ag w) = Some (g, True)" "0 < runs (r_ag w)"
    using t D(1) D(4) [OF refl] D(6) by auto
  have d: "\<not> p_alive (procs w r)" using D(3) waiter_wait(3) g by (auto simp: wait_returns_def)
  have "core_ok (runs (r_ag w)) (a_cmd (r_ag w)) (r, Done) (stopping (r_ag w)) ((procs w r) \<lparr>p_reaped := True\<rparr>) (Some s) (us @ [Ended])"
    using core_ok_waiter(3) [OF conjunct1 [OF C] u(4, 5) refl] d g by simp
  with waiter_wait(4) g u show ?case
    by (auto simp: rinv_def leave_once_def set_once_def upd_proc_def set_waiter_def)
next
  case (stop_end w s ex bind fl e a')
  note S = go_Stop_end_slot [OF stop_end(4)]
  have "waiters w ! s_waiter s = Ended" using stop_end(3) by simp
  with core_ok_stopped [OF conjunct1 [OF rinv_core [OF stop_end(5), unfolded stop_end(1)]]]
    rinv_slot [OF stop_end(5), of a' None "waiters w"] rinv_core [OF stop_end(5)]
  show ?case by (simp add: S)
next
  case (stop_end_late w s bind fl e a')
  note S = go_Stop_end_slot [OF stop_end_late(4)]
  have "waiters w ! s_waiter s = Ended" using stop_end_late(3) by simp
  with core_ok_stopped [OF conjunct1 [OF rinv_core [OF stop_end_late(5), unfolded stop_end_late(1)]]]
    rinv_slot [OF stop_end_late(5), of a' None "waiters w"] rinv_core [OF stop_end_late(5)]
  show ?case by (simp add: S)
qed

lemma rreachable_rinv: "rreachable True sp w \<Longrightarrow> rinv w"
  by (induction rule: rreachable.induct) (simp_all add: rinv_initial rinv_step)


section \<open>Reports\<close>

definition is_end :: "string \<times> string \<times> string \<Rightarrow> bool" where
  "is_end r \<longleftrightarrow> fst r \<in> {''STOPPED'', ''FAILED''}"

definition is_spawn :: "string \<times> string \<times> string \<Rightarrow> bool" where
  "is_spawn r \<longleftrightarrow> fst r = ''STARTING''"

definition reports_ok :: "rworld \<Rightarrow> bool" where
  "reports_ok w \<longleftrightarrow> length (filter is_end (published (r_ag w))) + (if running (r_ag w) then 1 else 0)
       \<le> length (filter is_spawn (published (r_ag w))) \<and>
     (\<forall>r. a_cmd (r_ag w) = Some (r, False) \<longrightarrow> p_watch (procs w r) = NoThread)"

lemma upper_names: "ToUpper ''STARTING'' = ''STARTING''" "ToUpper ''STOPPED'' = ''STOPPED''" "ToUpper ''FAILED'' = ''FAILED''"
  by code_simp+

lemma reports_ok_once:
  assumes "reports_ok w" "a_cmd (r_ag w') = a_cmd (r_ag w)" "published (r_ag w') = published (r_ag w)"
    "\<And>r. p_watch (procs w r) = NoThread \<Longrightarrow> p_watch (procs w' r) = NoThread"
  shows "reports_ok w'"
  using assms by (auto simp: reports_ok_def running_iff)

lemma reports_ok_step: "rstep True sp w w' \<Longrightarrow> rinv w \<Longrightarrow> reports_ok w \<Longrightarrow> reports_ok w'"
proof (induction rule: rstep.induct)
  case (start an w c a')
  from start(1) show ?case
  proof (cases rule: go_Start_cases)
    case (spawned c)
    then show ?thesis using start(5)
      by (auto simp: reports_ok_def running_iff is_end_def is_spawn_def)
  qed simp_all
next
  case (start_none an w e a')
  have fresh: "p_watch (procs w (runs (r_ag w))) = NoThread" using start_none(3) by (simp add: rinv_def no_proc_def)
  from start_none(1) show ?case
  proof (cases rule: go_Start_cases)
    case (kept e)
    with start_none(4) show ?thesis by (auto simp: reports_ok_def running_iff keeps_slot_def)
  next
    case (failed e)
    with start_none(4) fresh show ?thesis by (auto simp: reports_ok_def running_iff)
  qed simp_all
next
  case (watch_classify w r)
  let ?a = "exit_watcher sp r (p_rid (procs w r)) (r_ag w)"
  have *: "published ?a = published (r_ag w) \<and> (a_cmd ?a = a_cmd (r_ag w) \<or> a_cmd ?a = None) \<or>
      (running (r_ag w) \<and> a_cmd ?a = None \<and> (\<exists>m. published ?a = published (r_ag w) @ [(''FAILED'', m)]))"
  proof (cases "stopping (r_ag w) \<or> map_option fst (a_cmd (r_ag w)) \<noteq> Some r \<or> announcedOwnExit (p_rid (procs w r)) (marks (r_ag w))")
    case True
    then show ?thesis by (auto simp: exit_watcher_def)
  next
    case False
    then obtain b where b: "a_cmd (r_ag w) = Some (r, b)" by (cases "a_cmd (r_ag w)") auto
    have "b" using watch_classify(1, 3) b by (cases b) (auto simp: reports_ok_def)
    with False b show ?thesis by (auto simp: exit_watcher_def running_iff upper_names)
  qed
  then show ?case
  proof
    assume "published ?a = published (r_ag w) \<and> (a_cmd ?a = a_cmd (r_ag w) \<or> a_cmd ?a = None)"
    then have p: "published ?a = published (r_ag w)" and "a_cmd ?a = a_cmd (r_ag w) \<or> a_cmd ?a = None" by simp_all
    from this(2) show ?thesis
    proof
      assume c: "a_cmd ?a = a_cmd (r_ag w)"
      show ?thesis
        by (rule reports_ok_once [OF watch_classify(3)])
          (use watch_classify(1) p c in \<open>auto simp: set_watch_def upd_proc_def\<close>)
    next
      assume "a_cmd ?a = None"
      with watch_classify(3) p show ?thesis
        by (simp add: reports_ok_def running_iff set_watch_def upd_proc_def split: if_splits)
    qed
  next
    assume "running (r_ag w) \<and> a_cmd ?a = None \<and> (\<exists>m. published ?a = published (r_ag w) @ [(''FAILED'', m)])"
    with watch_classify(3) show ?thesis
      by (auto simp: reports_ok_def running_iff set_watch_def upd_proc_def is_end_def is_spawn_def)
  qed
next
  case (stop_end w s ex bind fl e a')
  note S = go_Stop_end_slot [OF stop_end(4)]
  have "running (r_ag w)"
    using core_okD(4) [OF conjunct1 [OF rinv_core [OF stop_end(5)]] stop_end(1)] by (simp add: running_iff)
  with S stop_end(6) show ?case by (auto simp: reports_ok_def running_iff is_end_def is_spawn_def)
next
  case (stop_end_late w s bind fl e a')
  note S = go_Stop_end_slot [OF stop_end_late(4)]
  have "running (r_ag w)"
    using core_okD(4) [OF conjunct1 [OF rinv_core [OF stop_end_late(5)]] stop_end_late(1)] by (simp add: running_iff)
  with S stop_end_late(6) show ?case by (auto simp: reports_ok_def running_iff is_end_def is_spawn_def)
next
  case (agent_reset w)
  then show ?case by (auto simp: reports_ok_def running_iff Reset_def dropAdopted_def)
next
  case (watch_wait w r g r')
  then show ?case
    by (intro reports_ok_once [OF watch_wait(4)]) (auto simp: leave_once_def set_once_def set_watch_def upd_proc_def split: if_splits)
next
  case (waiter_wait i w g r)
  then show ?case
    by (intro reports_ok_once [OF waiter_wait(5)]) (auto simp: leave_once_def set_once_def set_waiter_def upd_proc_def)
next
  case (watch_enter w r g)
  then show ?case
    by (intro reports_ok_once [OF watch_enter(4)]) (auto simp: set_once_def set_watch_def upd_proc_def)
next
  case (reader_reads w r f rest now)
  then show ?case
    by (intro reports_ok_once [OF reader_reads(4)]) (auto simp: read_frame_def Let_def upd_proc_def)
next
  case (stop_none w a')
  then show ?case
    by (intro reports_ok_once [OF stop_none(3)])
      (auto simp: go_Stop_begin_def split: option.splits prod.splits bool.splits if_splits)
next
  case (stop_begin w r rid a')
  then show ?case
    by (intro reports_ok_once [OF stop_begin(4)])
      (auto simp: go_Stop_begin_def split: option.splits prod.splits bool.splits if_splits)
next
  case (set_run w i)
  then show ?case by (intro reports_ok_once [OF set_run(2)]) (auto simp: SetRunID_def)
qed (auto simp: reports_ok_def set_watch_def upd_proc_def set_once_def set_waiter_def running_iff split: if_splits)


section \<open>The last word of an agent\<close>

definition status_of_frame :: "frame \<Rightarrow> (string \<times> string) list" where
  "status_of_frame f = (case judge f of Inr [NoteAnnounced st rid, _] \<Rightarrow> [(st, rid)] | _ \<Rightarrow> [])"

text \<open>The state and run of the last status frame accepted.\<close>

definition last_word :: "frame list \<Rightarrow> string \<times> string" where
  "last_word fs = (let ws = concat (map status_of_frame fs) in if ws = [] then ([], []) else last ws)"

definition marks_word :: "announced \<Rightarrow> string \<times> string" where
  "marks_word m = (announcedState m, announcedRunID m)"

lemma judge_cases:
  assumes "judge f = Inr effs"
  obtains (status) st m rid where "effs = [NoteAnnounced st rid, PublishStatus st m rid]" | (beat) hb where "effs = [PublishHeartbeat hb]"
  using assms by (auto simp: judge_def split: if_splits frame_event.splits)

lemma last_word_snoc: "last_word (fs @ [f]) = (case status_of_frame f of [] \<Rightarrow> last_word fs | ws \<Rightarrow> last ws)"
proof (cases "judge f")
  case (Inr effs)
  then show ?thesis
    by (cases rule: judge_cases) (simp_all add: last_word_def Let_def status_of_frame_def Inr)
qed (simp add: last_word_def Let_def status_of_frame_def)

lemma read_frame_word:
  "marks_word (marks (r_ag (read_frame r now f rest w))) =
    (case status_of_frame f of [] \<Rightarrow> marks_word (marks (r_ag w)) | ws \<Rightarrow> last ws)"
proof -
  have s: "marks_word (noteFrameSeen now m) = marks_word m" for m by (simp add: marks_word_def noteFrameSeen_def)
  show ?thesis
  proof (cases "judge f")
    case (Inr effs)
    then show ?thesis
      by (cases rule: judge_cases)
        (simp_all add: read_frame_def Let_def upd_proc_def status_of_frame_def Inr s, simp add: marks_word_def noteAnnouncedState_def)
  qed (simp add: read_frame_def Let_def upd_proc_def status_of_frame_def s)
qed

text \<open>For the last run, while its process or its watcher is there.\<close>

definition word_ok :: "rworld \<Rightarrow> bool" where
  "word_ok w \<longleftrightarrow> (let p = procs w (runs (r_ag w) - 1) in
     (p_watch p \<noteq> NoThread \<longrightarrow> marks_word (marks (r_ag w)) = last_word (p_read p)) \<and>
     (p_watch p \<in> {Drained, Ended} \<and> \<not> p_expired p \<longrightarrow> p_eof p) \<and>
     (p_eof p \<and> p_bad p \<le> maxBadControlFrames \<longrightarrow> p_pending p = [] \<and> \<not> p_alive p))"

lemma word_ok_cong:
  assumes "word_ok w" "runs (r_ag w') = runs (r_ag w)" "marks (r_ag w') = marks (r_ag w)"
    and "\<And>p p'. p = procs w (runs (r_ag w) - 1) \<Longrightarrow> p' = procs w' (runs (r_ag w) - 1) \<Longrightarrow>
      p_read p' = p_read p \<and> p_bad p' = p_bad p \<and> (p_eof p \<longrightarrow> p_eof p') \<and> (p_eof p' \<longrightarrow> p_eof p \<or> p_pending p = [] \<and> \<not> p_alive p) \<and>
      (p_pending p' = p_pending p \<or> p_alive p) \<and> (p_alive p' \<longrightarrow> p_alive p) \<and> (p_watch p = NoThread \<longrightarrow> p_watch p' = NoThread) \<and>
      (p_watch p' \<in> {Drained, Ended} \<and> \<not> p_expired p' \<longrightarrow> p_watch p \<in> {Drained, Ended} \<and> \<not> p_expired p \<or> p_eof p)"
  shows "word_ok w'"
  using assms(1) assms(4) [OF refl refl] unfolding word_ok_def Let_def assms(2, 3) by metis

lemma word_ok_step: "rstep True sp w w' \<Longrightarrow> rinv w \<Longrightarrow> word_ok w \<Longrightarrow> word_ok w'"
proof (induction rule: rstep.induct)
  case (set_run w i)
  then show ?case by (simp add: word_ok_def SetRunID_def)
next
  case (start an w c a')
  from start(1) show ?case
  proof (cases rule: go_Start_cases)
    case (spawned c)
    then show ?thesis by (simp add: word_ok_def Let_def new_proc_def marks_word_def last_word_def)
  qed simp_all
next
  case (start_none an w e a')
  have fresh: "procs w (runs (r_ag w)) = no_proc" using start_none(3) by (simp add: rinv_def)
  from start_none(1) show ?case
  proof (cases rule: go_Start_cases)
    case (kept e)
    with start_none(4) show ?thesis by (simp add: word_ok_def keeps_slot_def)
  next
    case (failed e)
    with fresh show ?thesis by (simp add: word_ok_def no_proc_def)
  qed simp_all
next
  case (reader_reads w r f rest now)
  have "\<not> idle_proc (procs w r)" using reader_reads(2) by (simp add: idle_proc_def)
  note L = rinv_last [OF reader_reads(3) this]
  have e: "runs (r_ag (read_frame r now f rest w)) = runs (r_ag w)" by (simp add: read_frame_def Let_def upd_proc_def)
  obtain b where p: "procs (read_frame r now f rest w) r =
      (procs w r) \<lparr>p_pending := rest, p_read := p_read (procs w r) @ [f], p_bad := b, p_eof := b > maxBadControlFrames\<rparr>"
    by (simp add: read_frame_def Let_def upd_proc_def)
  from reader_reads(4) reader_reads(2) show ?case
    unfolding word_ok_def Let_def e read_frame_word L(1) [symmetric] p
    by (auto simp: last_word_snoc split: list.split)
next
  case (watch_classify w r)
  have "\<not> idle_proc (procs w r)" using watch_classify(1) by (simp add: idle_proc_def)
  from rinv_last [OF watch_classify(2) this] watch_classify(1, 3) show ?case
    by (simp add: word_ok_def Let_def set_watch_def upd_proc_def)
next
  case (stop_none w a')
  then show ?case
    by (auto simp: word_ok_def go_Stop_begin_def split: option.splits prod.splits bool.splits if_splits)
next
  case (stop_begin w r rid a')
  then show ?case
    by (auto simp: word_ok_def go_Stop_begin_def split: option.splits prod.splits bool.splits if_splits)
next
  case (agent_reset w)
  then show ?case by (simp add: word_ok_def Reset_def dropAdopted_def)
next
  case (stop_end w s ex bind fl e a')
  from go_Stop_end_slot [OF stop_end(4)] stop_end(6) show ?case by (simp add: word_ok_def)
next
  case (stop_end_late w s bind fl e a')
  from go_Stop_end_slot [OF stop_end_late(4)] stop_end_late(6) show ?case by (simp add: word_ok_def)
next
  case (agent_exits w r)
  then show ?case by (intro word_ok_cong [OF agent_exits(3)]) (auto simp: upd_proc_def)
next
  case (agent_writes w r f)
  then show ?case by (intro word_ok_cong [OF agent_writes(3)]) (auto simp: upd_proc_def)
next
  case (reader_ends w r)
  then show ?case by (intro word_ok_cong [OF reader_ends(5)]) (auto simp: upd_proc_def)
next
  case (watch_enter w r g)
  then show ?case by (intro word_ok_cong [OF watch_enter(4)]) (auto simp: upd_proc_def set_once_def set_watch_def)
next
  case (watch_skip w r g)
  then show ?case by (intro word_ok_cong [OF watch_skip(4)]) (auto simp: upd_proc_def set_watch_def)
next
  case (watch_wait w r g r')
  then show ?case
    by (intro word_ok_cong [OF watch_wait(4)]) (auto simp: upd_proc_def set_watch_def leave_once_def set_once_def)
next
  case (watch_drain w r)
  then show ?case by (intro word_ok_cong [OF watch_drain(4)]) (auto simp: upd_proc_def set_watch_def)
next
  case (watch_expire w r)
  then show ?case by (intro word_ok_cong [OF watch_expire(4)]) (auto simp: upd_proc_def set_watch_def)
next
  case (waiter_wait i w g r)
  then show ?case
    by (intro word_ok_cong [OF waiter_wait(5)]) (auto simp: upd_proc_def set_waiter_def leave_once_def set_once_def)
qed (auto simp: word_ok_def set_once_def set_waiter_def)

lemma rreachable_word: "rreachable True sp w \<Longrightarrow> word_ok w"
proof -
  assume "rreachable True sp w"
  then have "rinv w \<and> word_ok w"
  proof (induction rule: rreachable.induct)
    case rinit
    show ?case using rinv_initial by (simp add: word_ok_def initial_rworld_def new_runner_def no_proc_def)
  next
    case (rnext w w')
    then show ?case using rinv_step word_ok_step by blast
  qed
  then show ?thesis ..
qed

lemma drained_word:
  assumes "rreachable True sp w" "p_watch (procs w r) = Drained"
  shows "marks_word (marks (r_ag w)) = last_word (p_read (procs w r))"
    and "\<not> p_expired (procs w r) \<longrightarrow> p_eof (procs w r)"
    and "p_eof (procs w r) \<and> p_bad (procs w r) \<le> maxBadControlFrames \<longrightarrow> p_pending (procs w r) = [] \<and> \<not> p_alive (procs w r)"
proof -
  have "\<not> idle_proc (procs w r)" using assms(2) by (simp add: idle_proc_def)
  from rinv_last(1) [OF rreachable_rinv [OF assms(1)] this] rreachable_word [OF assms(1)] assms(2)
  show "marks_word (marks (r_ag w)) = last_word (p_read (procs w r))"
    "\<not> p_expired (procs w r) \<longrightarrow> p_eof (procs w r)"
    "p_eof (procs w r) \<and> p_bad (procs w r) \<le> maxBadControlFrames \<longrightarrow> p_pending (procs w r) = [] \<and> \<not> p_alive (procs w r)"
    by (simp_all add: word_ok_def Let_def)
qed

text \<open>C8: In an orderly world, when the watcher of the run in the slot decides and no stop is under
  way, it frees the slot, and it reports a failure exactly when the agent's last accepted word was not
  a terminal state under the run's own identifier, spelled in upper case. Unless the drain expired or
  the reader gave up, nothing the agent wrote is left unread by then.\<close>

theorem exit_classified_by_last_word:
  assumes "rreachable True sp w" "p_watch (procs w r) = Drained" "map_option fst (a_cmd (r_ag w)) = Some r" "\<not> stopping (r_ag w)"
  shows "(\<not> p_expired (procs w r) \<and> p_bad (procs w r) \<le> 32 \<longrightarrow> p_pending (procs w r) = [] \<and> \<not> p_alive (procs w r)) \<and>
    a_cmd (exit_watcher sp r (p_rid (procs w r)) (r_ag w)) = None \<and>
    published (exit_watcher sp r (p_rid (procs w r)) (r_ag w)) = published (r_ag w) @
      (if fst (last_word (p_read (procs w r))) \<in> {''STOPPED'', ''FAILED'', ''COMPLETED''} \<and>
          snd (last_word (p_read (procs w r))) = p_rid (procs w r)
       then [] else [(''FAILED'', ''process exited unexpectedly'', p_rid (procs w r))])"
proof -
  note w = drained_word [OF assms(1, 2)]
  from w(1) have "announcedState (marks (r_ag w)) = fst (last_word (p_read (procs w r)))"
    "announcedRunID (marks (r_ag w)) = snd (last_word (p_read (procs w r)))" by (simp_all add: marks_word_def prod_eq_iff)
  with w(2, 3) assms(3, 4) show ?thesis
    by (simp add: exit_watcher_def announcedOwnExit_def terminalAnnouncedStates_def maxBadControlFrames_def upper_names)
qed

section \<open>Dead processes are noticed\<close>

text \<open>A measure of what the reader and the watcher of the last run have to do.\<close>

definition thread_rank :: "thread \<Rightarrow> nat" where
  "thread_rank t = (case t of AtOnce \<Rightarrow> 4 | InOnce _ _ \<Rightarrow> 3 | Joined \<Rightarrow> 2 | Drained \<Rightarrow> 1 | _ \<Rightarrow> 0)"

lemma watcher_moves:
  assumes "rinv w" "a_cmd (r_ag w) = Some (r, True)" "\<not> p_alive (procs w r)" "r_stop w = None"
  shows "(\<exists>w'. rstep True sp w w' \<and> a_cmd (r_ag w') = Some (r, True) \<and> \<not> p_alive (procs w' r) \<and> r_stop w' = None \<and>
      thread_rank (p_watch (procs w' r)) < thread_rank (p_watch (procs w r)) \<and> published (r_ag w') = published (r_ag w)) \<or>
    (\<exists>w'. rstep True sp w w' \<and> a_cmd (r_ag w') = None)"
proof -
  note D = core_okD [OF conjunct1 [OF rinv_core [OF assms(1)]]]
  have r: "r = runs (r_ag w) - 1" using D(6) [OF assms(2)] by simp
  have stp: "\<not> stopping (r_ag w)" using D(7) assms(2, 4) r by simp
  have w: "p_watch (procs w r) \<notin> {NoThread, Ended}" using D(7) assms(2) r stp by auto
  obtain g oc where o: "waitOnce (r_ag w) = (g, oc)" by fastforce
  show ?thesis
  proof (cases "p_watch (procs w r)")
    case AtOnce
    have "oc \<noteq> Busy" using D(9) o r assms(4) AtOnce by auto
    then consider "oc = Fresh" | "oc = Done" by (cases oc) auto
    then show ?thesis
    proof cases
      case 1
      have "rstep True sp w (set_once Busy (set_watch r (InOnce g r) w))" by (rule rstep.watch_enter [OF AtOnce o [unfolded 1]])
      then show ?thesis using AtOnce assms
        by (intro disjI1 exI [of _ "set_once Busy (set_watch r (InOnce g r) w)"]) (simp add: set_once_def set_watch_def upd_proc_def thread_rank_def)
    next
      case 2
      have "rstep True sp w (set_watch r Joined w)" by (rule rstep.watch_skip [OF AtOnce o [unfolded 2]])
      then show ?thesis using AtOnce assms
        by (intro disjI1 exI [of _ "set_watch r Joined w"]) (simp add: set_watch_def upd_proc_def thread_rank_def)
    qed
  next
    case (InOnce g' r')
    have "g' = r" "r' = r" "fst (waitOnce (r_ag w)) = r" using D(2) [of g' r'] D(1) InOnce r by simp_all
    moreover have "wait_returns r w" using assms(3) by (simp add: wait_returns_def)
    ultimately show ?thesis using rstep.watch_wait [of w r r r True sp] InOnce assms
      by (intro disjI1 exI [of _ "leave_once r r (set_watch r Joined w)"])
        (simp add: leave_once_def set_once_def set_watch_def upd_proc_def thread_rank_def)
  next
    case Joined
    show ?thesis
    proof (cases "p_eof (procs w r)")
      case True
      have "rstep True sp w (set_watch r Drained w)" by (rule rstep.watch_drain [OF Joined True])
      then show ?thesis using Joined assms
        by (intro disjI1 exI [of _ "set_watch r Drained w"]) (simp add: set_watch_def upd_proc_def thread_rank_def)
    next
      case False
      have "rstep True sp w (set_watch r Drained (upd_proc r (\<lambda>p. p \<lparr>p_expired := True\<rparr>) w))" by (rule rstep.watch_expire [OF Joined False])
      then show ?thesis using Joined assms
        by (intro disjI1 exI [of _ "set_watch r Drained (upd_proc r (\<lambda>p. p \<lparr>p_expired := True\<rparr>) w)"]) (simp add: set_watch_def upd_proc_def thread_rank_def)
    qed
  next
    case Drained
    let ?w = "set_watch r Ended (w \<lparr>r_ag := exit_watcher sp r (p_rid (procs w r)) (r_ag w)\<rparr>)"
    have "rstep True sp w ?w" by (rule rstep.watch_classify [OF Drained])
    then show ?thesis using assms(2) stp
      by (intro disjI2 exI [of _ ?w]) (simp add: set_watch_def upd_proc_def exit_watcher_def)
  qed (use w in auto)
qed


section \<open>Worlds that are not orderly\<close>

definition ex_spec :: spec where
  "ex_spec = \<lparr>sp_id = ''a'', sp_typ = ''service'', sp_path = ''/opt/a'', sp_runner = [], sp_production = False,
     sp_listen = [], sp_cpu = [], sp_mem = []\<rparr>"

definition ex_answers :: start_answers where
  "ex_answers = \<lparr>st_bind = True, st_file = True, st_pipe = True, st_stdout = True, st_stderr = True, st_exec = True,
     st_cgroup = True, st_begin = 1, st_spawned = 2\<rparr>"

definition ex_a1 :: runner where "ex_a1 = snd (go_Start ex_spec ex_answers (SetRunID ''r1'' new_runner))"
definition ex_a2 :: runner where "ex_a2 = snd (go_Stop_begin (ex_a1 \<lparr>waitOnce := (0, Busy)\<rparr>))"
definition ex_a3 :: runner where "ex_a3 = snd (go_Stop_end ex_spec ''r1'' None True True ex_a2)"
definition ex_a4 :: runner where "ex_a4 = snd (go_Start ex_spec ex_answers ex_a3)"

definition ex_started :: rworld where
  "ex_started = initial_rworld \<lparr>r_ag := ex_a1, procs := (\<lambda>_. no_proc) (0 := new_proc ''r1'')\<rparr>"

lemma ex_runs:
  "fst (go_Start ex_spec ex_answers (SetRunID ''r1'' new_runner)) = Spawned (go_child ex_spec ''r1'' False)"
  "waitOnce ex_a1 = (0, Fresh)" "nextRunID ex_a1 = ''r1''" "a_cmd ex_a1 = Some (0, True)" "runs ex_a1 = 1" "stopping ex_a1 = False"
  "go_Stop_begin (ex_a1 \<lparr>waitOnce := (0, Busy)\<rparr>) = (StopChild 0 ''r1'', ex_a2)" "a_cmd ex_a2 = Some (0, True)"
  "a_cmd ex_a3 = None" "runs ex_a3 = 1"
  "fst (go_Start ex_spec ex_answers ex_a3) = Spawned (go_child ex_spec ''r1'' False)" "waitOnce ex_a4 = (1, Fresh)"
  "nextRunID ex_a4 = ''r1''"
  by code_simp+

lemma ex_started_reachable: "rreachable b ex_spec ex_started"
proof -
  let ?w = "initial_rworld \<lparr>r_ag := SetRunID ''r1'' new_runner\<rparr>"
  have "rstep b ex_spec initial_rworld ?w"
    using rstep.set_run [of b ex_spec initial_rworld "''r1''"] by (simp add: initial_rworld_def)
  then have w: "rreachable b ex_spec ?w"
    by (rule rreachable.rnext [OF rreachable.rinit]) (simp add: initial_rworld_def)
  have "go_Start ex_spec ex_answers (r_ag ?w) = (Spawned (go_child ex_spec ''r1'' False), ex_a1)"
    using ex_runs(1) by (simp add: ex_a1_def prod_eq_iff)
  from rstep.start [OF this, of b]
  have "rstep b ex_spec ?w (?w \<lparr>r_ag := ex_a1, procs := (procs ?w) (0 := new_proc ''r1'')\<rparr>)"
    by (simp add: ex_spec_def quiet_threads_def initial_rworld_def SetRunID_def new_runner_def ex_runs(3) [unfolded ex_spec_def])
  from rreachable.rnext [OF w this] show ?thesis by (simp add: ex_started_def initial_rworld_def)
qed

text \<open>A process that outlives the kill of its stop is forgotten, and ends the daemon: the agent's
  slot is empty while the process lives, so another start is accepted; it overwrites the
  \<^verbatim>\<open>sync.Once\<close> inside which the first watcher still waits, and when the first process dies at last,
  the watcher unlocks a mutex that is no longer locked.\<close>

theorem kill_survivor_ends_daemon:
  "\<exists>w w'. rreachable False ex_spec w \<and> p_alive (procs w 0) \<and> a_cmd (r_ag w) = None \<and>
     (rstep False ex_spec)\<^sup>*\<^sup>* w w' \<and> crashed w'"
proof -
  let ?p = "(new_proc ''r1'') \<lparr>p_watch := InOnce 0 0\<rparr>"
  let ?s = "\<lparr>s_run = 0, s_rid = ''r1'', s_waiter = 0, s_late = False\<rparr>"
  define w1 where "w1 = ex_started \<lparr>r_ag := ex_a1 \<lparr>waitOnce := (0, Busy)\<rparr>, procs := (\<lambda>_. no_proc) (0 := ?p)\<rparr>"
  define w2 where "w2 = w1 \<lparr>r_ag := ex_a2, r_stop := Some ?s, waiters := [AtOnce]\<rparr>"
  define w3 where "w3 = w2 \<lparr>r_stop := Some (?s \<lparr>s_late := True\<rparr>)\<rparr>"
  define w4 where "w4 = w3 \<lparr>r_ag := ex_a3, r_stop := None\<rparr>"
  define w5 where "w5 = w4 \<lparr>r_ag := ex_a4, procs := (procs w4) (1 := new_proc ''r1'')\<rparr>"
  define w6 where "w6 = upd_proc 0 (\<lambda>p. p \<lparr>p_alive := False\<rparr>) w5"
  note wd = w1_def w2_def w3_def w4_def w5_def w6_def ex_started_def initial_rworld_def
  have s1: "rstep False ex_spec ex_started w1"
    using rstep.watch_enter [of ex_started 0 0 False ex_spec] ex_runs(2)
    by (simp add: wd new_proc_def set_once_def set_watch_def upd_proc_def)
  have s2: "rstep False ex_spec w1 w2"
    using rstep.stop_begin [of w1 0 "''r1''" ex_a2 False ex_spec] ex_runs(7) by (simp add: wd)
  have s3: "rstep False ex_spec w2 w3"
    using rstep.stop_late [of w2 ?s False ex_spec] ex_runs(8) by (simp add: wd running_iff)
  have "go_Stop_end ex_spec ''r1'' None True True ex_a2 = (Some RunDeadlineExceeded, ex_a3)"
    by (simp add: ex_a3_def go_Stop_end_def)
  then have s4: "rstep False ex_spec w3 w4"
    using rstep.stop_end_late [of w3 "?s \<lparr>s_late := True\<rparr>" False ex_spec True True] by (simp add: wd)
  have "go_Start ex_spec ex_answers ex_a3 = (Spawned (go_child ex_spec ''r1'' False), ex_a4)"
    using ex_runs(11) by (simp add: ex_a4_def prod_eq_iff)
  then have s5: "rstep False ex_spec w4 w5"
    using rstep.start [of ex_spec ex_answers w4 "go_child ex_spec ''r1'' False" ex_a4 False] ex_runs(10, 13)
    by (simp add: wd ex_spec_def)
  have s6: "rstep False ex_spec w5 w6"
    unfolding w6_def by (rule rstep.agent_exits) (simp add: wd new_proc_def)
  have s7: "rstep False ex_spec w6 (leave_once 0 0 (set_watch 0 Joined w6))"
    by (rule rstep.watch_wait) (simp_all add: wd new_proc_def upd_proc_def wait_returns_def)
  have c: "crashed (leave_once 0 0 (set_watch 0 Joined w6))"
    by (simp add: leave_once_def wd set_watch_def upd_proc_def ex_runs(12))
  have nc: "\<not> crashed ex_started" "\<not> crashed w1" "\<not> crashed w2" "\<not> crashed w3" by (simp_all add: wd)
  have "rreachable False ex_spec w4"
    by (rule rreachable.rnext [OF rreachable.rnext [OF rreachable.rnext [OF rreachable.rnext [OF
      ex_started_reachable s1 nc(1)] s2 nc(2)] s3 nc(3)] s4 nc(4)])
  moreover have "p_alive (procs w4 0)" "a_cmd (r_ag w4) = None" by (simp_all add: wd new_proc_def ex_runs(9))
  moreover have "(rstep False ex_spec)\<^sup>*\<^sup>* w4 (leave_once 0 0 (set_watch 0 Joined w6))"
    using s5 s6 s7 by (meson converse_rtranclp_into_rtranclp rtranclp.rtrancl_refl)
  ultimately show ?thesis using c by blast
qed

section \<open>Examples\<close>



text \<open>The process of the first run has died without a word.\<close>

definition ex_dead :: rworld where
  "ex_dead = upd_proc 0 (\<lambda>p. p \<lparr>p_alive := False\<rparr>) ex_started"

definition ex_drained :: rworld where
  "ex_drained = ex_dead \<lparr>r_ag := ex_a1 \<lparr>waitOnce := (0, Done)\<rparr>, procs := (\<lambda>_. no_proc) (0 := (new_proc ''r1'')
     \<lparr>p_alive := False, p_eof := True, p_reaped := True, p_watch := Drained\<rparr>)\<rparr>"

lemma ex_dead_reachable: "rreachable True ex_spec ex_dead"
proof -
  have "rstep True ex_spec ex_started ex_dead"
    unfolding ex_dead_def by (rule rstep.agent_exits) (simp add: ex_started_def initial_rworld_def new_proc_def)
  from rreachable.rnext [OF ex_started_reachable this] show ?thesis by (simp add: ex_started_def initial_rworld_def)
qed

lemma ex_drained_reachable: "rreachable True ex_spec ex_drained"
proof -
  let ?p = "(new_proc ''r1'') \<lparr>p_alive := False, p_eof := True\<rparr>"
  define w1 where "w1 = upd_proc 0 (\<lambda>p. p \<lparr>p_eof := True\<rparr>) ex_dead"
  define w2 where "w2 = w1 \<lparr>r_ag := ex_a1 \<lparr>waitOnce := (0, Busy)\<rparr>, procs := (\<lambda>_. no_proc) (0 := ?p \<lparr>p_watch := InOnce 0 0\<rparr>)\<rparr>"
  define w3 where "w3 = w2 \<lparr>r_ag := ex_a1 \<lparr>waitOnce := (0, Done)\<rparr>, procs := (\<lambda>_. no_proc) (0 := ?p \<lparr>p_reaped := True, p_watch := Joined\<rparr>)\<rparr>"
  note wd = ex_dead_def ex_started_def initial_rworld_def w1_def w2_def w3_def ex_drained_def upd_proc_def new_proc_def
  have s1: "rstep True ex_spec ex_dead w1" unfolding w1_def by (rule rstep.reader_ends) (simp_all add: wd)
  have s2: "rstep True ex_spec w1 w2"
    using rstep.watch_enter [of w1 0 0 True ex_spec] ex_runs(2) by (simp add: wd set_once_def set_watch_def)
  have s3: "rstep True ex_spec w2 w3"
    using rstep.watch_wait [of w2 0 0 0 True ex_spec]
    by (simp add: wd wait_returns_def leave_once_def set_once_def set_watch_def)
  have s4: "rstep True ex_spec w3 ex_drained"
    using rstep.watch_drain [of w3 0 True ex_spec] by (simp add: wd set_watch_def)
  have nc: "\<not> crashed ex_dead" "\<not> crashed w1" "\<not> crashed w2" "\<not> crashed w3" by (simp_all add: wd)
  show ?thesis
    by (rule rreachable.rnext [OF rreachable.rnext [OF rreachable.rnext [OF rreachable.rnext [OF
      ex_dead_reachable s1 nc(1)] s2 nc(2)] s3 nc(3)] s4 nc(4)])
qed

theorem exit_classified_by_last_word_witness:
  "published (exit_watcher ex_spec 0 ''r1'' (r_ag ex_drained)) =
     published (r_ag ex_drained) @ [(''FAILED'', ''process exited unexpectedly'', ''r1'')]"
proof -
  have f: "p_watch (procs ex_drained 0) = Drained" "p_rid (procs ex_drained 0) = ''r1''" "p_read (procs ex_drained 0) = []"
    "map_option fst (a_cmd (r_ag ex_drained)) = Some 0" "\<not> stopping (r_ag ex_drained)"
    by (simp_all add: ex_drained_def new_proc_def ex_runs(4, 6))
  from exit_classified_by_last_word [OF ex_drained_reachable f(1, 4, 5)] show ?thesis
    unfolding f(2, 3) by (simp add: last_word_def)
qed


end
