(* ===== verification/Budget.thy ===== *)
theory Budget
  imports GoStrings
begin

text \<open>
  \<^verbatim>\<open>core/budget\<close>: the two start deadlines derived from one measured table, and the check of a
  declared one. Durations are nanoseconds.
\<close>

abbreviation Microsecond :: int where "Microsecond \<equiv> 1000"
abbreviation Millisecond :: int where "Millisecond \<equiv> 1000000"
abbreviation Second :: int where "Second \<equiv> 1000000000"

definition firstFrameP95 :: "(string, int) gomap" where
  "firstFrameP95 = [(''go'', 1248 * Microsecond), (''python'', 37237 * Microsecond)]"

definition factorSilence :: int where "factorSilence = 100"
definition factorReadiness :: int where "factorReadiness = 1000"
definition floorSilence :: int where "floorSilence = 250 * Millisecond"
definition floorReadiness :: int where "floorReadiness = 10 * Second"
definition Ceiling :: int where "Ceiling = 60 * Second"
definition SpawnBudget :: int where "SpawnBudget = 10 * Second"

lemmas budget_consts = firstFrameP95_def factorSilence_def factorReadiness_def floorSilence_def
  floorReadiness_def Ceiling_def SpawnBudget_def

definition measuredP95 :: "string \<Rightarrow> int" where
  "measuredP95 lang = (case map_of firstFrameP95 (ToLower (TrimSpace lang)) of
     Some p95 \<Rightarrow> p95
   | None \<Rightarrow> fold (\<lambda>(_, p95) slowest. if p95 > slowest then p95 else slowest) firstFrameP95 0)"

definition derive :: "string \<Rightarrow> int \<Rightarrow> int \<Rightarrow> int" where
  "derive lang factor flr = (let d = measuredP95 lang * factor in if d < flr then flr else d)"

definition SilenceBudgetOf :: "string \<Rightarrow> int" where
  "SilenceBudgetOf lang = derive lang factorSilence floorSilence"

definition DefaultReadinessBudget :: "string \<Rightarrow> int" where
  "DefaultReadinessBudget lang = derive lang factorReadiness floorReadiness"

definition Resolve :: "string \<Rightarrow> int option \<Rightarrow> int" where
  "Resolve lang declared = (case declared of Some d \<Rightarrow> d | None \<Rightarrow> DefaultReadinessBudget lang)"

datatype budget_error = AboveCeiling string int int | NotPositiveBudget string int

definition CheckDeclared :: "string \<Rightarrow> int \<Rightarrow> (budget_error, unit) result" where
  "CheckDeclared agentID declared =
     (if declared \<le> 0 then Inl (NotPositiveBudget agentID declared)
      else if declared > Ceiling then Inl (AboveCeiling agentID declared Ceiling)
      else Inr ())"

lemma measuredP95_cases: "measuredP95 lang = 1248 * Microsecond \<or> measuredP95 lang = 37237 * Microsecond"
  by (auto simp: measuredP95_def firstFrameP95_def)

lemma CheckDeclared_ok: "CheckDeclared a d = Inr () \<longleftrightarrow> 0 < d \<and> d \<le> Ceiling"
  by (auto simp: CheckDeclared_def)

text \<open>For every language, known or not, the silence deadline is positive and strictly earlier
  than the default readiness deadline, which lies between its floor and the ceiling; so by
  default the silence deadline is always armed, and an unmeasured language gets the most generous
  measured deadlines.\<close>

theorem default_budgets_ordered:
  "0 < SilenceBudgetOf lang \<and> SilenceBudgetOf lang < DefaultReadinessBudget lang \<and>
   floorReadiness \<le> DefaultReadinessBudget lang \<and> DefaultReadinessBudget lang \<le> Ceiling \<and>
   (ToLower (TrimSpace lang) \<notin> set (keys firstFrameP95) \<longrightarrow>
     (\<forall>known. SilenceBudgetOf known \<le> SilenceBudgetOf lang \<and>
       DefaultReadinessBudget known \<le> DefaultReadinessBudget lang))"
proof -
  have m: "SilenceBudgetOf known \<le> 3723700000 \<and> DefaultReadinessBudget known \<le> 37237000000" for known
    using measuredP95_cases [of known]
    by (auto simp: SilenceBudgetOf_def DefaultReadinessBudget_def derive_def budget_consts)
  have u: "SilenceBudgetOf lang = 3723700000 \<and> DefaultReadinessBudget lang = 37237000000"
    if "ToLower (TrimSpace lang) \<notin> set (keys firstFrameP95)"
    using that by (auto simp: SilenceBudgetOf_def DefaultReadinessBudget_def derive_def measuredP95_def budget_consts)
  have "0 < SilenceBudgetOf lang \<and> SilenceBudgetOf lang < DefaultReadinessBudget lang \<and>
      floorReadiness \<le> DefaultReadinessBudget lang \<and> DefaultReadinessBudget lang \<le> Ceiling"
    using measuredP95_cases [of lang]
    by (auto simp: SilenceBudgetOf_def DefaultReadinessBudget_def derive_def Let_def budget_consts)
  with m u show ?thesis by simp
qed

theorem default_budgets_ordered_witness:
  "SilenceBudgetOf ''go'' \<le> SilenceBudgetOf ''rust''"
proof -
  have "ToLower (TrimSpace ''rust'') \<notin> set (keys firstFrameP95)" by code_simp
  with default_budgets_ordered [of "''rust''"] show ?thesis by blast
qed

end
