(* ===== verification/Schema.thy ===== *)
theory Schema
  imports Limits Budget "HOL-Library.Product_Lexorder"
begin

text \<open>
  \<^verbatim>\<open>core/schema\<close>: validation of what an agent declares about itself, and schema versions.
  A version is ordered lexicographically, as the library's type class.
\<close>

section \<open>Versions\<close>

datatype Version = Version (Major: "32 word") (Minor: "32 word") (Patch: "32 word")

instantiation Version :: linorder
begin

definition less_eq_Version :: "Version \<Rightarrow> Version \<Rightarrow> bool" where
  "less_eq_Version v w \<longleftrightarrow> (Major v, Minor v, Patch v) \<le> (Major w, Minor w, Patch w)"

definition less_Version :: "Version \<Rightarrow> Version \<Rightarrow> bool" where
  "less_Version v w \<longleftrightarrow> (Major v, Minor v, Patch v) < (Major w, Minor w, Patch w)"

instance
  by standard (auto simp: less_eq_Version_def less_Version_def Version.expand)

end

definition CurrentVersion :: Version where "CurrentVersion = Version 1 0 0"

datatype version_error = BadVersionFormat string | BadMajor string | BadMinor string | BadPatch string
  | IncompatibleMajor Version | TooNew Version

definition ParseVersion :: "string \<Rightarrow> (version_error, Version) result" where
  "ParseVersion v = (case split_on CHR ''.'' v of
     [a, b, c] \<Rightarrow>
       (case ParseUint 32 a of None \<Rightarrow> Inl (BadMajor a)
        | Some major \<Rightarrow> (case ParseUint 32 b of None \<Rightarrow> Inl (BadMinor b)
          | Some minor \<Rightarrow> (case ParseUint 32 c of None \<Rightarrow> Inl (BadPatch c)
            | Some pat \<Rightarrow> Inr (Version (word_of_int major) (word_of_int minor) (word_of_int pat)))))
   | _ \<Rightarrow> Inl (BadVersionFormat v))"

definition CheckSchemaVersion :: "Version \<Rightarrow> (version_error, unit) result" where
  "CheckSchemaVersion v =
     (if Major v \<noteq> Major CurrentVersion then Inl (IncompatibleMajor v)
      else if Minor v > Minor CurrentVersion then Inl (TooNew v)
      else Inr ())"

text \<open>The format \<^verbatim>\<open>%d.%d.%d\<close>.\<close>

definition format_version :: "Version \<Rightarrow> string" where
  "format_version v = Join [Utoa (uint (Major v)), Utoa (uint (Minor v)), Utoa (uint (Patch v))] ''.''"

section \<open>Declarations\<close>

definition ValidAgentTypes :: "string list" where
  "ValidAgentTypes = [''service'', ''timer'', ''socket'', ''pipe'', ''event'', ''init'', ''oneshot'']"

record AgentDescribe =
  SchemaVersion :: string
  ad_ID :: string
  ad_Type :: string
  CPULimit :: string
  MemoryLimit :: string
  ad_Schedule :: string
  ListenStream :: string
  ad_Requires :: "string list"
  ad_Wants :: "string list"
  ad_WantedBy :: "string list"
  ad_RequiredBy :: "string list"
  Capabilities :: "string list"
  Enabled :: "bool option"
  ReadinessDecl :: "string option"

datatype describe_error =
    EmptyID | BadID string
  | EmptyType | BadType string
  | BadDependency string string describe_error
  | EmptyCapability | LongCapability string
  | BadCPULimit LimitError | BlankCPULimit string
  | BadMemoryLimit LimitError | BlankMemoryLimit string
  | EmptySchedule | BadScheduleDuration string | UnknownSchedulePrefix string
  | EmptyListenStream | BadListenFormat | BadListenPort string
  | MalformedReadinessBudget string string
  | ReadinessRefused budget_error

definition id_char :: "char \<Rightarrow> bool" where
  "id_char c \<longleftrightarrow> is_lower c \<or> is_upper c \<or> is_digit c \<or> c = CHR ''_'' \<or> c = CHR ''-''"

definition validateID :: "string \<Rightarrow> (describe_error, unit) result" where
  "validateID i =
     (if i = [] then Inl EmptyID
      else if list_all id_char i then Inr () else Inl (BadID i))"

definition validateDependencies :: "string \<Rightarrow> string list \<Rightarrow> (describe_error, unit) result" where
  "validateDependencies field deps =
     for_each (\<lambda>dep. case validateID dep of Inl e \<Rightarrow> Inl (BadDependency field dep e) | Inr _ \<Rightarrow> Inr ()) deps"

definition validateCapabilities :: "string list \<Rightarrow> (describe_error, unit) result" where
  "validateCapabilities caps =
     for_each (\<lambda>c. if length c = 0 then Inl EmptyCapability
       else if length c > 64 then Inl (LongCapability c) else Inr ()) caps"

definition validateType :: "string \<Rightarrow> (describe_error, unit) result" where
  "validateType typ =
     (if typ = [] then Inl EmptyType
      else if ToLower typ \<in> set ValidAgentTypes then Inr () else Inl (BadType typ))"

definition ValidateCPULimit :: "string \<Rightarrow> (describe_error, unit) result" where
  "ValidateCPULimit limit = (case ParseResourceSpec limit [] of
     Inl e \<Rightarrow> Inl (BadCPULimit e)
   | Inr spec \<Rightarrow> if f64_le_zero (CPU spec) then Inl (BlankCPULimit limit) else Inr ())"

definition ValidateMemoryLimit :: "string \<Rightarrow> (describe_error, unit) result" where
  "ValidateMemoryLimit limit = (case ParseResourceSpec [] limit of
     Inl e \<Rightarrow> Inl (BadMemoryLimit e)
   | Inr spec \<Rightarrow> if Memory spec \<le> 0 then Inl (BlankMemoryLimit limit) else Inr ())"

definition ValidateSchedule :: "string \<Rightarrow> (describe_error, unit) result" where
  "ValidateSchedule schedule0 =
     (let schedule = TrimSpace schedule0 in
      if schedule = [] then Inl EmptySchedule
      else if HasPrefix schedule ''OnUnitActiveSec='' \<or> HasPrefix schedule ''OnBootSec='' \<or>
              HasPrefix schedule ''OnStartupSec='' then
        (let durStr = TrimPrefix (TrimPrefix (TrimPrefix schedule ''OnUnitActiveSec='') ''OnBootSec='') ''OnStartupSec=''
         in case ParseDuration durStr of None \<Rightarrow> Inl (BadScheduleDuration durStr) | Some _ \<Rightarrow> Inr ())
      else case ParseDuration schedule of
        Some _ \<Rightarrow> Inr ()
      | None \<Rightarrow> if Contains schedule ''='' then Inl (UnknownSchedulePrefix schedule) else Inr ())"

definition validateListenStream :: "string \<Rightarrow> (describe_error, unit) result" where
  "validateListenStream addr0 =
     (let addr = TrimSpace addr0 in
      if addr = [] then Inl EmptyListenStream
      else if \<not> Contains addr '':'' then Inl BadListenFormat
      else case split_on CHR '':'' addr of
        [_, p] \<Rightarrow> (case Atoi p of
            None \<Rightarrow> Inl (BadListenPort p)
          | Some port \<Rightarrow> if port < 1 \<or> port > 65535 then Inl (BadListenPort p) else Inr ())
      | _ \<Rightarrow> Inl BadListenFormat)"

definition ParseReadinessBudget :: "AgentDescribe \<Rightarrow> (describe_error, int option) result" where
  "ParseReadinessBudget desc = (case ReadinessDecl desc of
     None \<Rightarrow> Inr None
   | Some s \<Rightarrow> (case ParseDuration s of
       None \<Rightarrow> Inl (MalformedReadinessBudget (ad_ID desc) s)
     | Some d \<Rightarrow> (case CheckDeclared (ad_ID desc) d of
         Inl e \<Rightarrow> Inl (ReadinessRefused e)
       | Inr _ \<Rightarrow> Inr (Some d))))"

text \<open>A check that is skipped for an empty field.\<close>

definition if_present :: "string \<Rightarrow> (string \<Rightarrow> (describe_error, unit) result) \<Rightarrow> (describe_error, unit) result" where
  "if_present s f = (if s = [] then Inr () else f s)"

definition ValidateAgentDescribe :: "AgentDescribe \<Rightarrow> (describe_error, unit) result" where
  "ValidateAgentDescribe desc =
     bind_res (validateID (ad_ID desc)) (\<lambda>_.
     bind_res (validateType (ad_Type desc)) (\<lambda>_.
     bind_res (validateDependencies ''requires'' (ad_Requires desc)) (\<lambda>_.
     bind_res (validateDependencies ''wants'' (ad_Wants desc)) (\<lambda>_.
     bind_res (validateDependencies ''wanted_by'' (ad_WantedBy desc)) (\<lambda>_.
     bind_res (validateDependencies ''required_by'' (ad_RequiredBy desc)) (\<lambda>_.
     bind_res (validateCapabilities (Capabilities desc)) (\<lambda>_.
     bind_res (if_present (CPULimit desc) ValidateCPULimit) (\<lambda>_.
     bind_res (if_present (MemoryLimit desc) ValidateMemoryLimit) (\<lambda>_.
     bind_res (if_present (ad_Schedule desc) ValidateSchedule) (\<lambda>_.
     bind_res (if_present (ListenStream desc) validateListenStream) (\<lambda>_.
     bind_res (ParseReadinessBudget desc) (\<lambda>_. Inr ()))))))))))))"

section \<open>Properties\<close>

lemma dot_not_digit: "0 \<le> n \<Longrightarrow> CHR ''.'' \<notin> set (Utoa n)"
  using Utoa_digits not_digit_signs(3) by blast

lemma uint_word32: "0 \<le> uint (w :: 32 word) \<and> uint w < 2 ^ 32"
  using uint_bounded [of w] by simp

text \<open>Parsing the three dotted numbers of a version gives the version back, and the check then
  accepts it exactly when the major version is the current one and the minor version not newer;
  so among versions of one major number acceptance is closed under older versions.\<close>

theorem version_roundtrip_and_compatibility:
  "ParseVersion (format_version v) = Inr v \<and>
   (CheckSchemaVersion v = Inr ()) = (Major v = Major CurrentVersion \<and> Minor v \<le> Minor CurrentVersion) \<and>
   (CheckSchemaVersion v = Inr () \<and> w \<le> v \<and> Major w = Major v \<longrightarrow> CheckSchemaVersion w = Inr ())"
proof -
  have "split_on CHR ''.'' (format_version v) =
      [Utoa (uint (Major v)), Utoa (uint (Minor v)), Utoa (uint (Patch v))]"
    unfolding format_version_def by (rule split_join) (use dot_not_digit in auto)
  then have "ParseVersion (format_version v) = Inr v"
    using uint_word32 by (simp add: ParseVersion_def ParseUint_Utoa)
  then show ?thesis
    by (auto simp: CheckSchemaVersion_def less_eq_Version_def not_less)
qed

theorem version_roundtrip_and_compatibility_witness:
  "CheckSchemaVersion (Version 1 0 3) = Inr ()"
proof -
  have "CheckSchemaVersion (Version 1 0 7) = Inr ()" "Version 1 0 3 \<le> Version 1 0 7"
    by (simp_all add: CheckSchemaVersion_def CurrentVersion_def less_eq_Version_def)
  with version_roundtrip_and_compatibility [of "Version 1 0 7" "Version 1 0 3"] show ?thesis by simp
qed

lemma validateID_ok: "validateID i = Inr () \<longleftrightarrow> i \<noteq> [] \<and> (\<forall>c\<in>set i. id_char c)"
  by (auto simp: validateID_def list_all_iff)

lemma validateDependencies_ok:
  "validateDependencies f deps = Inr () \<longleftrightarrow> (\<forall>d\<in>set deps. validateID d = Inr ())"
  unfolding validateDependencies_def for_each_ok
  using unit_result_cases by (fastforce split: sum.splits)

lemma validateCapabilities_ok:
  "validateCapabilities caps = Inr () \<longleftrightarrow> (\<forall>c\<in>set caps. 1 \<le> length c \<and> length c \<le> 64)"
  by (auto simp: validateCapabilities_def for_each_ok Suc_le_eq split: if_splits)

lemma validateType_ok: "validateType t = Inr () \<longleftrightarrow> ToLower t \<in> set ValidAgentTypes"
  by (auto simp: validateType_def ToLower_def ValidAgentTypes_def)

text \<open>The validators of limits are those of the parser's contract.\<close>

lemma ValidateCPULimit_ok:
  "ValidateCPULimit s = Inr () \<longleftrightarrow> TrimSpace s \<noteq> [] \<and> is_ok (ParseResourceSpec s [])"
proof -
  have "f64_le_zero (CPU spec) \<longleftrightarrow> \<not> cpu_effective spec" if "ParseResourceSpec s [] = Inr spec" for spec
    using that parseCPU_Inr cpu_effective_iff
    by (auto simp: ParseResourceSpec_Inr cpu_effective_def zero_f64_def split: if_splits) fastforce+
  then show ?thesis
    using cpu_limit.validator_iff [of s] by (auto simp: ValidateCPULimit_def split: sum.splits)
qed

lemma ValidateMemoryLimit_ok:
  "ValidateMemoryLimit s = Inr () \<longleftrightarrow> TrimSpace s \<noteq> [] \<and> is_ok (ParseResourceSpec [] s)"
  using mem_limit.validator_iff [of s]
  by (auto simp: ValidateMemoryLimit_def mem_effective_def split: sum.splits)

lemma validateListenStream_ok:
  "validateListenStream s = Inr () \<longleftrightarrow>
     (\<exists>h p n. split_on CHR '':'' (TrimSpace s) = [h, p] \<and> Atoi p = Some n \<and> 1 \<le> n \<and> n \<le> 65535)"
proof -
  have c: "Contains t '':'' \<longleftrightarrow> CHR '':'' \<in> set t" for t
    by (auto simp: Contains_iff in_set_conv_decomp)
  have "split_on CHR '':'' t = [h, p] \<Longrightarrow> CHR '':'' \<in> set t" for t h p
    using split_on_no_sep [of "CHR '':''" t] by auto
  then show ?thesis
    by (auto simp: validateListenStream_def Let_def c split: list.splits option.splits if_splits)
qed

lemma ParseReadinessBudget_ok:
  "(\<exists>r. ParseReadinessBudget d = Inr r) \<longleftrightarrow>
     (case ReadinessDecl d of None \<Rightarrow> True
      | Some s \<Rightarrow> (\<exists>n. ParseDuration s = Some n \<and> 0 < n \<and> n \<le> Ceiling))"
  by (auto simp: ParseReadinessBudget_def CheckDeclared_def split: option.splits sum.splits)

text \<open>A declaration is accepted exactly when its identifier and all dependency identifiers are
  well formed, its type is known, its capabilities have between 1 and 64 bytes, and each optional
  field that is present is usable: both limits are ones the cgroup parser accepts as effective,
  the schedule passes its check, the listen address ends in a port, and a declared readiness
  budget is a positive duration not above the ceiling.\<close>

theorem ValidateAgentDescribe_exact:
  "(ValidateAgentDescribe d = Inr ()) =
    ((\<forall>i\<in>set (ad_ID d # ad_Requires d @ ad_Wants d @ ad_WantedBy d @ ad_RequiredBy d).
        i \<noteq> [] \<and> (\<forall>c\<in>set i. id_char c)) \<and>
     ToLower (ad_Type d) \<in> set ValidAgentTypes \<and>
     (\<forall>c\<in>set (Capabilities d). 1 \<le> length c \<and> length c \<le> 64) \<and>
     (CPULimit d = [] \<or> TrimSpace (CPULimit d) \<noteq> [] \<and> is_ok (ParseResourceSpec (CPULimit d) [])) \<and>
     (MemoryLimit d = [] \<or> TrimSpace (MemoryLimit d) \<noteq> [] \<and> is_ok (ParseResourceSpec [] (MemoryLimit d))) \<and>
     (ad_Schedule d = [] \<or> ValidateSchedule (ad_Schedule d) = Inr ()) \<and>
     (ListenStream d = [] \<or> (\<exists>h p n. split_on CHR '':'' (TrimSpace (ListenStream d)) = [h, p] \<and>
        Atoi p = Some n \<and> 1 \<le> n \<and> n \<le> 65535)) \<and>
     (\<forall>s. ReadinessDecl d = Some s \<longrightarrow> (\<exists>n. ParseDuration s = Some n \<and> 0 < n \<and> n \<le> Ceiling)))"
proof -
  have "(ValidateAgentDescribe d = Inr ()) \<longleftrightarrow>
      (validateID (ad_ID d) = Inr () \<and> validateType (ad_Type d) = Inr () \<and>
       (\<forall>i\<in>set (ad_Requires d @ ad_Wants d @ ad_WantedBy d @ ad_RequiredBy d). validateID i = Inr ()) \<and>
       validateCapabilities (Capabilities d) = Inr () \<and>
       (CPULimit d = [] \<or> ValidateCPULimit (CPULimit d) = Inr ()) \<and>
       (MemoryLimit d = [] \<or> ValidateMemoryLimit (MemoryLimit d) = Inr ()) \<and>
       (ad_Schedule d = [] \<or> ValidateSchedule (ad_Schedule d) = Inr ()) \<and>
       (ListenStream d = [] \<or> validateListenStream (ListenStream d) = Inr ()) \<and>
       (\<exists>r. ParseReadinessBudget d = Inr r))"
    unfolding ValidateAgentDescribe_def
    by (simp add: bind_res_eq_Inr if_present_def validateDependencies_ok ball_Un)
  then show ?thesis
    unfolding validateID_ok validateType_ok validateCapabilities_ok ValidateCPULimit_ok
      ValidateMemoryLimit_ok validateListenStream_ok ParseReadinessBudget_ok
    by (cases "ReadinessDecl d") (simp_all add: ball_Un conj_ac)
qed

abbreviation ex_describe :: AgentDescribe where
  "ex_describe \<equiv> \<lparr>SchemaVersion = ''1.0.0'', ad_ID = ''web'', ad_Type = ''Service'', CPULimit = [],
     MemoryLimit = [], ad_Schedule = [], ListenStream = '':8080'', ad_Requires = [''db-1''], ad_Wants = [],
     ad_WantedBy = [], ad_RequiredBy = [], Capabilities = [''net''], Enabled = None, ReadinessDecl = Some ''30s''\<rparr>"

theorem ValidateAgentDescribe_exact_witness:
  "ToLower (ad_Type ex_describe) \<in> set ValidAgentTypes"
proof -
  have "ValidateAgentDescribe ex_describe = Inr ()" by code_simp
  with ValidateAgentDescribe_exact [of ex_describe] show ?thesis by blast
qed

end
