(* ===== verification/AgentRun.thy ===== *)
theory AgentRun
  imports RunnerSteps Schema
begin

text \<open>
  \<^verbatim>\<open>adk/go\<close> and \<^verbatim>\<open>adk/go/agent\<close>: the runtime inside an agent's process. What the agent's
  own functions answer, and whether \<^verbatim>\<open>Start\<close> returns or a signal comes first, are arguments; the
  frames written, in order, and the exit code are the result. The environment of a process is a list
  in which a later binding of a name wins.
\<close>

section \<open>Model\<close>

subsection \<open>The declaration\<close>

text \<open>A lifecycle function is absent, or present with what it returns.\<close>

type_synonym lifecycle_fn = "string option option"

record go_spec =
  gs_ID :: string
  gs_Name :: string
  gs_Type :: string
  gs_Version :: string
  gs_Description :: string
  gs_Enabled :: "bool option"
  gs_Requires :: "string list"
  gs_Wants :: "string list"
  gs_WantedBy :: "string list"
  gs_RequiredBy :: "string list"
  gs_Schedule :: string
  gs_ListenStream :: string
  gs_CPULimit :: string
  gs_MemoryLimit :: string
  gs_Capabilities :: "string list"
  gs_Start :: lifecycle_fn
  gs_Initialize :: lifecycle_fn
  gs_Stop :: lifecycle_fn
  gs_Reload :: lifecycle_fn
  gs_Restart :: lifecycle_fn

datatype register_panic = RegisteredTwice string string | EmptySpecID | NoStart string

definition register_spec :: "go_spec \<Rightarrow> go_spec option \<Rightarrow> (register_panic, go_spec option) result" where
  "register_spec s registered =
     (case registered of
        Some r \<Rightarrow> Inl (RegisteredTwice (gs_ID r) (gs_ID s))
      | None \<Rightarrow> if gs_ID s = [] then Inl EmptySpecID
                else if gs_Start s = None then Inl (NoStart (gs_ID s)) else Inr (Some s))"

fun add_caps :: "string list \<Rightarrow> string list \<Rightarrow> string list \<Rightarrow> string list" where
  "add_caps caps seen [] = caps"
| "add_caps caps seen (c # cs) =
     (if c \<noteq> [] \<and> c \<notin> set seen then add_caps (caps @ [c]) (c # seen) cs else add_caps caps seen cs)"

definition lifecycle_caps :: "go_spec \<Rightarrow> string list" where
  "lifecycle_caps s = map fst (filter snd
     [(''initialize'', gs_Initialize s \<noteq> None), (''start'', gs_Start s \<noteq> None), (''stop'', gs_Stop s \<noteq> None),
      (''reload'', gs_Reload s \<noteq> None), (''restart'', gs_Restart s \<noteq> None)])"

definition spec_capabilities :: "go_spec \<Rightarrow> string list" where
  "spec_capabilities s = add_caps (lifecycle_caps s) (lifecycle_caps s) (gs_Capabilities s)"

record describe_payload =
  dp_declared :: AgentDescribe
  dp_Name :: string
  dp_Version :: string
  dp_Language :: string
  dp_Description :: string

text \<open>What discovery decodes of the payload, and the fields it does not read. The declaration has no
  readiness budget.\<close>

definition spec_describe :: "go_spec \<Rightarrow> describe_payload" where
  "spec_describe s =
     \<lparr>dp_declared = \<lparr>SchemaVersion = ''1.0.0'', ad_ID = gs_ID s, ad_Type = gs_Type s, CPULimit = gs_CPULimit s,
        MemoryLimit = gs_MemoryLimit s, ad_Schedule = gs_Schedule s, ListenStream = gs_ListenStream s,
        ad_Requires = gs_Requires s, ad_Wants = gs_Wants s, ad_WantedBy = gs_WantedBy s, ad_RequiredBy = gs_RequiredBy s,
        Capabilities = spec_capabilities s,
        Enabled = Some (case gs_Enabled s of None \<Rightarrow> True | Some b \<Rightarrow> b), ReadinessDecl = None\<rparr>,
      dp_Name = (if gs_Name s = [] then gs_ID s else gs_Name s), dp_Version = gs_Version s, dp_Language = ''go'',
      dp_Description = gs_Description s\<rparr>"

subsection \<open>The environment\<close>

type_synonym environ = "(string \<times> string) list"

definition LookupEnv :: "environ \<Rightarrow> string \<Rightarrow> string option" where
  "LookupEnv e k = map_of (rev e) k"

definition Getenv :: "environ \<Rightarrow> string \<Rightarrow> string" where
  "Getenv e k = (case LookupEnv e k of None \<Rightarrow> [] | Some v \<Rightarrow> v)"

datatype control_error = ControlUnset | ControlNotNumber string | ControlNegative int

record control =
  c_fd :: int
  c_id :: string
  c_runID :: string

definition newControl :: "environ \<Rightarrow> string \<Rightarrow> (control_error, control) result" where
  "newControl e i =
     (case LookupEnv e ''ADK_CONTROL_FD'' of
        None \<Rightarrow> Inl ControlUnset
      | Some raw \<Rightarrow> (case ParseInt64 raw of
          None \<Rightarrow> Inl (ControlNotNumber raw)
        | Some fd \<Rightarrow> if fd < 0 then Inl (ControlNegative fd)
            else Inr \<lparr>c_fd = fd, c_id = i, c_runID = Getenv e ''ADK_RUN_ID''\<rparr>))"

definition openControl :: "environ \<Rightarrow> int option \<Rightarrow> (control_error, int) result" where
  "openControl e cached =
     (case cached of Some fd \<Rightarrow> Inr fd
      | None \<Rightarrow> (case LookupEnv e ''ADK_CONTROL_FD'' of
          None \<Rightarrow> Inl ControlUnset
        | Some raw \<Rightarrow> (case ParseInt64 raw of
            None \<Rightarrow> Inl (ControlNotNumber raw)
          | Some fd \<Rightarrow> if fd < 0 then Inl (ControlNotNumber raw) else Inr fd)))"

definition status_frame :: "string \<Rightarrow> string \<Rightarrow> string \<Rightarrow> frame" where
  "status_frame rid state message =
     \<lparr>schema_version = 1, frame_arm = StatusArm \<lparr>fs_state = state, fs_message = message, fs_run = rid\<rparr>\<rparr>"

definition SendEvent :: "environ \<Rightarrow> string \<Rightarrow> string \<Rightarrow> frame" where
  "SendEvent e state message = status_frame (Getenv e ''ADK_RUN_ID'') (ToUpper (TrimSpace state)) message"

definition heartbeat_frame :: "environ \<Rightarrow> string \<Rightarrow> frame" where
  "heartbeat_frame e i = \<lparr>schema_version = 1, frame_arm = HeartbeatArm \<lparr>hb_agent = i, hb_run = Getenv e ''ADK_RUN_ID''\<rparr>\<rparr>"

datatype fd_error = NoInheritedListener | ListenFDsNotNumber string | ListenPIDBad string | NoSuchListener int int

definition listenFDs :: "environ \<Rightarrow> int \<Rightarrow> (fd_error, int) result" where
  "listenFDs e pid =
     (case LookupEnv e ''LISTEN_FDS'' of
        None \<Rightarrow> Inl NoInheritedListener
      | Some raw \<Rightarrow> (case ParseInt64 raw of
          None \<Rightarrow> Inl (ListenFDsNotNumber raw)
        | Some n \<Rightarrow>
          if n < 1 then Inl NoInheritedListener
          else (case LookupEnv e ''LISTEN_PID'' of
              None \<Rightarrow> Inr n
            | Some p \<Rightarrow> if p = ''self'' then Inr n
                else (case ParseInt64 p of None \<Rightarrow> Inl (ListenPIDBad p)
                  | Some want \<Rightarrow> if want \<noteq> pid then Inl NoInheritedListener else Inr n))))"

text \<open>The descriptor of listener \<open>i\<close>.\<close>

definition listenerAt :: "environ \<Rightarrow> int \<Rightarrow> int \<Rightarrow> (fd_error, int) result" where
  "listenerAt e pid i = bind_res (listenFDs e pid) (\<lambda>n. if i < 0 \<or> i \<ge> n then Inl (NoSuchListener i n) else Inr (3 + i))"

subsection \<open>Running\<close>

datatype awaited = StartReturned "string option" | SignalCame

record sup_answers =
  early :: "string option option"
  later :: awaited

definition invoke_fn :: "lifecycle_fn \<Rightarrow> int" where
  "invoke_fn f = (case f of Some (Some e) \<Rightarrow> 1 | _ \<Rightarrow> 0)"

definition failed :: "lifecycle_fn \<Rightarrow> string option" where
  "failed f = (case f of None \<Rightarrow> None | Some r \<Rightarrow> r)"

definition agent_finish :: "string \<Rightarrow> go_spec \<Rightarrow> string option \<Rightarrow> frame list \<times> int" where
  "agent_finish rid s err =
     (case err of
        Some e \<Rightarrow> ([status_frame rid ''FAILED'' e], 1)
      | None \<Rightarrow> (case failed (gs_Stop s) of
          Some e \<Rightarrow> ([status_frame rid ''FAILED'' (''stop: '' @ e)], 1)
        | None \<Rightarrow> ([status_frame rid ''STOPPED'' ''agent stopped''], 0)))"

definition supervised :: "string \<Rightarrow> go_spec \<Rightarrow> sup_answers \<Rightarrow> frame list \<times> int" where
  "supervised rid s an =
     (let f0 = status_frame rid ''PENDING'' ''agent starting'' in
      case failed (gs_Initialize s) of
        Some e \<Rightarrow> ([f0, status_frame rid ''FAILED'' (''initialize: '' @ e)], 1)
      | None \<Rightarrow>
        (case early an of
           Some r \<Rightarrow> (case agent_finish rid s r of (fs, c) \<Rightarrow> (f0 # fs, c))
         | None \<Rightarrow>
           let f1 = status_frame rid ''RUNNING'' ''agent reported ready'' in
           (case later an of
              StartReturned r \<Rightarrow> (case agent_finish rid s r of (fs, c) \<Rightarrow> (f0 # f1 # fs, c))
            | SignalCame \<Rightarrow>
              let f2 = status_frame rid ''PENDING'' ''agent stopping'' in
              (case failed (gs_Stop s) of
                 Some e \<Rightarrow> ([f0, f1, f2, status_frame rid ''FAILED'' (''stop: '' @ e)], 1)
               | None \<Rightarrow> ([f0, f1, f2, status_frame rid ''STOPPED'' ''agent stopped''], 0)))))"

definition fire :: "go_spec \<Rightarrow> int" where
  "fire s = (if invoke_fn (gs_Initialize s) \<noteq> 0 then invoke_fn (gs_Initialize s) else invoke_fn (gs_Start s))"

datatype verb = Describe_v | Start_v | Stop_v | Reload_v | Restart_v | Provenance_v

definition verb_names :: "(string \<times> verb) list" where
  "verb_names = [(''describe'', Describe_v), (''start'', Start_v), (''stop'', Stop_v), (''reload'', Reload_v),
     (''restart'', Restart_v), (''provenance'', Provenance_v)]"

definition ParseBool :: "string \<Rightarrow> bool option" where
  "ParseBool s = (if s \<in> {''1'', ''t'', ''T'', ''TRUE'', ''true'', ''True''} then Some True
     else if s \<in> {''0'', ''f'', ''F'', ''FALSE'', ''false'', ''False''} then Some False else None)"

text \<open>\<^verbatim>\<open>FlagSet.Parse\<close> for flags that are all boolean; the value is the set of flags that are on.\<close>

fun parse_flags :: "string list \<Rightarrow> verb set \<Rightarrow> verb set option" where
  "parse_flags [] on = Some on"
| "parse_flags (arg # args) on =
     (if length arg < 2 \<or> hd arg \<noteq> CHR ''-'' then Some on
      else let dashes = (if arg ! 1 = CHR ''-'' then 2 else 1); name = drop dashes arg in
        if dashes = 2 \<and> length arg = 2 then Some on
        else if name = [] \<or> hd name = CHR ''-'' \<or> hd name = CHR ''='' then None
        else let (flag, val) = (case cut_at (CHR ''='') name of None \<Rightarrow> (name, None) | Some (a, b) \<Rightarrow> (a, Some b)) in
          (case map_of verb_names flag of
             None \<Rightarrow> None
           | Some v \<Rightarrow>
             (case (case val of None \<Rightarrow> Some True | Some s \<Rightarrow> ParseBool s) of
                None \<Rightarrow> None
              | Some b \<Rightarrow> parse_flags args (if b then insert v on else on - {v}))))"

datatype agent_output = NoOutput | DescribeOut describe_payload | ProvenanceOut string | Frames "frame list"

definition agent_run :: "go_spec option \<Rightarrow> string \<Rightarrow> environ \<Rightarrow> sup_answers \<Rightarrow> string list \<Rightarrow> agent_output \<times> int" where
  "agent_run registered sourceHash e an args =
     (case registered of
        None \<Rightarrow> (NoOutput, 1)
      | Some s \<Rightarrow>
        (case parse_flags args {} of
           None \<Rightarrow> (NoOutput, 2)
         | Some on \<Rightarrow>
           if Describe_v \<in> on then (DescribeOut (spec_describe s), 0)
           else if Provenance_v \<in> on then (if sourceHash = [] then (NoOutput, 1) else (ProvenanceOut sourceHash, 0))
           else if Start_v \<in> on then
             (case newControl e (gs_ID s) of Inl _ \<Rightarrow> (NoOutput, 1)
              | Inr c \<Rightarrow> (case supervised (c_runID c) s an of (fs, code) \<Rightarrow> (Frames fs, code)))
           else if Stop_v \<in> on then (NoOutput, invoke_fn (gs_Stop s))
           else if Reload_v \<in> on then (NoOutput, invoke_fn (gs_Reload s))
           else if Restart_v \<in> on then (NoOutput, invoke_fn (gs_Restart s))
           else (NoOutput, fire s)))"

subsection \<open>The string channel of the bindings\<close>

record string_chan =
  ch_queue :: "string list"
  ch_done :: bool

definition NewChannelManager :: string_chan where "NewChannelManager = \<lparr>ch_queue = [], ch_done = False\<rparr>"

text \<open>A send to a full channel waits with the mutex held; it has no result until somebody receives.\<close>

definition ch_Send :: "string \<Rightarrow> string_chan \<Rightarrow> string_chan option" where
  "ch_Send msg c = (if ch_done c then Some c
     else if length (ch_queue c) < 100 then Some (c \<lparr>ch_queue := ch_queue c @ [msg]\<rparr>) else None)"

definition ch_Receive :: "string_chan \<Rightarrow> (string, string) result \<times> string_chan" where
  "ch_Receive c = (case ch_queue c of
     m # ms \<Rightarrow> (Inr m, c \<lparr>ch_queue := ms\<rparr>)
   | [] \<Rightarrow> (Inl (if ch_done c then ''channel closed'' else ''timeout''), c))"

definition ch_Close :: "string_chan \<Rightarrow> string_chan" where
  "ch_Close c = c \<lparr>ch_done := True\<rparr>"

section \<open>The descriptors\<close>

lemma LookupEnv_append: "LookupEnv (e @ e') k = (case LookupEnv e' k of None \<Rightarrow> LookupEnv e k | Some v \<Rightarrow> Some v)"
  by (simp add: LookupEnv_def map_add_def split: option.split)

lemma small_numbers: "ParseInt64 (Itoa 3) = Some 3" "ParseInt64 (Itoa 4) = Some 4" "ParseInt64 (Itoa 1) = Some 1"
  by (simp_all add: ParseInt_Itoa)

text \<open>C20: A process started by the supervisor finds its control channel and its socket where the
  supervisor put them: the descriptor it is told of is the write end, it reads the identifier of its
  run, and it sees one socket, on descriptor 3, when there is one, and none otherwise, whatever
  activation the daemon's own environment describes for another process.\<close>

theorem descriptors_found:
  assumes "c = go_child sp rid socket \<or> c = py_child sp rid socket" "rid \<noteq> []"
    and "LookupEnv base ''LISTEN_FDS'' \<noteq> None \<longrightarrow> (\<exists>p. LookupEnv base ''LISTEN_PID'' = Some (Itoa p) \<and> p \<noteq> pid \<and> 0 < p \<and> p < 2 ^ 63)"
  shows "\<exists>ctl. newControl (base @ env c) i = Inr ctl \<and> extraFiles c ! nat (c_fd ctl - 3) = ControlWriteEnd \<and>
    3 \<le> c_fd ctl \<and> c_fd ctl < 3 + int (length (extraFiles c)) \<and> c_runID ctl = rid \<and>
    (if socket then listenerAt (base @ env c) pid 0 = Inr 3 \<and> extraFiles c ! 0 = ListenerFile
     else \<exists>e. listenFDs (base @ env c) pid = Inl e)"
proof -
  obtain own where e: "env c = child_env rid own (if socket then 1 else 0)"
    and own: "\<forall>k \<in> fst ` set own. k \<notin> {''ADK_CONTROL_FD'', ''ADK_RUN_ID'', ''LISTEN_FDS'', ''LISTEN_PID''}"
    and f: "extraFiles c = (if socket then [ListenerFile] else []) @ [ControlWriteEnd]"
    using assms(1)
  proof
    assume "c = go_child sp rid socket"
    then show ?thesis by (intro that [of "[]"]) (simp_all add: go_child_def Let_def)
  next
    assume "c = py_child sp rid socket"
    then show ?thesis
      by (intro that [of "if sp_production sp then [(''ADK_REJECT_DUMMY'', ''1'')] else []"]) (auto simp: py_child_def Let_def)
  qed
  have o: "map_of (rev own) k = None" if "k \<in> {''ADK_CONTROL_FD'', ''ADK_RUN_ID'', ''LISTEN_FDS'', ''LISTEN_PID''}" for k
    using own that by (auto simp: map_of_eq_None_iff)
  show ?thesis
  proof (cases socket)
    case True
    then show ?thesis
      by (auto simp: e f newControl_def LookupEnv_append Getenv_def child_env_def LookupEnv_def o assms(2) small_numbers
          listenerAt_def listenFDs_def map_add_def)
  next
    case False
    have "\<exists>er. listenFDs (base @ env c) pid = Inl er"
    proof (cases "LookupEnv base ''LISTEN_FDS''")
      case None
      with False show ?thesis by (simp add: e listenFDs_def LookupEnv_append LookupEnv_def child_env_def o assms(2) map_add_def)
    next
      case (Some raw)
      with assms(3) obtain p where p: "LookupEnv base ''LISTEN_PID'' = Some (Itoa p)" "p \<noteq> pid" "0 < p" "p < 2 ^ 63" by auto
      have l: "LookupEnv (base @ env c) ''LISTEN_FDS'' = Some raw" "LookupEnv (base @ env c) ''LISTEN_PID'' = Some (Itoa p)"
        using False Some p(1) by (simp_all add: e LookupEnv_append LookupEnv_def child_env_def o assms(2) map_add_def)
      have "ParseInt64 (Itoa p) = Some p" using p by (intro ParseInt_Itoa) simp_all
      moreover have "Itoa p \<noteq> ''self''"
      proof
        assume "Itoa p = ''self''"
        with \<open>ParseInt64 (Itoa p) = Some p\<close> have "ParseInt64 ''self'' = Some p" by simp
        moreover have "ParseInt64 ''self'' = None" by code_simp
        ultimately show False by simp
      qed
      ultimately show ?thesis using l p(2) by (auto simp: listenFDs_def split: option.split)
    qed
    with False show ?thesis
      by (auto simp: e f newControl_def LookupEnv_append Getenv_def child_env_def LookupEnv_def o assms(2) small_numbers map_add_def)
  qed
qed


theorem descriptors_found_witness:
  "\<exists>ctl. newControl ([(''LISTEN_FDS'', ''2''), (''LISTEN_PID'', Itoa 7)] @ env (go_child ex_spec ''r1'' True)) ''a'' = Inr ctl \<and>
     c_runID ctl = ''r1''"
proof -
  have "LookupEnv [(''LISTEN_FDS'', ''2''), (''LISTEN_PID'', Itoa 7)] ''LISTEN_PID'' = Some (Itoa 7)"
    by (simp add: LookupEnv_def)
  then show ?thesis
    using descriptors_found [of "go_child ex_spec ''r1'' True" ex_spec "''r1''" True
        "[(''LISTEN_FDS'', ''2''), (''LISTEN_PID'', Itoa 7)]" 9 "''a''"]
    by (simp only: refl simp_thms list.distinct if_True) force
qed

section \<open>The word of an agent\<close>

lemma judge_status_frame: "st \<noteq> [] \<Longrightarrow> judge (status_frame rid st m) = Inr [NoteAnnounced st rid, PublishStatus st m rid]"
  by (simp add: judge_def status_frame_def controlSchemaVersion_def)

lemma supervised_word:
  "(\<forall>f \<in> set (fst (supervised rid s an)). is_ok (judge f)) \<and>
   last_word (fst (supervised rid s an)) = (if snd (supervised rid s an) = 0 then ''STOPPED'' else ''FAILED'', rid)"
  by (simp add: supervised_def agent_finish_def last_word_def status_of_frame_def judge_status_frame Let_def
      split: option.split awaited.split)

text \<open>C19: A supervised agent always has the last word on its own end: whatever its functions answer
  and whenever the signal comes, every frame it writes is acceptable to the reader, the last state it
  announces is terminal, under the identifier of its run, and it is \<^verbatim>\<open>STOPPED\<close> exactly when
  the process exits with code 0.\<close>

theorem supervised_announces_exit:
  "filter refused (fst (supervised rid s an)) = [] \<and>
   last_word (fst (supervised rid s an)) = (if snd (supervised rid s an) = 0 then ''STOPPED'' else ''FAILED'', rid)"
  using supervised_word [of rid s an] by (simp add: refused_def filter_empty_conv)

text \<open>C9: The agent's side and the supervisor's side agree: when all that a supervised agent wrote
  under its run's identifier has been read, its exit is not reported a second time as unexpected,
  whether it ended well or badly.\<close>

theorem supervised_exit_not_reported:
  assumes "rreachable True sp w" "p_watch (procs w r) = Drained" "map_option fst (a_cmd (r_ag w)) = Some r" "\<not> stopping (r_ag w)"
    and "p_read (procs w r) = fst (supervised (p_rid (procs w r)) s an)"
  shows "published (exit_watcher sp r (p_rid (procs w r)) (r_ag w)) = published (r_ag w)"
proof -
  from drained_word [OF assms(1, 2)] supervised_word [of "p_rid (procs w r)" s an]
  have "announcedOwnExit (p_rid (procs w r)) (marks (r_ag w))"
    by (simp add: announcedOwnExit_def terminalAnnouncedStates_def marks_word_def assms(5) split: if_splits)
  with assms(3, 4) show ?thesis by (simp add: exit_watcher_def)
qed

text \<open>An agent whose \<^verbatim>\<open>Start\<close> returns at once.\<close>

definition ex_go_spec :: go_spec where
  "ex_go_spec = \<lparr>gs_ID = ''a'', gs_Name = [], gs_Type = ''service'', gs_Version = ''1'', gs_Description = [], gs_Enabled = None,
     gs_Requires = [], gs_Wants = [], gs_WantedBy = [], gs_RequiredBy = [], gs_Schedule = [], gs_ListenStream = [],
     gs_CPULimit = [], gs_MemoryLimit = [], gs_Capabilities = [], gs_Start = Some None, gs_Initialize = None, gs_Stop = None,
     gs_Reload = None, gs_Restart = None\<rparr>"

definition ex_frames :: "frame list" where
  "ex_frames = [status_frame ''r1'' ''PENDING'' ''agent starting'', status_frame ''r1'' ''STOPPED'' ''agent stopped'']"

definition ex_told :: rworld where
  "ex_told = set_watch 0 Drained (leave_once 0 0 (set_watch 0 Joined (set_once Busy (set_watch 0 (InOnce 0 0)
     (upd_proc 0 (\<lambda>p. p \<lparr>p_eof := True\<rparr>) (upd_proc 0 (\<lambda>p. p \<lparr>p_alive := False\<rparr>)
       (read_frame 0 5 (ex_frames ! 1) [] (read_frame 0 4 (ex_frames ! 0) [ex_frames ! 1]
         (upd_proc 0 (\<lambda>p. p \<lparr>p_pending := p_pending p @ [ex_frames ! 1]\<rparr>)
           (upd_proc 0 (\<lambda>p. p \<lparr>p_pending := p_pending p @ [ex_frames ! 0]\<rparr>) ex_started))))))))))"

lemma ex_judge: "judge (ex_frames ! 0) = Inr [NoteAnnounced ''PENDING'' ''r1'', PublishStatus ''PENDING'' ''agent starting'' ''r1'']"
  "judge (ex_frames ! 1) = Inr [NoteAnnounced ''STOPPED'' ''r1'', PublishStatus ''STOPPED'' ''agent stopped'' ''r1'']"
  "judge (ex_frames ! Suc 0) = Inr [NoteAnnounced ''STOPPED'' ''r1'', PublishStatus ''STOPPED'' ''agent stopped'' ''r1'']"
  by (simp_all add: ex_frames_def judge_status_frame)

lemma ex_told_reachable: "rreachable True ex_spec ex_told"
proof -
  define w1 where "w1 = upd_proc 0 (\<lambda>p. p \<lparr>p_pending := p_pending p @ [ex_frames ! 0]\<rparr>) ex_started"
  define w2 where "w2 = upd_proc 0 (\<lambda>p. p \<lparr>p_pending := p_pending p @ [ex_frames ! 1]\<rparr>) w1"
  define w3 where "w3 = read_frame 0 4 (ex_frames ! 0) [ex_frames ! 1] w2"
  define w4 where "w4 = read_frame 0 5 (ex_frames ! 1) [] w3"
  define w5 where "w5 = upd_proc 0 (\<lambda>p. p \<lparr>p_alive := False\<rparr>) w4"
  define w6 where "w6 = upd_proc 0 (\<lambda>p. p \<lparr>p_eof := True\<rparr>) w5"
  define w7 where "w7 = set_once Busy (set_watch 0 (InOnce 0 0) w6)"
  define w8 where "w8 = leave_once 0 0 (set_watch 0 Joined w7)"
  have p0: "procs ex_started 0 = new_proc ''r1''" "waitOnce (r_ag ex_started) = (0, Fresh)" "\<not> crashed ex_started"
    by (simp_all add: ex_started_def initial_rworld_def ex_runs(2))
  have r: "rreachable True ex_spec ex_started" by (rule ex_started_reachable)
  note up = upd_proc_def new_proc_def read_frame_def Let_def ex_judge maxBadControlFrames_def
  have "rstep True ex_spec ex_started w1" unfolding w1_def by (rule rstep.agent_writes) (simp add: p0 new_proc_def)
  from rreachable.rnext [OF r this p0(3)] have r: "rreachable True ex_spec w1" .
  have p1: "procs w1 0 = (new_proc ''r1'') \<lparr>p_pending := [ex_frames ! 0]\<rparr>" "waitOnce (r_ag w1) = (0, Fresh)" "\<not> crashed w1"
    using p0 by (simp_all add: w1_def up)
  have "rstep True ex_spec w1 w2" unfolding w2_def by (rule rstep.agent_writes) (simp add: p1 new_proc_def)
  from rreachable.rnext [OF r this p1(3)] have r: "rreachable True ex_spec w2" .
  have p2: "procs w2 0 = (new_proc ''r1'') \<lparr>p_pending := [ex_frames ! 0, ex_frames ! 1]\<rparr>" "waitOnce (r_ag w2) = (0, Fresh)" "\<not> crashed w2"
    using p1 by (simp_all add: w2_def up)
  have "rstep True ex_spec w2 w3" unfolding w3_def by (rule rstep.reader_reads) (simp_all add: p2 new_proc_def)
  from rreachable.rnext [OF r this p2(3)] have r: "rreachable True ex_spec w3" .
  have p3: "procs w3 0 = (new_proc ''r1'') \<lparr>p_pending := [ex_frames ! 1], p_read := [ex_frames ! 0]\<rparr>"
    "waitOnce (r_ag w3) = (0, Fresh)" "\<not> crashed w3"
    using p2 by (simp_all add: w3_def up)
  have "rstep True ex_spec w3 w4" unfolding w4_def by (rule rstep.reader_reads) (simp_all add: p3 new_proc_def)
  from rreachable.rnext [OF r this p3(3)] have r: "rreachable True ex_spec w4" .
  have p4: "procs w4 0 = (new_proc ''r1'') \<lparr>p_read := [ex_frames ! 0, ex_frames ! 1]\<rparr>"
    "waitOnce (r_ag w4) = (0, Fresh)" "\<not> crashed w4"
    using p3 by (simp_all add: w4_def up)
  have "rstep True ex_spec w4 w5" unfolding w5_def by (rule rstep.agent_exits) (simp add: p4 new_proc_def)
  from rreachable.rnext [OF r this p4(3)] have r: "rreachable True ex_spec w5" .
  have p5: "\<not> p_alive (procs w5 0)" "p_pending (procs w5 0) = []" "\<not> p_eof (procs w5 0)" "p_watch (procs w5 0) = AtOnce"
    "waitOnce (r_ag w5) = (0, Fresh)" "\<not> crashed w5"
    using p4 by (simp_all add: w5_def up)
  have "rstep True ex_spec w5 w6" unfolding w6_def by (rule rstep.reader_ends) (simp_all add: p5)
  from rreachable.rnext [OF r this p5(6)] have r: "rreachable True ex_spec w6" .
  have p6: "\<not> p_alive (procs w6 0)" "p_eof (procs w6 0)" "p_watch (procs w6 0) = AtOnce" "waitOnce (r_ag w6) = (0, Fresh)" "\<not> crashed w6"
    using p5 by (simp_all add: w6_def up)
  have "rstep True ex_spec w6 w7" unfolding w7_def by (rule rstep.watch_enter) (simp_all add: p6)
  from rreachable.rnext [OF r this p6(5)] have r: "rreachable True ex_spec w7" .
  have p7: "\<not> p_alive (procs w7 0)" "p_eof (procs w7 0)" "p_watch (procs w7 0) = InOnce 0 0" "fst (waitOnce (r_ag w7)) = 0" "\<not> crashed w7"
    using p6 by (simp_all add: w7_def up set_once_def set_watch_def)
  have "rstep True ex_spec w7 w8" unfolding w8_def by (rule rstep.watch_wait) (simp_all add: p7 wait_returns_def)
  from rreachable.rnext [OF r this p7(5)] have r: "rreachable True ex_spec w8" .
  have p8: "p_eof (procs w8 0)" "p_watch (procs w8 0) = Joined" "\<not> crashed w8"
    using p7 by (simp_all add: w8_def up set_once_def set_watch_def leave_once_def)
  have "rstep True ex_spec w8 (set_watch 0 Drained w8)" by (rule rstep.watch_drain) (simp_all add: p8)
  from rreachable.rnext [OF r this p8(3)] show ?thesis
    by (simp only: ex_told_def w1_def w2_def w3_def w4_def w5_def w6_def w7_def w8_def)
qed

lemma ex_told_facts:
  "p_watch (procs ex_told 0) = Drained" "p_read (procs ex_told 0) = ex_frames" "p_rid (procs ex_told 0) = ''r1''"
  "a_cmd (r_ag ex_told) = Some (0, True)" "\<not> stopping (r_ag ex_told)" "length (published (r_ag ex_told)) = 1"
proof -
  note d = ex_told_def set_watch_def upd_proc_def leave_once_def set_once_def read_frame_def Let_def ex_judge ex_started_def
    initial_rworld_def new_proc_def ex_runs maxBadControlFrames_def
  show "p_watch (procs ex_told 0) = Drained" "p_rid (procs ex_told 0) = ''r1''"
    "a_cmd (r_ag ex_told) = Some (0, True)" "\<not> stopping (r_ag ex_told)" by (simp_all add: d)
  show "p_read (procs ex_told 0) = ex_frames" by (simp add: d) (simp add: ex_frames_def)
  have "length (published ex_a1) = 1" by code_simp
  then show "length (published (r_ag ex_told)) = 1" by (simp add: d)
qed

theorem supervised_exit_not_reported_witness:
  "length (published (exit_watcher ex_spec 0 ''r1'' (r_ag ex_told))) = 1"
proof -
  have "fst (supervised ''r1'' ex_go_spec \<lparr>early = Some None, later = SignalCame\<rparr>) = ex_frames" by code_simp
  with supervised_exit_not_reported [OF ex_told_reachable ex_told_facts(1), of ex_go_spec "\<lparr>early = Some None, later = SignalCame\<rparr>"]
  show ?thesis by (simp add: ex_told_facts)
qed

end
