(* ===== verification/PyRunner.thy ===== *)
theory PyRunner
  imports Runner
begin

text \<open>
  \<^verbatim>\<open>core/agentmgr/python_agent.go\<close> and the halves of \<^verbatim>\<open>adopted.go\<close>,
  \<^verbatim>\<open>checkpoint.go\<close> and \<^verbatim>\<open>control_channel.go\<close> that belong to \<^verbatim>\<open>PythonAgent\<close>. The
  program writes every operation twice, once for each runner, and its comments promise that the two
  agree; here they are translated from the Python side, and shown to be the operations of
  \<open>Runner\<close>, so that what holds of those holds of these.
\<close>

section \<open>Model\<close>

definition py_publishStatusWithRunID :: "string \<Rightarrow> string \<Rightarrow> string \<Rightarrow> runner \<Rightarrow> runner" where
  "py_publishStatusWithRunID state message rid a = a \<lparr>published := published a @ [(ToUpper state, message, rid)]\<rparr>"

definition py_publishStatus :: "string \<Rightarrow> string \<Rightarrow> runner \<Rightarrow> runner" where
  "py_publishStatus state message a = py_publishStatusWithRunID state message (nextRunID a) a"

definition py_SetRunID :: "string \<Rightarrow> runner \<Rightarrow> runner" where
  "py_SetRunID i a = a \<lparr>nextRunID := i\<rparr>"

definition py_Uptime :: "int \<Rightarrow> runner \<Rightarrow> int" where
  "py_Uptime now a = (if startTime a = None then 0 else now - the (startTime a))"

definition py_Pid :: "(nat \<Rightarrow> int) \<Rightarrow> runner \<Rightarrow> int option" where
  "py_Pid pid_of a =
     (case a_cmd a of
        None \<Rightarrow> if adoptedPid a \<noteq> 0 then Some (adoptedPid a) else None
      | Some (r, has_process) \<Rightarrow>
        if \<not> has_process then (if adoptedPid a \<noteq> 0 then Some (adoptedPid a) else None) else Some (pid_of r))"

definition py_cleanupAfterExit :: "spec \<Rightarrow> runner \<Rightarrow> runner" where
  "py_cleanupAfterExit sp a =
     (let a1 = (if sp_cpu sp \<noteq> [] \<or> sp_mem sp \<noteq> [] then a \<lparr>in_cgroup := False\<rparr> else a)
      in a1 \<lparr>streams := False, a_cmd := None, startTime := None\<rparr>)"

definition py_ensureListener :: "spec \<Rightarrow> bool \<Rightarrow> bool \<Rightarrow> runner \<Rightarrow> (listen_error, bool) result \<times> runner" where
  "py_ensureListener sp bind file a =
     (if sp_listen sp = [] then (Inr False, a)
      else if listening a then (if file then Inr True else Inl NoListenerFile, a)
      else
        let network = (if HasPrefix (sp_listen sp) ''/'' \<or> HasPrefix (sp_listen sp) ''@'' then ''unix'' else ''tcp'');
            addr = (if \<not> Contains (sp_listen sp) '':'' \<and> network = ''tcp'' then '':'' @ sp_listen sp else sp_listen sp)
        in if \<not> bind then (Inl (BindFailed addr), a)
           else (if file then Inr True else Inl NoListenerFile, a \<lparr>listening := True\<rparr>))"

definition py_arm :: "spec \<Rightarrow> bool \<Rightarrow> bool \<Rightarrow> runner \<Rightarrow> arm_error option \<times> runner" where
  "py_arm sp bind file a =
     (if watching a then (None, a)
      else if \<not> hasHandler a then (Some NoTrafficHandler, a)
      else case py_ensureListener sp bind file a of
        (Inl e, a1) \<Rightarrow> (Some (ArmListen e), a1)
      | (Inr _, a1) \<Rightarrow> (None, a1 \<lparr>watching := True\<rparr>))"

definition py_watch_traffic :: "runner \<Rightarrow> bool \<times> runner" where
  "py_watch_traffic a = (hasHandler a, if watching a then a \<lparr>watching := False\<rparr> else a)"

definition py_announcedOwnExit :: "string \<Rightarrow> announced \<Rightarrow> bool" where
  "py_announcedOwnExit runID a \<longleftrightarrow> announcedRunID a = runID \<and> announcedState a \<in> terminalAnnouncedStates"

definition py_noteAnnouncedState :: "string \<Rightarrow> string \<Rightarrow> announced \<Rightarrow> announced" where
  "py_noteAnnouncedState state runID a = a \<lparr>announcedState := state, announcedRunID := runID\<rparr>"

definition py_noteFrameSeen :: "int \<Rightarrow> announced \<Rightarrow> announced" where
  "py_noteFrameSeen now a = (if spoke a then a else a \<lparr>spoke := True, firstFrameAt := now\<rparr>)"

definition py_HasSpoken :: "announced \<Rightarrow> bool" where "py_HasSpoken a = spoke a"

definition py_FirstFrameLatency :: "announced \<Rightarrow> int" where
  "py_FirstFrameLatency a = (if \<not> spoke a \<or> spawnedAt a = None then 0 else firstFrameAt a - the (spawnedAt a))"

definition py_oneshot_end :: "spec \<Rightarrow> string \<Rightarrow> bool \<Rightarrow> runner \<Rightarrow> run_error option \<times> runner" where
  "py_oneshot_end sp rid ok a =
     (if \<not> ok then (Some OneshotFailed, py_cleanupAfterExit sp (py_publishStatusWithRunID ''FAILED'' ''oneshot failed'' rid a))
      else (None, py_cleanupAfterExit sp (py_publishStatusWithRunID ''COMPLETED'' ''oneshot success'' rid a)))"

definition py_exit_watcher :: "spec \<Rightarrow> nat \<Rightarrow> string \<Rightarrow> runner \<Rightarrow> runner" where
  "py_exit_watcher sp r rid a =
     (if stopping a \<or> map_option fst (a_cmd a) \<noteq> Some r then a
      else if py_announcedOwnExit rid (marks a) then py_cleanupAfterExit sp a
      else py_cleanupAfterExit sp (py_publishStatusWithRunID ''FAILED'' ''process exited unexpectedly'' rid a))"

definition py_Stop_begin :: "runner \<Rightarrow> stop_begun \<times> runner" where
  "py_Stop_begin a =
     (if \<not> running a then
        (if adoptedPid a \<noteq> 0
         then (StopAdopted (adoptedPid a) (adoptedEpoch a) (nextRunID a), a \<lparr>adoptedWatch := None, stopping := True\<rparr>)
         else (NothingToStop, a \<lparr>adoptedWatch := None\<rparr>))
      else (StopChild (fst (the (a_cmd a))) (nextRunID a), a \<lparr>stopping := True\<rparr>))"

definition py_rearm :: "spec \<Rightarrow> bool \<Rightarrow> bool \<Rightarrow> runner \<Rightarrow> runner" where
  "py_rearm sp bind file a = (if sp_listen sp \<noteq> [] \<and> hasHandler a then snd (py_arm sp bind file a) else a)"

definition py_Stop_end :: "spec \<Rightarrow> string \<Rightarrow> child_exit option \<Rightarrow> bool \<Rightarrow> bool \<Rightarrow> runner \<Rightarrow> run_error option \<times> runner" where
  "py_Stop_end sp rid done bind file a =
     (case done of
        Some e \<Rightarrow> (ignoreStopSignalExit e,
          py_rearm sp bind file (py_cleanupAfterExit sp (py_publishStatusWithRunID ''STOPPED'' ''process exited'' rid a)))
      | None \<Rightarrow> (Some RunDeadlineExceeded,
          py_rearm sp bind file (py_cleanupAfterExit sp (py_publishStatusWithRunID ''STOPPED'' ''killed after timeout'' rid a))))"

definition py_stop_adopted_end :: "spec \<Rightarrow> string \<Rightarrow> stop_error option \<Rightarrow> bool \<Rightarrow> bool \<Rightarrow> runner \<Rightarrow> run_error option \<times> runner" where
  "py_stop_adopted_end sp rid err bind file a =
     (case adoptedStopStatus err of (state, message, settled) \<Rightarrow>
        if \<not> settled then (map_option AdoptedStop err, a \<lparr>stopping := False\<rparr>)
        else (map_option AdoptedStop err,
          py_rearm sp bind file (py_cleanupAfterExit sp
            (py_publishStatusWithRunID state message rid (a \<lparr>adoptedPid := 0, adoptedEpoch := 0\<rparr>)))))"

definition py_dropAdopted :: "runner \<Rightarrow> runner" where
  "py_dropAdopted a = a \<lparr>adoptedPid := 0, adoptedEpoch := 0, adoptedWatch := None\<rparr>"

definition py_Reset :: "spec \<Rightarrow> runner \<Rightarrow> runner" where
  "py_Reset sp a = py_cleanupAfterExit sp (py_dropAdopted a)"

definition py_adopt :: "int \<Rightarrow> (sig_error, int) result \<Rightarrow> runner \<Rightarrow> run_error option \<times> runner" where
  "py_adopt pid epoch a =
     (let a1 = a \<lparr>adoptedWatch := None, a_cmd := None, adoptedPid := pid, adoptedEpoch := 0, stopping := False\<rparr>
      in case epoch of
        Inl e \<Rightarrow> (Some (AdoptFailed e), a1)
      | Inr ep \<Rightarrow> (None, a1 \<lparr>adoptedEpoch := ep, adoptedWatch := Some (pid, ep)\<rparr>))"

definition py_Restore :: "int option \<Rightarrow> os \<Rightarrow> runner \<Rightarrow> run_error option \<times> runner" where
  "py_Restore restored m a = (case restored of None \<Rightarrow> (Some CriuFailed, a) | Some pid \<Rightarrow> py_adopt pid (StartEpoch m pid) a)"

definition py_Checkpoint :: "(nat \<Rightarrow> int) \<Rightarrow> (int \<Rightarrow> bool) \<Rightarrow> runner \<Rightarrow> run_error option" where
  "py_Checkpoint pid_of dump a = (case py_Pid pid_of a of
     None \<Rightarrow> Some NoProcess | Some pid \<Rightarrow> if dump pid then None else Some CriuFailed)"

definition py_adoptedExited :: "spec \<Rightarrow> int \<Rightarrow> int \<Rightarrow> runner \<Rightarrow> runner" where
  "py_adoptedExited sp pid epoch a =
     (if stopping a \<or> adoptedPid a \<noteq> pid \<or> adoptedEpoch a \<noteq> epoch then a
      else py_cleanupAfterExit sp (py_publishStatusWithRunID ''FAILED'' ''adopted process exited unexpectedly'' (nextRunID a)
        (a \<lparr>adoptedPid := 0, adoptedEpoch := 0\<rparr>)))"

section \<open>The Python operations are those of Runner\<close>

lemma py_basic:
  "py_publishStatusWithRunID = publishStatusWithRunID" "py_SetRunID = SetRunID" "py_cleanupAfterExit = cleanupAfterExit"
  "py_dropAdopted = dropAdopted" "py_noteAnnouncedState = noteAnnouncedState" "py_announcedOwnExit = announcedOwnExit"
  "py_HasSpoken = HasSpoken"
  by (simp_all add: fun_eq_iff py_publishStatusWithRunID_def publishStatusWithRunID_def py_SetRunID_def SetRunID_def
      py_cleanupAfterExit_def cleanupAfterExit_def py_dropAdopted_def dropAdopted_def py_noteAnnouncedState_def
      noteAnnouncedState_def py_announcedOwnExit_def announcedOwnExit_def py_HasSpoken_def HasSpoken_def)

lemma py_marks: "py_noteFrameSeen now m = noteFrameSeen now m" "py_FirstFrameLatency m = FirstFrameLatency m"
  by (auto simp: py_noteFrameSeen_def noteFrameSeen_def py_FirstFrameLatency_def FirstFrameLatency_def split: option.split)

lemma py_read: "py_Uptime now a = Uptime now a" "py_Pid pid_of a = agent_Pid pid_of a"
  by (auto simp: py_Uptime_def Uptime_def py_Pid_def agent_Pid_def split: option.split)

lemma py_ensureListener_eq: "py_ensureListener sp bind file a = ensureListener sp bind file a"
proof (cases "listening a")
  case True
  then have "a \<lparr>listening := True\<rparr> = a" by simp
  with True show ?thesis by (simp add: py_ensureListener_def ensureListener_def)
qed (simp add: py_ensureListener_def ensureListener_def listen_address_def Let_def)

lemma py_arm_eq: "py_arm sp bind file a = arm sp bind file a"
  by (simp add: py_arm_def arm_def py_ensureListener_eq)

lemma py_watch_traffic_eq: "py_watch_traffic a = watch_traffic a"
  by (cases "watching a") (simp_all add: py_watch_traffic_def watch_traffic_def)

lemma py_rearm_eq: "py_rearm sp bind file a = rearm sp bind file a"
  by (simp add: py_rearm_def rearm_def py_arm_eq)

lemma py_Stop_begin_eq: "py_Stop_begin a = go_Stop_begin a"
  by (auto simp: py_Stop_begin_def go_Stop_begin_def running_def split: option.split)

lemma py_adopt_eq: "py_adopt pid ep a = adopt pid ep a"
  by (simp add: py_adopt_def adopt_def)

text \<open>The two runners are one: every operation of a Python agent is the operation of a Go agent, on
  every state and every answer, so what the control channel, a stop, an exit, an adopted process and a
  restore do does not depend on the language.\<close>

theorem runner_operations_alike:
  "py_oneshot_end sp rid ok a = go_oneshot_end sp rid ok a \<and>
   py_exit_watcher sp r rid a = exit_watcher sp r rid a \<and>
   py_Stop_begin a = go_Stop_begin a \<and>
   py_Stop_end sp rid ex bind file a = go_Stop_end sp rid ex bind file a \<and>
   py_stop_adopted_end sp rid err bind file a = stop_adopted_end sp rid err bind file a \<and>
   py_arm sp bind file a = arm sp bind file a \<and>
   py_watch_traffic a = watch_traffic a \<and>
   py_Reset sp a = Reset sp a \<and>
   py_Restore restored m a = agent_Restore restored m a \<and>
   py_Checkpoint pid_of dump a = agent_Checkpoint pid_of dump a \<and>
   py_adoptedExited sp pid epoch a = adoptedExited sp pid epoch a"
  unfolding py_oneshot_end_def go_oneshot_end_def py_exit_watcher_def exit_watcher_def py_Stop_begin_eq
    py_Stop_end_def go_Stop_end_def py_stop_adopted_end_def stop_adopted_end_def py_rearm_eq py_arm_eq py_watch_traffic_eq
    py_Reset_def Reset_def py_Restore_def agent_Restore_def py_adopt_eq py_Checkpoint_def agent_Checkpoint_def
    py_read py_adoptedExited_def adoptedExited_def py_basic
  by (intro conjI refl)

end
