(* ===== verification/Boot.thy ===== *)
theory Boot
  imports Runner
begin

text \<open>
  The obligations of the supervisor as process 1: \<^verbatim>\<open>core/mounts\<close>, \<^verbatim>\<open>core/pid1\<close>,
  \<^verbatim>\<open>core/subreaper\<close>, \<^verbatim>\<open>core/watchdog\<close>, \<^verbatim>\<open>core/shutdown\<close> and the files
  \<^verbatim>\<open>boot.go\<close>, \<^verbatim>\<open>pid1_wiring.go\<close> and \<^verbatim>\<open>system_shutdown.go\<close> of
  \<^verbatim>\<open>core/supervisor\<close>, with the order in which \<^verbatim>\<open>cmd/gapid\<close> and \<^verbatim>\<open>Run\<close> put them.
  System calls are answers of the environment; the calls made, in order, are the result.
\<close>

section \<open>Model\<close>

subsection \<open>Early mounts\<close>

record MountSpec =
  ms_Source :: string
  ms_Target :: string
  ms_FSType :: string
  ms_Flags :: "64 word"
  ms_Options :: string

definition flagNoSuid :: "64 word" where "flagNoSuid = 2"
definition flagNoDev :: "64 word" where "flagNoDev = 4"
definition flagNoExec :: "64 word" where "flagNoExec = 8"
definition flagRelatime :: "64 word" where "flagRelatime = 0x200000"

definition EarlyMounts :: "MountSpec list" where
  "EarlyMounts =
     [\<lparr>ms_Source = ''devtmpfs'', ms_Target = ''/dev'', ms_FSType = ''devtmpfs'', ms_Flags = flagNoSuid, ms_Options = []\<rparr>,
      \<lparr>ms_Source = ''proc'', ms_Target = ''/proc'', ms_FSType = ''proc'',
        ms_Flags = or (or flagNoSuid flagNoDev) flagNoExec, ms_Options = []\<rparr>,
      \<lparr>ms_Source = ''sysfs'', ms_Target = ''/sys'', ms_FSType = ''sysfs'',
        ms_Flags = or (or flagNoSuid flagNoDev) flagNoExec, ms_Options = []\<rparr>,
      \<lparr>ms_Source = ''cgroup2'', ms_Target = ''/sys/fs/cgroup'', ms_FSType = ''cgroup2'',
        ms_Flags = or (or (or flagNoSuid flagNoDev) flagNoExec) flagRelatime, ms_Options = []\<rparr>,
      \<lparr>ms_Source = ''tmpfs'', ms_Target = ''/run'', ms_FSType = ''tmpfs'', ms_Flags = or flagNoSuid flagNoDev, ms_Options = ''mode=0755''\<rparr>,
      \<lparr>ms_Source = ''tmpfs'', ms_Target = ''/tmp'', ms_FSType = ''tmpfs'', ms_Flags = or flagNoSuid flagNoDev, ms_Options = []\<rparr>]"

text \<open>What is mounted, and the calls of \<^verbatim>\<open>mount(2)\<close> made so far.\<close>

record mount_kernel =
  k_mounts :: "string list"
  k_calls :: "MountSpec list"

text \<open>\<open>mountinfo\<close> gives the lines of \<^verbatim>\<open>/proc/self/mountinfo\<close> for what is mounted.\<close>

record mount_env =
  mountinfo :: "string list \<Rightarrow> string list"
  info_readable :: bool
  mkdir_ok :: "string \<Rightarrow> bool"
  mount_ok :: "MountSpec \<Rightarrow> string list \<Rightarrow> bool"

datatype mount_error = Checking string | Creating string | Mounting string string

fun scan_mountinfo :: "string \<Rightarrow> string list \<Rightarrow> bool" where
  "scan_mountinfo target [] = False"
| "scan_mountinfo target (line # rest) =
     (let fields = Fields line in
      if length fields > 4 \<and> fields ! 4 = target then True else scan_mountinfo target rest)"

definition IsMounted :: "mount_env \<Rightarrow> string \<Rightarrow> mount_kernel \<Rightarrow> (unit, bool) result" where
  "IsMounted me target k =
     (if ''/proc'' \<notin> set (k_mounts k) then Inr False
      else if \<not> info_readable me then Inl ()
      else Inr (scan_mountinfo target (mountinfo me (k_mounts k))))"

definition sys_mount :: "mount_env \<Rightarrow> MountSpec \<Rightarrow> mount_kernel \<Rightarrow> bool \<times> mount_kernel" where
  "sys_mount me sp k =
     (let k1 = k \<lparr>k_calls := k_calls k @ [sp]\<rparr> in
      if mount_ok me sp (k_mounts k) then (True, k1 \<lparr>k_mounts := k_mounts k @ [ms_Target sp]\<rparr>) else (False, k1))"

fun MountEarly :: "mount_env \<Rightarrow> MountSpec list \<Rightarrow> mount_kernel \<Rightarrow> mount_error option \<times> mount_kernel" where
  "MountEarly me [] k = (None, k)"
| "MountEarly me (sp # specs) k =
     (case IsMounted me (ms_Target sp) k of
        Inl _ \<Rightarrow> (Some (Checking (ms_Target sp)), k)
      | Inr mounted \<Rightarrow>
        if mounted then MountEarly me specs k
        else if \<not> mkdir_ok me (ms_Target sp) then (Some (Creating (ms_Target sp)), k)
        else (case sys_mount me sp k of
            (False, k1) \<Rightarrow> (Some (Mounting (ms_Target sp) (ms_FSType sp)), k1)
          | (True, k1) \<Rightarrow> MountEarly me specs k1))"

subsection \<open>Phase 0\<close>

datatype boot_step = DidPidfd | DidSubreaper | DidSignals | DidReapLoop | DidMounts | DidWatchdog string int

text \<open>A dependency is absent, or present with what it answers.\<close>

record Phase0Deps =
  d_RequirePidfd :: "bool option"
  d_Subreaper :: "bool option"
  d_InstallSignal :: bool
  d_StartReap :: bool
  d_Mount :: "(MountSpec list \<Rightarrow> mount_kernel \<Rightarrow> mount_error option \<times> mount_kernel) option"
  SkipMounts :: bool

datatype boot_error = PidfdMissing | SubreaperFailed | MountFailed mount_error | WatchdogFailed

definition RunPhase0 :: "Phase0Deps \<Rightarrow> mount_kernel \<Rightarrow> boot_error option \<times> boot_step list \<times> mount_kernel" where
  "RunPhase0 d k =
     (let s1 = (if d_RequirePidfd d = None then [] else [DidPidfd]) in
      if d_RequirePidfd d = Some False then (Some PidfdMissing, s1, k)
      else let s2 = s1 @ (if d_Subreaper d = None then [] else [DidSubreaper]) in
        if d_Subreaper d = Some False then (Some SubreaperFailed, s2, k)
        else let s3 = s2 @ (if d_InstallSignal d then [DidSignals] else []) @ (if d_StartReap d then [DidReapLoop] else []) in
          if SkipMounts d then (None, s3, k)
          else (case d_Mount d of
              None \<Rightarrow> (None, s3, k)
            | Some m \<Rightarrow> (case m EarlyMounts k of
                (Some e, k1) \<Rightarrow> (Some (MountFailed e), s3 @ [DidMounts], k1)
              | (None, k1) \<Rightarrow> (None, s3 @ [DidMounts], k1))))"

record pid1_config =
  NoEarlyMounts :: bool
  WatchdogEnabled :: bool
  WatchdogDevice :: string
  WatchdogInterval :: string
  GracePeriod :: string

record pid1_answers =
  pidfd_there :: bool
  prctl_ok :: bool
  device_opens :: bool

text \<open>What the completion function is given.\<close>

record pid1_ready =
  grace :: int
  mountTable :: "MountSpec list"

definition positive_duration :: "string \<Rightarrow> int \<Rightarrow> int" where
  "positive_duration s dflt = (case ParseDuration s of None \<Rightarrow> dflt | Some v \<Rightarrow> if v > 0 then v else dflt)"

definition EnablePid1 :: "pid1_config \<Rightarrow> pid1_answers \<Rightarrow> mount_env \<Rightarrow> mount_kernel \<Rightarrow>
    (boot_error, pid1_ready) result \<times> boot_step list \<times> mount_kernel" where
  "EnablePid1 cfg an me k =
     (let d = \<lparr>d_RequirePidfd = Some (pidfd_there an), d_Subreaper = Some (prctl_ok an), d_InstallSignal = False,
               d_StartReap = True, d_Mount = Some (MountEarly me), SkipMounts = NoEarlyMounts cfg\<rparr> in
      case RunPhase0 d k of
        (Some e, steps, k1) \<Rightarrow> (Inl e, DidSignals # steps, k1)
      | (None, steps, k1) \<Rightarrow>
        let ready = \<lparr>grace = positive_duration (GracePeriod cfg) 10000000000,
                     mountTable = (if NoEarlyMounts cfg then [] else EarlyMounts)\<rparr> in
        if \<not> WatchdogEnabled cfg then (Inr ready, DidSignals # steps, k1)
        else let dev = (if WatchdogDevice cfg = [] then ''/dev/watchdog'' else WatchdogDevice cfg);
                 interval = positive_duration (WatchdogInterval cfg) 10000000000 in
          if \<not> device_opens an then (Inl WatchdogFailed, DidSignals # steps, k1)
          else (Inr ready, DidSignals # steps @ [DidWatchdog dev interval], k1))"

subsection \<open>The watchdog\<close>

text \<open>What \<^verbatim>\<open>Run\<close> writes: a kick for each tick before the context ends, then the magic close.\<close>

datatype wd_event = Tick | ContextDone

fun watchdog_Run :: "wd_event list \<Rightarrow> string" where
  "watchdog_Run [] = []"
| "watchdog_Run (Tick # es) = CHR ''1'' # watchdog_Run es"
| "watchdog_Run (ContextDone # es) = ''V''"

subsection \<open>Signals\<close>

datatype os_signal = SIGTERM | SIGINT | SIGHUP | SIGCHLD | SIGUSR1 | SIGUSR2

text \<open>A handler is absent or an operation on the daemon.\<close>

record 's SignalHandlers =
  h_Shutdown :: "(os_signal \<Rightarrow> 's \<Rightarrow> 's) option"
  h_Reload :: "('s \<Rightarrow> 's) option"
  h_Reap :: "('s \<Rightarrow> 's) option"
  h_Debug :: "('s \<Rightarrow> 's) option"
  h_Emergency :: "('s \<Rightarrow> 's) option"

definition call_handler :: "('s \<Rightarrow> 's) option \<Rightarrow> 's \<Rightarrow> 's" where
  "call_handler h s = (case h of None \<Rightarrow> s | Some f \<Rightarrow> f s)"

fun pid1_dispatch :: "'s SignalHandlers \<Rightarrow> os_signal \<Rightarrow> 's \<Rightarrow> 's" where
  "pid1_dispatch h SIGTERM s = (case h_Shutdown h of None \<Rightarrow> s | Some f \<Rightarrow> f SIGTERM s)"
| "pid1_dispatch h SIGINT s = (case h_Shutdown h of None \<Rightarrow> s | Some f \<Rightarrow> f SIGINT s)"
| "pid1_dispatch h SIGHUP s = call_handler (h_Reload h) s"
| "pid1_dispatch h SIGCHLD s = call_handler (h_Reap h) s"
| "pid1_dispatch h SIGUSR1 s = call_handler (h_Debug h) s"
| "pid1_dispatch h SIGUSR2 s = call_handler (h_Emergency h) s"

subsection \<open>Teardown\<close>

datatype shutdown_action = PowerOff | Reboot | Halt

datatype call = CUnpublish | CMetricsStop | CStopAll | CSync | CUnmount string | CReboot int

definition reboot_cmd :: "shutdown_action \<Rightarrow> int" where
  "reboot_cmd a = (case a of Reboot \<Rightarrow> 0x01234567 | Halt \<Rightarrow> 0xCDEF0123 | PowerOff \<Rightarrow> 0x4321FEDC)"

datatype stop_answer = StopReturned "string option" | GraceExpired

datatype teardown_log = AgentStopFailed string | GraceExceeded | UmountFailed string

text \<open>\<open>n\<close> is \<open>i + 1\<close>.\<close>

fun unmount_loop :: "(string \<Rightarrow> bool) \<Rightarrow> MountSpec list \<Rightarrow> nat \<Rightarrow> call list \<times> teardown_log list" where
  "unmount_loop ok table 0 = ([], [])"
| "unmount_loop ok table (Suc i) =
     (case unmount_loop ok table i of (cs, logs) \<Rightarrow>
       (CUnmount (ms_Target (table ! i)) # cs,
        if ok (ms_Target (table ! i)) then logs else UmountFailed (ms_Target (table ! i)) # logs))"

definition SystemShutdown :: "stop_answer \<Rightarrow> (string \<Rightarrow> bool) \<Rightarrow> bool \<Rightarrow> MountSpec list \<Rightarrow> shutdown_action \<Rightarrow>
    bool \<times> call list \<times> teardown_log list" where
  "SystemShutdown stopped umount_ok reboot_ok table act =
     (let l1 = (case stopped of StopReturned None \<Rightarrow> [] | StopReturned (Some e) \<Rightarrow> [AgentStopFailed e] | GraceExpired \<Rightarrow> [GraceExceeded])
      in case unmount_loop umount_ok table (length table) of (cs, l2) \<Rightarrow>
        (reboot_ok, [CStopAll, CSync] @ cs @ [CReboot (reboot_cmd act)], l1 @ l2))"

text \<open>The calls of \<^verbatim>\<open>Run\<close> once its context has ended.\<close>

definition Run_stop :: "bool \<Rightarrow> call list" where
  "Run_stop metrics = [CUnpublish] @ (if metrics then [CMetricsStop] else []) @ [CStopAll]"

subsection \<open>The daemon as process 1\<close>

text \<open>\<open>shutdownReq\<close> holds one request. \<open>asked\<close> is every request made, in order; \<open>chosen\<close> what
  the goroutine of the entry point has received.\<close>

record daemon =
  shutdownReq :: "shutdown_action option"
  asked :: "shutdown_action list"
  chosen :: "shutdown_action option"
  reapKick :: nat
  calls :: "call list"

definition new_daemon :: daemon where
  "new_daemon = \<lparr>shutdownReq = None, asked = [], chosen = None, reapKick = 0, calls = []\<rparr>"

definition RequestShutdown :: "shutdown_action \<Rightarrow> daemon \<Rightarrow> daemon" where
  "RequestShutdown a d =
     (let d1 = d \<lparr>asked := asked d @ [a]\<rparr> in case shutdownReq d of None \<Rightarrow> d1 \<lparr>shutdownReq := Some a\<rparr> | Some _ \<Rightarrow> d1)"

text \<open>A payload that cannot be decoded is \<open>None\<close>.\<close>

definition on_system_shutdown :: "string option \<Rightarrow> daemon \<Rightarrow> daemon" where
  "on_system_shutdown payload d =
     (case payload of None \<Rightarrow> d
      | Some v \<Rightarrow>
        if v = ''poweroff'' then RequestShutdown PowerOff d
        else if v = ''reboot'' then RequestShutdown Reboot d
        else if v = ''halt'' then RequestShutdown Halt d
        else d)"

definition pid1_handlers :: "daemon SignalHandlers" where
  "pid1_handlers = \<lparr>h_Shutdown = Some (\<lambda>_. RequestShutdown PowerOff), h_Reload = None,
     h_Reap = Some (\<lambda>d. if reapKick d < 8 then d \<lparr>reapKick := reapKick d + 1\<rparr> else d), h_Debug = None, h_Emergency = None\<rparr>"

inductive daemon_step :: "bool \<Rightarrow> MountSpec list \<Rightarrow> daemon \<Rightarrow> daemon \<Rightarrow> bool" for metrics :: bool and table :: "MountSpec list" where
  by_signal: "daemon_step metrics table d (pid1_dispatch pid1_handlers sig d)"
| by_topic: "daemon_step metrics table d (on_system_shutdown payload d)"
| receive: "shutdownReq d = Some a \<Longrightarrow> chosen d = None \<Longrightarrow>
    daemon_step metrics table d (d \<lparr>shutdownReq := None, chosen := Some a\<rparr>)"
| go_down: "chosen d = Some a \<Longrightarrow> calls d = [] \<Longrightarrow> SystemShutdown st uok rok table a = (r, cs, logs) \<Longrightarrow>
    daemon_step metrics table d (d \<lparr>calls := Run_stop metrics @ cs\<rparr>)"

subsection \<open>Reaping\<close>

text \<open>A child is its PID with its wait status once it has died. \<open>collected\<close> is what the loop passed
  on, \<open>waited\<close> what the waits of the children's owners answered.\<close>

record kids =
  children :: "(int \<times> int option) list"
  collected :: "(int \<times> int) list"
  waited :: "(int \<times> int option) list"

text \<open>\<^verbatim>\<open>wait4(-1, WNOHANG)\<close>: the first dead child is taken.\<close>

fun wait_any :: "(int \<times> int option) list \<Rightarrow> ((int \<times> int) \<times> (int \<times> int option) list) option" where
  "wait_any [] = None"
| "wait_any ((p, Some ws) # cs) = Some ((p, ws), cs)"
| "wait_any ((p, None) # cs) = (case wait_any cs of None \<Rightarrow> None | Some (r, cs') \<Rightarrow> Some (r, (p, None) # cs'))"

lemma wait_any_shorter: "wait_any cs = Some (r, cs') \<Longrightarrow> length cs' < length cs"
  by (induction cs arbitrary: cs' rule: wait_any.induct) (auto split: option.splits)

function drain :: "kids \<Rightarrow> kids" where
  "drain w = (case wait_any (children w) of None \<Rightarrow> w
     | Some (r, cs) \<Rightarrow> drain (w \<lparr>children := cs, collected := collected w @ [r]\<rparr>))"
  by pat_completeness auto
termination
  by (relation "measure (\<lambda>w. length (children w))") (auto dest: wait_any_shorter)

declare drain.simps [simp del]

text \<open>\<open>OwnerWaits\<close> is \<^verbatim>\<open>cmd.Wait\<close> of a dead child, or of one the loop has taken.\<close>

datatype reap_event = Born int | Dies int int | Sigchld | SafetyTick | OwnerWaits int

fun reap_step :: "kids \<Rightarrow> reap_event \<Rightarrow> kids" where
  "reap_step w (Born p) = (if p \<in> fst ` set (children w) then w else w \<lparr>children := children w @ [(p, None)]\<rparr>)"
| "reap_step w (Dies p ws) = w \<lparr>children := map (\<lambda>(q, s). if q = p \<and> s = None then (q, Some ws) else (q, s)) (children w)\<rparr>"
| "reap_step w Sigchld = drain w"
| "reap_step w SafetyTick = drain w"
| "reap_step w (OwnerWaits p) =
     (case map_of (children w) p of
        Some (Some ws) \<Rightarrow> w \<lparr>children := filter (\<lambda>c. fst c \<noteq> p) (children w), waited := waited w @ [(p, Some ws)]\<rparr>
      | Some None \<Rightarrow> w
      | None \<Rightarrow> w \<lparr>waited := waited w @ [(p, None)]\<rparr>)"

definition ReapLoop :: "kids \<Rightarrow> reap_event list \<Rightarrow> kids" where
  "ReapLoop w es = foldl reap_step (drain w) es"

section \<open>Early mounts\<close>

definition plain_path :: "string \<Rightarrow> bool" where
  "plain_path p \<longleftrightarrow> p \<noteq> [] \<and> (\<forall>c \<in> set p. \<not> is_space c)"

text \<open>The fifth field of the lines of \<^verbatim>\<open>mountinfo\<close> names exactly what is mounted.\<close>

definition shows_mounts :: "(string list \<Rightarrow> string list) \<Rightarrow> bool" where
  "shows_mounts info \<longleftrightarrow>
     (\<forall>ms t. list_all plain_path ms \<and> plain_path t \<longrightarrow> scan_mountinfo t (info ms) = (t \<in> set ms))"

text \<open>A kernel that grants every mount on a target where nothing is mounted.\<close>

definition willing :: "mount_env \<Rightarrow> bool" where
  "willing me \<longleftrightarrow> info_readable me \<and> (\<forall>t. mkdir_ok me t) \<and> (\<forall>sp ms. ms_Target sp \<notin> set ms \<longrightarrow> mount_ok me sp ms)"

lemma MountEarly_mount:
  assumes "willing me" "IsMounted me (ms_Target sp) k = Inr False" "ms_Target sp \<notin> set (k_mounts k)"
  shows "MountEarly me (sp # specs) k =
    MountEarly me specs (k \<lparr>k_calls := k_calls k @ [sp], k_mounts := k_mounts k @ [ms_Target sp]\<rparr>)"
  using assms by (simp add: willing_def sys_mount_def Let_def)

lemma IsMounted_shown:
  "willing me \<Longrightarrow> shows_mounts (mountinfo me) \<Longrightarrow> ''/proc'' \<in> set (k_mounts k) \<Longrightarrow> list_all plain_path (k_mounts k) \<Longrightarrow> plain_path t \<Longrightarrow>
    IsMounted me t k = Inr (t \<in> set (k_mounts k))"
  by (simp add: IsMounted_def willing_def shows_mounts_def)

lemma MountEarly_visible:
  assumes "willing me" "shows_mounts (mountinfo me)" "''/proc'' \<in> set (k_mounts k)" "list_all plain_path (k_mounts k)"
    and "list_all plain_path (map ms_Target specs)" "distinct (map ms_Target specs)"
  shows "MountEarly me specs k = (None, k
    \<lparr>k_calls := k_calls k @ filter (\<lambda>sp. ms_Target sp \<notin> set (k_mounts k)) specs,
     k_mounts := k_mounts k @ map ms_Target (filter (\<lambda>sp. ms_Target sp \<notin> set (k_mounts k)) specs)\<rparr>)"
  using assms(3-6)
proof (induction specs arbitrary: k)
  case (Cons sp specs)
  let ?t = "ms_Target sp"
  have m: "IsMounted me ?t k = Inr (?t \<in> set (k_mounts k))"
    using Cons.prems by (intro IsMounted_shown [OF assms(1, 2)]) simp_all
  show ?case
  proof (cases "?t \<in> set (k_mounts k)")
    case True
    with m Cons show ?thesis by simp
  next
    case False
    let ?k = "k \<lparr>k_calls := k_calls k @ [sp], k_mounts := k_mounts k @ [?t]\<rparr>"
    have f: "filter (\<lambda>s. ms_Target s \<notin> set (k_mounts ?k)) specs = filter (\<lambda>s. ms_Target s \<notin> set (k_mounts k)) specs"
      using Cons.prems(4) by (intro filter_cong) (auto simp: image_iff)
    from MountEarly_mount [OF assms(1) _ False] m False
    have "MountEarly me (sp # specs) k = MountEarly me specs ?k" by simp
    also have "\<dots> = (None, ?k
      \<lparr>k_calls := k_calls ?k @ filter (\<lambda>sp. ms_Target sp \<notin> set (k_mounts ?k)) specs,
       k_mounts := k_mounts ?k @ map ms_Target (filter (\<lambda>sp. ms_Target sp \<notin> set (k_mounts ?k)) specs)\<rparr>)"
      by (rule Cons.IH) (use Cons.prems in \<open>simp_all\<close>)
    also note f
    finally show ?thesis using False by simp
  qed
qed simp

lemma EarlyMounts_plain: "list_all plain_path (map ms_Target EarlyMounts)" "distinct (map ms_Target EarlyMounts)"
  by code_simp+

text \<open>The table in three parts: the two entries that come up to the first view of what is mounted, and the rest.\<close>

lemma EarlyMounts_split:
  obtains dev prc rest where "EarlyMounts = dev # prc # rest" "ms_Target dev = ''/dev''" "ms_Target prc = ''/proc''"
    "ms_FSType dev = ''devtmpfs''"
  by (simp add: EarlyMounts_def)

text \<open>The early mounts are idempotent and complete: on a kernel that grants them, whatever was
  mounted before, exactly the targets that were not mounted are mounted, each once and in the order
  of the table - unless \<^verbatim>\<open>/dev\<close> was mounted and \<^verbatim>\<open>/proc\<close> was not.\<close>

theorem early_mounts_exact:
  assumes "willing me" "shows_mounts (mountinfo me)" "list_all plain_path (k_mounts k)"
    and "''/proc'' \<in> set (k_mounts k) \<or> ''/dev'' \<notin> set (k_mounts k)"
  shows "MountEarly me EarlyMounts k = (None, k
    \<lparr>k_calls := k_calls k @ filter (\<lambda>sp. ms_Target sp \<notin> set (k_mounts k)) EarlyMounts,
     k_mounts := k_mounts k @ map ms_Target (filter (\<lambda>sp. ms_Target sp \<notin> set (k_mounts k)) EarlyMounts)\<rparr>)"
proof (cases "''/proc'' \<in> set (k_mounts k)")
  case True
  show ?thesis by (rule MountEarly_visible [OF assms(1, 2) True assms(3) EarlyMounts_plain])
next
  case False
  with assms(4) have dev_free: "''/dev'' \<notin> set (k_mounts k)" by simp
  obtain dev prc rest where e: "EarlyMounts = dev # prc # rest" "ms_Target dev = ''/dev''" "ms_Target prc = ''/proc''"
    by (rule EarlyMounts_split)
  let ?k = "k \<lparr>k_calls := k_calls k @ [dev, prc], k_mounts := k_mounts k @ [''/dev'', ''/proc'']\<rparr>"
  have "MountEarly me EarlyMounts k = MountEarly me rest ?k"
    using MountEarly_mount [OF assms(1), of dev k "prc # rest"] False dev_free
      MountEarly_mount [OF assms(1), of prc "k \<lparr>k_calls := k_calls k @ [dev], k_mounts := k_mounts k @ [''/dev'']\<rparr>" rest]
    by (simp add: e IsMounted_def del: MountEarly.simps)
  also have "\<dots> = (None, ?k
    \<lparr>k_calls := k_calls ?k @ filter (\<lambda>sp. ms_Target sp \<notin> set (k_mounts ?k)) rest,
     k_mounts := k_mounts ?k @ map ms_Target (filter (\<lambda>sp. ms_Target sp \<notin> set (k_mounts ?k)) rest)\<rparr>)"
    by (rule MountEarly_visible [OF assms(1, 2)])
      (use EarlyMounts_plain assms(3) in \<open>simp_all add: e plain_path_def is_space_def\<close>)
  also have "filter (\<lambda>sp. ms_Target sp \<notin> set (k_mounts ?k)) rest = filter (\<lambda>sp. ms_Target sp \<notin> set (k_mounts k)) rest"
    using EarlyMounts_plain(2) by (intro filter_cong) (auto simp: e image_iff)
  finally show ?thesis using False dev_free by (simp add: e)
qed

text \<open>Where the kernel has mounted \<^verbatim>\<open>/dev\<close> itself and \<^verbatim>\<open>/proc\<close> is not there yet, the
  table is not idempotent: the first entry is mounted again, and on a kernel that refuses to mount a
  file system twice in one place, the boot as process 1 fails there, with nothing mounted.\<close>

theorem premounted_dev_fails_boot:
  assumes "''/dev'' \<in> set (k_mounts k)" "''/proc'' \<notin> set (k_mounts k)" "\<forall>sp. ms_Target sp \<in> set (k_mounts k) \<longrightarrow> \<not> mount_ok me sp (k_mounts k)"
    and "mkdir_ok me ''/dev''" "\<not> NoEarlyMounts cfg" "pidfd_there an" "prctl_ok an"
  shows "fst (EnablePid1 cfg an me k) = Inl (MountFailed (Mounting ''/dev'' ''devtmpfs'')) \<and>
    k_mounts (snd (snd (EnablePid1 cfg an me k))) = k_mounts k"
proof -
  obtain dev prc rest where e: "EarlyMounts = dev # prc # rest" "ms_Target dev = ''/dev''" "ms_FSType dev = ''devtmpfs''"
    by (rule EarlyMounts_split)
  have "MountEarly me EarlyMounts k = (Some (Mounting ''/dev'' ''devtmpfs''), k \<lparr>k_calls := k_calls k @ [dev]\<rparr>)"
    using assms(1-4) by (simp add: e IsMounted_def sys_mount_def Let_def)
  with assms(5-7) show ?thesis by (simp add: EnablePid1_def RunPhase0_def)
qed

section \<open>Going down\<close>

lemma unmount_loop_rev:
  "fst (unmount_loop ok table n) = map (\<lambda>sp. CUnmount (ms_Target sp)) (rev (take n table))" if "n \<le> length table"
  using that
proof (induction n)
  case (Suc i)
  then have "take (Suc i) table = take i table @ [table ! i]" by (simp add: take_Suc_conv_app_nth)
  with Suc show ?case by (simp split: prod.split) (metis fst_conv)
qed simp

lemma SystemShutdown_calls:
  "fst (snd (SystemShutdown st uok rok table a)) =
    [CStopAll, CSync] @ map (\<lambda>sp. CUnmount (ms_Target sp)) (rev table) @ [CReboot (reboot_cmd a)]"
proof -
  have "fst (unmount_loop uok table (length table)) = map (\<lambda>sp. CUnmount (ms_Target sp)) (rev table)"
    using unmount_loop_rev [of "length table" table uok] by simp
  then show ?thesis by (simp add: SystemShutdown_def Let_def split: prod.split) (metis fst_conv)
qed

definition daemon_ok :: "bool \<Rightarrow> MountSpec list \<Rightarrow> daemon \<Rightarrow> bool" where
  "daemon_ok metrics table d \<longleftrightarrow>
     (\<forall>a. chosen d = Some a \<longrightarrow> asked d \<noteq> [] \<and> a = hd (asked d)) \<and>
     (chosen d = None \<longrightarrow> shutdownReq d = (if asked d = [] then None else Some (hd (asked d)))) \<and>
     (calls d \<noteq> [] \<longrightarrow> (\<exists>a. chosen d = Some a \<and> calls d = Run_stop metrics @
       [CStopAll, CSync] @ map (\<lambda>sp. CUnmount (ms_Target sp)) (rev table) @ [CReboot (reboot_cmd a)]))"

lemma daemon_ok_request: "daemon_ok metrics table d \<Longrightarrow> daemon_ok metrics table (RequestShutdown a d)"
  by (cases "shutdownReq d") (auto simp: daemon_ok_def RequestShutdown_def Let_def split: if_splits)

lemma daemon_ok_kick: "daemon_ok metrics table (d \<lparr>reapKick := n\<rparr>) = daemon_ok metrics table d"
  by (simp add: daemon_ok_def)

lemma daemon_ok_step: "daemon_step metrics table d d' \<Longrightarrow> daemon_ok metrics table d \<Longrightarrow> daemon_ok metrics table d'"
proof (induction rule: daemon_step.induct)
  case (by_signal d sig)
  have "pid1_dispatch pid1_handlers sig d \<in> {RequestShutdown PowerOff d, d, d \<lparr>reapKick := reapKick d + 1\<rparr>}"
    by (cases sig) (simp_all add: pid1_handlers_def call_handler_def)
  with by_signal daemon_ok_request [OF by_signal] show ?case
    by (elim insertE emptyE) (simp_all only: daemon_ok_kick)
next
  case (by_topic d payload)
  then show ?case by (auto simp: on_system_shutdown_def daemon_ok_request split: option.split)
next
  case (receive d a)
  then show ?case by (auto simp: daemon_ok_def split: if_splits)
next
  case (go_down d a st uok rok r cs logs)
  have "cs = [CStopAll, CSync] @ map (\<lambda>sp. CUnmount (ms_Target sp)) (rev table) @ [CReboot (reboot_cmd a)]"
    using SystemShutdown_calls [of st uok rok table a] go_down(3) by simp
  with go_down show ?case by (simp add: daemon_ok_def)
qed

text \<open>C16: As process 1 the daemon goes down once, in a fixed order, and as it was first asked to:
  whatever requests come later, by signal or by topic, and whatever stops, unmounts and the reboot
  itself answer, the agents are stopped before the file systems are written out, these before anything
  is unmounted, the mounts in the reverse of their order, and the last call reboots the machine the way
  the first request said.\<close>

theorem first_request_decides:
  assumes "(daemon_step metrics table)\<^sup>*\<^sup>* new_daemon d" "calls d \<noteq> []"
  shows "asked d \<noteq> [] \<and> calls d = Run_stop metrics @ [CStopAll, CSync] @ map (\<lambda>sp. CUnmount (ms_Target sp)) (rev table) @
    [CReboot (reboot_cmd (hd (asked d)))]"
proof -
  from assms(1) have "daemon_ok metrics table d"
  proof (induction rule: rtranclp_induct)
    case base
    show ?case by (simp add: daemon_ok_def new_daemon_def)
  next
    case (step d d')
    then show ?case by (blast intro: daemon_ok_step)
  qed
  with assms(2) show ?thesis by (auto simp: daemon_ok_def)
qed

section \<open>Reaping\<close>

definition dead :: "(int \<times> int option) list \<Rightarrow> (int \<times> int) multiset" where
  "dead cs = mset (map (\<lambda>c. (fst c, the (snd c))) (filter (\<lambda>c. snd c \<noteq> None) cs))"

definition owned :: "(int \<times> int option) list \<Rightarrow> (int \<times> int) multiset" where
  "owned ws = mset (map (\<lambda>c. (fst c, the (snd c))) (filter (\<lambda>c. snd c \<noteq> None) ws))"

text \<open>The deaths of a run: \<open>Dies\<close> of a child that is alive.\<close>

fun deaths :: "kids \<Rightarrow> reap_event list \<Rightarrow> (int \<times> int) multiset" where
  "deaths w [] = {#}"
| "deaths w (e # es) = (case e of Dies p ws \<Rightarrow> if (p, None) \<in> set (children w) then {#(p, ws)#} else {#} | _ \<Rightarrow> {#}) +
     deaths (reap_step w e) es"

definition accounted :: "kids \<Rightarrow> (int \<times> int) multiset" where
  "accounted w = mset (collected w) + owned (waited w) + dead (children w)"

lemma wait_any_Some:
  "wait_any cs = Some ((p, ws), cs') \<Longrightarrow> dead cs = add_mset (p, ws) (dead cs') \<and> set cs' \<subseteq> set cs \<and>
     (distinct (map fst cs) \<longrightarrow> distinct (map fst cs'))"
proof (induction cs arbitrary: cs' rule: wait_any.induct)
  case (3 q cs)
  then obtain cs2 where "wait_any cs = Some ((p, ws), cs2)" "cs' = (q, None) # cs2" by (auto split: option.splits)
  with 3(1) [of cs2] show ?case by (auto simp: dead_def)
qed (auto simp: dead_def)

lemma wait_any_None: "wait_any cs = None \<longleftrightarrow> dead cs = {#}"
  by (induction cs rule: wait_any.induct) (auto simp: dead_def split: option.splits)

lemma drain_spec:
  "accounted (drain w) = accounted w \<and> dead (children (drain w)) = {#} \<and> waited (drain w) = waited w \<and>
     set (children (drain w)) \<subseteq> set (children w) \<and>
     (distinct (map fst (children w)) \<longrightarrow> distinct (map fst (children (drain w))))"
proof (induction w rule: drain.induct)
  case (1 w)
  show ?case
  proof (cases "wait_any (children w)")
    case None
    then have "drain w = w" by (simp add: drain.simps [of w])
    with None show ?thesis by (simp add: wait_any_None)
  next
    case (Some x)
    obtain p ws cs where x: "x = ((p, ws), cs)" by (metis prod.collapse)
    from Some have d: "drain w = drain (w \<lparr>children := cs, collected := collected w @ [(p, ws)]\<rparr>)"
      by (simp add: drain.simps [of w] x)
    from 1 [OF Some [unfolded x], of "(p, ws)" cs] wait_any_Some [OF Some [unfolded x]] show ?thesis
      unfolding d by (auto simp: accounted_def)
  qed
qed

lemma dead_dies:
  assumes "distinct (map fst cs)"
  shows "dead (map (\<lambda>(q, s). if q = p \<and> s = None then (q, Some ws) else (q, s)) cs) =
    (if (p, None) \<in> set cs then {#(p, ws)#} else {#}) + dead cs"
  using assms
proof (induction cs)
  case (Cons c cs)
  obtain q s where c: "c = (q, s)" by (cases c)
  show ?case
  proof (cases "q = p")
    case True
    with Cons.prems c have "(p, None) \<notin> set cs" by (auto simp: rev_image_eqI)
    moreover have "dead (map (\<lambda>(q, s). if q = p \<and> s = None then (q, Some ws) else (q, s)) cs) = dead cs"
      using Cons calculation by simp
    ultimately show ?thesis using True by (cases s) (auto simp: dead_def c)
  next
    case False
    with Cons c show ?thesis by (cases s) (auto simp: dead_def)
  qed
qed (simp add: dead_def)

lemma dead_remove:
  assumes "distinct (map fst cs)" "map_of cs p = Some (Some ws)"
  shows "add_mset (p, ws) (dead (filter (\<lambda>c. fst c \<noteq> p) cs)) = dead cs"
  using assms
proof (induction cs)
  case (Cons c cs)
  show ?case
  proof (cases "fst c = p")
    case True
    with Cons.prems have "p \<notin> fst ` set cs" "c = (p, Some ws)" by (auto simp: prod_eq_iff split: if_splits)
    moreover from this have "filter (\<lambda>c. fst c \<noteq> p) cs = cs" by (auto simp: filter_id_conv)
    ultimately show ?thesis by (simp add: dead_def)
  next
    case False
    with Cons show ?thesis by (cases c) (auto simp: dead_def add_mset_commute)
  qed
qed simp

lemma reap_step_spec:
  assumes "distinct (map fst (children w))"
  shows "accounted (reap_step w e) =
      accounted w + (case e of Dies p ws \<Rightarrow> if (p, None) \<in> set (children w) then {#(p, ws)#} else {#} | _ \<Rightarrow> {#}) \<and>
    distinct (map fst (children (reap_step w e)))"
proof (cases e)
  case (Born p)
  then show ?thesis using assms by (auto simp: accounted_def dead_def)
next
  case (Dies p ws)
  have "map fst (map (\<lambda>(q, s). if q = p \<and> s = None then (q, Some ws) else (q, s)) (children w)) = map fst (children w)"
    by auto
  with Dies dead_dies [OF assms, of p ws] assms show ?thesis by (simp add: accounted_def del: map_map)
next
  case (OwnerWaits p)
  show ?thesis
  proof (cases "map_of (children w) p")
    case None
    with OwnerWaits assms show ?thesis by (simp add: accounted_def owned_def)
  next
    case (Some s)
    with OwnerWaits assms dead_remove [OF assms, of p] show ?thesis
      by (cases s) (auto simp: accounted_def owned_def distinct_map_filter)
  qed
qed (use assms drain_spec [of w] in \<open>simp_all\<close>)

lemma foldl_reap:
  "distinct (map fst (children w)) \<Longrightarrow> accounted (foldl reap_step w es) = accounted w + deaths w es \<and>
     distinct (map fst (children (foldl reap_step w es)))"
proof (induction es arbitrary: w)
  case (Cons e es)
  from reap_step_spec [OF Cons.prems, of e] Cons.IH [of "reap_step w e"] show ?case
    by (auto simp: add.assoc)
qed simp

text \<open>C17: No death is lost and none is told twice: whatever the order of births, deaths, signals, ticks
  and waits of the owners, each child that died is, with its true wait status, either collected by the
  loop, handed to its owner, or still there to be collected - and after the next tick none is, even if
  every \<^verbatim>\<open>SIGCHLD\<close> was lost.\<close>

theorem deaths_accounted_once:
  assumes "distinct (map fst (children w))" "collected w = []" "waited w = []"
  shows "mset (collected (ReapLoop w es)) + owned (waited (ReapLoop w es)) + dead (children (ReapLoop w es)) =
      dead (children w) + deaths (drain w) es \<and>
    dead (children (ReapLoop w (es @ [SafetyTick]))) = {#}"
proof -
  have "accounted w = dead (children w)" by (simp add: accounted_def owned_def assms(2, 3))
  with foldl_reap [of "drain w" es] drain_spec [of w] assms(1)
  have "accounted (ReapLoop w es) = dead (children w) + deaths (drain w) es" by (simp add: ReapLoop_def)
  moreover have "dead (children (ReapLoop w (es @ [SafetyTick]))) = {#}"
    using drain_spec by (simp add: ReapLoop_def)
  ultimately show ?thesis by (simp add: accounted_def)
qed

text \<open>What \<^verbatim>\<open>cmd.Wait\<close> returns for the answer of its wait: an error that is no exit status when
  the loop was first.\<close>

definition wait_exit :: "int option \<Rightarrow> child_exit" where
  "wait_exit r = (case r of None \<Rightarrow> ExitError | Some ws \<Rightarrow> if ws = 0 then ExitOk else if ws mod 128 \<noteq> 0 then ExitSignal else ExitError)"

definition one_child :: "int \<Rightarrow> kids" where
  "one_child p = \<lparr>children = [(p, None)], collected = [], waited = []\<rparr>"


section \<open>Examples\<close>

definition ex_mount_env :: mount_env where
  "ex_mount_env = \<lparr>mountinfo = map (\<lambda>m. ''1 2 0:1 / '' @ m), info_readable = True, mkdir_ok = (\<lambda>_. True),
     mount_ok = (\<lambda>sp ms. ms_Target sp \<notin> set ms)\<rparr>"

lemma ex_line: "plain_path m \<Longrightarrow> Fields (''1 2 0:1 / '' @ m) = [''1'', ''2'', ''0:1'', ''/'', m]"
  using fields_acc_word [of m "[]" "[]"] by (simp add: Fields_def plain_path_def is_space_def)

lemma ex_shows: "shows_mounts (mountinfo ex_mount_env)"
proof -
  have "list_all plain_path ms \<Longrightarrow> scan_mountinfo t (map (\<lambda>m. ''1 2 0:1 / '' @ m) ms) = (t \<in> set ms)" for ms t
  proof (induction ms)
    case (Cons m ms)
    then have "Fields (''1 2 0:1 / '' @ m) = [''1'', ''2'', ''0:1'', ''/'', m]" by (intro ex_line) simp
    with Cons show ?case by (auto simp del: append_Cons)
  qed simp
  then show ?thesis by (simp add: shows_mounts_def ex_mount_env_def)
qed

lemma ex_willing: "willing ex_mount_env"
  by (simp add: willing_def ex_mount_env_def)

theorem early_mounts_exact_witness:
  "k_mounts (snd (MountEarly ex_mount_env EarlyMounts \<lparr>k_mounts = [''/proc'', ''/sys''], k_calls = []\<rparr>)) =
     [''/proc'', ''/sys'', ''/dev'', ''/sys/fs/cgroup'', ''/run'', ''/tmp'']"
proof -
  let ?k = "\<lparr>k_mounts = [''/proc'', ''/sys''], k_calls = []\<rparr>"
  have "map ms_Target (filter (\<lambda>sp. ms_Target sp \<notin> set (k_mounts ?k)) EarlyMounts) = [''/dev'', ''/sys/fs/cgroup'', ''/run'', ''/tmp'']"
    by (simp add: EarlyMounts_def)
  moreover have "list_all plain_path (k_mounts ?k)" by (simp add: plain_path_def is_space_def)
  ultimately show ?thesis
    using early_mounts_exact [OF ex_willing ex_shows, of ?k] by (simp del: MountEarly.simps)
qed

theorem premounted_dev_fails_boot_witness:
  "fst (EnablePid1 \<lparr>NoEarlyMounts = False, WatchdogEnabled = False, WatchdogDevice = [], WatchdogInterval = [], GracePeriod = []\<rparr>
     \<lparr>pidfd_there = True, prctl_ok = True, device_opens = True\<rparr> ex_mount_env \<lparr>k_mounts = [''/dev''], k_calls = []\<rparr>) =
     Inl (MountFailed (Mounting ''/dev'' ''devtmpfs''))"
  by (rule conjunct1 [OF premounted_dev_fails_boot]) (simp_all add: ex_mount_env_def)

theorem first_request_decides_witness:
  "\<exists>d. (daemon_step True EarlyMounts)\<^sup>*\<^sup>* new_daemon d \<and> asked d = [Reboot, PowerOff] \<and> last (calls d) = CReboot 0x01234567"
proof -
  define d1 where "d1 = on_system_shutdown (Some ''reboot'') new_daemon"
  define d2 where "d2 = d1 \<lparr>shutdownReq := None, chosen := Some Reboot\<rparr>"
  define d3 where "d3 = pid1_dispatch pid1_handlers SIGTERM d2"
  obtain r cs logs where c: "SystemShutdown (StopReturned None) (\<lambda>_. True) False EarlyMounts Reboot = (r, cs, logs)"
    by (metis prod.collapse)
  define d4 where "d4 = d3 \<lparr>calls := Run_stop True @ cs\<rparr>"
  note dd = d1_def d2_def d3_def new_daemon_def on_system_shutdown_def RequestShutdown_def pid1_handlers_def
  have "daemon_step True EarlyMounts new_daemon d1" unfolding d1_def by (rule daemon_step.by_topic)
  moreover have "daemon_step True EarlyMounts d1 d2" unfolding d2_def by (rule daemon_step.receive) (simp_all add: dd)
  moreover have "daemon_step True EarlyMounts d2 d3" unfolding d3_def by (rule daemon_step.by_signal)
  moreover have "daemon_step True EarlyMounts d3 d4" unfolding d4_def by (rule daemon_step.go_down [OF _ _ c]) (simp_all add: dd)
  ultimately have r: "(daemon_step True EarlyMounts)\<^sup>*\<^sup>* new_daemon d4" by (meson converse_rtranclp_into_rtranclp rtranclp.rtrancl_refl)
  have n: "calls d4 \<noteq> []" "asked d4 = [Reboot, PowerOff]" by (simp_all add: d4_def Run_stop_def dd)
  from first_request_decides [OF r n(1)] n(2) have "last (calls d4) = CReboot 0x01234567" by (simp add: reboot_cmd_def)
  with r n(2) show ?thesis by blast
qed

theorem deaths_accounted_once_witness:
  "mset (collected (ReapLoop (one_child 7) [Born 9, Dies 9 0, OwnerWaits 9, Dies 7 15, SafetyTick])) +
     owned (waited (ReapLoop (one_child 7) [Born 9, Dies 9 0, OwnerWaits 9, Dies 7 15, SafetyTick])) = {#(9, 0), (7, 15)#}"
proof -
  let ?es = "[Born 9, Dies 9 0, OwnerWaits 9, Dies 7 15]"
  have "deaths (drain (one_child 7)) (?es @ [SafetyTick]) = {#(9, 0), (7, 15)#}" "dead (children (one_child 7)) = {#}"
    by (simp_all add: one_child_def drain.simps dead_def)
  with deaths_accounted_once [of "one_child 7" "?es @ [SafetyTick]"] deaths_accounted_once [of "one_child 7" ?es]
  show ?thesis by (simp add: one_child_def)
qed

end
