(* ===== verification/Checkpoint.thy ===== *)
theory Checkpoint
  imports Runner
begin

text \<open>
  \<^verbatim>\<open>core/checkpoint\<close> and its use by the runners (\<^verbatim>\<open>core/agentmgr/checkpoint.go\<close>).
  CRIU itself is an answer of the environment; what it is asked, and what becomes of its answer, are
  the model.
\<close>

section \<open>Model\<close>

subsection \<open>Capabilities\<close>

text \<open>\<^verbatim>\<open>strconv.ParseUint(s, 16, 64)\<close>.\<close>

definition hex_val :: "char \<Rightarrow> nat option" where
  "hex_val c =
     (let n = (of_char c :: nat) in
      if 48 \<le> n \<and> n \<le> 57 then Some (n - 48)
      else if 97 \<le> n \<and> n \<le> 102 then Some (n - 87)
      else if 65 \<le> n \<and> n \<le> 70 then Some (n - 55)
      else None)"

fun hex_acc :: "nat \<Rightarrow> string \<Rightarrow> nat option" where
  "hex_acc n [] = Some n"
| "hex_acc n (c # s) = (case hex_val c of None \<Rightarrow> None | Some d \<Rightarrow> hex_acc (16 * n + d) s)"

definition ParseHex64 :: "string \<Rightarrow> 64 word option" where
  "ParseHex64 s = (if s = [] then None else case hex_acc 0 s of None \<Rightarrow> None
     | Some n \<Rightarrow> if n < 2 ^ 64 then Some (of_nat n) else None)"

datatype ckpt_error = ErrNoCriu | ErrNotCapable | ErrImagesDir string | ErrNoRestoredPid | PidOutOfRange int
  | StatusUnreadable | BadCapEff string | NoCapEff | CriuError

definition capSysAdmin :: nat where "capSysAdmin = 21"
definition capCheckpointRestore :: nat where "capCheckpointRestore = 40"

definition CutPrefix :: "string \<Rightarrow> string \<Rightarrow> string option" where
  "CutPrefix s p = (if HasPrefix s p then Some (drop (length p) s) else None)"

fun scan_caps :: "string list \<Rightarrow> (ckpt_error, bool) result" where
  "scan_caps [] = Inl NoCapEff"
| "scan_caps (line # rest) =
     (case CutPrefix line ''CapEff:'' of
        None \<Rightarrow> scan_caps rest
      | Some v \<Rightarrow> (case ParseHex64 (TrimSpace v) of
          None \<Rightarrow> Inl (BadCapEff v)
        | Some eff \<Rightarrow> Inr (and eff (push_bit capCheckpointRestore 1) \<noteq> 0 \<or> and eff (push_bit capSysAdmin 1) \<noteq> 0)))"

text \<open>The argument is the lines of \<^verbatim>\<open>/proc/self/status\<close>, if the file can be opened.\<close>

definition hasCheckpointCapability :: "string list option \<Rightarrow> (ckpt_error, bool) result" where
  "hasCheckpointCapability status = (case status of None \<Rightarrow> Inl StatusUnreadable | Some ls \<Rightarrow> scan_caps ls)"

subsection \<open>Dump and restore\<close>

datatype dir_answer = DirMissing | DirNoStat | NotDirectory | DirFd nat

record ckpt_host =
  criu_found :: bool
  self_status :: "string list option"
  images_dir :: "string \<Rightarrow> dir_answer"

definition Available :: "ckpt_host \<Rightarrow> ckpt_error option" where
  "Available h =
     (if \<not> criu_found h then Some ErrNoCriu
      else case hasCheckpointCapability (self_status h) of
        Inl e \<Rightarrow> Some e
      | Inr capable \<Rightarrow> if \<not> capable then Some ErrNotCapable else None)"

definition openImagesDir :: "ckpt_host \<Rightarrow> string \<Rightarrow> (ckpt_error, nat) result" where
  "openImagesDir h dir = (case images_dir h dir of DirFd fd \<Rightarrow> Inr fd | _ \<Rightarrow> Inl (ErrImagesDir dir))"

definition imagesDirFd :: "nat \<Rightarrow> (ckpt_error, 32 word) result" where
  "imagesDirFd fd = (if fd > 2147483647 then Inl (ErrImagesDir []) else Inr (of_nat fd))"

definition pidToInt32 :: "int \<Rightarrow> (ckpt_error, 32 word) result" where
  "pidToInt32 pid = (if pid \<le> 0 \<or> pid > 2147483647 then Inl (PidOutOfRange pid) else Inr (of_int pid))"

record Options =
  LeaveRunning :: bool
  ShellJob :: bool
  TCPEstablished :: bool
  FileLocks :: bool
  LogLevel :: int
  LogFile :: string

record CriuOpts =
  co_ImagesDirFd :: "32 word"
  co_LeaveRunning :: bool
  co_ShellJob :: bool
  co_TcpEstablished :: bool
  co_FileLocks :: bool
  co_LogLevel :: "int option"
  co_LogFile :: "string option"
  co_Pid :: "32 word option"
  co_NotifyScripts :: "bool option"

definition baseOpts :: "32 word \<Rightarrow> Options \<Rightarrow> CriuOpts" where
  "baseOpts dirFd opt =
     \<lparr>co_ImagesDirFd = dirFd, co_LeaveRunning = LeaveRunning opt, co_ShellJob = ShellJob opt,
      co_TcpEstablished = TCPEstablished opt, co_FileLocks = FileLocks opt,
      co_LogLevel = (if LogLevel opt \<noteq> 0 then Some (LogLevel opt) else None),
      co_LogFile = (if LogFile opt \<noteq> [] then Some (LogFile opt) else None),
      co_Pid = None, co_NotifyScripts = None\<rparr>"

text \<open>\<open>newClient\<close> looks \<^verbatim>\<open>criu\<close> up once more, on the host as it is then.\<close>

definition newClient :: "ckpt_host \<Rightarrow> (ckpt_error, unit) result" where
  "newClient h = (if criu_found h then Inr () else Inl ErrNoCriu)"

text \<open>\<open>criu\<close> answers whether the dump succeeds. The result is the error and the request made, if any.\<close>

definition Dump :: "ckpt_host \<Rightarrow> ckpt_host \<Rightarrow> (CriuOpts \<Rightarrow> bool) \<Rightarrow> int \<Rightarrow> string \<Rightarrow> Options \<Rightarrow> ckpt_error option \<times> CriuOpts option" where
  "Dump h h' criu pid dir opt =
     (case openImagesDir h dir of
        Inl e \<Rightarrow> (Some e, None)
      | Inr d \<Rightarrow> (case Available h of
          Some e \<Rightarrow> (Some e, None)
        | None \<Rightarrow> (case newClient h' of
            Inl e \<Rightarrow> (Some e, None)
          | Inr _ \<Rightarrow> (case imagesDirFd d of
              Inl e \<Rightarrow> (Some e, None)
            | Inr fd \<Rightarrow> (case pidToInt32 pid of
                Inl e \<Rightarrow> (Some e, None)
              | Inr subject \<Rightarrow>
                let req = (baseOpts fd opt) \<lparr>co_Pid := Some subject\<rparr> in
                if criu req then (None, Some req) else (Some CriuError, Some req))))))"

text \<open>\<open>criu\<close> answers \<open>None\<close> for a failure, and else the PID it notified, if it notified one.\<close>

definition Restore :: "ckpt_host \<Rightarrow> ckpt_host \<Rightarrow> (CriuOpts \<Rightarrow> 32 word option option) \<Rightarrow> string \<Rightarrow> Options \<Rightarrow>
    (ckpt_error, int) result \<times> CriuOpts option" where
  "Restore h h' criu dir opt =
     (case openImagesDir h dir of
        Inl e \<Rightarrow> (Inl e, None)
      | Inr d \<Rightarrow> (case Available h of
          Some e \<Rightarrow> (Inl e, None)
        | None \<Rightarrow> (case newClient h' of
            Inl e \<Rightarrow> (Inl e, None)
          | Inr _ \<Rightarrow> (case imagesDirFd d of
              Inl e \<Rightarrow> (Inl e, None)
            | Inr fd \<Rightarrow>
              let req = (baseOpts fd opt) \<lparr>co_NotifyScripts := Some True\<rparr> in
              (case criu req of
                 None \<Rightarrow> (Inl CriuError, Some req)
               | Some notified \<Rightarrow>
                 let pid = (case notified of None \<Rightarrow> 0 | Some p \<Rightarrow> p) in
                 if pid = 0 then (Inl ErrNoRestoredPid, Some req) else (Inr (sint pid), Some req))))))"

subsection \<open>The runners\<close>

definition migration_options :: Options where
  "migration_options = \<lparr>LeaveRunning = False, ShellJob = True, TCPEstablished = True, FileLocks = True, LogLevel = 0, LogFile = []\<rparr>"

definition checkpointProcess :: "ckpt_host \<Rightarrow> ckpt_host \<Rightarrow> (CriuOpts \<Rightarrow> bool) \<Rightarrow> int \<Rightarrow> string \<Rightarrow> ckpt_error option \<times> CriuOpts option" where
  "checkpointProcess h h' criu pid dir = Dump h h' criu pid dir migration_options"

definition restoreProcess :: "ckpt_host \<Rightarrow> ckpt_host \<Rightarrow> (CriuOpts \<Rightarrow> 32 word option option) \<Rightarrow> string \<Rightarrow>
    (ckpt_error, int) result \<times> CriuOpts option" where
  "restoreProcess h h' criu dir = Restore h h' criu dir migration_options"

section \<open>The capability test\<close>

definition hex_char :: "nat \<Rightarrow> char" where
  "hex_char d = (if d < 10 then char_of (48 + d) else char_of (87 + d))"

definition hex_value :: "nat list \<Rightarrow> nat" where "hex_value = foldl (\<lambda>n d. 16 * n + d) 0"

lemma hex_digit_read: "d < 16 \<Longrightarrow> hex_val (hex_char d) = Some d"
  by (simp add: hex_val_def hex_char_def Let_def)

lemma hex_acc_chars: "\<forall>d \<in> set ds. d < 16 \<Longrightarrow> hex_acc n (map hex_char ds) = Some (foldl (\<lambda>n d. 16 * n + d) n ds)"
  by (induction ds arbitrary: n) (simp_all add: hex_digit_read)

lemma hex_value_bound:
  assumes "\<forall>d \<in> set ds. d < (16 :: nat)"
  shows "foldl (\<lambda>n d. 16 * n + d) n ds < (n + 1) * 16 ^ length ds"
  using assms
proof (induction ds arbitrary: n)
  case (Cons d ds)
  then have "foldl (\<lambda>n d. 16 * n + d) (16 * n + d) ds < (16 * n + d + 1) * 16 ^ length ds" by simp
  also have "\<dots> \<le> (16 * (n + 1)) * 16 ^ length ds" using Cons.prems by (intro mult_right_mono) simp_all
  finally show ?case by (simp add: algebra_simps)
qed simp

lemma hex_char_no_space: "d < 16 \<Longrightarrow> \<not> is_space (hex_char d)"
proof -
  have "list_all (\<lambda>d. \<not> is_space (hex_char d)) [0..<16]" by code_simp
  then show "d < 16 \<Longrightarrow> \<not> is_space (hex_char d)" by (simp add: list_all_iff)
qed

lemma TrimSpace_plain: "(\<forall>c \<in> set w. \<not> is_space c) \<Longrightarrow> is_space t \<Longrightarrow> TrimSpace (t # w) = w"
proof -
  assume w: "\<forall>c \<in> set w. \<not> is_space c" and t: "is_space t"
  have d: "dropWhile is_space v = v" if "\<forall>c \<in> set v. \<not> is_space c" for v using that by (cases v) simp_all
  from t d [OF w] d [of "rev w"] w show ?thesis by (simp add: TrimSpace_def)
qed

lemma word_bit_test: "and w (push_bit n 1) \<noteq> (0 :: 64 word) \<longleftrightarrow> bit w n"
  unfolding push_bit_of_1 by (simp only: and_exp_eq_0_iff_not_bit not_not)

lemma mask_line:
  assumes "ds \<noteq> []" "length ds \<le> 16" "list_all (\<lambda>d. d < 16) ds"
  shows "scan_caps ((''CapEff:'' @ CHR 0x09 # map hex_char ds) # post) = Inr (bit (hex_value ds) 40 \<or> bit (hex_value ds) 21)"
proof -
  let ?l = "''CapEff:'' @ CHR 0x09 # map hex_char ds"
  have d: "\<forall>d \<in> set ds. d < 16" using assms(3) by (simp add: list_all_iff)
  have "hex_value ds < 16 ^ length ds" using hex_value_bound [OF d, of 0] by (simp add: hex_value_def)
  also have "\<dots> \<le> (16 :: nat) ^ 16" using assms(2) by (intro power_increasing) simp_all
  finally have b: "hex_value ds < 2 ^ 64" by simp
  have t: "TrimSpace (CHR 0x09 # map hex_char ds) = map hex_char ds"
    using d hex_char_no_space by (intro TrimSpace_plain) (auto simp: is_space_def)
  have p: "ParseHex64 (map hex_char ds) = Some (of_nat (hex_value ds))"
    using hex_acc_chars [OF d, of 0] b assms(1) by (simp add: ParseHex64_def hex_value_def)
  have c: "CutPrefix ?l ''CapEff:'' = Some (CHR 0x09 # map hex_char ds)"
    by (simp add: CutPrefix_def HasPrefix_def)
  have bits: "bit (of_nat (hex_value ds) :: 64 word) n = bit (hex_value ds) n" if "n < 64" for n
    using that by (simp add: bit_simps)
  have "(bit (of_nat (hex_value ds) :: 64 word) 40 \<or> bit (of_nat (hex_value ds) :: 64 word) 21) =
      (bit (hex_value ds) 40 \<or> bit (hex_value ds) 21)" using bits by simp
  then show ?thesis
    by (simp only: scan_caps.simps c t p option.case word_bit_test capCheckpointRestore_def capSysAdmin_def)
qed

text \<open>Whether this host can checkpoint is read off the mask the kernel prints: for any digits the
  line may hold, and whatever other lines come before it, the answer is whether bit 40 or bit 21 of
  their value is set, and nothing that comes after the line matters.\<close>

theorem capability_mask_exact:
  assumes "list_all (\<lambda>l. \<not> HasPrefix l ''CapEff:'') pre" "ds \<noteq> []" "length ds \<le> 16" "list_all (\<lambda>d. d < 16) ds"
  shows "hasCheckpointCapability (Some (pre @ (''CapEff:'' @ CHR 0x09 # map hex_char ds) # post)) =
    Inr (bit (hex_value ds) 40 \<or> bit (hex_value ds) 21)"
proof -
  let ?l = "''CapEff:'' @ CHR 0x09 # map hex_char ds"
  from assms(1) have "scan_caps (pre @ ?l # post) = scan_caps (?l # post)"
    by (induction pre) (simp_all add: CutPrefix_def)
  with mask_line [OF assms(2-4), of post] show ?thesis
    by (simp only: hasCheckpointCapability_def option.case)
qed

section \<open>Restoring\<close>

lemma restore_request:
  "restoreProcess h h' criu dir = (Inr pid, req) \<Longrightarrow>
     pid \<noteq> 0 \<and> (\<exists>r. req = Some r \<and> co_NotifyScripts r = Some True \<and> \<not> co_LeaveRunning r \<and> criu r = Some (Some (of_int pid)))"
proof -
  assume r: "restoreProcess h h' criu dir = (Inr pid, req)"
  from r obtain d where d: "openImagesDir h dir = Inr d"
    by (cases "openImagesDir h dir") (simp_all add: restoreProcess_def Restore_def)
  from r have a: "Available h = None"
    by (cases "Available h") (simp_all add: restoreProcess_def Restore_def d)
  from r have c: "newClient h' = Inr ()"
    by (cases "newClient h'") (simp_all add: restoreProcess_def Restore_def d a)
  from r obtain fd where fd: "imagesDirFd d = Inr fd"
    by (cases "imagesDirFd d") (simp_all add: restoreProcess_def Restore_def d a c)
  let ?q = "(baseOpts fd migration_options) \<lparr>co_NotifyScripts := Some True\<rparr>"
  have e: "restoreProcess h h' criu dir = (case criu ?q of None \<Rightarrow> (Inl CriuError, Some ?q)
      | Some notified \<Rightarrow> let pid = (case notified of None \<Rightarrow> 0 | Some p \<Rightarrow> p) in
          if pid = 0 then (Inl ErrNoRestoredPid, Some ?q) else (Inr (sint pid), Some ?q))"
    unfolding restoreProcess_def Restore_def d a c fd sum.case option.case Let_def by (rule refl)
  from r obtain p where p: "criu ?q = Some (Some p)" "p \<noteq> 0" "pid = sint p" "req = Some ?q"
    unfolding e by (auto simp: Let_def split: option.splits if_splits)
  have "co_NotifyScripts ?q = Some True" "\<not> co_LeaveRunning ?q" by (simp_all add: baseOpts_def migration_options_def)
  moreover have "of_int (sint p) = p" by simp
  then have "sint p \<noteq> 0" using p(2) by (metis of_int_0)
  ultimately show ?thesis using p by (intro conjI exI [of _ ?q]) simp_all
qed

lemma dump_request:
  "snd (checkpointProcess h h' criu pid dir) = Some r \<Longrightarrow>
     0 < pid \<and> pid < 2 ^ 31 \<and> co_Pid r = Some (of_int pid) \<and> \<not> co_LeaveRunning r \<and>
     (\<exists>d. images_dir h dir = DirFd d \<and> d < 2 ^ 31 \<and> co_ImagesDirFd r = of_nat d)"
  by (auto simp: checkpointProcess_def Dump_def openImagesDir_def imagesDirFd_def pidToInt32_def migration_options_def
      baseOpts_def Let_def split: sum.splits option.splits if_splits dir_answer.splits)

text \<open>A checkpoint asks for the very process and directory it was given, stopped once it is dumped:
  the descriptor and the PID reach CRIU unchanged, or nothing is asked at all - and a restore that
  succeeds has the PID that CRIU told, never 0.\<close>

theorem checkpoint_asks_as_given:
  "(\<forall>r. snd (checkpointProcess h h' criu pid dir) = Some r \<longrightarrow>
      (\<exists>p. co_Pid r = Some p \<and> sint p = pid) \<and> \<not> co_LeaveRunning r \<and>
      (\<exists>d. images_dir h dir = DirFd d \<and> unat (co_ImagesDirFd r) = d)) \<and>
   (\<forall>q. fst (restoreProcess h h' criu' dir) = Inr q \<longrightarrow> q \<noteq> 0 \<and> (\<exists>r. criu' r = Some (Some (of_int q)) \<and> \<not> co_LeaveRunning r))"
proof (intro conjI allI impI)
  fix r
  assume "snd (checkpointProcess h h' criu pid dir) = Some r"
  note d = dump_request [OF this]
  have "sint (of_int pid :: 32 word) = pid"
    using d by (simp add: signed_of_int signed_take_bit_int_eq_self)
  with d show "\<exists>p. co_Pid r = Some p \<and> sint p = pid" by blast
  from d show "\<not> co_LeaveRunning r" by blast
  from d obtain n where n: "images_dir h dir = DirFd n" "n < 2 ^ 31" "co_ImagesDirFd r = of_nat n" by blast
  then have "unat (co_ImagesDirFd r) = n" by (simp add: unat_of_nat)
  with n(1) show "\<exists>d. images_dir h dir = DirFd d \<and> unat (co_ImagesDirFd r) = d" by blast
next
  fix q
  assume "fst (restoreProcess h h' criu' dir) = Inr q"
  then obtain req where "restoreProcess h h' criu' dir = (Inr q, req)" by (metis prod.collapse)
  from restore_request [OF this] show "q \<noteq> 0" "\<exists>r. criu' r = Some (Some (of_int q)) \<and> \<not> co_LeaveRunning r" by blast+
qed

text \<open>A restore over a running child forgets it: the slot then names the restored process alone, so
  a stop signals that one, and the watcher of the child stays silent when the child ends.\<close>

theorem restore_forgets_child:
  assumes "a_cmd a = Some (r, True)" "agent_Restore (Some pid) m a = (None, a')" "pid \<noteq> 0"
  shows "agent_Pid pid_of a' = Some pid \<and> (\<exists>e. fst (go_Stop_begin a') = StopAdopted pid e (nextRunID a)) \<and>
    exit_watcher sp r rid a' = a' \<and> published a' = published a"
proof -
  obtain e where "StartEpoch m pid = Inr e"
    using assms(2) by (cases "StartEpoch m pid") (simp_all add: agent_Restore_def adopt_def Let_def)
  with assms(2) have "a' = a \<lparr>a_cmd := None, adoptedPid := pid, stopping := False, adoptedEpoch := e, adoptedWatch := Some (pid, e)\<rparr>"
    by (simp add: agent_Restore_def adopt_def Let_def)
  with assms(3) show ?thesis by (simp add: agent_Pid_def go_Stop_begin_def exit_watcher_def)
qed

section \<open>Examples\<close>

theorem capability_mask_exact_witness:
  "hasCheckpointCapability (Some ([''Name: gapid''] @ (''CapEff:'' @ CHR 0x09 # map hex_char [2, 0, 0, 0, 0, 0]) # [''CapEff: 0''])) = Inr True"
proof -
  have "bit (hex_value [2, 0, 0, 0, 0, 0]) 21" by (simp add: hex_value_def bit_iff_odd)
  with capability_mask_exact [of "[''Name: gapid'']" "[2, 0, 0, 0, 0, 0]" "[''CapEff: 0'']"] show ?thesis
    by (simp add: HasPrefix_def)
qed

definition ex_ckpt_host :: ckpt_host where
  "ex_ckpt_host = \<lparr>criu_found = True, self_status = Some [''CapEff:'' @ CHR 0x09 # map hex_char [2, 0, 0, 0, 0, 0]], images_dir = (\<lambda>_. DirFd 7)\<rparr>"

theorem checkpoint_asks_as_given_witness:
  "\<exists>r p. snd (checkpointProcess ex_ckpt_host ex_ckpt_host (\<lambda>_. True) 4711 ''/img'') = Some r \<and> co_Pid r = Some p \<and> sint p = 4711"
proof -
  have "bit (hex_value [2, 0, 0, 0, 0, 0]) 21" by (simp add: hex_value_def bit_iff_odd)
  with mask_line [of "[2, 0, 0, 0, 0, 0]" "[]"]
  have "scan_caps [''CapEff:'' @ CHR 0x09 # map hex_char [2, 0, 0, 0, 0, 0]] = Inr True" by (simp del: scan_caps.simps append_Cons list.map)
  then have "Available ex_ckpt_host = None"
    by (simp add: Available_def ex_ckpt_host_def hasCheckpointCapability_def del: scan_caps.simps append_Cons list.map)
  then have "snd (checkpointProcess ex_ckpt_host ex_ckpt_host (\<lambda>_. True) 4711 ''/img'') \<noteq> None"
    by (simp add: checkpointProcess_def Dump_def openImagesDir_def newClient_def imagesDirFd_def pidToInt32_def Let_def ex_ckpt_host_def)
  then obtain r where "snd (checkpointProcess ex_ckpt_host ex_ckpt_host (\<lambda>_. True) 4711 ''/img'') = Some r" by blast
  with checkpoint_asks_as_given [of ex_ckpt_host ex_ckpt_host "\<lambda>_. True" 4711 "''/img''" "\<lambda>_. None"] show ?thesis by blast
qed

definition ex_stat_os :: os where
  "ex_stat_os = \<lparr>holder = (\<lambda>p. if p = 9 then Some 1 else None),
     stat_line = (\<lambda>_. Some ''9 (a) S 1 1 1 1 1 1 1 1 1 1 1 1 1 1 1 1 1 1 77 1 1''), ns_inode = (\<lambda>_. None), pidfd_ok = True,
     reachable = (\<lambda>_. True), send_ok = True\<rparr>"

theorem restore_forgets_child_witness:
  "agent_Pid (\<lambda>_. 4) (snd (agent_Restore (Some 9) ex_stat_os (new_runner \<lparr>a_cmd := Some (0, True)\<rparr>))) = Some 9"
proof -
  have e: "StartEpoch ex_stat_os 9 = Inr 77" by code_simp
  let ?a = "new_runner \<lparr>a_cmd := Some (0, True)\<rparr>"
  have "fst (agent_Restore (Some 9) ex_stat_os ?a) = None" by (simp add: agent_Restore_def adopt_def Let_def e)
  then have "agent_Restore (Some 9) ex_stat_os ?a = (None, snd (agent_Restore (Some 9) ex_stat_os ?a))" by (metis prod.collapse)
  from restore_forgets_child [OF _ this, of 0 "\<lambda>_. 4"] show ?thesis by simp
qed

end
