(* ===== verification/StateMachine.thy ===== *)
theory StateMachine
  imports Prelude
begin

text \<open>
  \<^verbatim>\<open>core/state/base_machine.go\<close> and \<^verbatim>\<open>core/lifecycle/machine.go\<close>: the
  table-driven machine and the lifecycle table of an agent. A machine is its current state, its
  table and its observers; \<^verbatim>\<open>TransitionTo\<close> returns the machine together with the
  notifications it hands to goroutines.
\<close>

section \<open>The base machine\<close>

record 'o base_sm =
  current :: string
  transitions :: "(string, string list) gomap"
  observers :: "'o list"

record 'o notification =
  observer :: 'o
  n_from :: string
  n_to :: string

datatype sm_error = InvalidTransition string string

definition NewBaseStateMachine :: "string \<Rightarrow> (string, string list) gomap \<Rightarrow> 'o base_sm" where
  "NewBaseStateMachine initial allowed =
     \<lparr>current = initial, transitions = allowed, observers = []\<rparr>"

definition GetState :: "'o base_sm \<Rightarrow> string" where
  "GetState sm = current sm"

definition allowed_from :: "'o base_sm \<Rightarrow> string list" where
  "allowed_from sm = (case map_of (transitions sm) (current sm) of None \<Rightarrow> [] | Some ss \<Rightarrow> ss)"

definition TransitionTo :: "'o base_sm \<Rightarrow> string \<Rightarrow> (sm_error, 'o base_sm \<times> 'o notification list) result" where
  "TransitionTo sm newState =
     (if newState \<in> set (allowed_from sm)
      then Inr (sm \<lparr>current := newState\<rparr>,
        map (\<lambda>f. \<lparr>observer = f, n_from = current sm, n_to = newState\<rparr>) (observers sm))
      else Inl (InvalidTransition (current sm) newState))"

definition OnTransition :: "'o base_sm \<Rightarrow> 'o \<Rightarrow> 'o base_sm" where
  "OnTransition sm f = sm \<lparr>observers := observers sm @ [f]\<rparr>"

lemma TransitionTo_cases:
  obtains (move) "newState \<in> set (allowed_from sm)" "TransitionTo sm newState = Inr (sm \<lparr>current := newState\<rparr>,
      map (\<lambda>f. \<lparr>observer = f, n_from = current sm, n_to = newState\<rparr>) (observers sm))"
  | (refuse) "newState \<notin> set (allowed_from sm)" "TransitionTo sm newState = Inl (InvalidTransition (current sm) newState)"
  by (auto simp: TransitionTo_def)

lemma TransitionTo_table: "TransitionTo sm s = Inr (sm', ns) \<Longrightarrow> transitions sm' = transitions sm \<and> observers sm' = observers sm"
  by (auto simp: TransitionTo_def split: if_splits)

section \<open>Machines driven by a table\<close>

text \<open>What the users of a machine rely on: a move succeeds exactly when the table lists it, and
  then the new state is the one asked for. A set of states the table does not leave is never
  left; a state without successors is never left once entered.\<close>

locale table_machine =
  fixes move :: "'m \<Rightarrow> string \<Rightarrow> 'm option" and state_of :: "'m \<Rightarrow> string"
    and table :: "string \<Rightarrow> string list"
  assumes move_iff: "(move m s \<noteq> None) = (s \<in> set (table (state_of m)))"
    and move_state: "move m s = Some m' \<Longrightarrow> state_of m' = s"
begin

fun moves :: "'m \<Rightarrow> string list \<Rightarrow> 'm" where
  "moves m [] = m"
| "moves m (s # ss) = (case move m s of None \<Rightarrow> moves m ss | Some m' \<Rightarrow> moves m' ss)"

lemma moves_closed:
  assumes "\<And>s t. s \<in> S \<Longrightarrow> t \<in> set (table s) \<Longrightarrow> t \<in> S" "state_of m \<in> S"
  shows "state_of (moves m ss) \<in> S"
  using assms(2)
proof (induction m ss rule: moves.induct)
  case (2 m s ss)
  show ?case
  proof (cases "move m s")
    case (Some m')
    then have "s \<in> set (table (state_of m))" using move_iff [of m s] by simp
    with 2 Some assms(1) move_state [OF Some] show ?thesis by simp
  qed (use 2 in simp)
qed simp

lemma dead_end_absorbing:
  assumes "table (state_of m) = []"
  shows "moves m ss = m"
proof (induction ss)
  case (Cons s ss)
  then show ?case using move_iff [of m s] assms by simp
qed simp

end

section \<open>The lifecycle machine\<close>

definition StateInitializing :: string where "StateInitializing = ''initializing''"
definition StateInitialized :: string where "StateInitialized = ''initialized''"
definition StateStarting :: string where "StateStarting = ''starting''"
definition StateRunning :: string where "StateRunning = ''running''"
definition StateStopping :: string where "StateStopping = ''stopping''"
definition StateStopped :: string where "StateStopped = ''stopped''"
definition StateReloading :: string where "StateReloading = ''reloading''"
definition StateRestarting :: string where "StateRestarting = ''restarting''"
definition StateError :: string where "StateError = ''error''"

lemmas state_name_defs = StateInitializing_def StateInitialized_def StateStarting_def
  StateRunning_def StateStopping_def StateStopped_def StateReloading_def StateRestarting_def
  StateError_def

definition lifecycle_table :: "(string, string list) gomap" where
  "lifecycle_table =
     [(StateInitializing, [StateInitialized, StateStarting, StateError]),
      (StateInitialized, [StateStarting, StateRestarting, StateStopped, StateError]),
      (StateStarting, [StateRunning, StateError]),
      (StateRunning, [StateStopping, StateReloading, StateRestarting, StateError]),
      (StateStopping, [StateStopped, StateError]),
      (StateStopped, [StateStarting, StateRestarting, StateError]),
      (StateReloading, [StateRunning, StateError]),
      (StateError, [StateStopping, StateStopped, StateStarting, StateRestarting])]"

text \<open>The lifecycle machine has one observer, which turns each move into an event on
  \<^verbatim>\<open>agent.lifecycle.transition\<close> for its agent.\<close>

record transition_event =
  te_agent :: string
  te_from :: string
  te_to :: string
  te_host :: string

type_synonym lifecycle_sm = "(string \<times> string) base_sm"

definition NewLifecycleStateMachine :: "string \<Rightarrow> string \<Rightarrow> lifecycle_sm" where
  "NewLifecycleStateMachine agentID host =
     OnTransition (NewBaseStateMachine StateStopped lifecycle_table) (agentID, host)"

definition emitLifecycleEvent :: "(string \<times> string) notification \<Rightarrow> transition_event" where
  "emitLifecycleEvent n = \<lparr>te_agent = fst (observer n), te_from = n_from n, te_to = n_to n,
     te_host = snd (observer n)\<rparr>"

datatype AgentState = AS_UNSPECIFIED | AS_INITIALIZING | AS_INITIALIZED | AS_STARTING
  | AS_STARTED | AS_RUNNING | AS_STOPPING | AS_STOPPED | AS_FAILED | AS_RELOADING

definition CurrentProtoState :: "'o base_sm \<Rightarrow> AgentState" where
  "CurrentProtoState sm = (let s = GetState sm in
     if s = ''initializing'' then AS_INITIALIZING
     else if s = ''initialized'' then AS_INITIALIZED
     else if s = ''starting'' then AS_STARTING
     else if s = ''started'' then AS_STARTED
     else if s = ''running'' then AS_RUNNING
     else if s = ''stopping'' then AS_STOPPING
     else if s = ''stopped'' then AS_STOPPED
     else if s = ''error'' then AS_FAILED
     else if s = ''reloading'' then AS_RELOADING
     else AS_UNSPECIFIED)"

text \<open>The machine as the controller drives it: a request and, when it is legal, the move.\<close>

definition lifecycle_move :: "lifecycle_sm \<Rightarrow> string \<Rightarrow> lifecycle_sm option" where
  "lifecycle_move sm s = (case TransitionTo sm s of Inl _ \<Rightarrow> None | Inr (sm', _) \<Rightarrow> Some sm')"

definition next_states :: "string \<Rightarrow> string list" where
  "next_states s = (case map_of lifecycle_table s of None \<Rightarrow> [] | Some ss \<Rightarrow> ss)"

lemma next_states_simps [simp, step_simps]:
  "next_states StateInitializing = [StateInitialized, StateStarting, StateError]"
  "next_states StateInitialized = [StateStarting, StateRestarting, StateStopped, StateError]"
  "next_states StateStarting = [StateRunning, StateError]"
  "next_states StateRunning = [StateStopping, StateReloading, StateRestarting, StateError]"
  "next_states StateStopping = [StateStopped, StateError]"
  "next_states StateStopped = [StateStarting, StateRestarting, StateError]"
  "next_states StateReloading = [StateRunning, StateError]"
  "next_states StateError = [StateStopping, StateStopped, StateStarting, StateRestarting]"
  "next_states StateRestarting = []"
  by (simp_all add: next_states_def lifecycle_table_def state_name_defs)

inductive lifecycle_reachable :: "lifecycle_sm \<Rightarrow> bool" where
  new_machine: "lifecycle_reachable (NewLifecycleStateMachine a h)"
| transition: "lifecycle_reachable sm \<Longrightarrow> TransitionTo sm s = Inr (sm', ns) \<Longrightarrow> lifecycle_reachable sm'"

lemma lifecycle_reachable_table: "lifecycle_reachable sm \<Longrightarrow> transitions sm = lifecycle_table"
proof (induction rule: lifecycle_reachable.induct)
  case (new_machine a h)
  then show ?case by (simp add: NewLifecycleStateMachine_def OnTransition_def NewBaseStateMachine_def)
next
  case (transition sm s sm' ns)
  then show ?case using TransitionTo_table by metis
qed

lemma allowed_from_reachable: "lifecycle_reachable sm \<Longrightarrow> allowed_from sm = next_states (current sm)"
  by (simp add: allowed_from_def next_states_def lifecycle_reachable_table)

typedef lc_machine = "{sm. lifecycle_reachable sm}"
  using new_machine by blast

setup_lifting type_definition_lc_machine

definition lc_move :: "lc_machine \<Rightarrow> string \<Rightarrow> lc_machine option" where
  "lc_move m s = map_option Abs_lc_machine (lifecycle_move (Rep_lc_machine m) s)"

definition lc_state :: "lc_machine \<Rightarrow> string" where
  "lc_state m = current (Rep_lc_machine m)"

lemma lifecycle_move_reachable:
  "lifecycle_reachable sm \<Longrightarrow> lifecycle_move sm s = Some sm' \<Longrightarrow> lifecycle_reachable sm' \<and> current sm' = s"
  by (auto simp: lifecycle_move_def TransitionTo_def split: sum.splits if_splits
      intro: lifecycle_reachable.transition [of sm s])

interpretation lifecycle: table_machine lc_move lc_state next_states
proof
  fix m s
  have r: "lifecycle_reachable (Rep_lc_machine m)" using Rep_lc_machine by blast
  show "(lc_move m s \<noteq> None) = (s \<in> set (next_states (lc_state m)))"
    by (auto simp: lc_move_def lc_state_def lifecycle_move_def TransitionTo_def allowed_from_reachable [OF r])
  show "lc_state m' = s" if "lc_move m s = Some m'" for m'
    using that lifecycle_move_reachable [OF r, of s]
    by (auto simp: lc_move_def lc_state_def Abs_lc_machine_inverse)
qed

section \<open>Properties\<close>

text \<open>The states a lifecycle machine visits. Neither \<open>initializing\<close> nor \<open>initialized\<close> is among them.\<close>

definition visited_states :: "string list" where
  "visited_states = [StateStopped, StateStarting, StateRunning, StateStopping, StateReloading,
     StateRestarting, StateError]"

lemma visited_closed: "s \<in> set visited_states \<Longrightarrow> t \<in> set (next_states s) \<Longrightarrow> t \<in> set visited_states"
  by (auto simp: visited_states_def)

lemma lifecycle_reachable_visited: "lifecycle_reachable sm \<Longrightarrow> current sm \<in> set visited_states"
proof (induction rule: lifecycle_reachable.induct)
  case (new_machine a h)
  then show ?case
    by (simp add: NewLifecycleStateMachine_def OnTransition_def NewBaseStateMachine_def visited_states_def)
next
  case (transition sm s sm' ns)
  then have "s \<in> set (next_states (current sm))" "current sm' = s"
    by (auto simp: TransitionTo_def allowed_from_reachable split: if_splits)
  with transition.IH visited_closed show ?case by blast
qed

lemma lifecycle_reachable_observer:
  "lifecycle_reachable sm \<Longrightarrow> \<exists>a h. observers sm = [(a, h)]"
proof (induction rule: lifecycle_reachable.induct)
  case (new_machine a h)
  then show ?case by (simp add: NewLifecycleStateMachine_def OnTransition_def NewBaseStateMachine_def)
next
  case (transition sm s sm' ns)
  then show ?case using TransitionTo_table by metis
qed

text \<open>In every reachable lifecycle machine a request for a state is accepted exactly when the
  lifecycle table lists it after the current state; the accepted move announces exactly one
  transition event, with the two states, and a refused one changes nothing and names both.\<close>

theorem lifecycle_transition_exact:
  assumes "lifecycle_reachable sm"
  shows "case TransitionTo sm s of
      Inl e \<Rightarrow> s \<notin> set (next_states (current sm)) \<and> e = InvalidTransition (current sm) s
    | Inr (sm', ns) \<Rightarrow> s \<in> set (next_states (current sm)) \<and> lifecycle_reachable sm' \<and> current sm' = s \<and>
        (\<exists>a h. observers sm = [(a, h)] \<and> map emitLifecycleEvent ns =
          [\<lparr>te_agent = a, te_from = current sm, te_to = s, te_host = h\<rparr>])"
proof (cases rule: TransitionTo_cases [of s sm])
  case move
  from lifecycle_reachable_observer [OF assms] obtain a h where "observers sm = [(a, h)]" by blast
  with move lifecycle_reachable.transition [OF assms move(2)] allowed_from_reachable [OF assms]
  show ?thesis by (simp add: emitLifecycleEvent_def)
next
  case refuse
  with allowed_from_reachable [OF assms] show ?thesis by simp
qed

theorem lifecycle_transition_exact_witness:
  "\<exists>sm' ns. TransitionTo (NewLifecycleStateMachine ''web'' ''h1'') ''starting'' = Inr (sm', ns) \<and> current sm' = ''starting''"
  using lifecycle_transition_exact [OF new_machine [of "''web''" "''h1''"], of "''starting''"]
  by (simp add: TransitionTo_def allowed_from_def NewLifecycleStateMachine_def NewBaseStateMachine_def
      OnTransition_def lifecycle_table_def state_name_defs)

text \<open>No lifecycle machine ever reaches \<open>initializing\<close> or \<open>initialized\<close>, so a request to
  initialize is refused in every reachable state; and a machine that has moved to
  \<open>restarting\<close> refuses every later request.\<close>

theorem lifecycle_unreachable_and_dead_states:
  assumes "lifecycle_reachable sm"
  shows "current sm \<noteq> StateInitializing \<and> current sm \<noteq> StateInitialized \<and>
    TransitionTo sm StateInitializing = Inl (InvalidTransition (current sm) StateInitializing) \<and>
    (current sm = StateRestarting \<longrightarrow> (\<forall>s. TransitionTo sm s = Inl (InvalidTransition StateRestarting s)))"
proof -
  have v: "current sm \<in> set visited_states" by (rule lifecycle_reachable_visited [OF assms])
  then have "StateInitializing \<notin> set (next_states (current sm))"
    using visited_closed [of "current sm" StateInitializing]
    by (auto simp: visited_states_def state_name_defs)
  moreover have "current sm \<noteq> StateInitializing \<and> current sm \<noteq> StateInitialized"
    using v by (auto simp: visited_states_def state_name_defs)
  ultimately show ?thesis
    by (auto simp: TransitionTo_def allowed_from_reachable [OF assms])
qed

theorem lifecycle_unreachable_and_dead_states_witness:
  "\<exists>e. TransitionTo (NewLifecycleStateMachine ''web'' ''h1'') StateInitializing = Inl e"
  using lifecycle_unreachable_and_dead_states [OF new_machine [of "''web''" "''h1''"]] by blast

end
