(* ===== verification/StartWait.thy ===== *)
theory StartWait
  imports StateMachine GoStrings
begin

text \<open>
  \<^verbatim>\<open>core/lifecycle/startwait.go\<close> and the status feed of
  \<^verbatim>\<open>core/lifecycle/controller.go\<close>: the bounded channel a controller collects its agent's status
  reports in, and the two waits on it. A wait consumes the list of what its
  \<^verbatim>\<open>select\<close> receives before the deadline; the end of the list is the deadline itself, so
  every wait ends. Durations and instants are integers of nanoseconds.
\<close>

section \<open>The status feed\<close>

record status_evt =
  se_state :: string
  se_when :: int
  se_run :: string

text \<open>The fields of a \<^verbatim>\<open>LifecycleStatus\<close> message the handler reads, and what it finds in an
  event: no payload, one that does not unmarshal, or a message.\<close>

record status_msg =
  sm_agent :: string
  sm_state :: string
  sm_time :: "int option"
  sm_run :: string

datatype status_payload = NoPayload | BadPayload | StatusPayload status_msg

definition state_cap :: nat where "state_cap = 64"

definition push_status :: "status_evt \<Rightarrow> status_evt list \<Rightarrow> status_evt list" where
  "push_status evt ch = (if length ch < state_cap then ch @ [evt] else drop 1 ch @ [evt])"

definition on_status :: "string \<Rightarrow> int \<Rightarrow> status_payload \<Rightarrow> status_evt list \<Rightarrow> status_evt list" where
  "on_status cid now payload ch = (case payload of
     NoPayload \<Rightarrow> ch
   | BadPayload \<Rightarrow> ch
   | StatusPayload st \<Rightarrow>
       if sm_agent st \<noteq> cid then ch
       else let got = ToLower (TrimSpace (sm_state st)) in
         if got = [] then ch
         else push_status \<lparr>se_state = got,
             se_when = (case sm_time st of Some t \<Rightarrow> t | None \<Rightarrow> now),
             se_run = TrimSpace (sm_run st)\<rparr> ch)"

section \<open>The start deadline as data\<close>

record runner_caps =
  SpeechReporter :: bool
  FirstFrameReporter :: bool
  Resetter :: bool

record start_timeout =
  AgentID :: string
  RunID :: string
  Waited :: int
  Silent :: bool
  SilenceKnown :: bool
  FirstFrame :: int

definition startTimeout :: "runner_caps \<Rightarrow> string \<Rightarrow> int \<Rightarrow> string \<Rightarrow> bool \<Rightarrow> int \<Rightarrow> start_timeout" where
  "startTimeout caps cid d rid spoken ff =
     \<lparr>AgentID = cid, RunID = rid, Waited = d,
      Silent = (SpeechReporter caps \<and> \<not> spoken),
      SilenceKnown = SpeechReporter caps,
      FirstFrame = (if FirstFrameReporter caps then ff else 0)\<rparr>"

text \<open>\<^verbatim>\<open>StartTimeout.Error\<close>; \<open>fmt\<close> is \<^verbatim>\<open>Duration.String\<close>.\<close>

definition StartTimeout_Error :: "(int \<Rightarrow> string) \<Rightarrow> start_timeout \<Rightarrow> string" where
  "StartTimeout_Error fmt e =
     (if SilenceKnown e \<and> Silent e then
        ''agent '' @ AgentID e @ '' was spawned and wrote no control frame within '' @ fmt (Waited e)
        @ '' (run_id='' @ RunID e @ ''): hung before its first report, or its ADK never opened the control descriptor''
      else if SilenceKnown e \<and> FirstFrame e > 0 then
        ''agent '' @ AgentID e @ '' spoke after '' @ fmt (FirstFrame e) @ '' but did not reach running within ''
        @ fmt (Waited e) @ '' (run_id='' @ RunID e @ '')''
      else if SilenceKnown e then
        ''agent '' @ AgentID e @ '' spoke but did not reach running within '' @ fmt (Waited e)
        @ '' (run_id='' @ RunID e @ '')''
      else
        ''timeout waiting for agent '' @ AgentID e @ '' state=running after '' @ fmt (Waited e)
        @ '' (run_id='' @ RunID e @ '')'')"

section \<open>The waits\<close>

text \<open>What a wait's \<^verbatim>\<open>select\<close> receives: a status from the feed, or the silence timer together with
  the runner's answers to \<^verbatim>\<open>HasSpoken\<close> and \<^verbatim>\<open>FirstFrameLatency\<close> at that moment.\<close>

datatype select_ev = StateEv status_evt | SilenceTimer bool int

fun await_loop :: "runner_caps \<Rightarrow> string \<Rightarrow> int \<Rightarrow> int \<Rightarrow> string \<Rightarrow> int \<Rightarrow> bool \<Rightarrow> select_ev list \<Rightarrow> bool \<times> int
    \<Rightarrow> start_timeout option \<times> select_ev list" where
  "await_loop caps cid readiness silence wantRun since armed [] (spoken, ff) =
     (Some (startTimeout caps cid readiness wantRun spoken ff), [])"
| "await_loop caps cid readiness silence wantRun since armed (StateEv ev # evs) dl =
     (if se_when ev < since then await_loop caps cid readiness silence wantRun since armed evs dl
      else if se_state ev = ''running'' \<and> se_run ev = wantRun then (None, evs)
      else await_loop caps cid readiness silence wantRun since armed evs dl)"
| "await_loop caps cid readiness silence wantRun since armed (SilenceTimer spoken ff # evs) dl =
     (if armed \<and> SpeechReporter caps \<and> \<not> spoken
      then (Some (startTimeout caps cid silence wantRun spoken ff), evs)
      else await_loop caps cid readiness silence wantRun since False evs dl)"

definition silence_armed :: "runner_caps \<Rightarrow> int \<Rightarrow> int \<Rightarrow> bool" where
  "silence_armed caps readiness silence \<longleftrightarrow> SpeechReporter caps \<and> silence > 0 \<and> silence < readiness"

definition awaitRunningWithRunIDSince :: "runner_caps \<Rightarrow> string \<Rightarrow> int \<Rightarrow> int \<Rightarrow> string \<Rightarrow> int \<Rightarrow> select_ev list
    \<Rightarrow> bool \<times> int \<Rightarrow> start_timeout option \<times> select_ev list" where
  "awaitRunningWithRunIDSince caps cid readiness silence wantRun since evs dl =
     await_loop caps cid readiness silence wantRun since (silence_armed caps readiness silence) evs dl"

fun await_target_loop :: "string \<Rightarrow> status_evt list \<Rightarrow> bool \<times> status_evt list" where
  "await_target_loop want [] = (False, [])"
| "await_target_loop want (got # evs) =
     (if EqualFold (se_state got) want then (True, evs) else await_target_loop want evs)"

definition awaitTarget :: "string \<Rightarrow> status_evt list \<Rightarrow> bool \<times> status_evt list" where
  "awaitTarget want evs = await_target_loop (ToLower (TrimSpace want)) evs"

text \<open>The generated \<^verbatim>\<open>String\<close> method of the state enum, and the controller's lower-case form of it.\<close>

fun AgentState_String :: "AgentState \<Rightarrow> string" where
  "AgentState_String AS_UNSPECIFIED = ''AGENT_STATE_UNSPECIFIED''"
| "AgentState_String AS_INITIALIZING = ''AGENT_STATE_INITIALIZING''"
| "AgentState_String AS_INITIALIZED = ''AGENT_STATE_INITIALIZED''"
| "AgentState_String AS_STARTING = ''AGENT_STATE_STARTING''"
| "AgentState_String AS_STARTED = ''AGENT_STATE_STARTED''"
| "AgentState_String AS_RUNNING = ''AGENT_STATE_RUNNING''"
| "AgentState_String AS_STOPPING = ''AGENT_STATE_STOPPING''"
| "AgentState_String AS_STOPPED = ''AGENT_STATE_STOPPED''"
| "AgentState_String AS_FAILED = ''AGENT_STATE_FAILED''"
| "AgentState_String AS_RELOADING = ''AGENT_STATE_RELOADING''"

definition anyEnumToString :: "AgentState \<Rightarrow> string" where
  "anyEnumToString e = ToLower (TrimPrefix (AgentState_String e) ''AGENT_STATE_'')"

section \<open>Laws\<close>

lemma push_status_bound: "length ch \<le> state_cap \<Longrightarrow> length (push_status evt ch) \<le> state_cap"
  by (auto simp: push_status_def state_cap_def)

lemma push_status_last: "last (push_status evt ch) = evt"
  by (simp add: push_status_def)

lemma on_status_bound: "length ch \<le> state_cap \<Longrightarrow> length (on_status cid now p ch) \<le> state_cap"
  by (auto simp: on_status_def Let_def push_status_bound split: status_payload.splits)

definition run_report :: "string \<Rightarrow> int \<Rightarrow> select_ev \<Rightarrow> bool" where
  "run_report rid since ev \<longleftrightarrow>
     (\<exists>e. ev = StateEv e \<and> \<not> se_when e < since \<and> se_state e = ''running'' \<and> se_run e = rid)"

lemma run_report_simps [simp]:
  "run_report rid since (StateEv e) \<longleftrightarrow> \<not> se_when e < since \<and> se_state e = ''running'' \<and> se_run e = rid"
  "\<not> run_report rid since (SilenceTimer sp ff)"
  by (auto simp: run_report_def)

lemma await_loop_success:
  "await_loop caps cid rd si rid since armed evs dl = (None, rest) \<Longrightarrow>
   \<exists>us ev. evs = us @ ev # rest \<and> run_report rid since ev \<and> (\<forall>u\<in>set us. \<not> run_report rid since u)"
proof (induction caps cid rd si rid since armed evs dl rule: await_loop.induct)
  case (2 caps cid rd si rid since armed ev evs dl)
  show ?case
  proof (cases "run_report rid since (StateEv ev)")
    case True
    with "2.prems" show ?thesis by (intro exI [of _ "[]"] exI [of _ "StateEv ev"]) auto
  next
    case False
    with "2.prems" "2.IH" obtain us e where "evs = us @ e # rest" "run_report rid since e"
      "\<forall>u\<in>set us. \<not> run_report rid since u"
      by (auto split: if_splits)
    with False show ?thesis by (intro exI [of _ "StateEv ev # us"] exI [of _ e]) auto
  qed
next
  case (3 caps cid rd si rid since armed sp ff evs dl)
  then obtain us e where "evs = us @ e # rest" "run_report rid since e"
    "\<forall>u\<in>set us. \<not> run_report rid since u"
    by (auto split: if_splits)
  then show ?case by (intro exI [of _ "SilenceTimer sp ff # us"] exI [of _ e]) auto
qed auto

lemma await_loop_no_report:
  "\<forall>ev\<in>set evs. \<not> run_report rid since ev \<Longrightarrow> fst (await_loop caps cid rd si rid since armed evs dl) \<noteq> None"
  by (induction caps cid rd si rid since armed evs dl rule: await_loop.induct) auto

lemma await_loop_disarmed:
  "run_report rid since ev \<Longrightarrow> ev \<in> set evs \<Longrightarrow> fst (await_loop caps cid rd si rid since False evs dl) = None"
  by (induction caps cid rd si rid since False evs dl rule: await_loop.induct) auto

lemma await_loop_spoken:
  "(\<forall>sp ff. SilenceTimer sp ff \<in> set evs \<longrightarrow> sp) \<Longrightarrow> \<exists>ev\<in>set evs. run_report rid since ev
   \<Longrightarrow> fst (await_loop caps cid rd si rid since armed evs dl) = None"
proof (induction caps cid rd si rid since armed evs dl rule: await_loop.induct)
  case (1 caps cid rd si rid since armed spoken ff)
  then show ?case by simp
next
  case (2 caps cid rd si rid since armed ev evs dl)
  have "\<forall>sp ff. SilenceTimer sp ff \<in> set evs \<longrightarrow> sp" using "2.prems"(1) by simp
  with 2 show ?case by (cases "run_report rid since (StateEv ev)") auto
next
  case (3 caps cid rd si rid since armed sp ff evs dl)
  have "sp" "\<forall>sp ff. SilenceTimer sp ff \<in> set evs \<longrightarrow> sp" "\<exists>ev\<in>set evs. run_report rid since ev"
    using "3.prems" by auto
  with "3.IH" show ?case by simp
qed

lemma await_loop_timeout:
  "await_loop caps cid rd si rid since armed evs dl = (Some t, rest) \<Longrightarrow>
    AgentID t = cid \<and> RunID t = rid \<and> SilenceKnown t = SpeechReporter caps \<and>
    (Waited t = rd \<or> Waited t = si \<and> armed \<and> SilenceKnown t \<and> Silent t)"
  by (induction caps cid rd si rid since armed evs dl rule: await_loop.induct)
    (auto simp: startTimeout_def split: if_splits)

section \<open>Properties\<close>

text \<open>The wait for a start always returns. It reports success exactly when the feed delivers,
  before the deadline that ends it, a \<open>running\<close> report of this very run stamped no earlier than
  the cut-over; reports of other runs and stale reports are skipped. Otherwise it yields a
  timeout naming the agent and run that is silent when it was the silence budget that expired.\<close>

theorem awaitRunning_exact:
  "case awaitRunningWithRunIDSince caps cid readiness silence rid since evs dl of
     (None, rest) \<Rightarrow> (\<exists>us ev. evs = us @ ev # rest \<and> run_report rid since ev)
   | (Some t, rest) \<Rightarrow> AgentID t = cid \<and> RunID t = rid \<and> SilenceKnown t = SpeechReporter caps \<and>
       (Waited t = readiness \<or>
        Waited t = silence \<and> 0 < silence \<and> silence < readiness \<and> SilenceKnown t \<and> Silent t) \<and>
       \<not> ((\<exists>ev\<in>set evs. run_report rid since ev) \<and> (\<forall>sp ff. SilenceTimer sp ff \<in> set evs \<longrightarrow> sp))"
proof (cases "awaitRunningWithRunIDSince caps cid readiness silence rid since evs dl")
  case (Pair r rest)
  show ?thesis
  proof (cases r)
    case None
    with Pair show ?thesis
      using await_loop_success unfolding awaitRunningWithRunIDSince_def by fastforce
  next
    case (Some t)
    let ?a = "silence_armed caps readiness silence"
    from Pair Some have l: "await_loop caps cid readiness silence rid since ?a evs dl = (Some t, rest)"
      by (simp add: awaitRunningWithRunIDSince_def)
    have "\<not> ((\<exists>ev\<in>set evs. run_report rid since ev) \<and> (\<forall>sp ff. SilenceTimer sp ff \<in> set evs \<longrightarrow> sp))"
      using await_loop_spoken [of evs rid since caps cid readiness silence ?a dl] l by auto
    with await_loop_timeout [OF l] Pair Some show ?thesis
      by (auto simp: silence_armed_def)
  qed
qed

abbreviation ex_report :: "string \<Rightarrow> select_ev" where
  "ex_report rid \<equiv> StateEv \<lparr>se_state = ''running'', se_when = 7, se_run = rid\<rparr>"

theorem awaitRunning_exact_witness:
  "\<exists>us ev. [ex_report ''r0'', SilenceTimer True 3, ex_report ''r1''] = us @ [ev] \<and> run_report ''r1'' 5 ev"
proof -
  let ?caps = "\<lparr>SpeechReporter = True, FirstFrameReporter = False, Resetter = False\<rparr>"
  let ?evs = "[ex_report ''r0'', SilenceTimer True 3, ex_report ''r1'']"
  have "awaitRunningWithRunIDSince ?caps ''a'' 10 2 ''r1'' 5 ?evs (True, 3) = (None, [])" by code_simp
  with awaitRunning_exact [where caps = ?caps and cid = "''a''" and readiness = 10 and silence = 2
    and rid = "''r1''" and since = 5 and evs = ?evs and dl = "(True, 3)"] show ?thesis by simp
qed

text \<open>The feed never holds more than its capacity and the newest report is never the one that
  is lost: a report of the controller's own agent, with a state, is the last element afterwards,
  and at most the oldest one was given up for it.\<close>

theorem status_feed_keeps_newest:
  assumes "length ch \<le> state_cap" "sm_agent st = cid" "TrimSpace (sm_state st) \<noteq> []"
  shows "length (on_status cid now (StatusPayload st) ch) \<le> state_cap \<and>
    se_state (last (on_status cid now (StatusPayload st) ch)) = ToLower (TrimSpace (sm_state st)) \<and>
    (\<exists>k. k \<le> 1 \<and> butlast (on_status cid now (StatusPayload st) ch) = drop k ch \<and> (k = 1 \<longrightarrow> length ch = state_cap))"
  using assms on_status_bound [of ch cid now "StatusPayload st"]
  by (auto simp: on_status_def Let_def push_status_last push_status_def ToLower_def
      intro: exI [of _ 0] exI [of _ 1])

theorem status_feed_keeps_newest_witness:
  "se_state (last (on_status ''a'' 5 (StatusPayload \<lparr>sm_agent = ''a'', sm_state = '' RUNNING'',
      sm_time = None, sm_run = ''r1''\<rparr>) [])) = ''running''"
proof -
  let ?st = "\<lparr>sm_agent = ''a'', sm_state = '' RUNNING'', sm_time = None, sm_run = ''r1''\<rparr>"
  have t: "ToLower (TrimSpace '' RUNNING'') = ''running''" by code_simp
  have n: "TrimSpace '' RUNNING'' \<noteq> []" by code_simp
  show ?thesis
    using status_feed_keeps_newest [of "[]" ?st "''a''" 5] t n by simp
qed

end
