(* ===== verification/Toposort.thy ===== *)
theory Toposort
  imports Prelude
begin

text \<open>
  \<^verbatim>\<open>internal/toposort/toposort.go\<close>: the dependency ordering shared by the registry and the
  agent manager. An edge set is the list of its (node, dependency) pairs, in the order the
  runtime happens to range over it; \<open>kahn_loop\<close> is the work list of Kahn's algorithm and
  \<open>soft_loop\<close> the outer loop of \<^verbatim>\<open>Sort\<close> that drops soft edges.
\<close>

section \<open>Model\<close>

type_synonym edges = "(string \<times> string) list"
type_synonym depmap = "(string, string list) gomap"

datatype topo_error = ErrCycle "string list" | ErrNoProgress

definition edgeSet :: "string list \<Rightarrow> depmap \<Rightarrow> edges" where
  "edgeSet known deps = remdups [(node, dep). (node, ds) \<leftarrow> deps, node \<in> set known,
     dep \<leftarrow> ds, dep \<in> set known \<and> dep \<noteq> node]"

definition merge_edges :: "edges \<Rightarrow> edges \<Rightarrow> edges" where
  "merge_edges a b = remdups (a @ b)"

definition in_degree :: "edges \<Rightarrow> string \<Rightarrow> int" where
  "in_degree es n = int (length (filter (\<lambda>e. fst e = n) es))"

definition dependents :: "edges \<Rightarrow> string \<Rightarrow> string list" where
  "dependents es d = map fst (filter (\<lambda>e. snd e = d) es)"

fun unlock :: "string list \<Rightarrow> (string \<Rightarrow> int) \<Rightarrow> string list \<Rightarrow> (string \<Rightarrow> int) \<times> string list" where
  "unlock [] deg u = (deg, u)"
| "unlock (x # xs) deg u =
     (let deg' = deg (x := deg x - 1) in
      unlock xs deg' (if deg' x = 0 then u @ [x] else u))"

text \<open>Termination of the work list: an unlocked node leaves the set of nodes of positive
  in-degree for good, so the ready list and that set shrink together.\<close>

lemma unlock_measure:
  assumes "finite A" "set xs \<subseteq> A" "unlock xs deg u = (deg', u')"
  shows "length u' + card {n \<in> A. deg' n > 0} \<le> length u + card {n \<in> A. deg n > 0}"
  using assms(2, 3)
proof (induction xs deg u rule: unlock.induct)
  case (1 deg u)
  then show ?case by simp
next
  case (2 x xs deg u)
  let ?d = "deg (x := deg x - 1)"
  let ?u = "if ?d x = 0 then u @ [x] else u"
  have "length u' + card {n \<in> A. deg' n > 0} \<le> length ?u + card {n \<in> A. ?d n > 0}"
    using 2 by (intro "2.IH") (auto simp: Let_def simp del: fun_upd_apply)
  moreover have "length ?u + card {n \<in> A. ?d n > 0} \<le> length u + card {n \<in> A. deg n > 0}"
  proof (cases "deg x = 1")
    case True
    have "{n \<in> A. deg n > 0} = insert x {n \<in> A. ?d n > 0}"
      using True 2 by auto
    moreover have "x \<notin> {n \<in> A. ?d n > 0}" using True by simp
    ultimately show ?thesis using True \<open>finite A\<close> by simp
  next
    case False
    have "card {n \<in> A. ?d n > 0} \<le> card {n \<in> A. deg n > 0}"
      using \<open>finite A\<close> by (intro card_mono) (auto split: if_splits)
    then show ?thesis using False by simp
  qed
  ultimately show ?case by linarith
qed

function kahn_loop :: "edges \<Rightarrow> (string \<Rightarrow> int) \<Rightarrow> string list \<Rightarrow> string list \<Rightarrow> string list" where
  "kahn_loop es deg [] order = order"
| "kahn_loop es deg (i # ready) order =
     (let (deg', unlocked) = unlock (dependents es i) deg [] in
      kahn_loop es deg' (ready @ sort unlocked) (order @ [i]))"
  by pat_completeness auto

termination
proof (relation "measure (\<lambda>(es, deg, ready, order).
    length ready + card {n \<in> set (map fst es). deg n > 0})", goal_cases)
  case 1
  then show ?case by simp
next
  case (2 es deg i ready order p deg' unlocked)
  have "length unlocked + card {n \<in> set (map fst es). deg' n > 0}
      \<le> length ([] :: string list) + card {n \<in> set (map fst es). deg n > 0}"
    using 2 by (intro unlock_measure [of _ "dependents es i"]) (auto simp: dependents_def)
  then show ?case by simp
qed

definition kahn :: "string list \<Rightarrow> edges \<Rightarrow> string list" where
  "kahn known es =
     kahn_loop es (in_degree es) (sort (filter (\<lambda>n. in_degree es n = 0) known)) []"

definition stuckNodes :: "string list \<Rightarrow> edges \<Rightarrow> string list" where
  "stuckNodes known es =
     (let emitted = kahn known es in
      if length emitted = length known then []
      else filter (\<lambda>n. n \<notin> set emitted) known)"

definition drop_stuck :: "string list \<Rightarrow> string list \<Rightarrow> edges \<Rightarrow> edges" where
  "drop_stuck known emitted softEdges =
     (let stuck = (\<lambda>n. n \<in> set known \<and> n \<notin> set emitted) in
      filter (\<lambda>(node, dep). \<not> (stuck node \<and> stuck dep)) softEdges)"

lemma length_drop_stuck: "length (drop_stuck known emitted es) \<le> length es"
  by (simp add: drop_stuck_def Let_def)

function soft_loop :: "string list \<Rightarrow> edges \<Rightarrow> edges \<Rightarrow> (topo_error, string list) result" where
  "soft_loop known hardEdges softEdges =
     (let emitted = kahn known (merge_edges hardEdges softEdges) in
      if length emitted = length known then Inr emitted
      else let kept = drop_stuck known emitted softEdges in
        if length kept = length softEdges then Inl ErrNoProgress
        else soft_loop known hardEdges kept)"
  by pat_completeness auto

termination
  by (relation "measure (\<lambda>(known, h, s). length s)")
    (auto intro: le_neq_implies_less length_drop_stuck)

declare soft_loop.simps [simp del]

definition Sort :: "depmap \<Rightarrow> depmap \<Rightarrow> (topo_error, string list) result" where
  "Sort hard soft =
     (let known = keys hard;
          stuck = stuckNodes known (edgeSet known hard)
      in if stuck \<noteq> [] then Inl (ErrCycle (sort stuck))
         else soft_loop known (edgeSet known hard) (edgeSet known soft))"

section \<open>Kahn's algorithm\<close>

definition edges_ok :: "string list \<Rightarrow> edges \<Rightarrow> bool" where
  "edges_ok known es \<longleftrightarrow> distinct es \<and> (\<forall>(n, d) \<in> set es. n \<in> set known \<and> d \<in> set known \<and> n \<noteq> d)"

lemma edges_okD:
  "edges_ok known es \<Longrightarrow> distinct es"
  "edges_ok known es \<Longrightarrow> (n, d) \<in> set es \<Longrightarrow> n \<in> set known \<and> d \<in> set known \<and> n \<noteq> d"
  by (auto simp: edges_ok_def)

lemma edges_ok_edgeSet [simp, intro]: "edges_ok known (edgeSet known deps)"
  by (auto simp: edges_ok_def edgeSet_def split: if_splits)

lemma edges_ok_merge [intro]:
  "edges_ok known a \<Longrightarrow> edges_ok known b \<Longrightarrow> edges_ok known (merge_edges a b)"
  by (auto simp: edges_ok_def merge_edges_def)

lemma edges_ok_filter [intro]: "edges_ok known a \<Longrightarrow> edges_ok known (filter P a)"
  by (auto simp: edges_ok_def)

lemma set_merge [simp]: "set (merge_edges a b) = set a \<union> set b"
  by (simp add: merge_edges_def)

lemma set_edgeSet: "set (edgeSet known deps) =
  {(n, d). (\<exists>ds. (n, ds) \<in> set deps \<and> d \<in> set ds) \<and> n \<in> set known \<and> d \<in> set known \<and> d \<noteq> n}"
  by (auto simp: edgeSet_def split: if_splits)

lemma set_dependents: "set (dependents es d) = {n. (n, d) \<in> set es}"
  by (force simp: dependents_def)

lemma distinct_dependents: "distinct es \<Longrightarrow> distinct (dependents es d)"
  by (auto simp: dependents_def distinct_map inj_on_def prod_eq_iff)

lemma in_degree_card:
  assumes "distinct es"
  shows "in_degree es n = int (card {d. (n, d) \<in> set es})"
proof -
  have "length (filter (\<lambda>e. fst e = n) es) = card (set (filter (\<lambda>e. fst e = n) es))"
    using assms by (metis distinct_card distinct_filter)
  also have "set (filter (\<lambda>e. fst e = n) es) = Pair n ` {d. (n, d) \<in> set es}"
    by force
  also have "card \<dots> = card {d. (n, d) \<in> set es}"
    by (rule card_image) (simp add: inj_on_def)
  finally show ?thesis by (simp add: in_degree_def)
qed

lemma unlock_distinct:
  "distinct xs \<Longrightarrow> unlock xs deg u =
     (\<lambda>n. if n \<in> set xs then deg n - 1 else deg n, u @ filter (\<lambda>n. deg n = 1) xs)"
proof (induction xs arbitrary: deg u)
  case (Cons x xs)
  have f: "filter (\<lambda>n. (deg (x := deg x - 1)) n = 1) xs = filter (\<lambda>n. deg n = 1) xs"
    using Cons.prems by (intro filter_cong) auto
  have g: "(\<lambda>n. if n \<in> set xs then (deg (x := deg x - 1)) n - 1 else (deg (x := deg x - 1)) n)
      = (\<lambda>n. if n \<in> set (x # xs) then deg n - 1 else deg n)"
    using Cons.prems by (auto simp: fun_eq_iff)
  have "distinct xs" using Cons.prems by simp
  then show ?case
    by (simp only: unlock.simps Let_def Cons.IH f g) (simp add: fun_upd_same)
qed simp

text \<open>The state of the work list: every node's in-degree counts its dependencies not emitted
  yet, and exactly the nodes of in-degree zero are emitted or ready.\<close>

definition kahn_inv :: "string list \<Rightarrow> edges \<Rightarrow> (string \<Rightarrow> int) \<Rightarrow> string list \<Rightarrow> string list \<Rightarrow> bool" where
  "kahn_inv known es deg ready order \<longleftrightarrow>
     distinct (order @ ready) \<and> set (order @ ready) \<subseteq> set known \<and>
     (\<forall>n. deg n = int (card {d. (n, d) \<in> set es \<and> d \<notin> set order})) \<and>
     (\<forall>n \<in> set known. n \<in> set (order @ ready) \<longleftrightarrow> deg n = 0) \<and>
     (\<forall>n d. (n, d) \<in> set es \<longrightarrow> n \<in> set order \<longrightarrow> before order d n)"

lemma finite_deps: "finite {d. (n, d) \<in> set es \<and> P d}"
  by (rule finite_subset [of _ "snd ` set es"]) force+

lemma kahn_inv_step:
  assumes ok: "edges_ok known es" and inv: "kahn_inv known es deg (i # ready) order"
    and un: "unlock (dependents es i) deg [] = (deg', unlocked)"
  shows "kahn_inv known es deg' (ready @ sort unlocked) (order @ [i])"
proof -
  let ?old = "\<lambda>n. {d. (n, d) \<in> set es \<and> d \<notin> set order}"
  let ?new = "\<lambda>n. {d. (n, d) \<in> set es \<and> d \<notin> set (order @ [i])}"
  note dist = distinct_dependents [OF edges_okD(1) [OF ok]]
  from un have deg': "deg' = (\<lambda>n. if (n, i) \<in> set es then deg n - 1 else deg n)"
    and unl: "unlocked = filter (\<lambda>n. deg n = 1) (dependents es i)"
    by (auto simp: unlock_distinct [OF dist] set_dependents)
  have d: "distinct (order @ i # ready)" "set (order @ i # ready) \<subseteq> set known"
    using inv by (simp_all only: kahn_inv_def)
  have degc: "deg n = int (card (?old n))" for n
    using inv by (simp only: kahn_inv_def)
  have z: "n \<in> set (order @ i # ready) \<longleftrightarrow> deg n = 0" if "n \<in> set known" for n
    using inv that by (simp only: kahn_inv_def)
  have bef: "before order d n" if "(n, d) \<in> set es" "n \<in> set order" for n d
    using inv that by (simp only: kahn_inv_def)
  have new: "?new n = ?old n - {i}" for n by auto
  have degc': "deg' n = int (card (?new n))" for n
  proof (cases "(n, i) \<in> set es")
    case True
    then have "i \<in> ?old n" using d by auto
    with card_Suc_Diff1 [OF finite_deps, of i n es "\<lambda>d. d \<notin> set order"]
    have "int (card (?old n)) - 1 = int (card (?old n - {i}))" by linarith
    with True show ?thesis unfolding new deg' degc by simp
  next
    case False
    then have "?old n - {i} = ?old n" by auto
    with False show ?thesis unfolding new deg' degc by simp
  qed
  have un_known: "set unlocked = {n. (n, i) \<in> set es \<and> deg n = 1}"
    by (auto simp: unl set_dependents)
  have sub: "set unlocked \<subseteq> set known" using un_known edges_okD(2) [OF ok] by auto
  have disj: "set unlocked \<inter> set (order @ i # ready) = {}"
    using un_known z sub by force
  have dist': "distinct ((order @ [i]) @ ready @ sort unlocked)"
    using d disj dist by (auto simp: unl)
  have z': "n \<in> set ((order @ [i]) @ ready @ sort unlocked) \<longleftrightarrow> deg' n = 0" if "n \<in> set known" for n
  proof -
    have "deg n = 0 \<Longrightarrow> (n, i) \<notin> set es"
      using degc [of n] d by (auto simp: finite_deps)
    then show ?thesis using z [OF that] un_known by (auto simp: deg')
  qed
  have bef': "before (order @ [i]) d n" if "(n, d) \<in> set es" "n \<in> set (order @ [i])" for n d
  proof (cases "n \<in> set order")
    case True
    then show ?thesis using bef that by (auto intro: before_append_left)
  next
    case False
    then have "n = i" using that by simp
    then have "deg n = 0" using z [of i] d by auto
    then have "?old n = {}" using degc [of n] by (simp add: finite_deps)
    then have "d \<in> set order" using that by auto
    then show ?thesis using \<open>n = i\<close> by (auto intro: before_append_both)
  qed
  show ?thesis
    using dist' d sub degc' z' bef' unfolding kahn_inv_def by auto
qed

lemma kahn_loop_inv:
  assumes "edges_ok known es" "kahn_inv known es deg ready order"
  shows "\<exists>deg'. kahn_inv known es deg' [] (kahn_loop es deg ready order)"
  using assms
proof (induction es deg ready order rule: kahn_loop.induct)
  case (2 es deg i ready order)
  obtain deg' unlocked where un: "unlock (dependents es i) deg [] = (deg', unlocked)"
    by fastforce
  from 2 kahn_inv_step [OF _ _ un] show ?case by (simp add: un)
qed auto

lemma kahn_inv_init:
  assumes "edges_ok known es" "distinct known"
  shows "kahn_inv known es (in_degree es) (sort (filter (\<lambda>n. in_degree es n = 0) known)) []"
  using assms by (auto simp: kahn_inv_def in_degree_card edges_okD)

lemma kahn_final:
  assumes "edges_ok known es" "distinct known"
  obtains deg where "kahn_inv known es deg [] (kahn known es)"
  using kahn_loop_inv [OF assms(1) kahn_inv_init [OF assms]] by (auto simp: kahn_def)

lemma kahn_distinct: "edges_ok known es \<Longrightarrow> distinct known \<Longrightarrow> distinct (kahn known es)"
  by (erule (1) kahn_final) (simp add: kahn_inv_def)

lemma kahn_subset: "edges_ok known es \<Longrightarrow> distinct known \<Longrightarrow> set (kahn known es) \<subseteq> set known"
  by (erule (1) kahn_final) (simp add: kahn_inv_def)

lemma kahn_before:
  "edges_ok known es \<Longrightarrow> distinct known \<Longrightarrow> (n, d) \<in> set es \<Longrightarrow> n \<in> set (kahn known es)
   \<Longrightarrow> before (kahn known es) d n"
  by (erule (1) kahn_final) (simp add: kahn_inv_def)

lemma kahn_residual:
  assumes "edges_ok known es" "distinct known" "n \<in> set known" "n \<notin> set (kahn known es)"
  shows "\<exists>d. (n, d) \<in> set es \<and> d \<in> set known \<and> d \<notin> set (kahn known es)"
proof (rule kahn_final [OF assms(1, 2)])
  fix deg assume "kahn_inv known es deg [] (kahn known es)"
  with assms(3, 4) have "card {d. (n, d) \<in> set es \<and> d \<notin> set (kahn known es)} \<noteq> 0"
    by (auto simp: kahn_inv_def)
  then have "{d. (n, d) \<in> set es \<and> d \<notin> set (kahn known es)} \<noteq> {}" by (metis card.empty)
  with edges_okD(2) [OF assms(1)] show ?thesis by blast
qed

text \<open>Kahn's algorithm emits everything exactly when the graph is acyclic.\<close>

lemma acyclic_no_residual:
  assumes "finite E" "acyclic E" "\<And>n. n \<in> R \<Longrightarrow> \<exists>d \<in> R. (n, d) \<in> E"
  shows "R = {}"
proof (rule ccontr)
  assume "R \<noteq> {}"
  then obtain r where "r \<in> R" by blast
  have "wf (E\<inverse>)" using finite_acyclic_wf_converse assms(1, 2) by blast
  from wfE_min [OF this \<open>r \<in> R\<close>] obtain z where "z \<in> R" "\<And>y. (y, z) \<in> E\<inverse> \<Longrightarrow> y \<notin> R"
    by blast
  with assms(3) show False by blast
qed

lemma before_trancl:
  assumes "distinct xs" "\<And>n d. (n, d) \<in> E \<Longrightarrow> before xs d n" "(a, b) \<in> E\<^sup>+"
  shows "before xs b a"
  using assms(3)
  by (induction rule: trancl_induct) (auto intro: assms(2) before_trans [OF assms(1)])

lemma before_acyclic:
  assumes "distinct xs" "\<And>n d. (n, d) \<in> E \<Longrightarrow> before xs d n"
  shows "acyclic E"
  using before_trancl [OF assms] before_irrefl [OF assms(1)] by (auto simp: acyclic_def)

lemma kahn_full_length:
  assumes "edges_ok known es" "distinct known"
  shows "length (kahn known es) = length known \<longleftrightarrow> set (kahn known es) = set known"
  by (rule distinct_length_eq_set [OF kahn_distinct [OF assms] assms(2) kahn_subset [OF assms]])

lemma kahn_full_iff_acyclic:
  assumes ok: "edges_ok known es" and d: "distinct known"
  shows "length (kahn known es) = length known \<longleftrightarrow> acyclic (set es)"
proof
  assume "length (kahn known es) = length known"
  then have "set (kahn known es) = set known" using kahn_full_length [OF ok d] by simp
  then have "before (kahn known es) b a" if "(a, b) \<in> set es" for a b
    using kahn_before [OF ok d that] edges_okD(2) [OF ok that] by simp
  then show "acyclic (set es)" by (rule before_acyclic [OF kahn_distinct [OF ok d]])
next
  assume ac: "acyclic (set es)"
  have "set known - set (kahn known es) = {}"
    by (rule acyclic_no_residual [OF finite_set ac]) (use kahn_residual [OF ok d] in blast)
  then show "length (kahn known es) = length known"
    using kahn_subset [OF ok d] kahn_full_length [OF ok d] by auto
qed

text \<open>Nodes that do not reach a cycle are never stuck.\<close>

lemma kahn_emits_cycle_free:
  assumes ok: "edges_ok known es" and d: "distinct known" and n: "n \<in> set known"
    and nocyc: "\<And>m. (n, m) \<in> (set es)\<^sup>* \<Longrightarrow> (m, m) \<notin> (set es)\<^sup>+"
  shows "n \<in> set (kahn known es)"
proof -
  let ?E = "{(a, b) \<in> set es. (n, a) \<in> (set es)\<^sup>*}"
  let ?R = "{a \<in> set known - set (kahn known es). (n, a) \<in> (set es)\<^sup>*}"
  have "(n, m) \<in> (set es)\<^sup>* \<and> (m, m) \<in> (set es)\<^sup>+" if "(m, m) \<in> ?E\<^sup>+" for m
  proof
    from tranclD [OF that] show "(n, m) \<in> (set es)\<^sup>*" by blast
    show "(m, m) \<in> (set es)\<^sup>+" by (rule trancl_mono [OF that]) blast
  qed
  then have "acyclic ?E" using nocyc unfolding acyclic_def by blast
  moreover have "finite ?E" by (rule finite_subset [of _ "set es"]) auto
  ultimately have "?R = {}"
    by (intro acyclic_no_residual [of ?E])
      (use kahn_residual [OF ok d] in \<open>auto dest: rtrancl_into_rtrancl\<close>)
  with n show ?thesis by blast
qed

section \<open>The loop that drops soft edges\<close>

lemma soft_loop_full:
  "length (kahn known (merge_edges h s)) = length known
   \<Longrightarrow> soft_loop known h s = Inr (kahn known (merge_edges h s))"
  by (subst soft_loop.simps) (simp add: Let_def)

lemma soft_loop_unfold:
  "soft_loop known h s =
     (if length (kahn known (merge_edges h s)) = length known then Inr (kahn known (merge_edges h s))
      else if length (drop_stuck known (kahn known (merge_edges h s)) s) = length s then Inl ErrNoProgress
      else soft_loop known h (drop_stuck known (kahn known (merge_edges h s)) s))"
  by (subst soft_loop.simps) (simp add: Let_def)

lemma drop_stuck_progress:
  assumes ok: "edges_ok known h" "edges_ok known s" and d: "distinct known" and ac: "acyclic (set h)"
    and stuck: "length (kahn known (merge_edges h s)) \<noteq> length known"
  shows "length (drop_stuck known (kahn known (merge_edges h s)) s) < length s"
proof -
  let ?es = "merge_edges h s" and ?R = "set known - set (kahn known (merge_edges h s))"
  have okm: "edges_ok known ?es" using ok by (rule edges_ok_merge)
  have "?R \<noteq> {}"
    using stuck kahn_full_length [OF okm d] kahn_subset [OF okm d] by blast
  then obtain n where "n \<in> ?R" "\<not> (\<exists>m \<in> ?R. (n, m) \<in> set h)"
    using acyclic_no_residual [OF finite_set ac, of ?R] by blast
  with kahn_residual [OF okm d, of n] obtain m where m: "(n, m) \<in> set s" "m \<in> ?R"
    by auto
  show ?thesis
    unfolding drop_stuck_def Let_def
    by (rule length_filter_less [OF m(1)]) (use m(2) \<open>n \<in> ?R\<close> in auto)
qed

lemma drop_stuck_keeps:
  assumes ok: "edges_ok known h" "edges_ok known s" and d: "distinct known" and e: "(n, e) \<in> set s"
    and nocyc: "\<And>m. (n, m) \<in> (set h \<union> set s)\<^sup>* \<Longrightarrow> (m, m) \<notin> (set h \<union> set s)\<^sup>+"
  shows "(n, e) \<in> set (drop_stuck known (kahn known (merge_edges h s)) s)"
proof -
  have "n \<in> set (kahn known (merge_edges h s))"
    by (rule kahn_emits_cycle_free [OF edges_ok_merge [OF ok] d])
      (use edges_okD(2) [OF ok(2) e] nocyc in auto)
  with e show ?thesis by (auto simp: drop_stuck_def Let_def)
qed

lemma drop_stuck_subset: "set (drop_stuck known em s) \<subseteq> set s"
  by (auto simp: drop_stuck_def Let_def)

text \<open>What the loop returns: a Kahn order of all nodes for the hard edges and a subset of the
  soft edges that keeps every soft edge out of a node from which no cycle is reachable.\<close>

definition cycle_free_from :: "(string \<times> string) set \<Rightarrow> string \<Rightarrow> bool" where
  "cycle_free_from E n \<longleftrightarrow> (\<forall>m. (n, m) \<in> E\<^sup>* \<longrightarrow> (m, m) \<notin> E\<^sup>+)"

lemma cycle_free_from_mono: "cycle_free_from E n \<Longrightarrow> F \<subseteq> E \<Longrightarrow> cycle_free_from F n"
  unfolding cycle_free_from_def by (meson rtrancl_mono subsetD trancl_mono)

lemma soft_loop_correct:
  assumes "edges_ok known h" "edges_ok known s" "distinct known" "acyclic (set h)"
  shows "\<exists>es. edges_ok known es \<and> set h \<subseteq> set es \<and> acyclic (set es)
     \<and> soft_loop known h s = Inr (kahn known es)
     \<and> (\<forall>n d. (n, d) \<in> set s \<longrightarrow> cycle_free_from (set h \<union> set s) n \<longrightarrow> (n, d) \<in> set es)"
  using assms
proof (induction "length s" arbitrary: s rule: less_induct)
  case less
  note ok = less.prems(1, 2) and d = less.prems(3) and ac = less.prems(4)
  have okm: "edges_ok known (merge_edges h s)" using ok by (rule edges_ok_merge)
  show ?case
  proof (cases "length (kahn known (merge_edges h s)) = length known")
    case True
    with okm kahn_full_iff_acyclic [OF okm d] show ?thesis
      by (intro exI [of _ "merge_edges h s"]) (simp add: soft_loop_full)
  next
    case False
    let ?s = "drop_stuck known (kahn known (merge_edges h s)) s"
    have lt: "length ?s < length s" by (rule drop_stuck_progress [OF ok d ac False])
    have "edges_ok known ?s" unfolding drop_stuck_def Let_def using ok(2) by (rule edges_ok_filter)
    from less.hyps [OF lt ok(1) this d ac] obtain es where es:
      "edges_ok known es" "set h \<subseteq> set es" "acyclic (set es)" "soft_loop known h ?s = Inr (kahn known es)"
      "\<And>n m. (n, m) \<in> set ?s \<Longrightarrow> cycle_free_from (set h \<union> set ?s) n \<Longrightarrow> (n, m) \<in> set es"
      by blast
    have sub: "set h \<union> set ?s \<subseteq> set h \<union> set s" using drop_stuck_subset by blast
    have keep: "(n, m) \<in> set es" if "(n, m) \<in> set s" "cycle_free_from (set h \<union> set s) n" for n m
    proof (rule es(5))
      show "(n, m) \<in> set ?s"
        using that(2) by (intro drop_stuck_keeps [OF ok d that(1)]) (simp add: cycle_free_from_def)
      show "cycle_free_from (set h \<union> set ?s) n" by (rule cycle_free_from_mono [OF that(2) sub])
    qed
    have "soft_loop known h s = soft_loop known h ?s"
      using lt False by (subst soft_loop_unfold) simp
    with es(1-4) keep show ?thesis by (intro exI [of _ es]) simp
  qed
qed

section \<open>Sort\<close>

lemma stuckNodes_nil_iff:
  assumes "edges_ok known es" "distinct known"
  shows "stuckNodes known es = [] \<longleftrightarrow> acyclic (set es)"
proof -
  have "filter (\<lambda>n. n \<notin> set (kahn known es)) known = [] \<longleftrightarrow> set (kahn known es) = set known"
    using kahn_subset [OF assms] by (auto simp: filter_empty_conv)
  then show ?thesis
    using kahn_full_length [OF assms] kahn_full_iff_acyclic [OF assms]
    by (auto simp: stuckNodes_def Let_def)
qed

lemma Sort_cases:
  fixes hard soft :: depmap
  assumes ok: "gomap_ok hard"
  defines "E \<equiv> set (edgeSet (keys hard) hard)" and "S \<equiv> set (edgeSet (keys hard) soft)"
  obtains (cycle) ns where "\<not> acyclic E" "Sort hard soft = Inl (ErrCycle ns)"
  | (order) es where "acyclic E" "edges_ok (keys hard) es" "acyclic (set es)" "E \<subseteq> set es"
      "Sort hard soft = Inr (kahn (keys hard) es)" "set (kahn (keys hard) es) = set (keys hard)"
      "\<And>n d. (n, d) \<in> S \<Longrightarrow> cycle_free_from (E \<union> S) n \<Longrightarrow> (n, d) \<in> set es"
proof (cases "acyclic E")
  case False
  then have "stuckNodes (keys hard) (edgeSet (keys hard) hard) \<noteq> []"
    using stuckNodes_nil_iff [OF edges_ok_edgeSet] ok by (simp add: E_def gomap_ok_def)
  then show ?thesis using cycle False by (simp add: Sort_def Let_def)
next
  case True
  have d: "distinct (keys hard)" using ok by (simp add: gomap_ok_def)
  have ac: "acyclic (set (edgeSet (keys hard) hard))" using True by (simp add: E_def)
  then have "stuckNodes (keys hard) (edgeSet (keys hard) hard) = []"
    using stuckNodes_nil_iff [OF edges_ok_edgeSet d] by simp
  then have S: "Sort hard soft
      = soft_loop (keys hard) (edgeSet (keys hard) hard) (edgeSet (keys hard) soft)"
    by (simp add: Sort_def Let_def)
  from soft_loop_correct [OF edges_ok_edgeSet edges_ok_edgeSet d ac, of soft]
  obtain es where es: "edges_ok (keys hard) es" "E \<subseteq> set es" "acyclic (set es)"
      "Sort hard soft = Inr (kahn (keys hard) es)"
      "\<And>n m. (n, m) \<in> S \<Longrightarrow> cycle_free_from (E \<union> S) n \<Longrightarrow> (n, m) \<in> set es"
    unfolding S E_def S_def by blast
  have "set (kahn (keys hard) es) = set (keys hard)"
    using kahn_full_iff_acyclic [OF es(1) d] kahn_full_length [OF es(1) d] es(3) by simp
  with es True show ?thesis by (intro order) auto
qed

lemma Sort_soft_kept:
  assumes "gomap_ok hard" "Sort hard soft = Inr ord"
    and "(n, d) \<in> set (edgeSet (keys hard) soft)"
    and "cycle_free_from (set (edgeSet (keys hard) hard) \<union> set (edgeSet (keys hard) soft)) n"
  shows "before ord d n"
proof (rule Sort_cases [OF assms(1), of soft])
  fix es
  assume es: "edges_ok (keys hard) es" "Sort hard soft = Inr (kahn (keys hard) es)"
    "set (kahn (keys hard) es) = set (keys hard)"
    and keep: "\<And>n d. (n, d) \<in> set (edgeSet (keys hard) soft) \<Longrightarrow> cycle_free_from
      (set (edgeSet (keys hard) hard) \<union> set (edgeSet (keys hard) soft)) n \<Longrightarrow> (n, d) \<in> set es"
  have "n \<in> set (kahn (keys hard) es)"
    using assms(3) es(3) edges_okD(2) [OF edges_ok_edgeSet] by blast
  with kahn_before [OF es(1) _ keep [OF assms(3, 4)]] es(2) assms(1, 2) show ?thesis
    by (simp add: gomap_ok_def)
qed (use assms(2) in simp)

section \<open>Determinism\<close>

text \<open>None of the lists above carries meaning beyond its set of elements: whatever order the
  runtime ranges over the maps in, the result is the same.\<close>

lemma kahn_loop_cong:
  assumes "distinct es" "distinct es'" "set es = set es'"
  shows "kahn_loop es deg ready order = kahn_loop es' deg ready order"
  using assms
proof (induction es deg ready order rule: kahn_loop.induct)
  case (2 es deg i ready order)
  let ?u = "filter (\<lambda>n. deg n = 1)"
  have dd: "distinct (dependents es i)" "distinct (dependents es' i)"
    using 2 distinct_dependents by blast+
  have ss: "set (dependents es i) = set (dependents es' i)"
    using "2.prems" by (simp add: set_dependents)
  have srt: "sort (?u (dependents es' i)) = sort (?u (dependents es i))"
    using dd ss by (intro sort_set_unique) auto
  have un: "unlock (dependents es j) deg [] =
      (\<lambda>n. if n \<in> set (dependents es j) then deg n - 1 else deg n, ?u (dependents es j))"
    if "distinct es" for es j
    using unlock_distinct [OF distinct_dependents [OF that], of j deg "[]"] by simp
  show ?case
    using "2.IH" [OF un [OF "2.prems"(1), symmetric, THEN sym, symmetric] refl "2.prems"]
    by (simp add: un "2.prems"(1, 2) ss srt)
qed simp

lemma in_degree_cong:
  "distinct es \<Longrightarrow> distinct es' \<Longrightarrow> set es = set es' \<Longrightarrow> in_degree es = in_degree es'"
  by (rule ext) (simp add: in_degree_card)

lemma kahn_cong:
  assumes "edges_ok known es" "edges_ok known' es'" "set es = set es'"
    and "distinct known" "distinct known'" "set known = set known'"
  shows "kahn known es = kahn known' es'"
proof -
  note d = edges_okD(1) [OF assms(1)] edges_okD(1) [OF assms(2)]
  have "sort (filter (\<lambda>n. in_degree es' n = 0) known) = sort (filter (\<lambda>n. in_degree es' n = 0) known')"
    using assms(4-6) by (intro sort_set_unique) auto
  then show ?thesis
    using kahn_loop_cong [OF d assms(3)] in_degree_cong [OF d assms(3)] by (simp add: kahn_def)
qed

lemma soft_loop_cong:
  assumes "edges_ok known h" "edges_ok known s" "distinct known"
    and "edges_ok known' h'" "edges_ok known' s'" "distinct known'"
    and "set known = set known'" "set h = set h'" "set s = set s'"
  shows "soft_loop known h s = soft_loop known' h' s'"
  using assms
proof (induction "length s" arbitrary: s s' rule: less_induct)
  case less
  note ok = less.prems(1-6) and eq = less.prems(7-9)
  have k: "kahn known (merge_edges h s) = kahn known' (merge_edges h' s')"
    using ok eq by (intro kahn_cong edges_ok_merge) auto
  have l: "length known = length known'" using ok(3, 6) eq(1) by (metis distinct_card)
  let ?e = "kahn known' (merge_edges h' s')"
  let ?s = "drop_stuck known ?e s" and ?s' = "drop_stuck known' ?e s'"
  have ds: "set ?s = set ?s'" using eq by (simp add: drop_stuck_def Let_def)
  have oks: "edges_ok known ?s" "edges_ok known' ?s'"
    unfolding drop_stuck_def Let_def using ok(2, 5) by (blast intro: edges_ok_filter)+
  have len: "length ?s = length ?s'" "length s = length s'"
    using ds eq(3) oks ok(2, 5) edges_okD(1) by (metis distinct_card)+
  show ?case
  proof (cases "length ?s = length s")
    case True
    then show ?thesis using k l len by (subst (1 2) soft_loop_unfold) simp
  next
    case False
    then have "length ?s < length s" using length_drop_stuck le_neq_implies_less by blast
    from less.hyps [OF this ok(1) oks(1) ok(3, 4) oks(2) ok(6) eq(1, 2) ds]
    show ?thesis using k l len by (subst (1 2) soft_loop_unfold) simp
  qed
qed

lemma stuckNodes_sort_cong:
  assumes "edges_ok known es" "edges_ok known' es'" "set es = set es'"
    and "distinct known" "distinct known'" "set known = set known'"
  shows "sort (stuckNodes known es) = sort (stuckNodes known' es')"
    and "stuckNodes known es = [] \<longleftrightarrow> stuckNodes known' es' = []"
proof -
  have "length known = length known'" using assms(4-6) by (metis distinct_card)
  moreover have "sort (filter (\<lambda>n. n \<notin> set (kahn known' es')) known)
      = sort (filter (\<lambda>n. n \<notin> set (kahn known' es')) known')"
    using assms(4-6) by (intro sort_set_unique) auto
  ultimately show "sort (stuckNodes known es) = sort (stuckNodes known' es')"
    using kahn_cong [OF assms] by (simp add: stuckNodes_def Let_def)
  show "stuckNodes known es = [] \<longleftrightarrow> stuckNodes known' es' = []"
    using stuckNodes_nil_iff [OF assms(1, 4)] stuckNodes_nil_iff [OF assms(2, 5)] assms(3) by simp
qed

lemma Sort_cong_edges:
  assumes "gomap_ok hard" "gomap_ok hard'" "set (keys hard) = set (keys hard')"
    and h: "set (edgeSet (keys hard) hard) = set (edgeSet (keys hard') hard')"
    and s: "set (edgeSet (keys hard) soft) = set (edgeSet (keys hard') soft')"
  shows "Sort hard soft = Sort hard' soft'"
proof -
  have d: "distinct (keys hard)" "distinct (keys hard')" using assms(1, 2) by (simp_all add: gomap_ok_def)
  note st = stuckNodes_sort_cong [OF edges_ok_edgeSet edges_ok_edgeSet h d assms(3)]
  note sl = soft_loop_cong [OF edges_ok_edgeSet edges_ok_edgeSet d(1) edges_ok_edgeSet edges_ok_edgeSet d(2) assms(3) h s]
  show ?thesis using st sl by (simp add: Sort_def Let_def)
qed

lemma Sort_cong:
  assumes "gomap_ok hard" "gomap_ok hard'" "set hard = set hard'" "set soft = set soft'"
  shows "Sort hard soft = Sort hard' soft'"
proof (rule Sort_cong_edges [OF assms(1, 2)])
  show "set (keys hard) = set (keys hard')" using assms(3) by (simp add: keys_def)
  then show "set (edgeSet (keys hard) hard) = set (edgeSet (keys hard') hard')"
    "set (edgeSet (keys hard) soft) = set (edgeSet (keys hard') soft')"
    using assms(3, 4) by (simp_all add: set_edgeSet)
qed

section \<open>The contract of a start order\<close>

text \<open>What the two callers of \<^verbatim>\<open>Sort\<close> rely on, and what they get from it.\<close>

locale start_order =
  fixes srt :: "depmap \<Rightarrow> depmap \<Rightarrow> (topo_error, string list) result"
  assumes srt_perm: "gomap_ok h \<Longrightarrow> srt h s = Inr ord \<Longrightarrow> distinct ord \<and> set ord = set (keys h)"
    and srt_hard: "gomap_ok h \<Longrightarrow> srt h s = Inr ord \<Longrightarrow> (n, d) \<in> set (edgeSet (keys h) h) \<Longrightarrow> before ord d n"
    and srt_total: "gomap_ok h \<Longrightarrow> acyclic (set (edgeSet (keys h) h)) \<Longrightarrow> is_ok (srt h s)"
begin

lemma error_iff_cyclic: "gomap_ok h \<Longrightarrow> is_ok (srt h s) \<longleftrightarrow> acyclic (set (edgeSet (keys h) h))"
  using srt_perm srt_hard srt_total before_acyclic by (metis is_ok_iff)

lemma transitive_hard:
  assumes "gomap_ok h" "srt h s = Inr ord" "(n, d) \<in> (set (edgeSet (keys h) h))\<^sup>+"
  shows "before ord d n"
  by (rule before_trancl [OF _ _ assms(3)]) (use srt_perm srt_hard assms in blast)+

lemma reverse_stops_dependents_first:
  assumes "gomap_ok h" "srt h s = Inr ord" "(n, d) \<in> (set (edgeSet (keys h) h))\<^sup>+"
  shows "before (rev ord) n d"
  using transitive_hard [OF assms] by simp

lemma prefix_closed:
  assumes "gomap_ok h" "srt h s = Inr (us @ n # vs)" "(n, d) \<in> set (edgeSet (keys h) h)"
  shows "d \<in> set us"
proof -
  have d: "distinct (us @ n # vs)" using srt_perm assms(1, 2) by blast
  have "before (us @ n # vs) d n" using srt_hard assms by blast
  then obtain xs ys where xy: "us @ n # vs = xs @ ys" "d \<in> set xs" "n \<in> set ys"
    unfolding before_def by blast
  then have "n \<notin> set xs" using d by (metis disjoint_iff distinct_append)
  with xy(1, 2) show ?thesis
    by (auto simp: append_eq_append_conv2 append_eq_Cons_conv Cons_eq_append_conv)
qed

end

interpretation topo: start_order Sort
proof
  fix h s :: depmap and ord
  assume g: "gomap_ok h"
  show "distinct ord \<and> set ord = set (keys h)" if "Sort h s = Inr ord"
    using that Sort_cases [OF g, of s] kahn_distinct g unfolding gomap_ok_def
    by (metis Inr_inject sum.distinct(2))
  show "before ord d n" if "Sort h s = Inr ord" "(n, d) \<in> set (edgeSet (keys h) h)" for n d
  proof (rule Sort_cases [OF g, of s])
    fix es
    assume es: "edges_ok (keys h) es" "set (edgeSet (keys h) h) \<subseteq> set es"
      "Sort h s = Inr (kahn (keys h) es)" "set (kahn (keys h) es) = set (keys h)"
    have "n \<in> set (kahn (keys h) es)" using that(2) es(4) edges_okD(2) [OF edges_ok_edgeSet] by blast
    then show ?thesis using kahn_before [OF es(1), of n d] that es(2, 3) g by (auto simp: gomap_ok_def)
  qed (use that in simp)
  show "is_ok (Sort h s)" if "acyclic (set (edgeSet (keys h) h))"
    by (rule Sort_cases [OF g, of s]) (use that in simp_all)
qed

section \<open>Properties\<close>

text \<open>C23: A successful sort lists every node of the graph exactly once, and every hard
  dependency on a known node, direct or transitive, stands before its dependent.\<close>

theorem Sort_orders_hard_deps:
  assumes "gomap_ok hard" "Sort hard soft = Inr ord"
  shows "distinct ord \<and> set ord = set (keys hard) \<and>
    (\<forall>n d. (n, d) \<in> (set (edgeSet (keys hard) hard))\<^sup>+ \<longrightarrow> before ord d n)"
  using topo.srt_perm topo.transitive_hard assms by blast

text \<open>A concrete run: \<open>web\<close> requires \<open>db\<close> and wants \<open>log\<close>, which wants \<open>web\<close> back.\<close>

abbreviation ex_hard :: depmap where
  "ex_hard \<equiv> [(''web'', [''db'', ''dns'']), (''db'', []), (''log'', [])]"

abbreviation ex_soft :: depmap where
  "ex_soft \<equiv> [(''web'', [''log'']), (''log'', [''web''])]"

lemma ex_Sort: "Sort ex_hard ex_soft = Inr [''db'', ''log'', ''web'']"
  by code_simp

lemma ex_hard_ok: "gomap_ok ex_hard"
  by (simp add: gomap_ok_def)

theorem Sort_orders_hard_deps_witness:
  "before [''db'', ''log'', ''web''] ''db'' ''web''"
proof -
  have "(''web'', ''db'') \<in> (set (edgeSet (keys ex_hard) ex_hard))\<^sup>+"
    by (rule r_into_trancl) (simp add: set_edgeSet)
  with Sort_orders_hard_deps [OF ex_hard_ok ex_Sort] show ?thesis by blast
qed

text \<open>C24: Sorting fails exactly when the hard graph, restricted to known nodes and without
  self-edges, has a cycle. The error then is the cycle error; the guard against a round that
  drops no soft edge is never taken, so soft dependencies never block.\<close>

theorem Sort_fails_iff_hard_cycle:
  assumes "gomap_ok hard"
  shows "((\<exists>ns. Sort hard soft = Inl (ErrCycle ns)) = (\<not> acyclic (set (edgeSet (keys hard) hard)))) \<and>
    Sort hard soft \<noteq> Inl ErrNoProgress"
  by (rule Sort_cases [OF assms, of soft]) simp_all

theorem Sort_fails_iff_hard_cycle_witness:
  "acyclic (set (edgeSet (keys ex_hard) ex_hard))"
  using Sort_fails_iff_hard_cycle [OF ex_hard_ok, of ex_soft] ex_Sort by auto

text \<open>A soft dependency is honoured whenever its dependent cannot reach a cycle of the
  combined graph; in particular all of them are when hard and soft edges together are acyclic.\<close>

theorem Sort_honours_soft_deps:
  assumes "gomap_ok hard" "Sort hard soft = Inr ord"
    and "(n, d) \<in> set (edgeSet (keys hard) soft)"
    and "cycle_free_from (set (edgeSet (keys hard) hard) \<union> set (edgeSet (keys hard) soft)) n"
  shows "before ord d n"
  using assms by (rule Sort_soft_kept)

theorem Sort_honours_soft_deps_witness:
  "before [''b'', ''a''] ''b'' ''a''"
proof (rule Sort_honours_soft_deps [of "[(''a'', []), (''b'', [])]" "[(''a'', [''b''])]"])
  have "E = {(''a'', ''b'')} \<Longrightarrow> acyclic E" for E
    by (auto simp: acyclic_def trancl_insert)
  then have "cycle_free_from {(''a'', ''b'')} n" for n
    by (auto simp: cycle_free_from_def acyclic_def)
  then show "cycle_free_from (set (edgeSet (keys [(''a'', []), (''b'', [])]) [(''a'', []), (''b'', [])])
      \<union> set (edgeSet (keys [(''a'', []), (''b'', [])]) [(''a'', [''b''])])) ''a''"
    by (simp add: edgeSet_def)
  show "Sort [(''a'', []), (''b'', [])] [(''a'', [''b''])] = Inr [''b'', ''a'']" by code_simp
qed (simp_all add: gomap_ok_def edgeSet_def)

text \<open>The order does not depend on the iteration order of the maps nor on the order in
  which a node lists its dependencies.\<close>

theorem Sort_deterministic:
  assumes "gomap_ok hard" "gomap_ok hard'" "set hard = set hard'" "set soft = set soft'"
  shows "Sort hard soft = Sort hard' soft'"
  using assms by (rule Sort_cong)

theorem Sort_deterministic_witness:
  "Sort [(''b'', []), (''a'', [''b''])] [(''a'', [])] = Sort [(''a'', [''b'']), (''b'', [])] [(''a'', [])]"
  by (rule Sort_deterministic) (auto simp: gomap_ok_def)

text \<open>Dropping is coarser than the documentation says: a soft edge between two nodes that
  are stuck behind a soft cycle is dropped although it lies on no cycle itself, so \<open>app\<close>, which
  wants \<open>core\<close>, is started before it.\<close>

theorem Sort_drops_soft_edge_off_cycle:
  "Sort [(''app'', []), (''core'', []), (''x'', []), (''y'', [])]
        [(''app'', [''core'']), (''core'', [''x'']), (''x'', [''y'']), (''y'', [''x''])]
   = Inr [''app'', ''core'', ''x'', ''y'']"
  by code_simp

end
