(* ===== verification/AgentGraph.thy ===== *)
theory AgentGraph
  imports Toposort
begin

text \<open>
  \<^verbatim>\<open>core/agentmgr/graph.go\<close>: how the agent manager turns the four declared dependency
  lists of its agents into the two edge maps of \<open>Sort\<close>. The registry's sort
  (\<^verbatim>\<open>internal/agentreg\<close>) builds the same maps from its stored descriptions.
\<close>

section \<open>Model\<close>

record agent_deps =
  Requires :: "string list"
  Wants :: "string list"
  WantedBy :: "string list"
  RequiredBy :: "string list"

type_synonym agent_map = "(string, agent_deps) gomap"

datatype mgr_error = MgrErrCycle

text \<open>\<^verbatim>\<open>m[k] = append(m[k], x)\<close>: a missing entry reads as the nil slice.\<close>

definition append_entry :: "'k \<Rightarrow> 'x \<Rightarrow> ('k, 'x list) gomap \<Rightarrow> ('k, 'x list) gomap" where
  "append_entry k x m =
     AList.update k ((case map_of m k of None \<Rightarrow> [] | Some xs \<Rightarrow> xs) @ [x]) m"

definition add_reverse :: "string list \<Rightarrow> string \<Rightarrow> string list \<Rightarrow> depmap \<Rightarrow> depmap" where
  "add_reverse known i targets m =
     fold (\<lambda>target m. if target \<in> set known then append_entry target i m else m) targets m"

definition hard_map :: "agent_map \<Rightarrow> depmap" where
  "hard_map agents = fold (\<lambda>(i, a) m. add_reverse (keys agents) i (RequiredBy a) m) agents
     (map (\<lambda>(i, a). (i, Requires a)) agents)"

definition soft_map :: "agent_map \<Rightarrow> depmap" where
  "soft_map agents = fold (\<lambda>(i, a) m. add_reverse (keys agents) i (WantedBy a) m) agents
     (map (\<lambda>(i, a). (i, Wants a)) agents)"

definition TopologicalSort :: "agent_map \<Rightarrow> (mgr_error, string list) result" where
  "TopologicalSort agents =
     (case Sort (hard_map agents) (soft_map agents) of
        Inr ord \<Rightarrow> Inr ord
      | Inl (ErrCycle _) \<Rightarrow> Inl MgrErrCycle
      | Inl ErrNoProgress \<Rightarrow> Inl MgrErrCycle)"

section \<open>The edges the maps stand for\<close>

text \<open>\<open>requires_edge agents n d\<close>: agent \<open>n\<close> must start after \<open>d\<close>, because it
  says so or because \<open>d\<close> says it is required by \<open>n\<close>.\<close>

definition requires_edge :: "agent_map \<Rightarrow> string \<Rightarrow> string \<Rightarrow> bool" where
  "requires_edge agents n d \<longleftrightarrow> n \<in> set (keys agents) \<and> d \<in> set (keys agents) \<and> n \<noteq> d \<and>
     ((\<exists>a. (n, a) \<in> set agents \<and> d \<in> set (Requires a)) \<or>
      (\<exists>b. (d, b) \<in> set agents \<and> n \<in> set (RequiredBy b)))"

definition wants_edge :: "agent_map \<Rightarrow> string \<Rightarrow> string \<Rightarrow> bool" where
  "wants_edge agents n d \<longleftrightarrow> n \<in> set (keys agents) \<and> d \<in> set (keys agents) \<and> n \<noteq> d \<and>
     ((\<exists>a. (n, a) \<in> set agents \<and> d \<in> set (Wants a)) \<or>
      (\<exists>b. (d, b) \<in> set agents \<and> n \<in> set (WantedBy b)))"

text \<open>The pairs of a dependency map, by lookup.\<close>

definition dep_pairs :: "depmap \<Rightarrow> (string \<times> string) set" where
  "dep_pairs m = {(n, d). \<exists>ds. map_of m n = Some ds \<and> d \<in> set ds}"

lemma append_entry_pairs: "dep_pairs (append_entry k x m) = insert (k, x) (dep_pairs m)"
  by (auto simp: dep_pairs_def append_entry_def update_conv' split: option.splits if_splits)

lemma append_entry_keys [simp]: "set (keys (append_entry k x m)) = insert k (set (keys m))"
  by (simp add: append_entry_def)

lemma append_entry_ok [simp]: "gomap_ok m \<Longrightarrow> gomap_ok (append_entry k x m)"
  by (simp add: append_entry_def)

lemma add_reverse_simps [simp]:
  "add_reverse known i [] m = m"
  "add_reverse known i (t # ts) m =
     add_reverse known i ts (if t \<in> set known then append_entry t i m else m)"
  by (simp_all add: add_reverse_def)

lemma add_reverse_pairs:
  "dep_pairs (add_reverse known i ts m) = dep_pairs m \<union> {(t, i) | t. t \<in> set ts \<and> t \<in> set known}"
  by (induction ts arbitrary: m) (auto simp: append_entry_pairs)

lemma add_reverse_ok: "gomap_ok m \<Longrightarrow> gomap_ok (add_reverse known i ts m)"
  by (induction ts arbitrary: m) auto

lemma add_reverse_keys:
  "set (keys (add_reverse known i ts m)) = set (keys m) \<union> set ts \<inter> set known"
  by (induction ts arbitrary: m) auto

lemma fold_add_reverse_spec:
  "dep_pairs (fold (\<lambda>(i, a) m. add_reverse known i (f a) m) xs m) = dep_pairs m \<union>
     {(t, i) | t i. \<exists>a. (i, a) \<in> set xs \<and> t \<in> set (f a) \<and> t \<in> set known}"
  "gomap_ok m \<Longrightarrow> gomap_ok (fold (\<lambda>(i, a) m. add_reverse known i (f a) m) xs m)"
  "set known \<subseteq> set (keys m) \<Longrightarrow>
     set (keys (fold (\<lambda>(i, a) m. add_reverse known i (f a) m) xs m)) = set (keys m)"
proof -
  show "dep_pairs (fold (\<lambda>(i, a) m. add_reverse known i (f a) m) xs m) = dep_pairs m \<union>
     {(t, i) | t i. \<exists>a. (i, a) \<in> set xs \<and> t \<in> set (f a) \<and> t \<in> set known}"
    by (induction xs arbitrary: m) (auto simp: add_reverse_pairs)
  show "gomap_ok m \<Longrightarrow> gomap_ok (fold (\<lambda>(i, a) m. add_reverse known i (f a) m) xs m)"
    by (induction xs arbitrary: m) (auto simp: add_reverse_ok)
  show "set known \<subseteq> set (keys m) \<Longrightarrow>
     set (keys (fold (\<lambda>(i, a) m. add_reverse known i (f a) m) xs m)) = set (keys m)"
  proof (induction xs arbitrary: m)
    case (Cons x xs)
    obtain i a where x: "x = (i, a)" by (cases x)
    have "set (keys (add_reverse known i (f a) m)) = set (keys m)"
      using Cons.prems by (auto simp: add_reverse_keys)
    with Cons x show ?case by simp
  qed simp
qed

lemma keys_map_fst [simp]: "keys (map (\<lambda>(i, a). (i, f a)) m) = keys m"
  by (induction m) auto

lemma gomap_ok_map_fst [simp]: "gomap_ok (map (\<lambda>(i, a). (i, f a)) m) = gomap_ok m"
  by (simp add: gomap_ok_def)

lemma dep_pairs_map: "gomap_ok m \<Longrightarrow>
  dep_pairs (map (\<lambda>(i, a). (i, f a)) m) = {(n, d). \<exists>a. (n, a) \<in> set m \<and> d \<in> set (f a)}"
  by (auto simp: dep_pairs_def gomap_ok_map_of map_of_map)

lemma edgeSet_pairs: "gomap_ok m \<Longrightarrow> set (edgeSet known m) =
  {(n, d). (n, d) \<in> dep_pairs m \<and> n \<in> set known \<and> d \<in> set known \<and> d \<noteq> n}"
  by (auto simp: set_edgeSet dep_pairs_def gomap_ok_map_of)

lemma hard_map_spec:
  assumes "gomap_ok agents"
  shows "gomap_ok (hard_map agents)" and "set (keys (hard_map agents)) = set (keys agents)"
    and "set (edgeSet (keys (hard_map agents)) (hard_map agents)) = {(n, d). requires_edge agents n d}"
proof -
  let ?m = "map (\<lambda>(i, a). (i, Requires a)) agents"
  have m: "gomap_ok ?m" "set (keys agents) \<subseteq> set (keys ?m)" using assms by simp_all
  note sp = fold_add_reverse_spec(1) [of "keys agents" RequiredBy agents ?m, folded hard_map_def]
    fold_add_reverse_spec(2) [OF m(1), of "keys agents" RequiredBy agents, folded hard_map_def]
    fold_add_reverse_spec(3) [OF m(2), of RequiredBy agents, folded hard_map_def]
  show ok: "gomap_ok (hard_map agents)" and k: "set (keys (hard_map agents)) = set (keys agents)"
    using sp by simp_all
  show "set (edgeSet (keys (hard_map agents)) (hard_map agents)) = {(n, d). requires_edge agents n d}"
    unfolding edgeSet_pairs [OF ok] sp(1) dep_pairs_map [OF assms] k
    by (auto simp: requires_edge_def)
qed

lemma soft_map_spec:
  assumes "gomap_ok agents"
  shows "gomap_ok (soft_map agents)" and "set (keys (soft_map agents)) = set (keys agents)"
    and "set (edgeSet (keys (hard_map agents)) (soft_map agents)) = {(n, d). wants_edge agents n d}"
proof -
  let ?m = "map (\<lambda>(i, a). (i, Wants a)) agents"
  have m: "gomap_ok ?m" "set (keys agents) \<subseteq> set (keys ?m)" using assms by simp_all
  note sp = fold_add_reverse_spec(1) [of "keys agents" WantedBy agents ?m, folded soft_map_def]
    fold_add_reverse_spec(2) [OF m(1), of "keys agents" WantedBy agents, folded soft_map_def]
    fold_add_reverse_spec(3) [OF m(2), of WantedBy agents, folded soft_map_def]
  show ok: "gomap_ok (soft_map agents)" and k: "set (keys (soft_map agents)) = set (keys agents)"
    using sp by simp_all
  show "set (edgeSet (keys (hard_map agents)) (soft_map agents)) = {(n, d). wants_edge agents n d}"
    unfolding edgeSet_pairs [OF ok] sp(1) dep_pairs_map [OF assms] hard_map_spec(2) [OF assms]
    by (auto simp: wants_edge_def)
qed

section \<open>Properties\<close>

lemma TopologicalSort_Inr:
  "TopologicalSort agents = Inr ord \<longleftrightarrow> Sort (hard_map agents) (soft_map agents) = Inr ord"
  by (auto simp: TopologicalSort_def split: sum.splits topo_error.splits)

lemma TopologicalSort_cong:
  assumes "gomap_ok agents" "gomap_ok agents'" "set agents = set agents'"
  shows "Sort (hard_map agents) (soft_map agents) = Sort (hard_map agents') (soft_map agents')"
proof (rule Sort_cong_edges)
  have k: "set (keys agents) = set (keys agents')" using assms(3) by (simp add: keys_def)
  have "requires_edge agents = requires_edge agents'" "wants_edge agents = wants_edge agents'"
    by (intro ext; simp add: requires_edge_def wants_edge_def k assms(3))+
  then show "set (edgeSet (keys (hard_map agents)) (hard_map agents)) =
      set (edgeSet (keys (hard_map agents')) (hard_map agents'))"
    "set (edgeSet (keys (hard_map agents)) (soft_map agents)) =
      set (edgeSet (keys (hard_map agents')) (soft_map agents'))"
    using hard_map_spec(3) soft_map_spec(3) assms(1, 2) by simp_all
  show "set (keys (hard_map agents)) = set (keys (hard_map agents'))"
    using hard_map_spec(2) assms(1, 2) k by simp
qed (use hard_map_spec(1) assms in auto)

text \<open>The manager's order starts every managed agent once and an agent after everything it
  requires and after every agent that declares itself required by it, transitively; the order
  fails with the cycle error exactly when these requirements are cyclic.\<close>

theorem TopologicalSort_requires:
  assumes "gomap_ok agents"
  shows "case TopologicalSort agents of
      Inr ord \<Rightarrow> distinct ord \<and> set ord = set (keys agents) \<and>
        (\<forall>n d. (requires_edge agents)\<^sup>+\<^sup>+ n d \<longrightarrow> before ord d n)
    | Inl MgrErrCycle \<Rightarrow> (\<exists>n. (requires_edge agents)\<^sup>+\<^sup>+ n n)"
proof (cases "TopologicalSort agents")
  case (Inl e)
  then have "\<not> is_ok (Sort (hard_map agents) (soft_map agents))"
    using TopologicalSort_Inr [of agents] by (auto simp: is_ok_iff)
  then have "\<not> acyclic {(n, d). requires_edge agents n d}"
    using topo.error_iff_cyclic [OF hard_map_spec(1) [OF assms]] hard_map_spec(3) [OF assms] by simp
  with Inl show ?thesis
    by (cases e) (auto simp: acyclic_def tranclp_unfold)
next
  case (Inr ord)
  then have S: "Sort (hard_map agents) (soft_map agents) = Inr ord" by (simp add: TopologicalSort_Inr)
  from topo.srt_perm [OF hard_map_spec(1) [OF assms] S] topo.transitive_hard [OF hard_map_spec(1) [OF assms] S]
  show ?thesis
    unfolding Inr hard_map_spec(2, 3) [OF assms] by (simp add: tranclp_unfold)
qed

abbreviation ex_agents :: agent_map where
  "ex_agents \<equiv>
    [(''api'', \<lparr>Requires = [''db''], Wants = [], WantedBy = [], RequiredBy = []\<rparr>),
     (''db'', \<lparr>Requires = [], Wants = [], WantedBy = [], RequiredBy = []\<rparr>),
     (''auth'', \<lparr>Requires = [], Wants = [], WantedBy = [], RequiredBy = [''api'']\<rparr>)]"

theorem TopologicalSort_requires_witness:
  "before [''auth'', ''db'', ''api''] ''auth'' ''api''"
proof -
  have "TopologicalSort ex_agents = Inr [''auth'', ''db'', ''api'']" by code_simp
  moreover have "requires_edge ex_agents ''api'' ''auth''" by (simp add: requires_edge_def)
  ultimately show ?thesis
    using TopologicalSort_requires [of ex_agents] by (auto simp: gomap_ok_def)
qed

text \<open>The order also honours every \<^verbatim>\<open>wants\<close> and \<^verbatim>\<open>wanted_by\<close> declaration whose
  dependent does not reach a dependency cycle.\<close>

theorem TopologicalSort_wants:
  assumes "gomap_ok agents" "TopologicalSort agents = Inr ord" "wants_edge agents n d"
    and "cycle_free_from {(n, d). requires_edge agents n d \<or> wants_edge agents n d} n"
  shows "before ord d n"
proof -
  have "{(n, d). requires_edge agents n d \<or> wants_edge agents n d}
      = set (edgeSet (keys (hard_map agents)) (hard_map agents))
        \<union> set (edgeSet (keys (hard_map agents)) (soft_map agents))"
    unfolding hard_map_spec(3) [OF assms(1)] soft_map_spec(3) [OF assms(1)] by auto
  with assms show ?thesis
    using Sort_soft_kept [OF hard_map_spec(1) [OF assms(1)], of "soft_map agents" ord n d]
      soft_map_spec(3) [OF assms(1)] TopologicalSort_Inr by auto
qed

end
