(* ===== verification/Controller.thy ===== *)
theory Controller
  imports StartWait AgentGraph
begin

text \<open>
  \<^verbatim>\<open>core/lifecycle/controller.go\<close> with the dependency resolver of
  \<^verbatim>\<open>core/agentmgr/discovery.go\<close>. A controller is its machine, its start-in-flight marker and
  its status feed; the controllers of all agents form a \<open>ctl_world\<close>, since an action on
  one starts others through the resolver. What runners answer and what arrives on the feeds
  while a wait is on comes from a \<open>ctl_env\<close>, indexed by a counter of runner calls.
  Everything published, and every call of a runner, is recorded in a trace, oldest first.
\<close>

section \<open>Model\<close>

datatype Action = ActionInitialize | ActionStart | ActionStop | ActionRestart | ActionReload
  | ActionOther string

text \<open>A resolver that splits dependencies into hard and soft ones, one that does not, or none.\<close>

datatype resolver = NoResolver | Classified "string list" "string list" | Merged "string list"

record ctl_cfg =
  ctl_host :: string
  ctl_deps :: resolver
  ctl_caps :: runner_caps
  ReadinessBudget :: int
  SilenceBudget :: int

type_synonym ctl_cfgs = "(string, ctl_cfg) gomap"

record ctl =
  ctl_sm :: lifecycle_sm
  starting :: bool
  stateCh :: "status_evt list"

datatype control_action = ACTION_START | ACTION_STOP | ACTION_RELOAD | ACTION_RESTART

datatype trace_ev =
    TControl string control_action
  | TStatus string AgentState
  | TFailed string string start_timeout
  | TTransition transition_event
  | TRunStart string string bool
  | TRunStop string
  | TRunReset string
  | TRunReload string bool

record ctl_world =
  ctls :: "string \<Rightarrow> ctl"
  tick :: nat
  trace :: "trace_ev list"

record ctl_env =
  env_run_id :: "nat \<Rightarrow> string"
  env_now :: "nat \<Rightarrow> int"
  env_start :: "nat \<Rightarrow> string option"
  env_reload :: "nat \<Rightarrow> string option"
  env_feed :: "nat \<Rightarrow> select_ev list"
  env_deadline :: "nat \<Rightarrow> bool \<times> int"

datatype lc_error =
    ErrDepCycle "string list" string
  | ErrTransition sm_error
  | ErrDepFailed string lc_error
  | ErrDepNotFound string
  | ErrRunner string
  | ErrStart start_timeout
  | ErrReloadTimeout string
  | ErrRestartStop lc_error
  | ErrUnknownAction string

definition NewController :: "string \<Rightarrow> string \<Rightarrow> ctl" where
  "NewController i host = \<lparr>ctl_sm = NewLifecycleStateMachine i host, starting = False, stateCh = []\<rparr>"

definition dependencyClasses :: "resolver \<Rightarrow> string list \<times> string list" where
  "dependencyClasses r = (case r of
     NoResolver \<Rightarrow> ([], [])
   | Classified hard soft \<Rightarrow> (hard, soft)
   | Merged deps \<Rightarrow> (deps, []))"

definition depView :: "agent_map \<Rightarrow> string \<Rightarrow> resolver" where
  "depView agents i = (case map_of agents i of
     None \<Rightarrow> Classified [] []
   | Some a \<Rightarrow> Classified (Requires a) (Wants a))"

definition ctl_state :: "ctl_world \<Rightarrow> string \<Rightarrow> string" where
  "ctl_state w i = GetState (ctl_sm (ctls w i))"

subsection \<open>Steps\<close>

definition emit :: "trace_ev list \<Rightarrow> ctl_world \<Rightarrow> ctl_world" where
  "emit es w = w \<lparr>trace := trace w @ es\<rparr>"

definition upd_ctl :: "string \<Rightarrow> (ctl \<Rightarrow> ctl) \<Rightarrow> ctl_world \<Rightarrow> ctl_world" where
  "upd_ctl i f w = w \<lparr>ctls := (ctls w) (i := f (ctls w i))\<rparr>"

definition next_tick :: "ctl_world \<Rightarrow> ctl_world" where
  "next_tick w = w \<lparr>tick := Suc (tick w)\<rparr>"

definition transition_to :: "string \<Rightarrow> string \<Rightarrow> ctl_world \<Rightarrow> lc_error option \<times> ctl_world" where
  "transition_to i s w = (case TransitionTo (ctl_sm (ctls w i)) s of
     Inl e \<Rightarrow> (Some (ErrTransition e), w)
   | Inr (sm', ns) \<Rightarrow> (None,
       emit (map (\<lambda>n. TTransition (emitLifecycleEvent n)) ns) (upd_ctl i (\<lambda>c. c \<lparr>ctl_sm := sm'\<rparr>) w)))"

definition publishControl :: "string \<Rightarrow> control_action \<Rightarrow> ctl_world \<Rightarrow> ctl_world" where
  "publishControl i a w = emit [TControl i a] w"

definition publishStatus :: "string \<Rightarrow> AgentState \<Rightarrow> ctl_world \<Rightarrow> ctl_world" where
  "publishStatus i st w = emit [TStatus i st] w"

definition publishFailed :: "string \<Rightarrow> string \<Rightarrow> start_timeout \<Rightarrow> ctl_world \<Rightarrow> ctl_world" where
  "publishFailed i rid t w = emit [TFailed i rid t] w"

definition beginStart :: "string \<Rightarrow> ctl_world \<Rightarrow> bool \<times> ctl_world" where
  "beginStart i w = (if starting (ctls w i) then (False, w)
     else (True, upd_ctl i (\<lambda>c. c \<lparr>starting := True\<rparr>) w))"

definition endStart :: "string \<Rightarrow> ctl_world \<Rightarrow> ctl_world" where
  "endStart i w = upd_ctl i (\<lambda>c. c \<lparr>starting := False\<rparr>) w"

definition set_feed :: "string \<Rightarrow> status_evt list \<Rightarrow> ctl_world \<Rightarrow> ctl_world" where
  "set_feed i ch w = upd_ctl i (\<lambda>c. c \<lparr>stateCh := ch\<rparr>) w"

fun feed_rest :: "select_ev list \<Rightarrow> status_evt list \<Rightarrow> status_evt list" where
  "feed_rest [] ch = ch"
| "feed_rest (StateEv e # evs) ch = feed_rest evs (push_status e ch)"
| "feed_rest (SilenceTimer _ _ # evs) ch = feed_rest evs ch"

fun feed_events :: "select_ev list \<Rightarrow> status_evt list" where
  "feed_events [] = []"
| "feed_events (StateEv e # evs) = e # feed_events evs"
| "feed_events (SilenceTimer _ _ # evs) = feed_events evs"

text \<open>The tail of a start, from the control event on: run id, drained feed, spawn, the move to
  \<open>starting\<close>, the wait, and the move to \<open>running\<close> or the reported failure.\<close>

definition spawn_and_wait :: "ctl_cfg \<Rightarrow> ctl_env \<Rightarrow> string \<Rightarrow> ctl_world \<Rightarrow> lc_error option \<times> ctl_world" where
  "spawn_and_wait c env i w =
     (let t = tick w;
          w1 = next_tick (publishControl i ACTION_START w);
          rid = env_run_id env t;
          w2 = set_feed i [] w1
      in case env_start env t of
           Some e \<Rightarrow> (Some (ErrRunner e), snd (transition_to i StateError (emit [TRunStart i rid False] w2)))
         | None \<Rightarrow>
           let (e, w3) = transition_to i StateStarting (emit [TRunStart i rid True] w2) in
           (case e of
              Some e \<Rightarrow> (Some e, w3)
            | None \<Rightarrow>
              let (r, rest) = awaitRunningWithRunIDSince (ctl_caps c) i (ReadinessBudget c) (SilenceBudget c)
                    rid (env_now env t) (env_feed env t) (env_deadline env t);
                  w4 = set_feed i (feed_rest rest []) w3
              in case r of
                   Some to \<Rightarrow> (Some (ErrStart to), publishFailed i rid to (snd (transition_to i StateError w4)))
                 | None \<Rightarrow> transition_to i StateRunning w4))"

definition do_stop :: "ctl_cfg \<Rightarrow> string \<Rightarrow> ctl_world \<Rightarrow> lc_error option \<times> ctl_world" where
  "do_stop c i w =
     (if ctl_state w i = StateStopped then (None, w)
      else
        let (e, w1) = (if ctl_state w i \<noteq> StateStopping
              then transition_to i StateStopping (publishControl i ACTION_STOP w) else (None, w))
        in case e of
             Some e \<Rightarrow> (Some e, w1)
           | None \<Rightarrow>
             let w2 = emit [TRunStop i] w1;
                 w3 = (if Resetter (ctl_caps c) then emit [TRunReset i] w2 else w2);
                 w4 = publishStatus i AS_STOPPED w3
             in (None, snd (transition_to i StateStopped w4)))"

definition do_reload :: "ctl_cfg \<Rightarrow> ctl_env \<Rightarrow> string \<Rightarrow> ctl_world \<Rightarrow> lc_error option \<times> ctl_world" where
  "do_reload c env i w =
     (let (e, w1) = transition_to i StateReloading (publishControl i ACTION_RELOAD w) in
      case e of
        Some e \<Rightarrow> (Some e, w1)
      | None \<Rightarrow>
        let t = tick w1; w2 = next_tick w1 in
        (case env_reload env t of
           Some e \<Rightarrow> (Some (ErrRunner e), snd (transition_to i StateError (emit [TRunReload i False] w2)))
         | None \<Rightarrow>
           let w3 = emit [TRunReload i True] w2;
               want = anyEnumToString AS_RUNNING;
               (ok, rest) = awaitTarget want (stateCh (ctls w3 i) @ feed_events (env_feed env t));
               w4 = set_feed i rest w3
           in if ok then transition_to i StateRunning w4
              else (Some (ErrReloadTimeout want), snd (transition_to i StateError w4))))"

definition open_ids :: "ctl_cfgs \<Rightarrow> string list \<Rightarrow> nat" where
  "open_ids cfgs stack = card (set (keys cfgs) - set stack)"

lemma open_ids_push:
  assumes "map_of cfgs i = Some c" "i \<notin> set stack"
  shows "open_ids cfgs (stack @ [i]) < open_ids cfgs stack"
proof -
  have "i \<in> set (keys cfgs)" using assms(1) by (auto simp: set_keys)
  with assms(2) show ?thesis
    unfolding open_ids_def by (intro psubset_card_mono) auto
qed

text \<open>\<^verbatim>\<open>ApplyWithContext\<close>; \<open>stack\<close> is the call stack its context carries.
  A dependency is started through the resolver's \<^verbatim>\<open>EnsureStarted\<close>, which finds the
  agent and applies the start action under the extended stack.\<close>

function apply_ctx :: "ctl_cfgs \<Rightarrow> ctl_env \<Rightarrow> string list \<Rightarrow> string \<Rightarrow> Action \<Rightarrow> ctl_world
      \<Rightarrow> lc_error option \<times> ctl_world"
  and ensure_hard :: "ctl_cfgs \<Rightarrow> ctl_env \<Rightarrow> string list \<Rightarrow> string list \<Rightarrow> ctl_world
      \<Rightarrow> lc_error option \<times> ctl_world"
  and ensure_soft :: "ctl_cfgs \<Rightarrow> ctl_env \<Rightarrow> string list \<Rightarrow> string list \<Rightarrow> ctl_world \<Rightarrow> ctl_world"
where
  "apply_ctx cfgs env stack i a w =
     (if i \<in> set stack then (Some (ErrDepCycle stack i), w)
      else case map_of cfgs i of
        None \<Rightarrow> (Some (ErrDepNotFound i), w)
      | Some c \<Rightarrow>
        (case a of
           ActionInitialize \<Rightarrow> transition_to i StateInitializing w
         | ActionStart \<Rightarrow>
           if ctl_state w i \<in> {StateStarting, StateRunning, StateReloading} then (None, w)
           else let (claimed, w0) = beginStart i w in
             if \<not> claimed then (None, w0)
             else
               let (hard, soft) = dependencyClasses (ctl_deps c);
                   (e, w1) = ensure_hard cfgs env (stack @ [i]) hard w0
               in (case e of
                     Some e \<Rightarrow> (Some e, endStart i w1)
                   | None \<Rightarrow>
                     let w2 = ensure_soft cfgs env (stack @ [i]) soft w1;
                         (e', w3) = spawn_and_wait c env i w2
                     in (e', endStart i w3))
         | ActionStop \<Rightarrow> do_stop c i w
         | ActionReload \<Rightarrow>
           if ctl_state w i \<noteq> StateRunning then apply_ctx cfgs env (stack @ [i]) i ActionStart w
           else do_reload c env i w
         | ActionRestart \<Rightarrow>
           let (e, w1) = apply_ctx cfgs env (stack @ [i]) i ActionStop (publishControl i ACTION_RESTART w) in
           (case e of
              Some e \<Rightarrow> (Some (ErrRestartStop e), w1)
            | None \<Rightarrow> apply_ctx cfgs env (stack @ [i]) i ActionStart w1)
         | ActionOther s \<Rightarrow> (Some (ErrUnknownAction s), w)))"
| "ensure_hard cfgs env stack [] w = (None, w)"
| "ensure_hard cfgs env stack (d # ds) w =
     (case (if map_of cfgs d = None then (Some (ErrDepNotFound d), w)
            else apply_ctx cfgs env stack d ActionStart w) of
        (Some e, w') \<Rightarrow> (Some (ErrDepFailed d e), w')
      | (None, w') \<Rightarrow> ensure_hard cfgs env stack ds w')"
| "ensure_soft cfgs env stack [] w = w"
| "ensure_soft cfgs env stack (d # ds) w =
     (case (if map_of cfgs d = None then (Some (ErrDepNotFound d), w)
            else apply_ctx cfgs env stack d ActionStart w) of
        (_, w') \<Rightarrow> ensure_soft cfgs env stack ds w')"
  by pat_completeness auto

termination
  by (relation "measures [\<lambda>x. case x of
        Inl (cfgs, env, stack, i, a, w) \<Rightarrow> open_ids cfgs stack
      | Inr (Inl (cfgs, env, stack, ds, w)) \<Rightarrow> open_ids cfgs stack
      | Inr (Inr (cfgs, env, stack, ds, w)) \<Rightarrow> open_ids cfgs stack,
      \<lambda>x. case x of
        Inl (cfgs, env, stack, i, a, w) \<Rightarrow> 0
      | Inr (Inl (cfgs, env, stack, ds, w)) \<Rightarrow> Suc (length ds)
      | Inr (Inr (cfgs, env, stack, ds, w)) \<Rightarrow> Suc (length ds)]")
    (auto simp: open_ids_push)

declare apply_ctx.simps [simp del]

definition Apply :: "ctl_cfgs \<Rightarrow> ctl_env \<Rightarrow> string \<Rightarrow> Action \<Rightarrow> ctl_world \<Rightarrow> lc_error option \<times> ctl_world" where
  "Apply cfgs env i a w = apply_ctx cfgs env [] i a w"

section \<open>What every action preserves\<close>

text \<open>A relation between the world before and after that the primitive steps respect holds across
  every action, however deep its dependencies go.\<close>

definition is_transition :: "trace_ev \<Rightarrow> bool" where
  "is_transition ev = (case ev of TTransition _ \<Rightarrow> True | _ \<Rightarrow> False)"

locale world_relation =
  fixes rel :: "ctl_world \<Rightarrow> ctl_world \<Rightarrow> bool"
  assumes rel_refl: "rel w w"
    and rel_trans: "rel w1 w2 \<Longrightarrow> rel w2 w3 \<Longrightarrow> rel w1 w3"
    and rel_emit: "\<forall>ev\<in>set es. \<not> is_transition ev \<Longrightarrow> rel w (emit es w)"
    and rel_tick: "rel w (next_tick w)"
    and rel_marker: "rel w (upd_ctl i (\<lambda>c. c \<lparr>starting := b\<rparr>) w)"
    and rel_feed: "rel w (set_feed i ch w)"
    and rel_move: "TransitionTo (ctl_sm (ctls w i)) s = Inr (sm', ns) \<Longrightarrow>
      rel w (emit (map (\<lambda>n. TTransition (emitLifecycleEvent n)) ns) (upd_ctl i (\<lambda>c. c \<lparr>ctl_sm := sm'\<rparr>) w))"
begin

lemma rel_transition: "rel w (snd (transition_to i s w))"
  by (auto simp: transition_to_def rel_refl rel_move split: sum.split)

lemma rel_after: "rel w w1 \<Longrightarrow> rel w (snd (transition_to i s w1))"
  using rel_trans rel_transition by blast

lemma rel_after_emit: "rel w w1 \<Longrightarrow> \<forall>ev\<in>set es. \<not> is_transition ev \<Longrightarrow> rel w (emit es w1)"
  using rel_trans rel_emit by blast

lemma rel_after_feed: "rel w w1 \<Longrightarrow> rel w (set_feed i ch w1)"
  using rel_trans rel_feed by blast

lemma rel_after_tick: "rel w w1 \<Longrightarrow> rel w (next_tick w1)"
  using rel_trans rel_tick by blast

lemma rel_after_marker: "rel w w1 \<Longrightarrow> rel w (upd_ctl i (\<lambda>c. c \<lparr>starting := b\<rparr>) w1)"
  using rel_trans rel_marker by blast

lemmas rel_steps = rel_after rel_after_emit rel_after_feed rel_after_tick rel_after_marker rel_refl

lemma rel_transition_eq: "rel w w1 \<Longrightarrow> transition_to i s w1 = (e, w2) \<Longrightarrow> rel w w2"
  using rel_after [of w w1 i s] by simp

lemma rel_spawn: "rel w (snd (spawn_and_wait c env i w))"
  unfolding spawn_and_wait_def publishControl_def publishFailed_def Let_def
  by (auto split: option.splits prod.splits intro!: rel_steps simp: is_transition_def
      intro: rel_transition_eq [rotated])

lemma rel_stop: "rel w (snd (do_stop c i w))"
  unfolding do_stop_def publishControl_def publishStatus_def Let_def
  by (auto split: option.splits prod.splits if_splits intro!: rel_steps simp: is_transition_def
      intro: rel_transition_eq [rotated])

lemma rel_reload: "rel w (snd (do_reload c env i w))"
  unfolding do_reload_def publishControl_def Let_def
  by (auto split: option.splits prod.splits if_splits intro!: rel_steps simp: is_transition_def
      intro: rel_transition_eq [rotated])

lemma rel_apply:
  "rel w (snd (apply_ctx cfgs env stack i a w))"
  "rel w (snd (ensure_hard cfgs env stack ds w))"
  "rel w (ensure_soft cfgs env stack ds w)"
proof (induction cfgs env stack i a w and cfgs env stack ds w and cfgs env stack ds w
    rule: apply_ctx_ensure_hard_ensure_soft.induct)
  case (1 cfgs env stack i a w)
  show ?case
  proof (cases "i \<in> set stack \<or> map_of cfgs i = None")
    case True
    then show ?thesis by (subst apply_ctx.simps) (auto simp: rel_refl)
  next
    case False
    then obtain c where c: "i \<notin> set stack" "map_of cfgs i = Some c" by auto
    show ?thesis
    proof (cases a)
      case ActionInitialize
      with c show ?thesis by (subst apply_ctx.simps) (simp add: rel_transition)
    next
      case ActionStart
      show ?thesis
      proof (cases "ctl_state w i \<in> {StateStarting, StateRunning, StateReloading} \<or> starting (ctls w i)")
        case True
        with c ActionStart show ?thesis
          by (subst apply_ctx.simps) (auto simp: beginStart_def rel_refl)
      next
        case idle: False
        let ?w0 = "upd_ctl i (\<lambda>c. c \<lparr>starting := True\<rparr>) w"
        obtain hard soft where hs: "dependencyClasses (ctl_deps c) = (hard, soft)" by fastforce
        obtain e w1 where h: "ensure_hard cfgs env (stack @ [i]) hard ?w0 = (e, w1)" by fastforce
        have b: "beginStart i w = (True, ?w0)" using idle by (simp add: beginStart_def)
        have r1: "rel w w1"
          using "1.IH"(1) [OF c(1, 2) ActionStart _ b [symmetric]] idle hs h rel_trans [OF rel_marker]
          by fastforce
        show ?thesis
        proof (cases e)
          case (Some e')
          with c ActionStart idle hs h r1 show ?thesis
            by (subst apply_ctx.simps) (auto simp: b endStart_def intro: rel_after_marker)
        next
          case None
          let ?w2 = "ensure_soft cfgs env (stack @ [i]) soft w1"
          have "rel w1 ?w2"
            using "1.IH"(2) [OF c(1, 2) ActionStart _ b [symmetric]] idle hs h None by fastforce
          then have "rel w (snd (spawn_and_wait c env i ?w2))"
            using r1 rel_trans rel_spawn by blast
          with c ActionStart idle hs h None show ?thesis
            by (subst apply_ctx.simps) (auto simp: b endStart_def split: prod.split intro: rel_after_marker)
        qed
      qed
    next
      case ActionStop
      with c show ?thesis by (subst apply_ctx.simps) (simp add: rel_stop)
    next
      case ActionRestart
      let ?wp = "publishControl i ACTION_RESTART w"
      have p: "rel w ?wp" by (simp add: publishControl_def rel_emit is_transition_def)
      obtain e w1 where s: "apply_ctx cfgs env (stack @ [i]) i ActionStop ?wp = (e, w1)" by fastforce
      have r1: "rel w w1" using "1.IH"(3) [OF c(1, 2) ActionRestart] s rel_trans [OF p] by fastforce
      show ?thesis
      proof (cases e)
        case (Some e')
        with c ActionRestart s r1 show ?thesis by (subst apply_ctx.simps) simp
      next
        case None
        have "rel w1 (snd (apply_ctx cfgs env (stack @ [i]) i ActionStart w1))"
          using "1.IH"(4) [OF c(1, 2) ActionRestart refl s [symmetric] None] .
        with c ActionRestart s r1 None show ?thesis
          by (subst apply_ctx.simps) (auto intro: rel_trans)
      qed
    next
      case ActionReload
      with c "1.IH"(5) [OF c(1, 2) ActionReload] show ?thesis
        by (subst apply_ctx.simps) (auto simp: rel_reload)
    next
      case (ActionOther s)
      with c show ?thesis by (subst apply_ctx.simps) (simp add: rel_refl)
    qed
  qed
next
  case (3 cfgs env stack d ds w)
  then show ?case
    by (auto split: option.split prod.split simp: rel_refl) (metis rel_trans snd_conv)+
next
  case (5 cfgs env stack d ds w)
  then show ?case
    by (auto split: option.split prod.split simp: rel_refl) (metis rel_trans snd_conv)+
qed (simp_all add: rel_refl)

end

text \<open>The trace only grows.\<close>

interpretation trace_grows: world_relation "\<lambda>w w'. \<exists>es. trace w' = trace w @ es"
proof
  show "\<exists>es. trace w3 = trace w1 @ es" if "\<exists>es. trace w2 = trace w1 @ es" "\<exists>es. trace w3 = trace w2 @ es"
    for w1 w2 w3
    using that by auto
qed (auto simp: emit_def next_tick_def upd_ctl_def set_feed_def)

text \<open>The machines stay reachable lifecycle machines named after their agent.\<close>

definition machines_ok :: "ctl_world \<Rightarrow> bool" where
  "machines_ok w \<longleftrightarrow> (\<forall>i. lifecycle_reachable (ctl_sm (ctls w i)) \<and> (\<exists>h. observers (ctl_sm (ctls w i)) = [(i, h)]))"

interpretation machines: world_relation "\<lambda>w w'. machines_ok w \<longrightarrow> machines_ok w'"
proof
  fix w :: ctl_world and i s sm' ns
  assume t: "TransitionTo (ctl_sm (ctls w i)) s = Inr (sm', ns)"
  have "lifecycle_reachable sm'" if "lifecycle_reachable (ctl_sm (ctls w i))"
    by (rule lifecycle_reachable.transition [OF that t])
  with TransitionTo_table [OF t] show "machines_ok w \<longrightarrow> machines_ok
      (emit (map (\<lambda>n. TTransition (emitLifecycleEvent n)) ns) (upd_ctl i (\<lambda>c. c \<lparr>ctl_sm := sm'\<rparr>) w))"
    by (auto simp: machines_ok_def emit_def upd_ctl_def)
qed (auto simp: machines_ok_def emit_def next_tick_def upd_ctl_def set_feed_def)

text \<open>The transitions announced for an agent are a walk through the lifecycle table from
  \<open>stopped\<close> to its present state.\<close>

fun follows :: "string \<Rightarrow> transition_event list \<Rightarrow> string option" where
  "follows s [] = Some s"
| "follows s (e # es) =
     (if te_from e = s \<and> te_to e \<in> set (next_states s) then follows (te_to e) es else None)"

definition agent_moves :: "string \<Rightarrow> trace_ev list \<Rightarrow> transition_event list" where
  "agent_moves i tr = [e. TTransition e \<leftarrow> tr, te_agent e = i]"

definition announced_ok :: "ctl_world \<Rightarrow> bool" where
  "announced_ok w \<longleftrightarrow> machines_ok w \<and>
     (\<forall>i. follows StateStopped (agent_moves i (trace w)) = Some (ctl_state w i))"

lemma follows_append: "follows s (es @ fs) = (case follows s es of None \<Rightarrow> None | Some t \<Rightarrow> follows t fs)"
  by (induction s es rule: follows.induct) auto

lemma agent_moves_append: "agent_moves i (xs @ ys) = agent_moves i xs @ agent_moves i ys"
  by (simp add: agent_moves_def)

lemma agent_moves_none: "\<forall>ev\<in>set es. \<not> is_transition ev \<Longrightarrow> agent_moves i es = []"
proof (induction es)
  case (Cons e es)
  then show ?case by (cases e) (auto simp: agent_moves_def is_transition_def)
qed (simp add: agent_moves_def)

lemma machines_ok_moves:
  assumes "machines_ok w" "TransitionTo (ctl_sm (ctls w i)) s = Inr (sm', ns)"
  shows "\<exists>h. map emitLifecycleEvent ns = [\<lparr>te_agent = i, te_from = ctl_state w i, te_to = s, te_host = h\<rparr>]"
    and "s \<in> set (next_states (ctl_state w i))" and "current sm' = s"
proof -
  have r: "lifecycle_reachable (ctl_sm (ctls w i))" and o: "\<exists>h. observers (ctl_sm (ctls w i)) = [(i, h)]"
    using assms(1) by (simp_all add: machines_ok_def)
  show "\<exists>h. map emitLifecycleEvent ns = [\<lparr>te_agent = i, te_from = ctl_state w i, te_to = s, te_host = h\<rparr>]"
    using o assms(2) by (auto simp: TransitionTo_def emitLifecycleEvent_def ctl_state_def GetState_def split: if_splits)
  show "s \<in> set (next_states (ctl_state w i))" "current sm' = s"
    using assms(2) by (auto simp: TransitionTo_def allowed_from_reachable [OF r] ctl_state_def GetState_def split: if_splits)
qed

interpretation announced: world_relation "\<lambda>w w'. announced_ok w \<longrightarrow> announced_ok w'"
proof
  fix w :: ctl_world and es :: "trace_ev list"
  assume "\<forall>ev\<in>set es. \<not> is_transition ev"
  then show "announced_ok w \<longrightarrow> announced_ok (emit es w)"
    using machines.rel_emit [of es w]
    by (auto simp: announced_ok_def agent_moves_append agent_moves_none ctl_state_def)
      (simp_all add: emit_def agent_moves_append agent_moves_none)
next
  fix w :: ctl_world and i s sm' ns
  let ?w = "emit (map (\<lambda>n. TTransition (emitLifecycleEvent n)) ns) (upd_ctl i (\<lambda>c. c \<lparr>ctl_sm := sm'\<rparr>) w)"
  assume t: "TransitionTo (ctl_sm (ctls w i)) s = Inr (sm', ns)"
  show "announced_ok w \<longrightarrow> announced_ok ?w"
  proof
    assume a: "announced_ok w"
    then have m: "machines_ok w" by (simp add: announced_ok_def)
    note mv = machines_ok_moves [OF m t]
    obtain h where ns: "map emitLifecycleEvent ns = [\<lparr>te_agent = i, te_from = ctl_state w i, te_to = s, te_host = h\<rparr>]"
      using mv(1) by (elim exE) (rule that)
    have "map (\<lambda>n. TTransition (emitLifecycleEvent n)) ns = map TTransition (map emitLifecycleEvent ns)" by simp
    then have tr: "trace ?w = trace w @ [TTransition \<lparr>te_agent = i, te_from = ctl_state w i, te_to = s, te_host = h\<rparr>]"
      unfolding ns by (simp add: emit_def upd_ctl_def)
    have st: "ctl_state ?w j = (if j = i then s else ctl_state w j)" for j
      using mv(3) by (simp add: ctl_state_def GetState_def emit_def upd_ctl_def)
    have "machines_ok ?w" using machines.rel_move [OF t] m by blast
    moreover have "follows StateStopped (agent_moves j (trace ?w)) = Some (ctl_state ?w j)" for j
      unfolding tr st using a mv(2)
      by (auto simp: announced_ok_def agent_moves_append follows_append) (auto simp: agent_moves_def)
    ultimately show "announced_ok ?w" by (simp add: announced_ok_def)
  qed
qed (auto simp: announced_ok_def machines_ok_def next_tick_def upd_ctl_def set_feed_def ctl_state_def)


definition initial_world :: "ctl_world" where
  "initial_world = \<lparr>ctls = (\<lambda>i. NewController i ''host''), tick = 0, trace = []\<rparr>"

lemma initial_world_ok [simp]: "announced_ok initial_world" "machines_ok initial_world"
  using new_machine
  by (auto simp: announced_ok_def machines_ok_def initial_world_def NewController_def ctl_state_def
      GetState_def agent_moves_def NewLifecycleStateMachine_def OnTransition_def NewBaseStateMachine_def)

abbreviation plain_caps :: runner_caps where
  "plain_caps \<equiv> \<lparr>SpeechReporter = True, FirstFrameReporter = True, Resetter = True\<rparr>"

abbreviation plain_cfg :: "string list \<Rightarrow> string list \<Rightarrow> ctl_cfg" where
  "plain_cfg hard soft \<equiv> \<lparr>ctl_host = ''host'', ctl_deps = Classified hard soft, ctl_caps = plain_caps,
     ReadinessBudget = 10, SilenceBudget = 2\<rparr>"

text \<open>Runners whose every start succeeds and reports \<open>running\<close> for its own run.\<close>

abbreviation good_env :: ctl_env where
  "good_env \<equiv> \<lparr>env_run_id = (\<lambda>n. ''r''), env_now = (\<lambda>n. 0), env_start = (\<lambda>n. None),
     env_reload = (\<lambda>n. None), env_feed = (\<lambda>n. [StateEv \<lparr>se_state = ''running'', se_when = 1, se_run = ''r''\<rparr>]),
     env_deadline = (\<lambda>n. (True, 1))\<rparr>"


section \<open>Starting an agent and its dependencies\<close>

definition up :: "ctl_world \<Rightarrow> string \<Rightarrow> bool" where
  "up w i \<longleftrightarrow> ctl_state w i \<in> {StateStarting, StateRunning, StateReloading}"

definition hard_of :: "ctl_cfgs \<Rightarrow> string \<Rightarrow> string list" where
  "hard_of cfgs i = (case map_of cfgs i of None \<Rightarrow> [] | Some c \<Rightarrow> fst (dependencyClasses (ctl_deps c)))"

text \<open>Agents that can never be started: each has a hard dependency that is missing or in the set.\<close>

definition blocked :: "ctl_cfgs \<Rightarrow> string set \<Rightarrow> bool" where
  "blocked cfgs B \<longleftrightarrow> (\<forall>b\<in>B. \<exists>d\<in>set (hard_of cfgs b). d \<in> B \<or> map_of cfgs d = None)"

text \<open>An agent is up only with all its hard dependencies.\<close>

definition dep_closed :: "ctl_cfgs \<Rightarrow> ctl_world \<Rightarrow> bool" where
  "dep_closed cfgs w \<longleftrightarrow> (\<forall>i. up w i \<longrightarrow> (\<forall>d\<in>set (hard_of cfgs i). up w d))"

definition start_rel :: "ctl_cfgs \<Rightarrow> ctl_world \<Rightarrow> ctl_world \<Rightarrow> bool" where
  "start_rel cfgs w w' \<longleftrightarrow>
     (\<forall>j. starting (ctls w' j) = starting (ctls w j)) \<and>
     (\<forall>j. up w j \<or> starting (ctls w j) \<longrightarrow> ctl_sm (ctls w' j) = ctl_sm (ctls w j)) \<and>
     (\<exists>us. trace w' = trace w @ us \<and> (\<forall>j. \<not> up w j \<and> up w' j \<longrightarrow> (\<exists>r. TRunStart j r True \<in> set us))) \<and>
     (dep_closed cfgs w \<longrightarrow> dep_closed cfgs w') \<and>
     (\<forall>B. blocked cfgs B \<and> (\<forall>b\<in>B. \<not> up w b) \<longrightarrow> (\<forall>b\<in>B. \<not> up w' b))"

lemma start_relD:
  assumes "start_rel cfgs w w'"
  shows "starting (ctls w' j) = starting (ctls w j)"
    and "up w j \<or> starting (ctls w j) \<Longrightarrow> ctl_sm (ctls w' j) = ctl_sm (ctls w j)"
    and "\<exists>us. trace w' = trace w @ us \<and> (\<forall>j. \<not> up w j \<and> up w' j \<longrightarrow> (\<exists>r. TRunStart j r True \<in> set us))"
    and "dep_closed cfgs w \<Longrightarrow> dep_closed cfgs w'"
    and "blocked cfgs B \<Longrightarrow> \<forall>b\<in>B. \<not> up w b \<Longrightarrow> \<forall>b\<in>B. \<not> up w' b"
  using assms unfolding start_rel_def by blast+

lemma start_rel_up: "start_rel cfgs w w' \<Longrightarrow> up w j \<Longrightarrow> up w' j"
  using start_relD(2) [of cfgs w w' j] by (simp add: up_def ctl_state_def)

lemma start_rel_marked: "start_rel cfgs w w' \<Longrightarrow> starting (ctls w j) \<Longrightarrow> ctl_state w' j = ctl_state w j"
  using start_relD(2) [of cfgs w w' j] by (simp add: ctl_state_def)

lemma start_rel_refl: "start_rel cfgs w w"
  unfolding start_rel_def by simp

lemma start_rel_trans:
  assumes 1: "start_rel cfgs w1 w2" and 2: "start_rel cfgs w2 w3"
  shows "start_rel cfgs w1 w3"
  unfolding start_rel_def
proof (intro conjI)
  show "\<forall>j. starting (ctls w3 j) = starting (ctls w1 j)"
    using start_relD(1) [OF 1] start_relD(1) [OF 2] by simp
  show "\<forall>j. up w1 j \<or> starting (ctls w1 j) \<longrightarrow> ctl_sm (ctls w3 j) = ctl_sm (ctls w1 j)"
  proof (intro allI impI)
    fix j assume j: "up w1 j \<or> starting (ctls w1 j)"
    then have "up w2 j \<or> starting (ctls w2 j)"
      using start_rel_up [OF 1, of j] start_relD(1) [OF 1, of j] by auto
    with j show "ctl_sm (ctls w3 j) = ctl_sm (ctls w1 j)"
      using start_relD(2) [OF 1, of j] start_relD(2) [OF 2, of j] by (simp only: simp_thms)
  qed
  obtain us vs where "trace w2 = trace w1 @ us" "\<forall>j. \<not> up w1 j \<and> up w2 j \<longrightarrow> (\<exists>r. TRunStart j r True \<in> set us)"
    "trace w3 = trace w2 @ vs" "\<forall>j. \<not> up w2 j \<and> up w3 j \<longrightarrow> (\<exists>r. TRunStart j r True \<in> set vs)"
    using start_relD(3) [OF 1] start_relD(3) [OF 2] by blast
  then show "\<exists>us. trace w3 = trace w1 @ us \<and> (\<forall>j. \<not> up w1 j \<and> up w3 j \<longrightarrow> (\<exists>r. TRunStart j r True \<in> set us))"
    by (intro exI [of _ "us @ vs"]) auto
  show "dep_closed cfgs w1 \<longrightarrow> dep_closed cfgs w3"
    using start_relD(4) [OF 1] start_relD(4) [OF 2] by blast
  show "\<forall>B. blocked cfgs B \<and> (\<forall>b\<in>B. \<not> up w1 b) \<longrightarrow> (\<forall>b\<in>B. \<not> up w3 b)"
    using start_relD(5) [OF 1] start_relD(5) [OF 2] by metis
qed

subsection \<open>The tail of a start\<close>

text \<open>A legal move, as a world.\<close>

definition moved :: "string \<Rightarrow> string \<Rightarrow> ctl_world \<Rightarrow> ctl_world" where
  "moved i s w = snd (transition_to i s w)"

lemma transition_to_eq:
  assumes "machines_ok w"
  shows "transition_to i s w =
    (if s \<in> set (next_states (ctl_state w i)) then (None, moved i s w)
     else (Some (ErrTransition (InvalidTransition (ctl_state w i) s)), w))"
proof -
  have "lifecycle_reachable (ctl_sm (ctls w i))" using assms by (simp add: machines_ok_def)
  from allowed_from_reachable [OF this] show ?thesis
    by (simp add: moved_def transition_to_def TransitionTo_def ctl_state_def GetState_def)
qed

lemma moved_simps [simp]:
  assumes "machines_ok w" "s \<in> set (next_states (ctl_state w i))"
  shows "ctl_state (moved i s w) j = (if j = i then s else ctl_state w j)"
    and "j \<noteq> i \<Longrightarrow> ctls (moved i s w) j = ctls w j"
    and "starting (ctls (moved i s w) j) = starting (ctls w j)"
    and "stateCh (ctls (moved i s w) j) = stateCh (ctls w j)"
proof -
  have "lifecycle_reachable (ctl_sm (ctls w i))" using assms by (simp add: machines_ok_def)
  then have "allowed_from (ctl_sm (ctls w i)) = next_states (ctl_state w i)"
    by (simp add: allowed_from_reachable ctl_state_def GetState_def)
  then have "moved i s w = emit (map (\<lambda>n. TTransition (emitLifecycleEvent n))
        (map (\<lambda>f. \<lparr>observer = f, n_from = current (ctl_sm (ctls w i)), n_to = s\<rparr>) (observers (ctl_sm (ctls w i)))))
      (upd_ctl i (\<lambda>c. c \<lparr>ctl_sm := (ctl_sm (ctls w i)) \<lparr>current := s\<rparr>\<rparr>) w)"
    using assms(2) by (simp add: moved_def transition_to_def TransitionTo_def)
  then show "ctl_state (moved i s w) j = (if j = i then s else ctl_state w j)"
    and "j \<noteq> i \<Longrightarrow> ctls (moved i s w) j = ctls w j"
    and "starting (ctls (moved i s w) j) = starting (ctls w j)"
    and "stateCh (ctls (moved i s w) j) = stateCh (ctls w j)"
    by (simp_all add: emit_def upd_ctl_def ctl_state_def GetState_def)
qed

lemma moved_ok [simp]: "machines_ok w \<Longrightarrow> machines_ok (moved i s w)"
  using machines.rel_transition [where w = w and i = i and s = s] by (simp add: moved_def)

lemma moved_trace: "\<exists>es. trace (moved i s w) = trace w @ es"
  using trace_grows.rel_transition [where w = w and i = i and s = s] by (simp add: moved_def)

lemma step_simps_world [simp, step_simps]:
  "ctls (emit es w) = ctls w" "trace (emit es w) = trace w @ es" "ctl_state (emit es w) j = ctl_state w j"
  "ctls (next_tick w) = ctls w" "trace (next_tick w) = trace w" "ctl_state (next_tick w) j = ctl_state w j"
  "trace (set_feed i ch w) = trace w" "ctl_state (set_feed i ch w) j = ctl_state w j"
  "starting (ctls (set_feed i ch w) j) = starting (ctls w j)"
  "ctl_sm (ctls (set_feed i ch w) j) = ctl_sm (ctls w j)"
  "tick (emit es w) = tick w" "tick (set_feed i ch w) = tick w"
  by (simp_all add: emit_def next_tick_def set_feed_def upd_ctl_def ctl_state_def GetState_def)

lemma machines_ok_steps [simp]:
  "machines_ok (emit es w) = machines_ok w"
  "machines_ok (next_tick w) = machines_ok w"
  "machines_ok (set_feed i ch w) = machines_ok w"
  by (simp_all add: machines_ok_def)

lemma state_names_distinct [simp]:
  "StateError \<noteq> StateStarting" "StateError \<noteq> StateRunning" "StateError \<noteq> StateReloading"
  "StateStopping \<noteq> StateStopped" "StateStopped \<noteq> StateStopping" "StateRunning \<noteq> StateStopped"
  "StateStopped \<noteq> StateRunning" "StateStopped \<noteq> StateStarting" "StateStopped \<noteq> StateReloading"
  "StateStopping \<noteq> StateStarting" "StateStopping \<noteq> StateRunning" "StateStopping \<noteq> StateReloading"
  "StateError \<noteq> StateStopped" "StateError \<noteq> StateStopping" "StateRunning \<noteq> StateStopping"
  "StateRestarting \<noteq> StateStarting" "StateRestarting \<noteq> StateRunning" "StateRestarting \<noteq> StateReloading"
  "StateStarting \<noteq> StateStopped" "StateReloading \<noteq> StateStopped" "StateRestarting \<noteq> StateStopped"
  "StateStarting \<noteq> StateStopping" "StateReloading \<noteq> StateStopping" "StateRestarting \<noteq> StateStopping"
  "StateStarting \<noteq> StateRunning" "StateReloading \<noteq> StateRunning" "StateRestarting \<noteq> StateError"
  "StateRunning \<noteq> StateRestarting" "StateStopped \<noteq> StateRestarting" "StateError \<noteq> StateRestarting"
  "StateStopping \<noteq> StateError" "StateRunning \<noteq> StateError" "StateReloading \<noteq> StateError"
  "StateStarting \<noteq> StateError"
  by (simp_all add: state_name_defs)

text \<open>What the tail of a start does: it touches only this agent, its first act is the control event
  and the spawn, and it succeeds exactly when the agent ends \<open>running\<close>, else it is not up.\<close>

definition spawn_effect :: "string \<Rightarrow> ctl_world \<Rightarrow> lc_error option \<Rightarrow> ctl_world \<Rightarrow> bool" where
  "spawn_effect i w e w' \<longleftrightarrow>
     (\<forall>j. j \<noteq> i \<longrightarrow> ctls w' j = ctls w j) \<and>
     (\<forall>j. starting (ctls w' j) = starting (ctls w j)) \<and>
     (\<exists>rid ok vs. trace w' = trace w @ TControl i ACTION_START # TRunStart i rid ok # vs \<and> (up w' i \<longrightarrow> ok)) \<and>
     (if e = None then ctl_state w' i = StateRunning else \<not> up w' i)"

lemma spawn_effectI:
  assumes "\<And>j. j \<noteq> i \<Longrightarrow> ctls w' j = ctls w j" "\<And>j. starting (ctls w' j) = starting (ctls w j)"
    and "trace w' = trace w @ TControl i ACTION_START # TRunStart i rid ok # vs" "up w' i \<Longrightarrow> ok"
    and "if e = None then ctl_state w' i = StateRunning else \<not> up w' i"
  shows "spawn_effect i w e w'"
  using assms unfolding spawn_effect_def by blast

lemma set_feed_other [simp]: "j \<noteq> i \<Longrightarrow> ctls (set_feed i ch w) j = ctls w j"
  by (simp add: set_feed_def upd_ctl_def)

lemma state_startable:
  assumes "machines_ok w" "\<not> up w i"
  shows "ctl_state w i \<in> {StateStopping, StateStopped, StateRestarting, StateError}"
proof -
  have "lifecycle_reachable (ctl_sm (ctls w i))" using assms(1) by (simp add: machines_ok_def)
  from lifecycle_reachable_visited [OF this] assms(2) show ?thesis
    by (auto simp: visited_states_def up_def ctl_state_def GetState_def)
qed

lemma spawn_and_wait_effect:
  assumes ok: "machines_ok w" and down: "\<not> up w i" and sp: "spawn_and_wait c env i w = (e, w')"
  shows "spawn_effect i w e w'"
proof -
  let ?t = "tick w"
  define E where "E b = emit [TRunStart i (env_run_id env ?t) b] (set_feed i [] (next_tick (publishControl i ACTION_START w)))" for b
  note st = state_startable [OF ok down]
  have okE: "machines_ok (E b)" for b using ok by (simp add: E_def publishControl_def)
  have stE: "ctl_state (E b) i = ctl_state w i" for b by (simp add: E_def publishControl_def)
  have trE: "trace (E b) = trace w @ [TControl i ACTION_START, TRunStart i (env_run_id env ?t) b]" for b
    by (simp add: E_def publishControl_def)
  have otE: "ctls (E b) j = ctls w j" if "j \<noteq> i" for b j using that by (simp add: E_def publishControl_def)
  have mkE: "starting (ctls (E b) j) = starting (ctls w j)" for b j by (simp add: E_def publishControl_def)
  note E = okE stE trE otE mkE
  show ?thesis
  proof (cases "env_start env ?t")
    case (Some err)
    have *: "snd (transition_to i StateError (E False)) =
        (if StateError \<in> set (next_states (ctl_state w i)) then moved i StateError (E False) else E False)"
      by (simp only: transition_to_eq [OF okE] stE split: if_split) simp
    obtain es where es: "trace (moved i StateError (E False)) = trace (E False) @ es"
      using moved_trace by blast
    have w': "e = Some (ErrRunner err)" "w' = snd (transition_to i StateError (E False))"
      using sp Some by (simp_all add: spawn_and_wait_def Let_def E_def)
    show ?thesis
    proof (cases "StateError \<in> set (next_states (ctl_state w i))")
      case True
      then have "w' = moved i StateError (E False)" using w' * by simp
      with True w'(1) show ?thesis
        by (intro spawn_effectI [where vs = es]) (auto simp: E es up_def)
    next
      case False
      then have "w' = E False" using w' * by simp
      with w'(1) down show ?thesis
        by (intro spawn_effectI [where vs = "[]"]) (auto simp: E up_def)
    qed
  next
    case None
    show ?thesis
    proof (cases "StateStarting \<in> set (next_states (ctl_state w i))")
      case False
      then have "e = Some (ErrTransition (InvalidTransition (ctl_state w i) StateStarting))" "w' = E True"
        using sp None by (simp_all add: spawn_and_wait_def Let_def transition_to_eq [OF okE] stE flip: E_def)
      with down show ?thesis
        by (intro spawn_effectI [where vs = "[]"]) (auto simp: E up_def)
    next
      case True
      let ?w3 = "moved i StateStarting (E True)"
      have ok3: "machines_ok ?w3" using okE by simp
      have st3: "ctl_state ?w3 i = StateStarting" using True okE by (simp add: stE)
      obtain r rest where aw: "awaitRunningWithRunIDSince (ctl_caps c) i (ReadinessBudget c) (SilenceBudget c)
          (env_run_id env ?t) (env_now env ?t) (env_feed env ?t) (env_deadline env ?t) = (r, rest)"
        by fastforce
      let ?w4 = "set_feed i (feed_rest rest []) ?w3"
      have ok4: "machines_ok ?w4" using ok3 by simp
      have st4: "ctl_state ?w4 i = StateStarting" using st3 by simp
      obtain es where es: "trace ?w3 = trace (E True) @ es" using moved_trace by blast
      have t3: "transition_to i StateStarting (E True) = (None, ?w3)"
        using True by (simp only: transition_to_eq [OF okE] stE) simp
      have res: "spawn_and_wait c env i w = (case r of
          Some to \<Rightarrow> (Some (ErrStart to), publishFailed i (env_run_id env ?t) to (snd (transition_to i StateError ?w4)))
        | None \<Rightarrow> transition_to i StateRunning ?w4)"
        using None aw t3 by (simp add: spawn_and_wait_def Let_def flip: E_def)
      show ?thesis
      proof (cases r)
        case (Some to)
        then have w': "e = Some (ErrStart to)" "w' = emit [TFailed i (env_run_id env ?t) to] (moved i StateError ?w4)"
          using sp res st4 by (simp_all add: transition_to_eq [OF ok4] publishFailed_def)
        obtain fs where fs: "trace (moved i StateError ?w4) = trace ?w4 @ fs" using moved_trace by blast
        with w' es True st4 ok4 show ?thesis
          by (intro spawn_effectI [where vs = "es @ fs @ [TFailed i (env_run_id env ?t) to]"])
            (auto simp: E up_def)
      next
        case r: None
        then have w': "e = None" "w' = moved i StateRunning ?w4"
          using sp res st4 by (simp_all add: transition_to_eq [OF ok4])
        obtain fs where fs: "trace (moved i StateRunning ?w4) = trace ?w4 @ fs" using moved_trace by blast
        with w' es True st4 ok4 show ?thesis
          by (intro spawn_effectI [where vs = "es @ fs"]) (auto simp: E up_def)
      qed
    qed
  qed
qed

subsection \<open>The recursion through the dependencies\<close>

definition mark :: "string \<Rightarrow> ctl_world \<Rightarrow> ctl_world" where
  "mark i w = upd_ctl i (\<lambda>c. c \<lparr>starting := True\<rparr>) w"

lemma mark_base [simp]:
  "trace (mark i w) = trace w"
  "starting (ctls (mark i w) j) = (j = i \<or> starting (ctls w j))"
  "ctl_sm (ctls (mark i w) j) = ctl_sm (ctls w j)"
  by (simp_all add: mark_def upd_ctl_def)

lemma mark_simps [simp]:
  "ctl_state (mark i w) j = ctl_state w j" "up (mark i w) j = up w j"
  "machines_ok (mark i w) = machines_ok w" "dep_closed cfgs (mark i w) = dep_closed cfgs w"
  by (simp_all add: ctl_state_def up_def machines_ok_def dep_closed_def)

lemma endStart_base [simp]:
  "trace (endStart i w) = trace w"
  "starting (ctls (endStart i w) j) = (j \<noteq> i \<and> starting (ctls w j))"
  "ctl_sm (ctls (endStart i w) j) = ctl_sm (ctls w j)"
  by (simp_all add: endStart_def upd_ctl_def)

lemma endStart_simps [simp]:
  "ctl_state (endStart i w) j = ctl_state w j" "up (endStart i w) j = up w j"
  "machines_ok (endStart i w) = machines_ok w" "dep_closed cfgs (endStart i w) = dep_closed cfgs w"
  by (simp_all add: ctl_state_def up_def machines_ok_def dep_closed_def)

lemma start_abort:
  assumes rel: "start_rel cfgs (mark i w) w1" and idle: "\<not> starting (ctls w i)"
  shows "start_rel cfgs w (endStart i w1)"
  using start_relD(1) [OF rel] start_relD(2) [OF rel] start_relD(3) [OF rel] start_relD(4) [OF rel]
    start_relD(5) [OF rel] idle
  unfolding start_rel_def by auto

lemma start_finish:
  assumes rel: "start_rel cfgs (mark i w) w2" and idle: "\<not> starting (ctls w i)" and down: "\<not> up w i"
    and deps: "\<forall>d\<in>set (hard_of cfgs i). up w2 d \<and> map_of cfgs d \<noteq> None"
    and eff: "spawn_effect i w2 e w3"
  shows "start_rel cfgs w (endStart i w3)"
proof -
  have same: "ctls w3 j = ctls w2 j" if "j \<noteq> i" for j using eff that by (simp add: spawn_effect_def)
  have up3: "up w3 j = up w2 j" if "j \<noteq> i" for j using same [OF that] by (simp add: up_def ctl_state_def)
  have mk: "starting (ctls w3 j) = starting (ctls w2 j)" for j using eff by (simp add: spawn_effect_def)
  obtain rid b vs where tr: "trace w3 = trace w2 @ TControl i ACTION_START # TRunStart i rid b # vs" "up w3 i \<Longrightarrow> b"
    using eff unfolding spawn_effect_def by blast
  obtain us where us: "trace w2 = trace w @ us" "\<And>j. \<not> up w j \<Longrightarrow> up w2 j \<Longrightarrow> \<exists>r. TRunStart j r True \<in> set us"
    using start_relD(3) [OF rel] by auto
  have keep: "up w3 j" if "up w j" for j
    using start_rel_up [OF rel, of j] that down up3 [of j] by (cases "j = i") auto
  have down2: "\<not> up w2 i" using start_rel_marked [OF rel, of i] down by (simp add: up_def)
  show ?thesis
    unfolding start_rel_def
  proof (intro conjI)
    show "\<forall>j. starting (ctls (endStart i w3) j) = starting (ctls w j)"
      using mk start_relD(1) [OF rel] idle by auto
    show "\<forall>j. up w j \<or> starting (ctls w j) \<longrightarrow> ctl_sm (ctls (endStart i w3) j) = ctl_sm (ctls w j)"
    proof (intro allI impI)
      fix j assume j: "up w j \<or> starting (ctls w j)"
      then have "j \<noteq> i" using down idle by auto
      with j same [of j] start_relD(2) [OF rel, of j] show "ctl_sm (ctls (endStart i w3) j) = ctl_sm (ctls w j)"
        by auto
    qed
    show "\<exists>us. trace (endStart i w3) = trace w @ us \<and>
        (\<forall>j. \<not> up w j \<and> up (endStart i w3) j \<longrightarrow> (\<exists>r. TRunStart j r True \<in> set us))"
    proof (rule exI [of _ "us @ TControl i ACTION_START # TRunStart i rid b # vs"], intro conjI allI impI)
      show "trace (endStart i w3) = trace w @ us @ TControl i ACTION_START # TRunStart i rid b # vs"
        using tr(1) us(1) by simp
      fix j assume j: "\<not> up w j \<and> up (endStart i w3) j"
      from j show "\<exists>r. TRunStart j r True \<in> set (us @ TControl i ACTION_START # TRunStart i rid b # vs)"
        using us(2) [of j] up3 [of j] tr(2) by (cases "j = i") auto
    qed
    have hd: "up w3 d" if "d \<in> set (hard_of cfgs i)" for d
      using deps that down2 up3 [of d] by (cases "d = i") auto
    show "dep_closed cfgs w \<longrightarrow> dep_closed cfgs (endStart i w3)"
    proof
      assume "dep_closed cfgs w"
      then have cl: "dep_closed cfgs w2" using start_relD(4) [OF rel] by simp
      show "dep_closed cfgs (endStart i w3)"
        unfolding dep_closed_def
      proof (intro allI impI ballI)
        fix j d assume j: "up (endStart i w3) j" "d \<in> set (hard_of cfgs j)"
        show "up (endStart i w3) d"
        proof (cases "j = i")
          case False
          then have "up w2 d" using cl j up3 by (auto simp: dep_closed_def)
          then show ?thesis using up3 [of d] down2 by (cases "d = i") auto
        qed (use hd j in simp)
      qed
    qed
    show "\<forall>B. blocked cfgs B \<and> (\<forall>b\<in>B. \<not> up w b) \<longrightarrow> (\<forall>b\<in>B. \<not> up (endStart i w3) b)"
    proof (intro allI impI ballI, elim conjE)
      fix B b assume B: "blocked cfgs B" "\<forall>b\<in>B. \<not> up w b" and b: "b \<in> B"
      have d2: "\<forall>b\<in>B. \<not> up w2 b" using start_relD(5) [OF rel B(1)] B(2) by simp
      have "b \<noteq> i" using B(1) b deps d2 unfolding blocked_def by blast
      then show "\<not> up (endStart i w3) b" using d2 b up3 by simp
    qed
  qed
qed

lemma ensure_step:
  "ensure_hard cfgs env stack (d # ds) w = (e, w') \<Longrightarrow>
   (map_of cfgs d = None \<and> e = Some (ErrDepFailed d (ErrDepNotFound d)) \<and> w' = w) \<or>
   (map_of cfgs d \<noteq> None \<and> (\<exists>e1 w1. apply_ctx cfgs env stack d ActionStart w = (e1, w1) \<and>
     (case e1 of Some x \<Rightarrow> e = Some (ErrDepFailed d x) \<and> w' = w1
               | None \<Rightarrow> ensure_hard cfgs env stack ds w1 = (e, w'))))"
  by (cases "apply_ctx cfgs env stack d ActionStart w") (auto split: option.splits if_splits)

text \<open>The hypothesis under which an agent in flight is one of the callers: nobody else is starting.\<close>

definition only_callers :: "string list \<Rightarrow> ctl_world \<Rightarrow> bool" where
  "only_callers stack w \<longleftrightarrow> (\<forall>j. starting (ctls w j) \<longrightarrow> j \<in> set stack)"

lemma only_callers_rel: "start_rel cfgs w w' \<Longrightarrow> only_callers stack w \<Longrightarrow> only_callers stack w'"
  using start_relD(1) unfolding only_callers_def by simp

lemma only_callers_mark: "only_callers stack w \<Longrightarrow> only_callers (stack @ [i]) (mark i w)"
  by (simp add: only_callers_def)

text \<open>The start action, one level of it, by cases.\<close>

lemma apply_start_cases:
  assumes ap: "apply_ctx cfgs env stack i ActionStart w = (e, w')"
  obtains (cycle) "i \<in> set stack" "e = Some (ErrDepCycle stack i)" "w' = w"
  | (missing) "map_of cfgs i = None" "e = Some (ErrDepNotFound i)" "w' = w"
  | (noop) "up w i \<or> starting (ctls w i)" "i \<notin> set stack" "map_of cfgs i \<noteq> None" "e = None" "w' = w"
  | (dep) c hard soft e1 w1 where "i \<notin> set stack" "map_of cfgs i = Some c" "\<not> up w i" "\<not> starting (ctls w i)"
      "dependencyClasses (ctl_deps c) = (hard, soft)"
      "ensure_hard cfgs env (stack @ [i]) hard (mark i w) = (Some e1, w1)" "e = Some e1" "w' = endStart i w1"
  | (spawn) c hard soft w1 w2 w3 where "i \<notin> set stack" "map_of cfgs i = Some c" "\<not> up w i" "\<not> starting (ctls w i)"
      "dependencyClasses (ctl_deps c) = (hard, soft)"
      "ensure_hard cfgs env (stack @ [i]) hard (mark i w) = (None, w1)"
      "w2 = ensure_soft cfgs env (stack @ [i]) soft w1" "spawn_and_wait c env i w2 = (e, w3)" "w' = endStart i w3"
proof (cases "i \<in> set stack")
  case True
  then show ?thesis using cycle ap by (subst (asm) apply_ctx.simps) auto
next
  case ns: False
  show ?thesis
  proof (cases "map_of cfgs i")
    case None
    then show ?thesis using missing ap ns by (subst (asm) apply_ctx.simps) auto
  next
    case (Some c)
    show ?thesis
    proof (cases "up w i \<or> starting (ctls w i)")
      case True
      then show ?thesis
        using noop ap ns Some
        by (subst (asm) apply_ctx.simps) (auto simp: up_def beginStart_def split: if_splits)
    next
      case False
      obtain hard soft where hs: "dependencyClasses (ctl_deps c) = (hard, soft)" by fastforce
      obtain e1 w1 where h: "ensure_hard cfgs env (stack @ [i]) hard (mark i w) = (e1, w1)" by fastforce
      have b: "beginStart i w = (True, mark i w)" using False by (simp add: beginStart_def mark_def)
      have nu: "ctl_state w i \<noteq> StateStarting \<and> ctl_state w i \<noteq> StateRunning \<and> ctl_state w i \<noteq> StateReloading"
        using False by (simp add: up_def)
      obtain e3 w3 where sp: "spawn_and_wait c env i (ensure_soft cfgs env (stack @ [i]) soft w1) = (e3, w3)"
        by fastforce
      have "(e, w') = (case e1 of Some x \<Rightarrow> (Some x, endStart i w1) | None \<Rightarrow> (e3, endStart i w3))"
        using ap ns Some nu hs h sp by (subst (asm) apply_ctx.simps) (auto simp: b split: option.splits)
      then show ?thesis
        using dep [OF ns Some _ _ hs] spawn [OF ns Some _ _ hs] h sp False by (auto split: option.splits)
    qed
  qed
qed

lemma start_main:
  "machines_ok w \<Longrightarrow> a = ActionStart \<Longrightarrow> only_callers stack w \<Longrightarrow>
     apply_ctx cfgs env stack i a w = (e, w') \<Longrightarrow>
     start_rel cfgs w w' \<and> machines_ok w' \<and> (e = None \<longrightarrow> up w' i)"
  "machines_ok w \<Longrightarrow> only_callers stack w \<Longrightarrow> ensure_hard cfgs env stack ds w = (e, w') \<Longrightarrow>
     start_rel cfgs w w' \<and> machines_ok w' \<and> (e = None \<longrightarrow> (\<forall>d\<in>set ds. up w' d \<and> map_of cfgs d \<noteq> None))"
  "machines_ok w \<Longrightarrow> only_callers stack w \<Longrightarrow> ensure_soft cfgs env stack ds w = w' \<Longrightarrow>
     start_rel cfgs w w' \<and> machines_ok w'"
proof (induction cfgs env stack i a w and cfgs env stack ds w and cfgs env stack ds w
    arbitrary: e w' and e w' and w' rule: apply_ctx_ensure_hard_ensure_soft.induct)
  case (1 cfgs env stack i a w)
  note a = "1.prems"(2) and oc = "1.prems"(3) and ok = "1.prems"(1)
  have ap: "apply_ctx cfgs env stack i ActionStart w = (e, w')" using "1.prems"(4) a by simp
  have ok': "machines_ok w'" using machines.rel_apply(1) [where w = w] ap ok by (metis snd_conv)
  have h: "start_rel cfgs (mark i w) w1 \<and> machines_ok w1 \<and> (e1 = None \<longrightarrow> (\<forall>d\<in>set hard. up w1 d \<and> map_of cfgs d \<noteq> None))"
    if c: "i \<notin> set stack" "map_of cfgs i = Some c" "\<not> up w i" "\<not> starting (ctls w i)"
      "dependencyClasses (ctl_deps c) = (hard, soft)"
      "ensure_hard cfgs env (stack @ [i]) hard (mark i w) = (e1, w1)" for c hard soft e1 w1
  proof (rule "1.IH"(1) [OF c(1, 2) a])
    show "(hard, soft) = dependencyClasses (ctl_deps c)" using c(5) by simp
    show "ctl_state w i \<notin> {StateStarting, StateRunning, StateReloading}" using c(3) by (simp add: up_def)
    show "(True, mark i w) = beginStart i w" using c(4) by (simp add: beginStart_def mark_def)
  qed (use ok oc c(6) only_callers_mark in auto)
  show ?case
  proof (cases rule: apply_start_cases [OF ap, case_names cycle missing noop dep spawn])
    case (dep c hard soft e1 w1)
    with h [OF dep(1-6)] start_abort ok' show ?thesis by auto
  next
    case (spawn c hard soft w1 w2 w3)
    note h1 = h [OF spawn(1-6)]
    have oc1: "only_callers (stack @ [i]) w1"
      using h1 only_callers_rel only_callers_mark [OF oc] by blast
    have "start_rel cfgs w1 w2 \<and> machines_ok w2"
    proof (rule "1.IH"(2) [OF spawn(1, 2) a])
      show "(hard, soft) = dependencyClasses (ctl_deps c)" using spawn(5) by simp
      show "ctl_state w i \<notin> {StateStarting, StateRunning, StateReloading}" using spawn(3) by (simp add: up_def)
      show "(True, mark i w) = beginStart i w" using spawn(4) by (simp add: beginStart_def mark_def)
      show "(None, w1) = ensure_hard cfgs env (stack @ [i]) hard (mark i w)" using spawn(6) by simp
    qed (use h1 oc1 spawn(7) in auto)
    with h1 have r2: "start_rel cfgs (mark i w) w2" "machines_ok w2" "\<forall>d\<in>set hard. up w2 d \<and> map_of cfgs d \<noteq> None"
      using start_rel_trans start_rel_up by blast+
    have dn: "\<not> up w2 i" using start_rel_marked [OF r2(1), of i] spawn(3) by (simp add: up_def)
    have eff: "spawn_effect i w2 e w3" by (rule spawn_and_wait_effect [OF r2(2) dn spawn(8)])
    have "start_rel cfgs w w'"
      unfolding spawn(9)
      by (rule start_finish [OF r2(1) spawn(4, 3) _ eff]) (use r2(3) spawn(2, 5) in \<open>simp add: hard_of_def\<close>)
    with eff ok' spawn(9) show ?thesis by (auto simp: spawn_effect_def up_def)
  qed (use ok start_rel_refl oc in \<open>auto simp: only_callers_def\<close>)
next
  case (2 cfgs env stack w)
  then show ?case by (simp add: start_rel_refl)
next
  case (3 cfgs env stack d ds w)
  from ensure_step [OF "3.prems"(3)] show ?case
  proof (elim disjE conjE exE)
    assume "map_of cfgs d = None" "e = Some (ErrDepFailed d (ErrDepNotFound d))" "w' = w"
    with "3.prems" show ?case by (simp add: start_rel_refl)
  next
    fix e1 w1
    assume d: "map_of cfgs d \<noteq> None" and ap: "apply_ctx cfgs env stack d ActionStart w = (e1, w1)"
      and r: "case e1 of Some x \<Rightarrow> e = Some (ErrDepFailed d x) \<and> w' = w1
        | None \<Rightarrow> ensure_hard cfgs env stack ds w1 = (e, w')"
    have h: "start_rel cfgs w w1 \<and> machines_ok w1 \<and> (e1 = None \<longrightarrow> up w1 d)"
      using "3.IH"(1) [OF d "3.prems"(1) refl "3.prems"(2) ap] .
    show ?case
    proof (cases e1)
      case None
      then have e: "ensure_hard cfgs env stack ds w1 = (e, w')" using r by simp
      have "start_rel cfgs w1 w' \<and> machines_ok w' \<and> (e = None \<longrightarrow> (\<forall>d\<in>set ds. up w' d \<and> map_of cfgs d \<noteq> None))"
        by (rule "3.IH"(2) [where x = e1 and y = w1]) (use d ap None h only_callers_rel "3.prems"(2) e in auto)
      moreover have "up w' d" if "e = None"
        using h None start_rel_up [of cfgs w1 w' d] calculation by simp
      ultimately show ?thesis using start_rel_trans [of cfgs w w1 w'] h d by simp
    qed (use r h in auto)
  qed
next
  case (4 cfgs env stack w)
  then show ?case by (simp add: start_rel_refl)
next
  case (5 cfgs env stack d ds w)
  show ?case
  proof (cases "map_of cfgs d")
    case None
    with 5 show ?thesis by simp
  next
    case (Some c)
    obtain e1 w1 where ap: "apply_ctx cfgs env stack d ActionStart w = (e1, w1)" by fastforce
    have h: "start_rel cfgs w w1 \<and> machines_ok w1"
      using "5.IH"(1) [OF _ "5.prems"(1) refl "5.prems"(2) ap] Some by simp
    have "start_rel cfgs w1 w' \<and> machines_ok w'"
      by (rule "5.IH"(2) [where x = e1 and y = w1])
        (use Some ap h only_callers_rel "5.prems"(2, 3) in auto)
    with h show ?thesis using start_rel_trans by blast
  qed
qed

section \<open>Properties of the actions\<close>

definition quiet :: "ctl_world \<Rightarrow> bool" where
  "quiet w \<longleftrightarrow> machines_ok w \<and> (\<forall>j. \<not> starting (ctls w j))"

lemma quietD: "quiet w \<Longrightarrow> machines_ok w" "quiet w \<Longrightarrow> only_callers stack w" "quiet w \<Longrightarrow> \<not> starting (ctls w j)"
  by (simp_all add: quiet_def only_callers_def)

lemma Apply_start_main:
  assumes "quiet w" "Apply cfgs env i ActionStart w = (e, w')"
  shows "start_rel cfgs w w'" "machines_ok w'" "e = None \<Longrightarrow> up w' i" "quiet w'"
  using start_main(1) [OF quietD(1) [OF assms(1)] refl quietD(2) [OF assms(1)] assms(2) [unfolded Apply_def]]
    start_relD(1) quietD(3) [OF assms(1)]
  by (auto simp: quiet_def)

lemma initial_quiet [simp]: "quiet initial_world"
  using initial_world_ok(2) by (simp add: quiet_def initial_world_def NewController_def)

subsection \<open>When starts succeed\<close>

text \<open>An environment in which every spawn succeeds and its run reports \<open>running\<close> in time, and a
  world in which no agent is being stopped or stuck in \<open>restarting\<close>.\<close>

definition responsive :: "ctl_env \<Rightarrow> bool" where
  "responsive env \<longleftrightarrow> (\<forall>t. env_start env t = None \<and>
     (\<exists>ev\<in>set (env_feed env t). run_report (env_run_id env t) (env_now env t) ev) \<and>
     (\<forall>sp ff. SilenceTimer sp ff \<in> set (env_feed env t) \<longrightarrow> sp))"

definition startable :: "ctl_world \<Rightarrow> bool" where
  "startable w \<longleftrightarrow> machines_ok w \<and> (\<forall>j. ctl_state w j \<notin> {StateStopping, StateRestarting})"

text \<open>A rank that decreases along the hard dependencies of a set of agents, all of which exist and
  are in the set.\<close>

definition ranked_in :: "ctl_cfgs \<Rightarrow> (string \<Rightarrow> nat) \<Rightarrow> string set \<Rightarrow> bool" where
  "ranked_in cfgs rank S \<longleftrightarrow> (\<forall>i\<in>S. \<forall>d\<in>set (hard_of cfgs i). map_of cfgs d \<noteq> None \<and> d \<in> S \<and> rank d < rank i)"

definition ranked :: "ctl_cfgs \<Rightarrow> (string \<Rightarrow> nat) \<Rightarrow> bool" where
  "ranked cfgs rank \<longleftrightarrow> (\<forall>i. \<forall>d\<in>set (hard_of cfgs i). map_of cfgs d \<noteq> None \<and> rank d < rank i)"

lemma ranked_in_UNIV: "ranked cfgs rank \<Longrightarrow> ranked_in cfgs rank UNIV"
  by (simp add: ranked_def ranked_in_def)

lemma spawn_succeeds:
  assumes "startable w" "\<not> up w i" "responsive env" "spawn_and_wait c env i w = (e, w')"
  shows "e = None \<and> startable w'"
proof -
  have ok: "machines_ok w" using assms(1) by (simp add: startable_def)
  have st: "StateStarting \<in> set (next_states (ctl_state w i))"
    using state_startable [OF ok assms(2)] assms(1) by (auto simp: startable_def)
  let ?w2 = "emit [TRunStart i (env_run_id env (tick w)) True] (set_feed i [] (next_tick (publishControl i ACTION_START w)))"
  have t: "transition_to i StateStarting ?w2 = (None, moved i StateStarting ?w2)"
    using st ok by (simp add: transition_to_eq publishControl_def)
  have r: "fst (awaitRunningWithRunIDSince (ctl_caps c) i (ReadinessBudget c) (SilenceBudget c)
      (env_run_id env (tick w)) (env_now env (tick w)) (env_feed env (tick w)) (env_deadline env (tick w))) = None"
    unfolding awaitRunningWithRunIDSince_def
    by (rule await_loop_spoken) (use assms(3) in \<open>auto simp: responsive_def\<close>)
  have "ctl_state (moved i StateStarting ?w2) i = StateStarting"
    using st ok by (simp add: publishControl_def)
  then have e: "e = None"
    using assms(3, 4) t r ok
    by (auto simp: spawn_and_wait_def Let_def responsive_def transition_to_eq publishControl_def split: prod.splits)
  have ok': "machines_ok w'" using machines.rel_spawn [where w = w] ok assms(4) by (metis snd_conv)
  note eff = spawn_and_wait_effect [OF ok assms(2, 4)]
  have "ctl_state w' j \<notin> {StateStopping, StateRestarting}" for j
    using eff e assms(1) by (cases "j = i") (auto simp: spawn_effect_def startable_def ctl_state_def)
  with e ok' show ?thesis by (simp add: startable_def)
qed

lemma startable_mark [simp]: "startable (mark i w) = startable w" "startable (endStart i w) = startable w"
  by (simp_all add: startable_def)

lemma start_succeeds_main:
  "startable w \<Longrightarrow> a = ActionStart \<Longrightarrow> only_callers stack w \<Longrightarrow> responsive env \<Longrightarrow> ranked_in cfgs rank S \<Longrightarrow>
     apply_ctx cfgs env stack i a w = (e, w') \<Longrightarrow>
     startable w' \<and> (map_of cfgs i \<noteq> None \<and> i \<in> S \<and> (\<forall>s\<in>set stack. rank i < rank s) \<longrightarrow> e = None)"
  "startable w \<Longrightarrow> only_callers stack w \<Longrightarrow> responsive env \<Longrightarrow> ranked_in cfgs rank S \<Longrightarrow>
     ensure_hard cfgs env stack ds w = (e, w') \<Longrightarrow>
     startable w' \<and> ((\<forall>d\<in>set ds. map_of cfgs d \<noteq> None \<and> d \<in> S \<and> (\<forall>s\<in>set stack. rank d < rank s)) \<longrightarrow> e = None)"
  "startable w \<Longrightarrow> only_callers stack w \<Longrightarrow> responsive env \<Longrightarrow> ranked_in cfgs rank S \<Longrightarrow>
     ensure_soft cfgs env stack ds w = w' \<Longrightarrow> startable w'"
proof (induction cfgs env stack i a w and cfgs env stack ds w and cfgs env stack ds w
    arbitrary: e w' and e w' and w' rule: apply_ctx_ensure_hard_ensure_soft.induct)
  case (1 cfgs env stack i a w)
  note a = "1.prems"(2) and oc = "1.prems"(3) and ok = "1.prems"(1) and env = "1.prems"(4, 5)
  have ap: "apply_ctx cfgs env stack i ActionStart w = (e, w')" using "1.prems"(6) a by simp
  have m: "machines_ok (mark i w)" using ok by (simp add: startable_def)
  have ocm: "only_callers (stack @ [i]) (mark i w)" by (rule only_callers_mark [OF oc])
  have h: "startable w1 \<and> ((\<forall>d\<in>set hard. map_of cfgs d \<noteq> None \<and> d \<in> S \<and> (\<forall>s\<in>set (stack @ [i]). rank d < rank s)) \<longrightarrow> e1 = None)"
    if c: "i \<notin> set stack" "map_of cfgs i = Some c" "\<not> up w i" "\<not> starting (ctls w i)"
      "dependencyClasses (ctl_deps c) = (hard, soft)"
      "ensure_hard cfgs env (stack @ [i]) hard (mark i w) = (e1, w1)" for c hard soft e1 w1
  proof (rule "1.IH"(1) [OF c(1, 2) a])
    show "(hard, soft) = dependencyClasses (ctl_deps c)" using c(5) by simp
    show "ctl_state w i \<notin> {StateStarting, StateRunning, StateReloading}" using c(3) by (simp add: up_def)
    show "(True, mark i w) = beginStart i w" using c(4) by (simp add: beginStart_def mark_def)
  qed (use ok ocm env c(6) in auto)
  have rk: "\<forall>d\<in>set hard. map_of cfgs d \<noteq> None \<and> d \<in> S \<and> (\<forall>s\<in>set (stack @ [i]). rank d < rank s)"
    if "map_of cfgs i = Some c" "dependencyClasses (ctl_deps c) = (hard, soft)" "i \<in> S" "\<forall>s\<in>set stack. rank i < rank s"
    for c hard soft
  proof -
    have "hard_of cfgs i = hard" using that by (simp add: hard_of_def)
    then have "\<forall>d\<in>set hard. map_of cfgs d \<noteq> None \<and> d \<in> S \<and> rank d < rank i"
      using env(2) that(3) unfolding ranked_in_def by blast
    with that(4) show ?thesis by (auto dest: less_trans)
  qed
  show ?case
  proof (cases rule: apply_start_cases [OF ap, case_names cycle missing noop dep spawn])
    case (dep c hard soft e1 w1)
    have "\<not> (i \<in> S \<and> (\<forall>s\<in>set stack. rank i < rank s))"
      using h [OF dep(1-6)] rk [OF dep(2, 5)] by blast
    moreover have "startable w'" using h [OF dep(1-6)] dep(8) by simp
    ultimately show ?thesis by blast
  next
    case (spawn c hard soft w1 w2 w3)
    note r1 = start_main(2) [OF m ocm spawn(6)]
    have oc1: "only_callers (stack @ [i]) w1" using r1 only_callers_rel ocm by blast
    note r2 = start_main(3) [OF _ oc1 spawn(7) [symmetric]]
    have s2: "startable w2"
    proof (rule "1.IH"(2) [OF spawn(1, 2) a])
      show "(hard, soft) = dependencyClasses (ctl_deps c)" using spawn(5) by simp
      show "ctl_state w i \<notin> {StateStarting, StateRunning, StateReloading}" using spawn(3) by (simp add: up_def)
      show "(True, mark i w) = beginStart i w" using spawn(4) by (simp add: beginStart_def mark_def)
      show "(None, w1) = ensure_hard cfgs env (stack @ [i]) hard (mark i w)" using spawn(6) by simp
    qed (use h [OF spawn(1-6)] oc1 env spawn(7) in auto)
    have "start_rel cfgs (mark i w) w2" using r1 r2 start_rel_trans by blast
    then have dn: "\<not> up w2 i" using start_rel_marked [of cfgs "mark i w" w2 i] spawn(3) by (simp add: up_def)
    from spawn_succeeds [OF s2 dn env(1) spawn(8)] spawn(9) show ?thesis by simp
  qed (use ok in auto)
next
  case (2 cfgs env stack w)
  then show ?case by simp
next
  case (3 cfgs env stack d ds w)
  from ensure_step [OF "3.prems"(5)] show ?case
  proof (elim disjE conjE exE)
    assume "map_of cfgs d = None" "w' = w"
    with "3.prems" show ?case by simp
  next
    fix e1 w1
    assume d: "map_of cfgs d \<noteq> None" and ap: "apply_ctx cfgs env stack d ActionStart w = (e1, w1)"
      and r: "case e1 of Some x \<Rightarrow> e = Some (ErrDepFailed d x) \<and> w' = w1
        | None \<Rightarrow> ensure_hard cfgs env stack ds w1 = (e, w')"
    have h: "startable w1 \<and> (map_of cfgs d \<noteq> None \<and> d \<in> S \<and> (\<forall>s\<in>set stack. rank d < rank s) \<longrightarrow> e1 = None)"
      using "3.IH"(1) [OF d "3.prems"(1) refl "3.prems"(2-4) ap] .
    have oc1: "only_callers stack w1"
      using start_main(1) [OF _ refl "3.prems"(2) ap] "3.prems"(1, 2) only_callers_rel by (auto simp: startable_def)
    show ?case
    proof (cases e1)
      case None
      then have e: "ensure_hard cfgs env stack ds w1 = (e, w')" using r by simp
      have "startable w' \<and> ((\<forall>d\<in>set ds. map_of cfgs d \<noteq> None \<and> d \<in> S \<and> (\<forall>s\<in>set stack. rank d < rank s)) \<longrightarrow> e = None)"
        by (rule "3.IH"(2) [where x = e1 and y = w1]) (use d ap None h oc1 "3.prems"(3, 4) e in auto)
      then show ?thesis by simp
    qed (use r h in auto)
  qed
next
  case (4 cfgs env stack w)
  then show ?case by simp
next
  case (5 cfgs env stack d ds w)
  show ?case
  proof (cases "map_of cfgs d")
    case None
    with 5 show ?thesis by simp
  next
    case (Some c)
    obtain e1 w1 where ap: "apply_ctx cfgs env stack d ActionStart w = (e1, w1)" by fastforce
    have h: "startable w1"
      using "5.IH"(1) [OF _ "5.prems"(1) refl "5.prems"(2-4) ap] Some by simp
    have oc1: "only_callers stack w1"
      using start_main(1) [OF _ refl "5.prems"(2) ap] "5.prems"(1, 2) only_callers_rel by (auto simp: startable_def)
    show ?thesis
      by (rule "5.IH"(2) [where x = e1 and y = w1])
        (use Some ap h oc1 "5.prems"(3-5) in auto)
  qed
qed

lemma Apply_start_succeeds_in:
  assumes "quiet w" "startable w" "responsive env" "ranked_in cfgs rank S" "i \<in> S" "map_of cfgs i \<noteq> None"
    and "Apply cfgs env i ActionStart w = (e, w')"
  shows "e = None \<and> startable w'"
  using start_succeeds_main(1) [OF assms(2) refl quietD(2) [OF assms(1)] assms(3, 4) assms(7) [unfolded Apply_def]]
    assms(5, 6) by simp

lemma Apply_start_startable:
  assumes "quiet w" "startable w" "responsive env" "Apply cfgs env i ActionStart w = (e, w')"
  shows "startable w'"
  using start_succeeds_main(1) [OF assms(2) refl quietD(2) [OF assms(1)] assms(3) _ assms(4) [unfolded Apply_def],
      of "\<lambda>_. 0" "{}"]
  by (simp add: ranked_in_def)

lemma Apply_start_succeeds:
  assumes "quiet w" "startable w" "responsive env" "ranked cfgs rank" "map_of cfgs i \<noteq> None"
  shows "fst (Apply cfgs env i ActionStart w) = None"
  using Apply_start_succeeds_in [OF assms(1-3) ranked_in_UNIV [OF assms(4)] UNIV_I assms(5)]
  by (metis prod.collapse)

text \<open>C2: A start that succeeds on an agent that was down leaves it \<open>running\<close> and all its hard
  dependencies up, and no process of the agent is spawned before every dependency that was down
  has been spawned itself.\<close>

theorem Start_brings_dependencies_up_first:
  assumes q: "quiet w" and ap: "Apply cfgs env i ActionStart w = (None, w')" and down: "\<not> up w i"
  shows "ctl_state w' i = StateRunning \<and> (\<forall>d\<in>set (hard_of cfgs i). up w' d) \<and>
    (\<exists>us rid vs. trace w' = trace w @ us @ TControl i ACTION_START # TRunStart i rid True # vs \<and>
       (\<forall>d\<in>set (hard_of cfgs i). \<not> up w d \<longrightarrow> (\<exists>r. TRunStart d r True \<in> set us)))"
proof -
  note ap' = ap [unfolded Apply_def]
  show ?thesis
  proof (cases rule: apply_start_cases [OF ap', case_names cycle missing noop dep spawn])
    case (spawn c hard soft w1 w2 w3)
    have oc: "only_callers ([] @ [i]) (mark i w)" by (rule only_callers_mark [OF quietD(2) [OF q]])
    have hd: "hard = hard_of cfgs i" using spawn(2, 5) by (simp add: hard_of_def)
    have h1: "start_rel cfgs (mark i w) w1" "machines_ok w1" "\<forall>d\<in>set hard. up w1 d"
      using start_main(2) [OF _ oc spawn(6)] quietD(1) [OF q] by simp_all
    have h2: "start_rel cfgs w1 w2" "machines_ok w2"
      using start_main(3) [OF h1(2) only_callers_rel [OF h1(1) oc] spawn(7) [symmetric]] by simp_all
    have r: "start_rel cfgs (mark i w) w2" by (rule start_rel_trans [OF h1(1) h2(1)])
    have dn: "\<not> up w2 i" using start_rel_marked [OF r, of i] down by (simp add: up_def)
    have d2: "\<forall>d\<in>set hard. up w2 d" using h1(3) start_rel_up [OF h2(1)] by blast
    note eff = spawn_and_wait_effect [OF h2(2) dn spawn(8)]
    have st: "ctl_state w3 i = StateRunning" using eff by (simp add: spawn_effect_def)
    obtain rid vs where tr: "trace w3 = trace w2 @ TControl i ACTION_START # TRunStart i rid True # vs"
      using eff st unfolding spawn_effect_def up_def by auto
    obtain us where us: "trace w2 = trace w @ us" "\<And>j. \<not> up w j \<Longrightarrow> up w2 j \<Longrightarrow> \<exists>r. TRunStart j r True \<in> set us"
      using start_relD(3) [OF r] by auto
    have "up w3 d" if "d \<in> set hard" for d
      using d2 that dn eff by (cases "d = i") (auto simp: spawn_effect_def up_def ctl_state_def)
    then have "\<forall>d\<in>set (hard_of cfgs i). up w' d" using hd spawn(9) by simp
    moreover have "trace w' = trace w @ us @ TControl i ACTION_START # TRunStart i rid True # vs"
      using tr us(1) spawn(9) by simp
    moreover have "\<forall>d\<in>set (hard_of cfgs i). \<not> up w d \<longrightarrow> (\<exists>r. TRunStart d r True \<in> set us)"
      using us(2) d2 hd by blast
    ultimately show ?thesis using st spawn(9) by auto
  qed (use down quietD(3) [OF q] in auto)
qed

abbreviation two_cfgs :: ctl_cfgs where
  "two_cfgs \<equiv> [(''api'', plain_cfg [''db''] []), (''db'', plain_cfg [] [])]"

lemma initial_startable [simp]: "startable initial_world"
  using initial_world_ok(2)
  by (simp add: startable_def ctl_state_def GetState_def initial_world_def NewController_def
      NewLifecycleStateMachine_def OnTransition_def NewBaseStateMachine_def state_name_defs)

lemma good_env_responsive [simp]: "responsive good_env"
  by (simp add: responsive_def)

lemma two_cfgs_ranked: "ranked two_cfgs (\<lambda>i. if i = ''api'' then 1 else 0)"
  by (auto simp: ranked_def hard_of_def dependencyClasses_def split: if_splits)

lemma initial_down [simp]: "\<not> up initial_world i"
  by (simp add: up_def ctl_state_def GetState_def initial_world_def NewController_def
      NewLifecycleStateMachine_def OnTransition_def NewBaseStateMachine_def)

theorem Start_brings_dependencies_up_first_witness:
  "\<exists>w'. Apply two_cfgs good_env ''api'' ActionStart initial_world = (None, w') \<and> up w' ''db''"
proof -
  obtain w' where w': "Apply two_cfgs good_env ''api'' ActionStart initial_world = (None, w')"
    using Apply_start_succeeds [OF initial_quiet initial_startable good_env_responsive two_cfgs_ranked, of "''api''"]
    by (cases "Apply two_cfgs good_env ''api'' ActionStart initial_world") auto
  from Start_brings_dependencies_up_first [OF initial_quiet w' initial_down] w' show ?thesis
    by (auto simp: hard_of_def dependencyClasses_def)
qed



text \<open>Whether it succeeds or fails, a start leaves every agent that was up exactly as it was,
  keeps the invariant that an agent is up only with all its hard dependencies, and releases every
  start-in-flight marker it took.\<close>

theorem Start_preserves_running_agents:
  assumes "quiet w" "Apply cfgs env i ActionStart w = (e, w')"
  shows "quiet w' \<and> (\<forall>j. up w j \<longrightarrow> ctl_state w' j = ctl_state w j) \<and> (dep_closed cfgs w \<longrightarrow> dep_closed cfgs w')"
  using Apply_start_main [OF assms] start_relD(2, 4) unfolding ctl_state_def by simp

theorem Start_preserves_running_agents_witness:
  "\<exists>e w'. Apply [(''a'', plain_cfg [''a''] [])] good_env ''a'' ActionStart initial_world = (e, w') \<and> quiet w'"
  using Start_preserves_running_agents [OF initial_quiet] by (metis surj_pair)

text \<open>C4: Agents whose hard dependencies run in a circle, or lead to an agent that does not exist,
  are never brought up by any start, and starting one of them reports an error.\<close>

theorem Start_never_starts_blocked_agents:
  assumes "quiet w" "Apply cfgs env i ActionStart w = (e, w')" "blocked cfgs B" "\<forall>b\<in>B. \<not> up w b"
  shows "(\<forall>b\<in>B. \<not> up w' b) \<and> (i \<in> B \<longrightarrow> e \<noteq> None)"
  using Apply_start_main [OF assms(1, 2)] start_relD(5) [OF _ assms(3, 4)] by blast

theorem Start_never_starts_blocked_agents_witness:
  "\<exists>e w'. Apply [(''a'', plain_cfg [''b''] []), (''b'', plain_cfg [''a''] [])] good_env ''a'' ActionStart initial_world
     = (e, w') \<and> e \<noteq> None"
proof -
  let ?c = "[(''a'', plain_cfg [''b''] []), (''b'', plain_cfg [''a''] [])]"
  obtain e w' where w': "Apply ?c good_env ''a'' ActionStart initial_world = (e, w')" by fastforce
  have b: "blocked ?c {''a'', ''b''}" by (auto simp: blocked_def hard_of_def dependencyClasses_def)
  have u: "\<forall>b\<in>{''a'', ''b''}. \<not> up initial_world b" by simp
  from Start_never_starts_blocked_agents [OF initial_quiet w' b u] w' show ?thesis by auto
qed

lemma ensure_hard_error: "ensure_hard cfgs env stack ds w = (Some e, w') \<Longrightarrow> \<exists>d e'. e = ErrDepFailed d e'"
proof (induction ds arbitrary: w)
  case (Cons d ds)
  from ensure_step [OF Cons.prems] Cons.IH show ?case by (auto split: option.splits)
qed simp

lemma spawn_timeout:
  assumes ok: "machines_ok w" and sp: "spawn_and_wait c env i w = (Some (ErrStart t), w')"
  shows "ctl_state w' i = StateError \<and> AgentID t = i \<and> last (trace w') = TFailed i (RunID t) t"
proof -
  define E where "E = emit [TRunStart i (env_run_id env (tick w)) True] (set_feed i [] (next_tick (publishControl i ACTION_START w)))"
  have okE: "machines_ok E" and stE: "ctl_state E i = ctl_state w i"
    using ok by (simp_all add: E_def publishControl_def)
  have none: "env_start env (tick w) = None" using sp by (auto simp: spawn_and_wait_def Let_def split: option.splits)
  have st: "StateStarting \<in> set (next_states (ctl_state w i))"
    using sp none
    by (auto simp: spawn_and_wait_def Let_def transition_to_eq [OF okE] stE simp flip: E_def split: if_splits)
  let ?w3 = "moved i StateStarting E"
  have ok3: "machines_ok ?w3" "ctl_state ?w3 i = StateStarting" using okE st stE by simp_all
  obtain r rest where aw: "awaitRunningWithRunIDSince (ctl_caps c) i (ReadinessBudget c) (SilenceBudget c)
      (env_run_id env (tick w)) (env_now env (tick w)) (env_feed env (tick w)) (env_deadline env (tick w)) = (r, rest)"
    by fastforce
  let ?w4 = "set_feed i (feed_rest rest []) ?w3"
  have ok4: "machines_ok ?w4" "ctl_state ?w4 i = StateStarting" using ok3 by simp_all
  have "spawn_and_wait c env i w = (case r of
      Some to \<Rightarrow> (Some (ErrStart to), publishFailed i (env_run_id env (tick w)) to (snd (transition_to i StateError ?w4)))
    | None \<Rightarrow> transition_to i StateRunning ?w4)"
    using none aw st by (simp add: spawn_and_wait_def Let_def transition_to_eq [OF okE] stE flip: E_def)
  with sp ok4 have "r = Some t" "w' = publishFailed i (env_run_id env (tick w)) t (moved i StateError ?w4)"
    by (auto simp: transition_to_eq [OF ok4(1)] split: option.splits)
  moreover have "AgentID t = i \<and> RunID t = env_run_id env (tick w)"
    using await_loop_timeout aw \<open>r = Some t\<close> unfolding awaitRunningWithRunIDSince_def by blast
  ultimately show ?thesis using ok4 by (simp add: publishFailed_def)
qed

lemma apply_cycle: "i \<in> set stack \<Longrightarrow> apply_ctx cfgs env stack i a w = (Some (ErrDepCycle stack i), w)"
  by (subst apply_ctx.simps) simp

lemma Apply_simple:
  assumes "map_of cfgs i = Some c"
  shows "Apply cfgs env i ActionStop w = do_stop c i w"
    and "Apply cfgs env i ActionRestart w =
      (Some (ErrRestartStop (ErrDepCycle [i] i)), publishControl i ACTION_RESTART w)"
    and "ctl_state w i = StateRunning \<Longrightarrow> Apply cfgs env i ActionReload w = do_reload c env i w"
    and "ctl_state w i \<noteq> StateRunning \<Longrightarrow> Apply cfgs env i ActionReload w = (Some (ErrDepCycle [i] i), w)"
  unfolding Apply_def
  by (subst apply_ctx.simps, simp add: assms apply_cycle)+

text \<open>C5: A stop of a machine that is \<open>running\<close>, \<open>stopping\<close> or in \<open>error\<close> always succeeds: the runner is
  told to stop, its resources are reset, the stopped status is published after that, and the
  machine ends \<open>stopped\<close>; a stopped machine is left alone. In every other state, so while an
  agent starts or reloads, the stop is refused and the runner is never told.\<close>

theorem Stop_exact:
  assumes "machines_ok w" "map_of cfgs i = Some c"
  shows "case Apply cfgs env i ActionStop w of (e, w') \<Rightarrow>
    (if ctl_state w i = StateStopped then e = None \<and> w' = w
     else if ctl_state w i \<in> {StateRunning, StateStopping, StateError} then
       e = None \<and> ctl_state w' i = StateStopped \<and>
       (\<exists>us vs. trace w' = trace w @ us @
          TRunStop i # (if Resetter (ctl_caps c) then [TRunReset i] else []) @ TStatus i AS_STOPPED # vs)
     else e = Some (ErrTransition (InvalidTransition (ctl_state w i) StateStopping)) \<and>
       ctl_state w' i = ctl_state w i \<and> trace w' = trace w @ [TControl i ACTION_STOP])"
proof -
  let ?w0 = "publishControl i ACTION_STOP w"
  let ?fin = "\<lambda>w1. publishStatus i AS_STOPPED (if Resetter (ctl_caps c) then emit [TRunReset i] (emit [TRunStop i] w1)
      else emit [TRunStop i] w1)"
  have ok0: "machines_ok ?w0" and st0: "ctl_state ?w0 i = ctl_state w i" using assms(1) by (simp_all add: publishControl_def)
  have fin: "ctl_state (snd (transition_to i StateStopped (?fin w1))) i = StateStopped \<and>
      (\<exists>vs. trace (snd (transition_to i StateStopped (?fin w1))) = trace w1 @
         TRunStop i # (if Resetter (ctl_caps c) then [TRunReset i] else []) @ TStatus i AS_STOPPED # vs)"
    if "machines_ok w1" "ctl_state w1 i = StateStopping" for w1
  proof -
    have f: "machines_ok (?fin w1)" "ctl_state (?fin w1) i = StateStopping" using that by (simp_all add: publishStatus_def)
    obtain vs where "trace (moved i StateStopped (?fin w1)) = trace (?fin w1) @ vs" using moved_trace by blast
    moreover have "snd (transition_to i StateStopped (?fin w1)) = moved i StateStopped (?fin w1)"
      using f by (simp add: moved_def)
    ultimately show ?thesis using f by (auto simp: publishStatus_def)
  qed
  note D = do_stop_def Let_def Apply_simple(1) [OF assms(2)]
  consider "ctl_state w i = StateStopped" | "ctl_state w i = StateStopping"
    | "ctl_state w i \<noteq> StateStopped" "ctl_state w i \<noteq> StateStopping" by blast
  then show ?thesis
  proof cases
    case 1
    then show ?thesis by (simp add: D)
  next
    case 2
    from fin [OF assms(1) 2] obtain vs where
      "trace (snd (transition_to i StateStopped (?fin w))) = trace w @ [] @
         TRunStop i # (if Resetter (ctl_caps c) then [TRunReset i] else []) @ TStatus i AS_STOPPED # vs" by auto
    with fin [OF assms(1) 2] 2 show ?thesis by (auto simp: D)
  next
    case 3
    have r: "lifecycle_reachable (ctl_sm (ctls w i))" using assms(1) by (simp add: machines_ok_def)
    from lifecycle_reachable_visited [OF r]
    have v: "ctl_state w i \<in> set visited_states" by (simp add: ctl_state_def GetState_def)
    show ?thesis
    proof (cases "StateStopping \<in> set (next_states (ctl_state w i))")
      case True
      let ?w1 = "moved i StateStopping ?w0"
      have s1: "machines_ok ?w1" "ctl_state ?w1 i = StateStopping" using ok0 st0 True by simp_all
      obtain us where us: "trace ?w1 = trace w @ us" using moved_trace [of i StateStopping ?w0] by (auto simp: publishControl_def)
      from fin [OF s1] obtain vs where
        "trace (snd (transition_to i StateStopped (?fin ?w1))) = trace w @ us @
           TRunStop i # (if Resetter (ctl_caps c) then [TRunReset i] else []) @ TStatus i AS_STOPPED # vs" using us by auto
      moreover have "ctl_state w i \<in> {StateRunning, StateError}" using True v 3 by (auto simp: visited_states_def)
      ultimately show ?thesis
        using 3 True fin [OF s1] by (auto simp: D transition_to_eq [OF ok0] st0)
    next
      case False
      with 3 have "ctl_state w i \<notin> {StateRunning, StateStopping, StateError}" by auto
      with 3 False show ?thesis
        by (simp add: D transition_to_eq [OF ok0] st0) (simp add: publishControl_def)
    qed
  qed
qed

theorem Stop_exact_witness:
  "fst (Apply [(''a'', plain_cfg [] [])] good_env ''a'' ActionStop initial_world) = None"
proof -
  have "ctl_state initial_world ''a'' = StateStopped"
    by (simp add: ctl_state_def GetState_def initial_world_def NewController_def
        NewLifecycleStateMachine_def OnTransition_def NewBaseStateMachine_def)
  with Stop_exact [OF initial_world_ok(2), of "[(''a'', plain_cfg [] [])]" "''a''" "plain_cfg [] []" good_env]
  show ?thesis by (auto split: prod.splits)
qed

text \<open>A restart never restarts anything: the inner stop runs under a call stack that already
  holds the agent, so it is refused as a dependency cycle in every state. For the same reason a
  reload of an agent that is not running, meant to start it, is always refused.\<close>

theorem Restart_and_cold_Reload_always_fail:
  assumes "map_of cfgs i \<noteq> None"
  shows "Apply cfgs env i ActionRestart w =
      (Some (ErrRestartStop (ErrDepCycle [i] i)), publishControl i ACTION_RESTART w) \<and>
    (ctl_state w i \<noteq> StateRunning \<longrightarrow> Apply cfgs env i ActionReload w = (Some (ErrDepCycle [i] i), w))"
  using assms Apply_simple(2, 4) by blast

theorem Restart_and_cold_Reload_always_fail_witness:
  "fst (Apply [(''a'', plain_cfg [] [])] good_env ''a'' ActionRestart initial_world)
     = Some (ErrRestartStop (ErrDepCycle [''a''] ''a''))"
  using Restart_and_cold_Reload_always_fail [of "[(''a'', plain_cfg [] [])]" "''a''" good_env initial_world] by simp

text \<open>A start whose deadline expires is reported, not only returned: the machine is in
  \<open>error\<close> and the last thing published is the failure with the run id of the attempt.\<close>

theorem Start_timeout_is_reported:
  assumes "quiet w" "Apply cfgs env i ActionStart w = (Some (ErrStart t), w')"
  shows "ctl_state w' i = StateError \<and> AgentID t = i \<and> last (trace w') = TFailed i (RunID t) t"
proof -
  note ap = assms(2) [unfolded Apply_def]
  show ?thesis
  proof (cases rule: apply_start_cases [OF ap, case_names cycle missing noop dep spawn])
    case (dep c hard soft e1 w1)
    then show ?thesis using ensure_hard_error by blast
  next
    case (spawn c hard soft w1 w2 w3)
    note oc = only_callers_mark [OF quietD(2) [OF assms(1)], of "[]" i]
    have m1: "machines_ok w1" "start_rel cfgs (mark i w) w1"
      using start_main(2) [OF _ oc spawn(6)] quietD(1) [OF assms(1)] by simp_all
    have m2: "machines_ok w2" "start_rel cfgs w1 w2"
      using start_main(3) [OF m1(1) only_callers_rel [OF m1(2) oc] spawn(7) [symmetric]] by simp_all
    from spawn_timeout [OF m2(1) spawn(8)] spawn(9) show ?thesis by simp
  qed (use assms in auto)
qed

abbreviation mute_env :: ctl_env where
  "mute_env \<equiv> good_env \<lparr>env_feed := (\<lambda>n. [SilenceTimer False 0]), env_deadline := (\<lambda>n. (False, 0))\<rparr>"

theorem Start_timeout_is_reported_witness:
  "\<exists>t w'. Apply [(''a'', plain_cfg [] [])] mute_env ''a'' ActionStart initial_world = (Some (ErrStart t), w') \<and>
     ctl_state w' ''a'' = StateError"
proof -
  have "fst (Apply [(''a'', plain_cfg [] [])] mute_env ''a'' ActionStart initial_world)
      = Some (ErrStart \<lparr>AgentID = ''a'', RunID = ''r'', Waited = 2, Silent = True, SilenceKnown = True, FirstFrame = 0\<rparr>)"
    by code_simp
  then obtain t w' where w': "Apply [(''a'', plain_cfg [] [])] mute_env ''a'' ActionStart initial_world = (Some (ErrStart t), w')"
    by (metis prod.collapse)
  with Start_timeout_is_reported [OF initial_quiet w'] show ?thesis by blast
qed

text \<open>A start requested while the agent is being stopped spawns a process and then finds that
  the machine may not move to \<open>starting\<close>: it returns an error, the machine still says
  \<open>stopping\<close>, and nothing has told the runner to stop the new process.\<close>

theorem Start_while_stopping_orphans_process:
  assumes "quiet w" "map_of cfgs i = Some c" "dependencyClasses (ctl_deps c) = ([], [])"
    and "ctl_state w i = StateStopping" "env_start env (tick w) = None"
  shows "case Apply cfgs env i ActionStart w of (e, w') \<Rightarrow>
    e = Some (ErrTransition (InvalidTransition StateStopping StateStarting)) \<and> ctl_state w' i = StateStopping \<and>
    trace w' = trace w @ [TControl i ACTION_START, TRunStart i (env_run_id env (tick w)) True]"
proof -
  have b: "beginStart i w = (True, mark i w)" using quietD(3) [OF assms(1)] by (simp add: beginStart_def mark_def)
  have m: "machines_ok (mark i w)" "tick (mark i w) = tick w"
    using quietD(1) [OF assms(1)] by (simp, simp add: mark_def upd_ctl_def)
  show ?thesis
    unfolding Apply_def
    by (subst apply_ctx.simps)
      (use assms(2-5) m in \<open>simp add: b spawn_and_wait_def Let_def transition_to_eq publishControl_def\<close>)
qed

definition stopping_world :: ctl_world where
  "stopping_world = initial_world \<lparr>ctls := (\<lambda>i. (NewController i ''host'')
     \<lparr>ctl_sm := (NewLifecycleStateMachine i ''host'') \<lparr>current := StateStopping\<rparr>\<rparr>)\<rparr>"

lemma stopping_world_quiet: "quiet stopping_world" "ctl_state stopping_world i = StateStopping"
proof -
  have r: "lifecycle_reachable ((NewLifecycleStateMachine i h) \<lparr>current := StateStopping\<rparr>)" for i h
  proof -
    let ?m = "NewLifecycleStateMachine i h"
    have e: "lifecycle_reachable (m \<lparr>current := t\<rparr>)" if "lifecycle_reachable m" "t \<in> set (next_states (current m))"
      for m :: lifecycle_sm and t
    proof -
      have "\<exists>ns. TransitionTo m t = Inr (m \<lparr>current := t\<rparr>, ns)"
        using that by (simp add: TransitionTo_def allowed_from_reachable)
      then show ?thesis using lifecycle_reachable.transition [OF that(1)] by blast
    qed
    have "current ?m = StateStopped" by (simp add: NewLifecycleStateMachine_def OnTransition_def NewBaseStateMachine_def)
    then have "lifecycle_reachable (?m \<lparr>current := StateStarting\<rparr>)" by (intro e new_machine) simp
    from e [OF this, of StateRunning] have "lifecycle_reachable (?m \<lparr>current := StateRunning\<rparr>)" by simp
    from e [OF this, of StateStopping] show ?thesis by simp
  qed
  show "quiet stopping_world"
    using r initial_world_ok(2)
    by (auto simp: quiet_def machines_ok_def stopping_world_def initial_world_def NewController_def)
  show "ctl_state stopping_world i = StateStopping"
    by (simp add: stopping_world_def ctl_state_def GetState_def)
qed

theorem Start_while_stopping_orphans_process_witness:
  "\<exists>e w'. Apply [(''a'', plain_cfg [] [])] good_env ''a'' ActionStart stopping_world = (e, w') \<and>
     e \<noteq> None \<and> TRunStart ''a'' ''r'' True \<in> set (trace w')"
  using Start_while_stopping_orphans_process [OF stopping_world_quiet(1), of "[(''a'', plain_cfg [] [])]" "''a''"
      "plain_cfg [] []" good_env]
  by (auto simp: stopping_world_quiet(2) dependencyClasses_def split: prod.splits)

end
