(* ===== verification/StartTrace.thy ===== *)
theory StartTrace
  imports Controller
begin

text \<open>
  What a start writes to the trace and whom it reaches: the lemmas the supervisor's start and stop
  loops rest on. They extend \<open>Controller\<close>, whose definitions they use.
\<close>

section \<open>Whom a start touches\<close>

definition soft_of :: "ctl_cfgs \<Rightarrow> string \<Rightarrow> string list" where
  "soft_of cfgs i = (case map_of cfgs i of None \<Rightarrow> [] | Some c \<Rightarrow> snd (dependencyClasses (ctl_deps c)))"

text \<open>A set of agents that contains the dependencies of its members.\<close>

definition deps_within :: "ctl_cfgs \<Rightarrow> string set \<Rightarrow> bool" where
  "deps_within cfgs R \<longleftrightarrow> (\<forall>i\<in>R. set (hard_of cfgs i) \<union> set (soft_of cfgs i) \<subseteq> R)"

text \<open>The events a start of agents of \<open>R\<close> may publish: no stop, reset or reload is among them.\<close>

definition start_event :: "string set \<Rightarrow> trace_ev \<Rightarrow> bool" where
  "start_event R ev = (case ev of
     TControl j a \<Rightarrow> j \<in> R \<and> a = ACTION_START | TRunStart j _ _ \<Rightarrow> j \<in> R
   | TFailed j _ _ \<Rightarrow> j \<in> R | TTransition _ \<Rightarrow> True | _ \<Rightarrow> False)"

definition writes :: "string set \<Rightarrow> ctl_world \<Rightarrow> ctl_world \<Rightarrow> bool" where
  "writes R w w' \<longleftrightarrow> (\<exists>us. trace w' = trace w @ us \<and> (\<forall>ev\<in>set us. start_event R ev))"

lemma writes_refl: "trace w' = trace w \<Longrightarrow> writes R w w'"
  by (simp add: writes_def)

lemma writes_trans: "writes R w1 w2 \<Longrightarrow> writes R w2 w3 \<Longrightarrow> writes R w1 w3"
  unfolding writes_def by (metis append_assoc Un_iff set_append)

lemma writes_emit: "writes R w w1 \<Longrightarrow> \<forall>ev\<in>set es. start_event R ev \<Longrightarrow> writes R w (emit es w1)"
  unfolding writes_def emit_def by (elim exE) (rule_tac x = "us @ es" in exI, auto)

lemma trace_unchanged [simp]:
  "trace (next_tick w) = trace w" "trace (set_feed i ch w) = trace w" "trace (upd_ctl i f w) = trace w"
  by (simp_all add: next_tick_def set_feed_def upd_ctl_def)

lemma writes_quiet_steps:
  "writes R w w1 \<Longrightarrow> writes R w (next_tick w1)" "writes R w w1 \<Longrightarrow> writes R w (set_feed i ch w1)"
  "writes R w w1 \<Longrightarrow> writes R w (upd_ctl i f w1)"
  by (simp_all add: writes_def)

lemma writes_transition: "writes R w w1 \<Longrightarrow> writes R w (snd (transition_to i s w1))"
  by (auto simp: transition_to_def start_event_def split: sum.split intro!: writes_emit writes_quiet_steps)

lemma writes_transition_eq: "writes R w w1 \<Longrightarrow> transition_to i s w1 = (e, w2) \<Longrightarrow> writes R w w2"
  using writes_transition [of R w w1 i s] by simp

lemmas writes_steps = writes_transition writes_emit writes_quiet_steps

lemma writes_spawn: "i \<in> R \<Longrightarrow> writes R w (snd (spawn_and_wait c env i w))"
  unfolding spawn_and_wait_def publishControl_def publishFailed_def Let_def
  by (auto split: option.splits prod.splits intro!: writes_steps simp: start_event_def writes_refl
      intro: writes_transition_eq [rotated])

lemma start_writes:
  "a = ActionStart \<Longrightarrow> deps_within cfgs R \<Longrightarrow> i \<in> R \<Longrightarrow> apply_ctx cfgs env stack i a w = (e, w') \<Longrightarrow> writes R w w'"
  "deps_within cfgs R \<Longrightarrow> set ds \<subseteq> R \<Longrightarrow> ensure_hard cfgs env stack ds w = (e, w') \<Longrightarrow> writes R w w'"
  "deps_within cfgs R \<Longrightarrow> set ds \<subseteq> R \<Longrightarrow> ensure_soft cfgs env stack ds w = w' \<Longrightarrow> writes R w w'"
proof (induction cfgs env stack i a w and cfgs env stack ds w and cfgs env stack ds w
    arbitrary: e w' and e w' and w' rule: apply_ctx_ensure_hard_ensure_soft.induct)
  case (1 cfgs env stack i a w)
  note a = "1.prems"(1) and R = "1.prems"(2, 3)
  have ap: "apply_ctx cfgs env stack i ActionStart w = (e, w')" using "1.prems"(4) a by simp
  have d: "set hard \<subseteq> R \<and> set soft \<subseteq> R"
    if "map_of cfgs i = Some c" "dependencyClasses (ctl_deps c) = (hard, soft)" for c hard soft
    using R that by (force simp: deps_within_def hard_of_def soft_of_def)
  have h: "writes R (mark i w) w1"
    if c: "i \<notin> set stack" "map_of cfgs i = Some c" "\<not> up w i" "\<not> starting (ctls w i)"
      "dependencyClasses (ctl_deps c) = (hard, soft)"
      "ensure_hard cfgs env (stack @ [i]) hard (mark i w) = (e1, w1)" for c hard soft e1 w1
  proof (rule "1.IH"(1) [OF c(1, 2) a])
    show "(hard, soft) = dependencyClasses (ctl_deps c)" using c(5) by simp
    show "ctl_state w i \<notin> {StateStarting, StateRunning, StateReloading}" using c(3) by (simp add: up_def)
    show "(True, mark i w) = beginStart i w" using c(4) by (simp add: beginStart_def mark_def)
  qed (use R c(6) d [OF c(2, 5)] in auto)
  have m: "writes R w (mark i w)" by (simp add: mark_def writes_refl)
  show ?case
  proof (cases rule: apply_start_cases [OF ap, case_names cycle missing noop dep spawn])
    case (dep c hard soft e1 w1)
    from writes_trans [OF m h [OF dep(1-6)]] dep(8) show ?thesis
      by (simp add: endStart_def writes_quiet_steps)
  next
    case (spawn c hard soft w1 w2 w3)
    have "writes R w1 w2"
    proof (rule "1.IH"(2) [OF spawn(1, 2) a])
      show "(hard, soft) = dependencyClasses (ctl_deps c)" using spawn(5) by simp
      show "ctl_state w i \<notin> {StateStarting, StateRunning, StateReloading}" using spawn(3) by (simp add: up_def)
      show "(True, mark i w) = beginStart i w" using spawn(4) by (simp add: beginStart_def mark_def)
      show "(None, w1) = ensure_hard cfgs env (stack @ [i]) hard (mark i w)" using spawn(6) by simp
    qed (use R d [OF spawn(2, 5)] spawn(7) in auto)
    moreover have "writes R w2 w3" using writes_spawn [OF R(2), of w2 c env] spawn(8) by simp
    ultimately show ?thesis
      using writes_trans [OF writes_trans [OF m h [OF spawn(1-6)]]] writes_trans spawn(9)
      by (metis endStart_def writes_quiet_steps(3))
  qed (simp_all add: writes_refl)
next
  case (3 cfgs env stack d ds w)
  from ensure_step [OF "3.prems"(3)] show ?case
  proof (elim disjE conjE exE)
    fix e1 w1
    assume d: "map_of cfgs d \<noteq> None" and ap: "apply_ctx cfgs env stack d ActionStart w = (e1, w1)"
      and r: "case e1 of Some x \<Rightarrow> e = Some (ErrDepFailed d x) \<and> w' = w1
        | None \<Rightarrow> ensure_hard cfgs env stack ds w1 = (e, w')"
    have h: "writes R w w1" using "3.IH"(1) [OF d refl "3.prems"(1) _ ap] "3.prems"(2) by simp
    show ?case
    proof (cases e1)
      case None
      have "writes R w1 w'"
        by (rule "3.IH"(2) [where x = e1 and y = w1]) (use d ap None "3.prems"(1, 2) r in auto)
      with h show ?thesis by (rule writes_trans)
    qed (use r h in auto)
  qed (simp add: writes_refl)
next
  case (5 cfgs env stack d ds w)
  show ?case
  proof (cases "map_of cfgs d")
    case None
    with 5 show ?thesis by simp
  next
    case (Some c)
    obtain e1 w1 where ap: "apply_ctx cfgs env stack d ActionStart w = (e1, w1)" by fastforce
    have h: "writes R w w1" using "5.IH"(1) [OF _ refl "5.prems"(1) _ ap] Some "5.prems"(2) by simp
    have "writes R w1 w'"
      by (rule "5.IH"(2) [where x = e1 and y = w1]) (use Some ap "5.prems" in auto)
    with h show ?thesis by (rule writes_trans)
  qed
qed (auto simp: writes_refl)

lemma Apply_start_writes:
  "Apply cfgs env i ActionStart w = (e, w') \<Longrightarrow> deps_within cfgs R \<Longrightarrow> i \<in> R \<Longrightarrow> writes R w w'"
  using start_writes(1) [OF refl] by (simp add: Apply_def)

section \<open>Wanted agents are started\<close>

lemma start_leaf:
  assumes "startable w" "only_callers stack w" "responsive env" "map_of cfgs d \<noteq> None" "hard_of cfgs d = []"
    and "d \<notin> set stack" "apply_ctx cfgs env stack d ActionStart w = (e, w')"
  shows "up w' d \<and> startable w' \<and> start_rel cfgs w w'"
proof -
  have ok: "machines_ok w" using assms(1) by (simp add: startable_def)
  have r: "ranked_in cfgs (\<lambda>x. if x = d then 0 else 1) {d}" using assms(5) by (simp add: ranked_in_def)
  have "startable w' \<and> e = None"
    using start_succeeds_main(1) [OF assms(1) refl assms(2, 3) r assms(7)] assms(4, 6) by auto
  with start_main(1) [OF ok refl assms(2, 7)] show ?thesis by simp
qed

lemma ensure_soft_up:
  assumes "startable w" "only_callers stack w" "responsive env" "map_of cfgs d \<noteq> None" "hard_of cfgs d = []"
    and "d \<notin> set stack" "d \<in> set ds"
  shows "up (ensure_soft cfgs env stack ds w) d"
  using assms(1, 2, 7)
proof (induction ds arbitrary: w)
  case (Cons x ds)
  have none: "ranked_in cfgs (\<lambda>_. 0) {}" by (simp add: ranked_in_def)
  show ?case
  proof (cases "map_of cfgs x")
    case None
    with Cons assms(4) show ?thesis by auto
  next
    case (Some c)
    obtain e w1 where ap: "apply_ctx cfgs env stack x ActionStart w = (e, w1)" by fastforce
    have ok: "machines_ok w" using Cons.prems(1) by (simp add: startable_def)
    have w1: "startable w1" "start_rel cfgs w w1"
      using start_succeeds_main(1) [OF Cons.prems(1) refl Cons.prems(2) assms(3) none ap]
        start_main(1) [OF ok refl Cons.prems(2) ap] by simp_all
    have oc: "only_callers stack w1" by (rule only_callers_rel [OF w1(2) Cons.prems(2)])
    have step: "ensure_soft cfgs env stack (x # ds) w = ensure_soft cfgs env stack ds w1"
      using Some ap by simp
    show ?thesis
    proof (cases "x = d")
      case True
      then have "up w1 d" using start_leaf [OF Cons.prems(1, 2) assms(3-6), of e w1] ap by simp
      moreover have "machines_ok w1" using w1(1) by (simp add: startable_def)
      ultimately show ?thesis
        using start_main(3) [OF _ oc refl] start_rel_up step by metis
    next
      case False
      with Cons.IH [OF w1(1) oc] Cons.prems(3) step show ?thesis by simp
    qed
  qed
qed simp

lemma Apply_start_wanted:
  assumes "quiet w" "startable w" "responsive env" "\<not> up w i" "Apply cfgs env i ActionStart w = (None, w')"
    and "d \<in> set (soft_of cfgs i)" "d \<noteq> i" "map_of cfgs d \<noteq> None" "hard_of cfgs d = []"
  shows "up w' d"
proof -
  note ap = assms(5) [unfolded Apply_def]
  show ?thesis
  proof (cases rule: apply_start_cases [OF ap, case_names cycle missing noop dep spawn])
    case (spawn c hard soft w1 w2 w3)
    have oc: "only_callers ([] @ [i]) (mark i w)" by (rule only_callers_mark [OF quietD(2) [OF assms(1)]])
    have none: "ranked_in cfgs (\<lambda>_. 0) {}" by (simp add: ranked_in_def)
    have m: "startable (mark i w)" "machines_ok (mark i w)" using assms(2) by (simp_all add: startable_def)
    have w1: "startable w1" "start_rel cfgs (mark i w) w1" "machines_ok w1"
      using start_succeeds_main(2) [OF m(1) oc assms(3) none spawn(6)] start_main(2) [OF m(2) oc spawn(6)] by simp_all
    have oc1: "only_callers ([] @ [i]) w1" by (rule only_callers_rel [OF w1(2) oc])
    have "d \<in> set soft" using assms(6) spawn(2, 5) by (simp add: soft_of_def)
    then have u: "up w2 d"
      using ensure_soft_up [OF w1(1) oc1 assms(3, 8, 9)] assms(7) spawn(7) by simp
    have r2: "start_rel cfgs w1 w2" "machines_ok w2"
      using start_main(3) [OF w1(3) oc1 spawn(7) [symmetric]] by simp_all
    have "\<not> up w2 i" using start_rel_marked [OF start_rel_trans [OF w1(2) r2(1)], of i] assms(4) by (simp add: up_def)
    from spawn_and_wait_effect [OF r2(2) this spawn(8)] assms(7) u
    have "up w3 d" by (auto simp: spawn_effect_def up_def ctl_state_def)
    with spawn(9) show ?thesis by simp
  qed (use assms(4) quietD(3) [OF assms(1)] in auto)
qed

end
