(* ===== verification/Stores.thy ===== *)
theory Stores
  imports Prelude "HOL-Library.Sublist"
begin

text \<open>
  \<^verbatim>\<open>internal/db\<close> and \<^verbatim>\<open>core/store\<close>: the key-value store, the graph store with its shortest
  paths, and the hybrid store made of both. A bbolt bucket is its list of entries in byte order
  of the keys, as \<^verbatim>\<open>Put\<close>, \<^verbatim>\<open>Delete\<close> and a cursor see it; encoding a record as JSON and
  decoding it again is the identity. The priority queue is Go's \<^verbatim>\<open>container/heap\<close> on a slice,
  so that ties are broken as in the code.
\<close>

section \<open>Buckets\<close>

type_synonym 'v bucket = "(string \<times> 'v) list"

datatype store_error = NotOpen | BucketMissing string | KeyMissing string | BucketNameRequired
  | KeyRequired | KeyTooLarge | NoPath | NoStoredPath | PathExpired | UnknownMode string

definition MaxKeySize :: int where "MaxKeySize = 32768"

fun entry_put :: "string \<Rightarrow> 'v \<Rightarrow> 'v bucket \<Rightarrow> 'v bucket" where
  "entry_put k v [] = [(k, v)]"
| "entry_put k v ((k', v') # b) =
     (if k = k' then (k, v) # b
      else if k < k' then (k, v) # (k', v') # b
      else (k', v') # entry_put k v b)"

fun entry_del :: "string \<Rightarrow> 'v bucket \<Rightarrow> 'v bucket" where
  "entry_del k [] = []"
| "entry_del k ((k', v') # b) = (if k = k' then b else (k', v') # entry_del k b)"

definition Put :: "string \<Rightarrow> 'v \<Rightarrow> 'v bucket \<Rightarrow> (store_error, 'v bucket) result" where
  "Put k v b = (if k = [] then Inl KeyRequired
     else if int (length k) > MaxKeySize then Inl KeyTooLarge
     else Inr (entry_put k v b))"

text \<open>A cursor that seeks a prefix and goes on while the key has it.\<close>

definition scan_prefix :: "string \<Rightarrow> 'v bucket \<Rightarrow> 'v list" where
  "scan_prefix p b = map snd (takeWhile (\<lambda>e. prefix p (fst e)) (dropWhile (\<lambda>e. fst e < p) b))"

section \<open>The key-value store\<close>

record 'v kvdb =
  kv_open :: bool
  buckets :: "(string, 'v bucket) gomap"

fun create_buckets :: "string list \<Rightarrow> (string, 'v bucket) gomap \<Rightarrow> (store_error, (string, 'v bucket) gomap) result" where
  "create_buckets [] m = Inr m"
| "create_buckets (n # ns) m =
     (if n = [] then Inl BucketNameRequired
      else create_buckets ns (if map_of m n = None then AList.update n [] m else m))"

definition kv_New :: "string list \<Rightarrow> (store_error, 'v kvdb) result" where
  "kv_New names = (case create_buckets names [] of
     Inl e \<Rightarrow> Inl e
   | Inr m \<Rightarrow> Inr \<lparr>kv_open = True, buckets = m\<rparr>)"

definition kv_Close :: "'v kvdb \<Rightarrow> 'v kvdb" where
  "kv_Close d = d \<lparr>kv_open := False\<rparr>"

definition kv_Set :: "string \<Rightarrow> string \<Rightarrow> 'v \<Rightarrow> 'v kvdb \<Rightarrow> (store_error, 'v kvdb) result" where
  "kv_Set bucket key v d =
     (if \<not> kv_open d then Inl NotOpen
      else if bucket = [] then Inl BucketNameRequired
      else case Put key v (case map_of (buckets d) bucket of Some b \<Rightarrow> b | None \<Rightarrow> []) of
        Inl e \<Rightarrow> Inl e
      | Inr b \<Rightarrow> Inr (d \<lparr>buckets := AList.update bucket b (buckets d)\<rparr>))"

definition kv_Get :: "string \<Rightarrow> string \<Rightarrow> 'v kvdb \<Rightarrow> (store_error, 'v) result" where
  "kv_Get bucket key d =
     (if \<not> kv_open d then Inl NotOpen
      else case map_of (buckets d) bucket of
        None \<Rightarrow> Inl (BucketMissing bucket)
      | Some b \<Rightarrow> (case map_of b key of None \<Rightarrow> Inl (KeyMissing key) | Some v \<Rightarrow> Inr v))"

definition kv_Delete :: "string \<Rightarrow> string \<Rightarrow> 'v kvdb \<Rightarrow> (store_error, 'v kvdb) result" where
  "kv_Delete bucket key d =
     (if \<not> kv_open d then Inl NotOpen
      else case map_of (buckets d) bucket of
        None \<Rightarrow> Inl (BucketMissing bucket)
      | Some b \<Rightarrow> Inr (d \<lparr>buckets := AList.update bucket (entry_del key b) (buckets d)\<rparr>))"

definition kv_Keys :: "string \<Rightarrow> 'v kvdb \<Rightarrow> (store_error, string list) result" where
  "kv_Keys bucket d =
     (if \<not> kv_open d then Inl NotOpen
      else case map_of (buckets d) bucket of None \<Rightarrow> Inr [] | Some b \<Rightarrow> Inr (map fst b))"

section \<open>The graph store\<close>

record Node =
  n_id :: string
  n_type :: string

record Edge =
  e_from :: string
  e_to :: string
  e_kind :: string
  e_weight :: int

record Path =
  p_from :: string
  p_to :: string
  p_kind :: string
  p_nodes :: "string list"
  p_cost :: int
  p_timestamp :: int
  p_ttl :: int

record graph =
  g_open :: bool
  g_nodes :: "Node bucket"
  g_edges :: "Edge bucket"
  g_paths :: "Path bucket"

definition graph_New :: graph where
  "graph_New = \<lparr>g_open = True, g_nodes = [], g_edges = [], g_paths = []\<rparr>"

definition graph_Close :: "graph \<Rightarrow> graph" where
  "graph_Close g = g \<lparr>g_open := False\<rparr>"

definition AddNode :: "Node \<Rightarrow> graph \<Rightarrow> (store_error, graph) result" where
  "AddNode n g =
     (if \<not> g_open g then Inl NotOpen
      else case Put (n_id n) n (g_nodes g) of
        Inl e \<Rightarrow> Inl e | Inr b \<Rightarrow> Inr (g \<lparr>g_nodes := b\<rparr>))"

definition triple_key :: "string \<Rightarrow> string \<Rightarrow> string \<Rightarrow> string" where
  "triple_key from kind to = from @ ''|'' @ kind @ ''|'' @ to"

definition AddEdge :: "Edge \<Rightarrow> graph \<Rightarrow> (store_error, graph) result" where
  "AddEdge e g =
     (if \<not> g_open g then Inl NotOpen
      else case Put (triple_key (e_from e) (e_kind e) (e_to e)) e (g_edges g) of
        Inl err \<Rightarrow> Inl err | Inr b \<Rightarrow> Inr (g \<lparr>g_edges := b\<rparr>))"

definition Neighbors :: "string \<Rightarrow> string \<Rightarrow> graph \<Rightarrow> (store_error, Edge list) result" where
  "Neighbors i kind g =
     (if \<not> g_open g then Inl NotOpen
      else Inr (scan_prefix (i @ ''|'' @ kind @ ''|'') (g_edges g)))"

section \<open>The hybrid store\<close>

record 'v hybrid =
  h_kv :: "'v kvdb"
  h_graph :: graph

datatype Mode = KV | Graph | Hybrid

datatype 'v store = KVStore "'v kvdb" | GraphStore graph | HybridStore "'v hybrid"

definition hybrid_New :: "(store_error, 'v hybrid) result" where
  "hybrid_New = (case kv_New [''default'', ''runtime''] of
     Inl e \<Rightarrow> Inl e | Inr kv \<Rightarrow> Inr \<lparr>h_kv = kv, h_graph = graph_New\<rparr>)"

definition mode_of :: "string \<Rightarrow> Mode option" where
  "mode_of m = (if m = ''kv'' then Some KV else if m = ''graph'' then Some Graph
     else if m = ''hybrid'' then Some Hybrid else None)"

definition Open :: "string \<Rightarrow> (store_error, 'v store) result" where
  "Open mode = (case mode_of mode of
     Some KV \<Rightarrow> (case kv_New [''default''] of Inl e \<Rightarrow> Inl e | Inr d \<Rightarrow> Inr (KVStore d))
   | Some Graph \<Rightarrow> Inr (GraphStore graph_New)
   | Some Hybrid \<Rightarrow> (case hybrid_New of Inl e \<Rightarrow> Inl e | Inr h \<Rightarrow> Inr (HybridStore h))
   | None \<Rightarrow> Inl (UnknownMode mode))"

definition hybrid_Close :: "'v hybrid \<Rightarrow> 'v hybrid" where
  "hybrid_Close h = \<lparr>h_kv = kv_Close (h_kv h), h_graph = graph_Close (h_graph h)\<rparr>"

text \<open>The operations of the hybrid store call those of its two parts.\<close>

definition hybrid_Set :: "string \<Rightarrow> string \<Rightarrow> 'v \<Rightarrow> 'v hybrid \<Rightarrow> (store_error, 'v hybrid) result" where
  "hybrid_Set bucket key v h = bind_res (kv_Set bucket key v (h_kv h)) (\<lambda>d. Inr (h \<lparr>h_kv := d\<rparr>))"

definition hybrid_Get :: "string \<Rightarrow> string \<Rightarrow> 'v hybrid \<Rightarrow> (store_error, 'v) result" where
  "hybrid_Get bucket key h = kv_Get bucket key (h_kv h)"

definition hybrid_Delete :: "string \<Rightarrow> string \<Rightarrow> 'v hybrid \<Rightarrow> (store_error, 'v hybrid) result" where
  "hybrid_Delete bucket key h = bind_res (kv_Delete bucket key (h_kv h)) (\<lambda>d. Inr (h \<lparr>h_kv := d\<rparr>))"

definition hybrid_Keys :: "string \<Rightarrow> 'v hybrid \<Rightarrow> (store_error, string list) result" where
  "hybrid_Keys bucket h = kv_Keys bucket (h_kv h)"

definition hybrid_AddNode :: "Node \<Rightarrow> 'v hybrid \<Rightarrow> (store_error, 'v hybrid) result" where
  "hybrid_AddNode n h = bind_res (AddNode n (h_graph h)) (\<lambda>g. Inr (h \<lparr>h_graph := g\<rparr>))"

definition hybrid_AddEdge :: "Edge \<Rightarrow> 'v hybrid \<Rightarrow> (store_error, 'v hybrid) result" where
  "hybrid_AddEdge e h = bind_res (AddEdge e (h_graph h)) (\<lambda>g. Inr (h \<lparr>h_graph := g\<rparr>))"

definition hybrid_Neighbors :: "string \<Rightarrow> string \<Rightarrow> 'v hybrid \<Rightarrow> (store_error, Edge list) result" where
  "hybrid_Neighbors i kind h = Neighbors i kind (h_graph h)"

section \<open>The priority queue\<close>

record Item =
  it_node :: string
  it_cost :: int
  it_path :: "string list"
  it_priority :: int

type_synonym pq = "Item list"

definition Less :: "pq \<Rightarrow> nat \<Rightarrow> nat \<Rightarrow> bool" where
  "Less h i j \<longleftrightarrow> it_priority (h ! i) < it_priority (h ! j)"

definition Swap :: "nat \<Rightarrow> nat \<Rightarrow> pq \<Rightarrow> pq" where
  "Swap i j h = h[i := h ! j, j := h ! i]"

text \<open>\<^verbatim>\<open>up\<close> and \<^verbatim>\<open>down\<close> of \<^verbatim>\<open>container/heap\<close>; the parent of 0 is 0.\<close>

fun heap_up :: "nat \<Rightarrow> pq \<Rightarrow> pq" where
  "heap_up j h = (let i = (j - 1) div 2 in
     if i = j \<or> \<not> Less h j i then h else heap_up i (Swap i j h))"

declare heap_up.simps [simp del]

function heap_down :: "nat \<Rightarrow> nat \<Rightarrow> pq \<Rightarrow> pq" where
  "heap_down i n h = (let j1 = 2 * i + 1 in
     if j1 \<ge> n then h
     else let j = (if j1 + 1 < n \<and> Less h (j1 + 1) j1 then j1 + 1 else j1) in
       if \<not> Less h j i then h else heap_down j n (Swap i j h))"
  by pat_completeness auto
termination
  by (relation "measure (\<lambda>(i, n, h). n - i)") (auto simp: Let_def split: if_splits)

declare heap_down.simps [simp del]

definition heap_Push :: "Item \<Rightarrow> pq \<Rightarrow> pq" where
  "heap_Push x h = heap_up (length h) (h @ [x])"

definition heap_Pop :: "pq \<Rightarrow> Item \<times> pq" where
  "heap_Pop h = (let n = length h - 1; h' = heap_down 0 n (Swap 0 n h) in (last h', butlast h'))"

section \<open>The heap\<close>

text \<open>\<open>pr h k\<close> is the priority at index \<open>k\<close>; a heap has no index below the priority of its
  parent.\<close>

abbreviation pr :: "pq \<Rightarrow> nat \<Rightarrow> int" where "pr h k \<equiv> it_priority (h ! k)"

abbreviation parent :: "nat \<Rightarrow> nat" where "parent k \<equiv> (k - 1) div 2"

definition heap_upto :: "nat \<Rightarrow> pq \<Rightarrow> bool" where
  "heap_upto n h \<longleftrightarrow> (\<forall>k. 0 < k \<longrightarrow> k < n \<longrightarrow> pr h (parent k) \<le> pr h k)"

lemma parent_less: "0 < k \<Longrightarrow> parent k < k"
  by simp

lemma Swap_length [simp]: "length (Swap i j h) = length h"
  by (simp add: Swap_def)

lemma Swap_mset [simp]: "i < length h \<Longrightarrow> j < length h \<Longrightarrow> mset (Swap i j h) = mset h"
  by (simp add: Swap_def mset_swap)

lemma Swap_nth: "i < length h \<Longrightarrow> j < length h \<Longrightarrow> k < length h \<Longrightarrow>
    Swap i j h ! k = (if k = i then h ! j else if k = j then h ! i else h ! k)"
  by (auto simp: Swap_def nth_list_update)

lemma up_spec:
  assumes "j < length h"
    and "\<forall>k. 0 < k \<longrightarrow> k < length h \<longrightarrow> k \<noteq> j \<longrightarrow> pr h (parent k) \<le> pr h k"
    and "\<forall>k. 0 < k \<longrightarrow> k < length h \<longrightarrow> parent k = j \<longrightarrow> 0 < j \<longrightarrow> pr h (parent j) \<le> pr h k"
  shows "heap_upto (length h) (heap_up j h) \<and> mset (heap_up j h) = mset h \<and> length (heap_up j h) = length h"
  using assms
proof (induction j h rule: heap_up.induct)
  case (1 j h)
  let ?i = "parent j"
  show ?case
  proof (cases "?i = j \<or> \<not> Less h j ?i")
    case True
    have "0 < k \<Longrightarrow> k < length h \<Longrightarrow> pr h (parent k) \<le> pr h k" for k
      using True 1 by (cases "k = j") (auto simp: Less_def not_less)
    with True show ?thesis by (simp add: heap_up.simps [of j] heap_upto_def)
  next
    case False
    then have j: "0 < j" "?i < j" and less: "pr h j < pr h ?i" by (auto simp: Less_def)
    let ?h = "Swap ?i j h"
    have P: "pr ?h k = (if k = ?i then pr h j else if k = j then pr h ?i else pr h k)" if "k < length h" for k
      using that 1(2) j by (simp add: Swap_nth)
    have a: "pr ?h (parent k) \<le> pr ?h k" if k: "0 < k" "k < length h" "k \<noteq> ?i" for k
    proof -
      have old: "k \<noteq> j \<Longrightarrow> pr h (parent k) \<le> pr h k" using 1(3) k by blast
      have "parent k < length h" using k by simp
      note Pp = P [OF this] and Pk = P [OF k(2)]
      consider "k = j" | "k \<noteq> j" "parent k = j" | "k \<noteq> j" "parent k = ?i" "parent k \<noteq> j"
        | "k \<noteq> j" "parent k \<noteq> ?i" "parent k \<noteq> j" by blast
      then show ?thesis
      proof cases
        case 1 then show ?thesis using Pp Pk less k j by auto
      next
        case 2
        then have "pr h ?i \<le> pr h k" using "1.prems"(3) k j by blast
        then show ?thesis using Pp Pk 2 k j by auto
      next
        case 3 then show ?thesis using Pp Pk old less k by auto
      next
        case 4 then show ?thesis using Pp Pk old k by auto
      qed
    qed
    have b: "pr ?h (parent ?i) \<le> pr ?h k"
      if k: "0 < k" "k < length h" "parent k = ?i" "0 < ?i" for k
    proof -
      have i: "?i < length h" "parent ?i < length h" using j 1(2) by simp_all
      have pi: "pr h (parent ?i) \<le> pr h ?i" using 1(3) i j k(4) by auto
      have "parent ?i \<noteq> ?i" "parent ?i \<noteq> j"
        using parent_less [OF k(4)] j by linarith+
      then have e: "pr ?h (parent ?i) = pr h (parent ?i)" using P [OF i(2)] by simp
      show ?thesis
      proof (cases "k = j")
        case True
        with j(2) have "k \<noteq> ?i" by simp
        then have "pr ?h k = pr h ?i" unfolding P [OF k(2)] using True by (simp only: if_True if_False refl)
        with e pi show ?thesis by linarith
      next
        case False
        then have "pr h ?i \<le> pr h k" using 1(3) k by metis
        moreover have "k \<noteq> ?i" using parent_less [OF k(1)] k(3) by linarith
        then have "pr ?h k = pr h k" unfolding P [OF k(2)] using False by (simp only: if_False)
        ultimately show ?thesis using e pi by linarith
      qed
    qed
    have "heap_upto (length ?h) (heap_up ?i ?h) \<and> mset (heap_up ?i ?h) = mset ?h \<and> length (heap_up ?i ?h) = length ?h"
      using False j 1(2) a b by (intro "1.IH") auto
    moreover have "heap_up j h = heap_up ?i ?h" using False by (simp add: heap_up.simps [of j] Let_def)
    ultimately show ?thesis using j 1(2) by simp
  qed
qed

lemma children: "0 < k \<Longrightarrow> parent k = i \<longleftrightarrow> k = 2 * i + 1 \<or> k = 2 * i + 2"
  by (cases k) (auto; presburger)+

lemma down_spec:
  assumes "i < n" "n \<le> length h"
    and "\<forall>k. 0 < k \<longrightarrow> k < n \<longrightarrow> parent k \<noteq> i \<longrightarrow> pr h (parent k) \<le> pr h k"
    and "\<forall>k. 0 < k \<longrightarrow> k < n \<longrightarrow> parent k = i \<longrightarrow> 0 < i \<longrightarrow> pr h (parent i) \<le> pr h k"
  shows "heap_upto n (heap_down i n h) \<and> mset (heap_down i n h) = mset h \<and> length (heap_down i n h) = length h
    \<and> (\<forall>k. n \<le> k \<longrightarrow> k < length h \<longrightarrow> heap_down i n h ! k = h ! k)"
  using assms
proof (induction i n h rule: heap_down.induct)
  case (1 i n h)
  define j where "j = (if 2 * i + 2 < n \<and> Less h (2 * i + 2) (2 * i + 1) then 2 * i + 2 else 2 * i + 1)"
  have D: "heap_down i n h = (if 2 * i + 1 \<ge> n \<or> \<not> Less h j i then h else heap_down j n (Swap i j h))"
    by (subst heap_down.simps) (simp add: Let_def j_def)
  have smallest: "pr h j \<le> pr h k" if "0 < k" "k < n" "parent k = i" for k
    using that children [of k i] by (auto simp: j_def Less_def)
  show ?case
  proof (cases "2 * i + 1 \<ge> n \<or> \<not> Less h j i")
    case True
    have "pr h (parent k) \<le> pr h k" if k: "0 < k" "k < n" for k
    proof (cases "parent k = i")
      case p: True
      then have "\<not> 2 * i + 1 \<ge> n" using children [OF k(1), of i] k by linarith
      with True have "pr h i \<le> pr h j" by (auto simp: Less_def)
      with smallest [OF k p] p show ?thesis by simp
    qed (use 1(4) k in blast)
    with True D show ?thesis by (simp add: heap_upto_def)
  next
    case False
    let ?h = "Swap i j h"
    have less: "pr h j < pr h i" using False by (simp add: Less_def)
    have j: "0 < j" "i < j" "j < n" "parent j = i" using False by (auto simp: j_def)
    have P: "pr ?h k = (if k = i then pr h j else if k = j then pr h i else pr h k)" if "k < n" for k
      using that 1(2, 3) j by (simp add: Swap_nth)
    have a: "pr ?h (parent k) \<le> pr ?h k" if k: "0 < k" "k < n" "parent k \<noteq> j" for k
    proof -
      have "parent k < n" using k by simp
      note Pp = P [OF this] and Pk = P [OF k(2)]
      show ?thesis
      proof (cases "parent k = i")
        case True
        then have "k \<noteq> i" using parent_less [OF k(1)] by auto
        then show ?thesis using True Pp Pk less smallest [OF k(1, 2) True] by auto
      next
        case False
        then have "pr h (parent k) \<le> pr h k" using 1(4) k by blast
        moreover have "k = i \<Longrightarrow> pr h (parent k) \<le> pr h j" using 1(5) j k by blast
        ultimately show ?thesis using False k(3) Pp Pk j(4) by auto
      qed
    qed
    have b: "pr ?h (parent j) \<le> pr ?h k" if k: "0 < k" "k < n" "parent k = j" for k
    proof -
      have "k \<noteq> i" "k \<noteq> j" using parent_less [OF k(1)] j k by auto
      moreover have "pr h (parent k) \<le> pr h k" using 1(4) k j(2) by auto
      ultimately show ?thesis using P [OF k(2)] P [of i] j k(3) by auto
    qed
    have "heap_upto n (heap_down j n ?h) \<and> mset (heap_down j n ?h) = mset ?h \<and> length (heap_down j n ?h) = length ?h
      \<and> (\<forall>k. n \<le> k \<longrightarrow> k < length ?h \<longrightarrow> heap_down j n ?h ! k = ?h ! k)"
      using False j 1(3) a b by (intro "1.IH" [OF refl]) (auto simp: j_def)
    moreover have "?h ! k = h ! k" if "n \<le> k" "k < length h" for k
      using that j 1(2, 3) by (simp add: Swap_nth)
    ultimately show ?thesis using False D j 1(2, 3) by simp
  qed
qed

lemma heap_Push_spec:
  assumes "heap_upto (length h) h"
  shows "heap_upto (length (heap_Push x h)) (heap_Push x h)" "mset (heap_Push x h) = add_mset x (mset h)"
proof -
  have "heap_upto (length (h @ [x])) (heap_up (length h) (h @ [x])) \<and>
      mset (heap_up (length h) (h @ [x])) = mset (h @ [x]) \<and>
      length (heap_up (length h) (h @ [x])) = length (h @ [x])"
  proof (rule up_spec)
    show "\<forall>k. 0 < k \<longrightarrow> k < length (h @ [x]) \<longrightarrow> k \<noteq> length h \<longrightarrow>
        pr (h @ [x]) (parent k) \<le> pr (h @ [x]) k"
      using assms by (auto simp: heap_upto_def nth_append)
    show "\<forall>k. 0 < k \<longrightarrow> k < length (h @ [x]) \<longrightarrow> parent k = length h \<longrightarrow> 0 < length h \<longrightarrow>
        pr (h @ [x]) (parent (length h)) \<le> pr (h @ [x]) k"
      by auto
  qed simp
  then show "heap_upto (length (heap_Push x h)) (heap_Push x h)"
    "mset (heap_Push x h) = add_mset x (mset h)"
    by (simp_all add: heap_Push_def)
qed

lemma heap_root_least:
  assumes "heap_upto n h" "k < n"
  shows "pr h 0 \<le> pr h k"
  using assms(2)
proof (induction k rule: less_induct)
  case (less k)
  show ?case
  proof (cases "k = 0")
    case False
    then have "pr h 0 \<le> pr h (parent k)" using less by simp
    also have "\<dots> \<le> pr h k" using assms(1) False less.prems by (simp add: heap_upto_def)
    finally show ?thesis .
  qed simp
qed

lemma heap_Pop_spec:
  assumes "heap_upto (length h) h" "h \<noteq> []" "heap_Pop h = (x, h')"
  shows "heap_upto (length h') h'" "mset h = add_mset x (mset h')"
    "\<And>y. y \<in># mset h \<Longrightarrow> it_priority x \<le> it_priority y"
proof -
  define n where "n = length h - 1"
  define h1 where "h1 = Swap 0 n h"
  define h2 where "h2 = heap_down 0 n h1"
  have n: "n < length h" "length h = Suc n" using assms(2) by (auto simp: n_def)
  have h1: "mset h1 = mset h" "length h1 = length h" "h1 ! n = h ! 0"
    using n by (simp_all add: h1_def Swap_nth)
  have D: "heap_upto n h2 \<and> mset h2 = mset h1 \<and> length h2 = length h1 \<and>
      (\<forall>k. n \<le> k \<longrightarrow> k < length h1 \<longrightarrow> h2 ! k = h1 ! k)"
  proof (cases "n = 0")
    case True
    then have "h2 = h1" unfolding h2_def by (subst heap_down.simps) simp
    with True show ?thesis by (simp add: heap_upto_def)
  next
    case False
    have "pr h1 (parent k) \<le> pr h1 k" if k: "0 < k" "k < n" "parent k \<noteq> 0" for k
    proof -
      have *: "parent k < n" "parent k < length h" "k < length h" "0 < length h"
        using k n parent_less [OF k(1)] by linarith+
      then have "h1 ! k = h ! k" "h1 ! parent k = h ! parent k"
        using k(1, 2, 3) n by (simp_all add: h1_def Swap_nth del: One_nat_def)
      moreover have "pr h (parent k) \<le> pr h k" using assms(1) k(1) *(3) by (simp add: heap_upto_def)
      ultimately show ?thesis by simp
    qed
    note kids = this
    show ?thesis unfolding h2_def
    proof (rule down_spec)
      show "0 < n" "n \<le> length h1" using False h1 n by simp_all
      show "\<forall>k. 0 < k \<longrightarrow> k < n \<longrightarrow> parent k \<noteq> 0 \<longrightarrow> pr h1 (parent k) \<le> pr h1 k"
        using kids by blast
      show "\<forall>k. 0 < k \<longrightarrow> k < n \<longrightarrow> parent k = 0 \<longrightarrow> 0 < (0 :: nat) \<longrightarrow> pr h1 (parent 0) \<le> pr h1 k"
        by (simp only: less_irrefl simp_thms)
    qed
  qed
  have P: "x = last h2" "h' = butlast h2"
    using assms(3) by (simp_all add: heap_Pop_def Let_def h2_def h1_def n_def)
  have len2: "length h2 = Suc n" using D h1(2) n(2) by metis
  then have ne: "h2 \<noteq> []" by (metis list.size(3) nat.simps(3))
  from D h1(2) n(1) have "h2 ! n = h1 ! n" by (metis order.refl)
  then have x: "x = h ! 0" using ne len2 h1(3) P(1) by (simp add: last_conv_nth)
  have h2: "h2 = h' @ [x]" using ne P by simp
  have len: "length h' = n" using len2 unfolding h2 by simp
  show "heap_upto (length h') h'" unfolding heap_upto_def
  proof (intro allI impI)
    fix k assume k: "0 < k" "k < length h'"
    have "parent k < length h'" using parent_less [OF k(1)] k(2) by linarith
    moreover have "pr h2 (parent k) \<le> pr h2 k" using D k len by (metis heap_upto_def)
    ultimately show "pr h' (parent k) \<le> pr h' k" using k(2) unfolding h2 by (simp only: nth_append if_True)
  qed
  show m: "mset h = add_mset x (mset h')" using D h1(1) unfolding h2 by (metis mset.simps(2) mset_append union_mset_add_mset_right add.right_neutral mset.simps(1))
  show "it_priority x \<le> it_priority y" if y: "y \<in># mset h" for y
  proof -
    from y obtain k where "k < length h" "h ! k = y" by (auto simp: in_set_conv_nth)
    with heap_root_least [OF assms(1)] x show ?thesis by blast
  qed
qed

lemma heap_Pop_length: "h \<noteq> [] \<Longrightarrow> heap_Pop h = (x, h') \<Longrightarrow> length h' < length h"
proof -
  assume "h \<noteq> []" and h: "heap_Pop h = (x, h')"
  have "length (heap_down i n g) = length g" for i n g
    by (induction i n g rule: heap_down.induct) (subst heap_down.simps, simp add: Let_def)
  with h have "length h' = length h - 1" by (auto simp: heap_Pop_def Let_def)
  with \<open>h \<noteq> []\<close> show ?thesis by (cases h) auto
qed

text \<open>What a search needs of its queue: a multiset of items from which the least is taken.\<close>

locale priority_queue =
  fixes push :: "'i \<Rightarrow> 'q \<Rightarrow> 'q" and pop :: "'q \<Rightarrow> 'i \<times> 'q" and items :: "'q \<Rightarrow> 'i multiset"
    and prio :: "'i \<Rightarrow> int" and qok :: "'q \<Rightarrow> bool"
  assumes push_ok: "qok h \<Longrightarrow> qok (push x h)"
    and push_items: "qok h \<Longrightarrow> items (push x h) = add_mset x (items h)"
    and pop_ok: "qok h \<Longrightarrow> items h \<noteq> {#} \<Longrightarrow> pop h = (x, h') \<Longrightarrow> qok h'"
    and pop_items: "qok h \<Longrightarrow> items h \<noteq> {#} \<Longrightarrow> pop h = (x, h') \<Longrightarrow> items h = add_mset x (items h')"
    and pop_least: "qok h \<Longrightarrow> items h \<noteq> {#} \<Longrightarrow> pop h = (x, h') \<Longrightarrow> y \<in># items h \<Longrightarrow> prio x \<le> prio y"
begin

lemma push_all:
  "qok h \<Longrightarrow> qok (fold push xs h) \<and> items (fold push xs h) = mset xs + items h"
  by (induction xs arbitrary: h) (simp_all add: push_ok push_items)

lemma pop_partition:
  assumes "qok h" "items h \<noteq> {#}" "pop h = (x, h')"
  shows "x \<in># items h" "set_mset (items h) = insert x (set_mset (items h'))"
    "\<forall>y \<in># items h'. prio x \<le> prio y"
  using pop_items [OF assms] pop_least [OF assms] by auto

end

interpretation heap: priority_queue heap_Push heap_Pop mset it_priority "\<lambda>h. heap_upto (length h) h"
  by unfold_locales (use heap_Push_spec heap_Pop_spec in \<open>auto\<close>)

section \<open>Shortest paths\<close>

text \<open>Go's \<^verbatim>\<open>int\<close> is 64 bits wide.\<close>

definition wrap_int :: "int \<Rightarrow> int" where
  "wrap_int x = (x + 2 ^ 63) mod 2 ^ 64 - 2 ^ 63"

lemma wrap_int_id: "- (2 ^ 63) \<le> x \<Longrightarrow> x < 2 ^ 63 \<Longrightarrow> wrap_int x = x"
  by (simp add: wrap_int_def)

definition successors :: "Edge list \<Rightarrow> string list \<Rightarrow> Item \<Rightarrow> Item list" where
  "successors ns visited cur = map (\<lambda>e. let c = wrap_int (it_cost cur + e_weight e) in
       \<lparr>it_node = e_to e, it_cost = c, it_path = it_path cur @ [e_to e], it_priority = c\<rparr>)
     (filter (\<lambda>e. e_to e \<notin> set visited) ns)"

text \<open>The loop ends: a popped node was visited before, and the queue shrinks, or is now visited,
  and only targets of stored edges ever enter the queue.\<close>

lemma Neighbors_subset: "Neighbors i kind g = Inr ns \<Longrightarrow> set ns \<subseteq> snd ` set (g_edges g)"
  by (auto simp: Neighbors_def scan_prefix_def split: if_splits
      dest!: set_takeWhileD set_dropWhileD)

lemma successors_nodes:
  "it_node ` set (successors ns visited cur) \<subseteq> e_to ` set ns"
  by (auto simp: successors_def Let_def)

lemma mset_Push_all: "mset (fold heap_Push xs h) = mset xs + mset h"
proof -
  have "mset (heap_up j h) = mset h" if "j < length h" for j h
    using that
  proof (induction j h rule: heap_up.induct)
    case (1 j h)
    show ?case
    proof (cases "parent j = j \<or> \<not> Less h j (parent j)")
      case True
      then show ?thesis by (subst heap_up.simps) simp
    next
      case False
      have "parent j < length h" using 1(2) by linarith
      with False 1 show ?thesis by (subst heap_up.simps) (simp add: Let_def)
    qed
  qed
  then have "mset (heap_Push x h) = add_mset x (mset h)" for x h by (simp add: heap_Push_def)
  then show ?thesis by (induction xs arbitrary: h) simp_all
qed

lemma mset_down: "n \<le> length h \<Longrightarrow> i < n \<or> n = 0 \<Longrightarrow> mset (heap_down i n h) = mset h"
proof (induction i n h rule: heap_down.induct)
  case (1 i n h)
  define j where "j = (if 2 * i + 1 + 1 < n \<and> Less h (2 * i + 1 + 1) (2 * i + 1) then 2 * i + 1 + 1 else 2 * i + 1)"
  have D: "heap_down i n h = (if 2 * i + 1 \<ge> n \<or> \<not> Less h j i then h else heap_down j n (Swap i j h))"
    by (subst heap_down.simps) (simp add: Let_def j_def)
  show ?case
  proof (cases "2 * i + 1 \<ge> n \<or> \<not> Less h j i")
    case True
    then show ?thesis by (simp only: D if_True)
  next
    case False
    then have j: "j < n" "i < n" unfolding j_def by (auto split: if_splits)
    have "mset (heap_down j n (Swap i j h)) = mset (Swap i j h)"
      using False j 1(2) unfolding j_def by (intro "1.IH" [OF refl]) (simp_all add: Let_def)
    with False j 1(2) D show ?thesis by simp
  qed
qed

lemma mset_Pop: "h \<noteq> [] \<Longrightarrow> heap_Pop h = (x, h') \<Longrightarrow> mset h = add_mset x (mset h')"
proof -
  assume h: "h \<noteq> []" and p: "heap_Pop h = (x, h')"
  define n where "n = length h - 1"
  define h2 where "h2 = heap_down 0 n (Swap 0 n h)"
  have n: "n < length h" using h by (simp add: n_def)
  then have m: "mset h2 = mset h" unfolding h2_def by (subst mset_down) (use h n in auto)
  with h have "h2 \<noteq> []" by (metis mset_zero_iff)
  moreover have "x = last h2" "h' = butlast h2"
    using p by (simp_all add: heap_Pop_def Let_def h2_def n_def)
  ultimately have "h2 = h' @ [x]" by simp
  with m show ?thesis by (metis mset.simps(2) mset_append union_mset_add_mset_right add.right_neutral mset.simps(1))
qed

definition unvisited :: "graph \<Rightarrow> pq \<Rightarrow> string list \<Rightarrow> string set" where
  "unvisited g h visited = (e_to ` snd ` set (g_edges g) \<union> it_node ` set h) - set visited"

lemma finite_unvisited [simp]: "finite (unvisited g h visited)"
  by (simp add: unvisited_def)

function sp_loop :: "graph \<Rightarrow> string \<Rightarrow> string \<Rightarrow> pq \<Rightarrow> string list \<Rightarrow> (store_error, string list \<times> int) result" where
  "sp_loop g kind goal h visited =
     (if h = [] then Inl NoPath
      else let (cur, h') = heap_Pop h in
        if it_node cur \<in> set visited then sp_loop g kind goal h' visited
        else if it_node cur = goal then Inr (it_path cur, it_cost cur)
        else case Neighbors (it_node cur) kind g of
            Inl e \<Rightarrow> Inl e
          | Inr ns \<Rightarrow> sp_loop g kind goal
              (fold heap_Push (successors ns (visited @ [it_node cur]) cur) h') (visited @ [it_node cur]))"
  by pat_completeness auto
termination
proof (relation "inv_image (less_than <*lex*> less_than)
    (\<lambda>(g, kind, goal, h, visited). (card (unvisited g h visited), length h))", goal_cases)
  case 1
  show ?case by auto
next
  case (2 g kind goal h visited p cur h')
  then have p: "heap_Pop h = (cur, h')" by simp
  from mset_Pop [OF 2(1) p] have s: "set h = insert (it_cur) (set h')" if "it_cur = cur" for it_cur
    using that by (metis set_mset_mset set_mset_add_mset_insert)
  have "unvisited g h' visited \<subseteq> unvisited g h visited" using s [OF refl] by (auto simp: unvisited_def)
  then have "card (unvisited g h' visited) \<le> card (unvisited g h visited)" by (simp add: card_mono)
  moreover have "length h' < length h" by (rule heap_Pop_length [OF 2(1) p])
  ultimately show ?case by auto
next
  case (3 g kind goal h visited p cur h' ns)
  then have p: "heap_Pop h = (cur, h')" by simp
  from mset_Pop [OF 3(1) p] have s: "set h = insert cur (set h')"
    by (metis set_mset_mset set_mset_add_mset_insert)
  let ?h = "fold heap_Push (successors ns (visited @ [it_node cur]) cur) h'"
  have "set ?h = set (successors ns (visited @ [it_node cur]) cur) \<union> set h'"
    by (metis mset_Push_all set_mset_mset set_mset_union)
  moreover have "it_node ` set (successors ns (visited @ [it_node cur]) cur) \<subseteq> e_to ` snd ` set (g_edges g)"
    using successors_nodes [of ns "visited @ [it_node cur]" cur] Neighbors_subset [OF 3(6)] by blast
  ultimately have "unvisited g ?h (visited @ [it_node cur]) \<subseteq> unvisited g h visited"
    using s unfolding unvisited_def by auto
  moreover have "it_node cur \<in> unvisited g h visited" using s 3(4) by (auto simp: unvisited_def)
  moreover have "it_node cur \<notin> unvisited g ?h (visited @ [it_node cur])" by (simp add: unvisited_def)
  ultimately have "card (unvisited g ?h (visited @ [it_node cur])) < card (unvisited g h visited)"
    by (intro psubset_card_mono) auto
  then show ?case by simp
qed

declare sp_loop.simps [simp del]

text \<open>A path found is stored with the time and the lifetime given; a failure to store it is
  ignored.\<close>

definition ShortestPath :: "string \<Rightarrow> string \<Rightarrow> string \<Rightarrow> int \<Rightarrow> int \<Rightarrow> graph
    \<Rightarrow> (store_error, string list \<times> int) result \<times> graph" where
  "ShortestPath start goal kind ttl now g =
     (let r = sp_loop g kind goal
          (heap_Push \<lparr>it_node = start, it_cost = 0, it_path = [start], it_priority = 0\<rparr> []) [] in
      (r, case r of
            Inl e \<Rightarrow> g
          | Inr (path, cost) \<Rightarrow>
              (if \<not> g_open g then g
               else case Put (triple_key start kind goal) \<lparr>p_from = start, p_to = goal, p_kind = kind,
                   p_nodes = path, p_cost = cost, p_timestamp = now, p_ttl = ttl\<rparr> (g_paths g) of
                 Inl e \<Rightarrow> g | Inr b \<Rightarrow> g \<lparr>g_paths := b\<rparr>)))"

definition GetStoredPath :: "string \<Rightarrow> string \<Rightarrow> string \<Rightarrow> int \<Rightarrow> graph \<Rightarrow> (store_error, Path) result" where
  "GetStoredPath start goal kind now g =
     (if \<not> g_open g then Inl NotOpen
      else case map_of (g_paths g) (triple_key start kind goal) of
        None \<Rightarrow> Inl NoStoredPath
      | Some p \<Rightarrow> if now - p_timestamp p > p_ttl p then Inl PathExpired else Inr p)"

section \<open>The search finds the least route\<close>

definition edge :: "graph \<Rightarrow> string \<Rightarrow> string \<Rightarrow> int \<Rightarrow> string \<Rightarrow> bool" where
  "edge g kind x w y \<longleftrightarrow> (\<exists>ns e. Neighbors x kind g = Inr ns \<and> e \<in> set ns \<and> e_weight e = w \<and> e_to e = y)"

inductive route :: "graph \<Rightarrow> string \<Rightarrow> string \<Rightarrow> string list \<Rightarrow> int \<Rightarrow> bool" for g kind start where
  route_start: "route g kind start [start] 0"
| route_edge: "route g kind start p c \<Longrightarrow> edge g kind (last p) w y \<Longrightarrow> route g kind start (p @ [y]) (c + w)"

definition weights_upto :: "int \<Rightarrow> graph \<Rightarrow> bool" where
  "weights_upto W g \<longleftrightarrow> (\<forall>(k, e) \<in> set (g_edges g). 0 \<le> e_weight e \<and> e_weight e \<le> W)"

definition targets_of :: "graph \<Rightarrow> string set" where
  "targets_of g = e_to ` snd ` set (g_edges g)"

lemma edge_facts:
  assumes "edge g kind x w y"
  shows "y \<in> targets_of g" "weights_upto W g \<Longrightarrow> 0 \<le> w \<and> w \<le> W"
proof -
  from assms obtain ns e where "Neighbors x kind g = Inr ns" "e \<in> set ns" "e_weight e = w" "e_to e = y"
    by (auto simp: edge_def)
  then obtain k where "(k, e) \<in> set (g_edges g)" using Neighbors_subset by force
  then show "y \<in> targets_of g" "weights_upto W g \<Longrightarrow> 0 \<le> w \<and> w \<le> W"
    using \<open>e_weight e = w\<close> \<open>e_to e = y\<close> by (force simp: targets_of_def weights_upto_def)+
qed

lemma route_last: "route g kind start p c \<Longrightarrow> last p = start \<or> last p \<in> targets_of g"
  by (induction rule: route.induct) (auto dest: edge_facts(1))

definition item_ok :: "graph \<Rightarrow> string \<Rightarrow> string \<Rightarrow> int \<Rightarrow> Item \<Rightarrow> bool" where
  "item_ok g kind start m i \<longleftrightarrow> route g kind start (it_path i) (it_cost i) \<and>
     last (it_path i) = it_node i \<and> it_priority i = it_cost i \<and> 0 \<le> it_cost i \<and> it_cost i \<le> m"

definition search_ok :: "graph \<Rightarrow> string \<Rightarrow> string \<Rightarrow> int \<Rightarrow> pq \<Rightarrow> string list \<Rightarrow> bool" where
  "search_ok g kind start W h visited \<longleftrightarrow>
     heap_upto (length h) h \<and> distinct visited \<and> set visited \<subseteq> insert start (targets_of g) \<and>
     (\<forall>i \<in> set h. item_ok g kind start (int (length visited) * W) i) \<and>
     (start \<in> set visited \<or> (\<exists>i \<in> set h. it_node i = start \<and> it_cost i = 0)) \<and>
     (\<forall>p c w y. route g kind start p c \<longrightarrow> last p \<in> set visited \<longrightarrow> edge g kind (last p) w y \<longrightarrow>
        y \<notin> set visited \<longrightarrow> (\<exists>i \<in> set h. it_node i = y \<and> it_cost i \<le> c + w))"

text \<open>Whatever route leads out of the visited nodes, some item of the queue is no dearer.\<close>

lemma frontier:
  assumes "search_ok g kind start W h visited" "weights_upto W g"
    and "route g kind start p c" "last p \<notin> set visited"
  shows "\<exists>i \<in> set h. it_cost i \<le> c"
  using assms(3, 4)
proof (induction rule: route.induct)
  case route_start
  then obtain i where "i \<in> set h" "it_cost i = 0" using assms(1) unfolding search_ok_def by force
  then show ?case by (intro bexI [of _ i]) simp_all
next
  case (route_edge p c w y)
  show ?case
  proof (cases "last p \<in> set visited")
    case True
    then show ?thesis using assms(1) route_edge unfolding search_ok_def by (metis last_snoc)
  next
    case False
    with route_edge obtain i where "i \<in> set h" "it_cost i \<le> c" by blast
    moreover have "0 \<le> w" using edge_facts(2) [OF route_edge(2) assms(2)] by blast
    ultimately show ?thesis by force
  qed
qed

lemma visited_length:
  assumes "distinct visited" "set visited \<subseteq> insert start (targets_of g)"
  shows "length visited \<le> length (g_edges g) + 1"
proof -
  have "length visited = card (set visited)" using assms(1) by (simp add: distinct_card)
  also have "\<dots> \<le> card (insert start (targets_of g))"
    using assms(2) by (intro card_mono) (auto simp: targets_of_def)
  also have "\<dots> \<le> Suc (card (targets_of g))" by (rule card_insert_le_m1) auto
  also have "card (targets_of g) \<le> length (g_edges g)"
    unfolding targets_of_def image_image by (metis card_image_le card_length finite_set le_trans)
  finally show ?thesis by simp
qed

lemma search_pop_visited:
  assumes "search_ok g kind start W h visited" "h \<noteq> []" "heap_Pop h = (cur, h')" "it_node cur \<in> set visited"
  shows "search_ok g kind start W h' visited"
proof -
  have h: "heap_upto (length h) h" using assms(1) by (simp add: search_ok_def)
  have s: "set h = insert cur (set h')"
    using heap.pop_partition(2) [OF h _ assms(3)] assms(2) by simp
  have "heap_upto (length h') h'" by (rule heap_Pop_spec(1) [OF h assms(2, 3)])
  then show ?thesis using assms(1, 4) unfolding search_ok_def s by (metis insert_iff)
qed

lemma search_expand:
  assumes ok: "search_ok g kind start W h visited" and ne: "h \<noteq> []" and pop: "heap_Pop h = (cur, h')"
    and fresh: "it_node cur \<notin> set visited" and W: "weights_upto W g" "0 \<le> W"
    and small: "(int (length (g_edges g)) + 1) * W < 2 ^ 63"
    and ns: "Neighbors (it_node cur) kind g = Inr ns"
  defines "visited' \<equiv> visited @ [it_node cur]"
  shows "search_ok g kind start W (fold heap_Push (successors ns visited' cur) h') visited'"
proof -
  define u where "u = it_node cur"
  define H where "H = fold heap_Push (successors ns visited' cur) h'"
  have h: "heap_upto (length h) h" using ok by (simp add: search_ok_def)
  have s: "set h = insert cur (set h')"
    using heap.pop_partition(2) [OF h _ pop] ne by simp
  have h': "heap_upto (length h') h'" by (rule heap_Pop_spec(1) [OF h ne pop])
  have H: "heap_upto (length H) H" "set H = set (successors ns visited' cur) \<union> set h'"
    using heap.push_all [OF h', of "successors ns visited' cur"] mset_Push_all [of "successors ns visited' cur" h']
    unfolding H_def by (simp, metis set_mset_mset set_mset_union)
  have cur: "item_ok g kind start (int (length visited) * W) cur" using ok s by (auto simp: search_ok_def)
  then have "u \<in> insert start (targets_of g)" using route_last [of g kind start "it_path cur"]
    by (auto simp: item_ok_def u_def)
  then have V: "distinct visited'" "set visited' \<subseteq> insert start (targets_of g)"
    using ok fresh by (auto simp: search_ok_def visited'_def u_def)
  have len: "int (length visited') * W \<le> (int (length (g_edges g)) + 1) * W"
    using visited_length [OF V] W(2) by (intro mult_right_mono) auto
  have grow: "int (length visited) * W + W = int (length visited') * W"
    by (simp add: visited'_def algebra_simps)
  have succ: "it_cost i = it_cost cur + w \<and> item_ok g kind start (int (length visited') * W) i"
    if e: "e \<in> set ns" "e_weight e = w" and
      i: "i = \<lparr>it_node = e_to e, it_cost = wrap_int (it_cost cur + w), it_path = it_path cur @ [e_to e],
            it_priority = wrap_int (it_cost cur + w)\<rparr>" for i e w
  proof -
    have E: "edge g kind u w (e_to e)" using e ns by (auto simp: edge_def u_def)
    then have w: "0 \<le> w" "w \<le> W" using edge_facts(2) [OF E W(1)] by simp_all
    have b: "0 \<le> it_cost cur + w" "it_cost cur + w \<le> int (length visited') * W"
      using cur w grow by (simp_all add: item_ok_def)
    have "wrap_int (it_cost cur + w) = it_cost cur + w"
      using b len small by (intro wrap_int_id) linarith+
    then show ?thesis using b cur E unfolding i item_ok_def u_def
      by (auto intro: route.route_edge)
  qed
  have mono: "item_ok g kind start (int (length visited) * W) i \<Longrightarrow>
      item_ok g kind start (int (length visited') * W) i" for i
    using grow W(2) by (auto simp: item_ok_def)
  have items: "item_ok g kind start (int (length visited') * W) i" if "i \<in> set H" for i
  proof (cases "i \<in> set h'")
    case True
    then show ?thesis using ok s mono by (auto simp: search_ok_def)
  next
    case False
    with that H(2) show ?thesis using succ by (auto simp: successors_def Let_def)
  qed
  have start: "start \<in> set visited' \<or> (\<exists>i \<in> set H. it_node i = start \<and> it_cost i = 0)"
    using ok s H(2) unfolding search_ok_def visited'_def by auto
  have closed: "\<exists>i \<in> set H. it_node i = y \<and> it_cost i \<le> c + w"
    if r: "route g kind start p c" "last p \<in> set visited'" "edge g kind (last p) w y" "y \<notin> set visited'" for p c w y
  proof (cases "last p \<in> set visited")
    case True
    with ok r obtain i where i: "i \<in> set h" "it_node i = y" "it_cost i \<le> c + w"
      unfolding search_ok_def visited'_def by (metis Un_iff set_append)
    with r(4) s have "i \<in> set h'" by (auto simp: visited'_def)
    with i H(2) show ?thesis by auto
  next
    case False
    then have l: "last p = u" using r(2) by (auto simp: visited'_def u_def)
    from frontier [OF ok W(1) r(1) False] obtain i where "i \<in> set h" "it_cost i \<le> c" by blast
    moreover have "it_priority cur \<le> it_priority i" "it_priority i = it_cost i" "it_priority cur = it_cost cur"
      using heap_Pop_spec(3) [OF h ne pop] \<open>i \<in> set h\<close> ok cur
      by (auto simp: search_ok_def item_ok_def)
    ultimately have least: "it_cost cur \<le> c" by linarith
    from r(3) ns obtain e where e: "e \<in> set ns" "e_weight e = w" "e_to e = y"
      by (auto simp: edge_def l u_def)
    define j where "j = \<lparr>it_node = e_to e, it_cost = wrap_int (it_cost cur + w),
      it_path = it_path cur @ [e_to e], it_priority = wrap_int (it_cost cur + w)\<rparr>"
    have "j \<in> set H" using e r(4) H(2) by (auto simp: successors_def Let_def j_def)
    moreover have "it_cost j \<le> c + w" using succ [OF e(1, 2) j_def] least by linarith
    ultimately show ?thesis using e(3) by (intro bexI [of _ j]) (simp_all add: j_def)
  qed
  show ?thesis
    unfolding search_ok_def using H(1) V items start closed unfolding H_def by blast
qed

definition least_route :: "graph \<Rightarrow> string \<Rightarrow> string \<Rightarrow> string \<Rightarrow> string list \<Rightarrow> int \<Rightarrow> bool" where
  "least_route g kind start goal p c \<longleftrightarrow> route g kind start p c \<and> last p = goal \<and>
     (\<forall>p' c'. route g kind start p' c' \<longrightarrow> last p' = goal \<longrightarrow> c \<le> c')"

definition no_route :: "graph \<Rightarrow> string \<Rightarrow> string \<Rightarrow> string \<Rightarrow> bool" where
  "no_route g kind start goal \<longleftrightarrow> (\<forall>p c. route g kind start p c \<longrightarrow> last p \<noteq> goal)"

lemma sp_loop_spec:
  assumes "g_open g" "weights_upto W g" "0 \<le> W" "(int (length (g_edges g)) + 1) * W < 2 ^ 63"
    and "search_ok g kind start W h visited" "goal \<notin> set visited"
  shows "case sp_loop g kind goal h visited of
      Inl e \<Rightarrow> e = NoPath \<and> no_route g kind start goal
    | Inr (p, c) \<Rightarrow> least_route g kind start goal p c"
  using assms
proof (induction g kind goal h visited rule: sp_loop.induct)
  case (1 g kind goal h visited)
  have front: "\<exists>i \<in> set h. it_cost i \<le> c" if "route g kind start p c" "last p = goal" for p c
    using frontier [OF 1(7, 4)] that 1(8) by blast
  show ?case
  proof (cases "h = []")
    case True
    then show ?thesis using front by (subst sp_loop.simps) (auto simp: no_route_def)
  next
    case False
    obtain cur h' where pop: "heap_Pop h = (cur, h')" by fastforce
    have hh: "heap_upto (length h) h" using 1(7) by (simp add: search_ok_def)
    show ?thesis
    proof (cases "it_node cur \<in> set visited")
      case True
      then have "sp_loop g kind goal h visited = sp_loop g kind goal h' visited"
        using False pop by (subst sp_loop.simps) simp
      with 1(1) [OF False pop [symmetric] refl True 1(3-6)
          search_pop_visited [OF 1(7) False pop True] 1(8)] show ?thesis by simp
    next
      case fresh: False
      show ?thesis
      proof (cases "it_node cur = goal")
        case True
        then have eq: "sp_loop g kind goal h visited = Inr (it_path cur, it_cost cur)"
          using False pop fresh by (subst sp_loop.simps) simp
        have cur: "item_ok g kind start (int (length visited) * W) cur"
          using 1(7) heap.pop_partition(1) [OF hh _ pop] False by (auto simp: search_ok_def)
        have "it_cost cur \<le> c" if "route g kind start p c" "last p = goal" for p c
        proof -
          from front [OF that] obtain i where i: "i \<in> set h" "it_cost i \<le> c" by blast
          then have "it_priority cur \<le> it_priority i" "it_priority i = it_cost i"
            using heap_Pop_spec(3) [OF hh False pop] 1(7) by (auto simp: search_ok_def item_ok_def)
          with i cur show ?thesis by (simp add: item_ok_def)
        qed
        with cur True eq show ?thesis by (simp add: least_route_def item_ok_def)
      next
        case other: False
        obtain ns where ns: "Neighbors (it_node cur) kind g = Inr ns" using 1(3) by (simp add: Neighbors_def)
        let ?v = "visited @ [it_node cur]"
        have "sp_loop g kind goal h visited
            = sp_loop g kind goal (fold heap_Push (successors ns ?v cur) h') ?v"
          using False pop fresh other ns by (subst sp_loop.simps) simp
        moreover have "goal \<notin> set ?v" using 1(8) other by simp
        ultimately show ?thesis
          using 1(2) [OF False pop [symmetric] refl fresh other ns 1(3-6)
              search_expand [OF 1(7) False pop fresh 1(4-6) ns]] by simp
      qed
    qed
  qed
qed

lemma search_start:
  assumes "0 \<le> W"
  shows "search_ok g kind start W (heap_Push \<lparr>it_node = start, it_cost = 0, it_path = [start], it_priority = 0\<rparr> []) []"
proof -
  have e: "heap_Push i [] = [i]" for i by (simp add: heap_Push_def heap_up.simps [of 0])
  show ?thesis unfolding e search_ok_def
    by (simp add: heap_upto_def item_ok_def route.route_start)
qed

text \<open>C27: For non-negative weights that cannot overflow the 64-bit cost, \<^verbatim>\<open>ShortestPath\<close>
  returns a route of least cost along stored edges of the given kind, or fails exactly when
  there is none, and it ends. Until its lifetime has passed \<^verbatim>\<open>GetStoredPath\<close> returns just
  that path, and afterwards it fails; the bound on the key length is bbolt's.\<close>

theorem ShortestPath_least:
  assumes "g_open g" "weights_upto W g" "0 \<le> W" "(int (length (g_edges g)) + 1) * W < 2 ^ 63"
    and "ShortestPath start goal kind ttl now g = (r, g')"
    and "int (length (triple_key start kind goal)) \<le> MaxKeySize"
  shows "case r of
      Inl e \<Rightarrow> e = NoPath \<and> no_route g kind start goal \<and> g' = g
    | Inr (p, c) \<Rightarrow> least_route g kind start goal p c \<and>
        (\<forall>t. GetStoredPath start goal kind t g' =
          (if t - now > ttl then Inl PathExpired
           else Inr \<lparr>p_from = start, p_to = goal, p_kind = kind, p_nodes = p, p_cost = c,
             p_timestamp = now, p_ttl = ttl\<rparr>))"
proof -
  have put: "map_of (entry_put k v b) k = Some v" for k :: string and v :: Path and b
    by (induction k v b rule: entry_put.induct) auto
  have key: "triple_key start kind goal \<noteq> []" by (simp add: triple_key_def)
  have spec: "case r of Inl e \<Rightarrow> e = NoPath \<and> no_route g kind start goal
      | Inr (p, c) \<Rightarrow> least_route g kind start goal p c"
    using sp_loop_spec [OF assms(1-4) search_start [OF assms(3)], of goal] assms(5)
    by (auto simp: ShortestPath_def Let_def)
  show ?thesis
  proof (cases r)
    case (Inl e)
    with spec assms(5) show ?thesis by (auto simp: ShortestPath_def Let_def)
  next
    case (Inr pc)
    with spec assms(1, 5, 6) key show ?thesis
      by (auto simp: ShortestPath_def Let_def Put_def GetStoredPath_def put split: prod.splits)
  qed
qed

fun add_edges :: "Edge list \<Rightarrow> graph \<Rightarrow> graph" where
  "add_edges [] g = g"
| "add_edges (e # es) g = (case AddEdge e g of Inl _ \<Rightarrow> g | Inr g' \<Rightarrow> add_edges es g')"

abbreviation ex_graph :: graph where
  "ex_graph \<equiv> add_edges
     [\<lparr>e_from = ''a'', e_to = ''b'', e_kind = ''r'', e_weight = 1\<rparr>,
      \<lparr>e_from = ''b'', e_to = ''d'', e_kind = ''r'', e_weight = 1\<rparr>,
      \<lparr>e_from = ''a'', e_to = ''c'', e_kind = ''r'', e_weight = 2\<rparr>,
      \<lparr>e_from = ''c'', e_to = ''d'', e_kind = ''r'', e_weight = 3\<rparr>] graph_New"

lemma ex_graph_facts:
  "g_open ex_graph" "length (g_edges ex_graph) = 4" "weights_upto 3 ex_graph"
  "fst (ShortestPath ''a'' ''d'' ''r'' 60 100 ex_graph) = Inr ([''a'', ''b'', ''d''], 2)"
  by code_simp+

theorem ShortestPath_least_witness:
  "least_route ex_graph ''r'' ''a'' ''d'' [''a'', ''b'', ''d''] 2 \<and>
   GetStoredPath ''a'' ''d'' ''r'' 200 (snd (ShortestPath ''a'' ''d'' ''r'' 60 100 ex_graph)) = Inl PathExpired"
  using ShortestPath_least [OF ex_graph_facts(1, 3), of "''a''" "''d''" "''r''" 60 100
      "Inr ([''a'', ''b'', ''d''], 2)" "snd (ShortestPath ''a'' ''d'' ''r'' 60 100 ex_graph)"]
    ex_graph_facts(2, 4)
  by (simp add: prod_eq_iff triple_key_def MaxKeySize_def)

section \<open>Buckets are ordered maps\<close>

lemma prefix_interval: "p \<le> k \<Longrightarrow> k \<le> k' \<Longrightarrow> prefix p k' \<Longrightarrow> prefix (p :: string) k"
proof (induction p arbitrary: k k')
  case (Cons c p)
  then obtain t' where k': "k' = c # t'" "prefix p t'" by (cases k') auto
  obtain d t where k: "k = d # t" using Cons.prems(1) by (cases k) auto
  have "d = c" "p \<le> t" "t \<le> t'" using Cons.prems(1, 2) k' k by auto
  with Cons.IH [of t t'] k' k show ?case by simp
qed simp

lemma prefix_le: "prefix p k \<Longrightarrow> p \<le> (k :: string)"
proof (induction p arbitrary: k)
  case (Cons c p)
  then show ?case by (cases k) auto
qed simp

text \<open>What the stores use of a bucket, and what a prefix scan therefore sees.\<close>

locale ordered_bucket =
  fixes put :: "string \<Rightarrow> 'v \<Rightarrow> 'b \<Rightarrow> 'b" and del :: "string \<Rightarrow> 'b \<Rightarrow> 'b"
    and entries :: "'b \<Rightarrow> (string \<times> 'v) list" and empty_bucket :: 'b and valid :: "'b \<Rightarrow> bool"
  assumes empty: "valid empty_bucket" "entries empty_bucket = []"
    and put: "valid b \<Longrightarrow> valid (put k v b)" "valid b \<Longrightarrow> map_of (entries (put k v b)) = (map_of (entries b)) (k \<mapsto> v)"
    and del: "valid b \<Longrightarrow> valid (del k b)" "valid b \<Longrightarrow> map_of (entries (del k b)) = (map_of (entries b)) (k := None)"
    and ordered: "valid b \<Longrightarrow> sorted_wrt (<) (map fst (entries b))"
begin

lemma scan: "valid b \<Longrightarrow> scan_prefix p (entries b) = map snd (filter (\<lambda>e. prefix p (fst e)) (entries b))"
proof -
  assume b: "valid b"
  have "takeWhile (\<lambda>e. prefix p (fst e)) (dropWhile (\<lambda>e. fst e < p) xs) = filter (\<lambda>e. prefix p (fst e)) xs"
    if "sorted_wrt (<) (map fst xs)" for xs :: "(string \<times> 'v) list"
    using that
  proof (induction xs)
    case (Cons x xs)
    show ?case
    proof (cases "fst x < p")
      case True
      then have "\<not> prefix p (fst x)" using prefix_le by force
      with True Cons show ?thesis by simp
    next
      case False
      have drop: "dropWhile (\<lambda>e. fst e < p) xs = xs"
        using False Cons.prems by (cases xs) auto
      show ?thesis
      proof (cases "prefix p (fst x)")
        case True
        then show ?thesis using False Cons drop by simp
      next
        case notp: False
        have "\<not> prefix p (fst y)" if "y \<in> set xs" for y
          using prefix_interval [of p "fst x" "fst y"] False notp that Cons.prems by fastforce
        then have "filter (\<lambda>e. prefix p (fst e)) xs = []" by (simp add: filter_empty_conv)
        then show ?thesis using False notp by simp
      qed
    qed
  qed simp
  from this [OF ordered [OF b]] show ?thesis by (simp add: scan_prefix_def)
qed

lemma entries_iff: "valid b \<Longrightarrow> (k, v) \<in> set (entries b) \<longleftrightarrow> map_of (entries b) k = Some v"
proof -
  assume "valid b"
  then have "distinct (map fst (entries b))"
    using ordered strict_sorted_iff by blast
  then show ?thesis by simp
qed

end

definition bucket_ok :: "'v bucket \<Rightarrow> bool" where
  "bucket_ok b \<longleftrightarrow> sorted_wrt (<) (map fst b)"

lemma entry_put_keys: "fst ` set (entry_put k v b) = insert k (fst ` set b)"
  by (induction k v b rule: entry_put.induct) auto

lemma entry_put_ok: "bucket_ok b \<Longrightarrow> bucket_ok (entry_put k v b)"
proof (induction k v b rule: entry_put.induct)
  case (2 k v k' v' b)
  then show ?case
    using entry_put_keys [of k v b] by (auto simp: bucket_ok_def)
qed (simp add: bucket_ok_def)

lemma entry_put_map: "map_of (entry_put k v b) = (map_of b) (k \<mapsto> v)"
  by (induction k v b rule: entry_put.induct) auto

lemma entry_del_set: "set (entry_del k b) \<subseteq> set b"
  by (induction k b rule: entry_del.induct) auto

lemma entry_del_ok: "bucket_ok b \<Longrightarrow> bucket_ok (entry_del k b)"
  by (induction k b rule: entry_del.induct) (auto simp: bucket_ok_def dest!: entry_del_set [THEN subsetD])

lemma entry_del_map: "bucket_ok b \<Longrightarrow> map_of (entry_del k b) = (map_of b) (k := None)"
proof (induction k b rule: entry_del.induct)
  case (2 k k' v' b)
  have "k' \<notin> fst ` set b" using 2(2) by (auto simp: bucket_ok_def)
  with 2 show ?case by (auto simp: bucket_ok_def fun_eq_iff map_of_eq_None_iff)
qed simp

interpretation bbolt: ordered_bucket entry_put entry_del "\<lambda>b. b" "[]" bucket_ok
  by unfold_locales (auto simp: entry_put_ok entry_put_map entry_del_ok entry_del_map bucket_ok_def
      intro: entry_put_ok [unfolded bucket_ok_def] entry_del_ok [unfolded bucket_ok_def])

section \<open>The graph store is a labelled graph\<close>

text \<open>Every entry is filed under the key of its edge. A separator in a name would let one key
  stand for several edges, so the laws are for graphs without.\<close>

definition plain :: "string \<Rightarrow> bool" where
  "plain s \<longleftrightarrow> CHR ''|'' \<notin> set s"

definition edge_plain :: "Edge \<Rightarrow> bool" where
  "edge_plain e \<longleftrightarrow> plain (e_from e) \<and> plain (e_kind e)"

definition graph_ok :: "graph \<Rightarrow> bool" where
  "graph_ok g \<longleftrightarrow> bucket_ok (g_edges g) \<and>
     (\<forall>(k, e) \<in> set (g_edges g). k = triple_key (e_from e) (e_kind e) (e_to e) \<and> edge_plain e)"

text \<open>The abstract graph: at most one edge for each source, kind and target.\<close>

definition graph_abs :: "graph \<Rightarrow> string \<Rightarrow> string \<Rightarrow> string \<Rightarrow> int option" where
  "graph_abs g from kind to = map_option e_weight (map_of (g_edges g) (triple_key from kind to))"

lemma split_at_bar: "plain a \<Longrightarrow> plain b \<Longrightarrow> a @ CHR ''|'' # x = b @ CHR ''|'' # y \<longleftrightarrow> a = b \<and> x = y"
  by (induction a arbitrary: b; case_tac b) (auto simp: plain_def)

lemma triple_key_inj:
  "plain f \<Longrightarrow> plain k \<Longrightarrow> plain f' \<Longrightarrow> plain k' \<Longrightarrow>
   triple_key f k t = triple_key f' k' t' \<longleftrightarrow> f = f' \<and> k = k' \<and> t = t'"
  by (auto simp: triple_key_def split_at_bar)

lemma triple_key_prefix:
  "plain f \<Longrightarrow> plain k \<Longrightarrow> plain f' \<Longrightarrow> plain k' \<Longrightarrow>
   prefix (f @ ''|'' @ k @ ''|'') (triple_key f' k' t) \<longleftrightarrow> f = f' \<and> k = k'"
  by (auto simp: triple_key_def prefix_def split_at_bar)

lemma AddEdge_Inr:
  "AddEdge e g = Inr g' \<longleftrightarrow> g_open g \<and>
     int (length (triple_key (e_from e) (e_kind e) (e_to e))) \<le> MaxKeySize \<and>
     g' = g \<lparr>g_edges := entry_put (triple_key (e_from e) (e_kind e) (e_to e)) e (g_edges g)\<rparr>"
  by (auto simp: AddEdge_def Put_def triple_key_def)

lemma graph_ok_New [simp]: "graph_ok graph_New"
  by (simp add: graph_ok_def graph_New_def bucket_ok_def)

lemma entry_put_set: "set (entry_put k v b) \<subseteq> insert (k, v) (set b)"
  by (induction k v b rule: entry_put.induct) auto

lemma AddEdge_ok: "graph_ok g \<Longrightarrow> edge_plain e \<Longrightarrow> AddEdge e g = Inr g' \<Longrightarrow> graph_ok g'"
  unfolding AddEdge_Inr graph_ok_def
  using entry_put_set [of "triple_key (e_from e) (e_kind e) (e_to e)" e "g_edges g"]
  by (auto simp: entry_put_ok)

lemma graph_entry_iff:
  assumes "graph_ok g" "plain f" "plain k"
  shows "map_of (g_edges g) (triple_key f k t) = Some e \<longleftrightarrow>
    e \<in> snd ` set (g_edges g) \<and> e_from e = f \<and> e_kind e = k \<and> e_to e = t"
proof -
  have b: "bucket_ok (g_edges g)" using assms(1) by (simp add: graph_ok_def)
  show ?thesis
  proof
    assume "map_of (g_edges g) (triple_key f k t) = Some e"
    then have m: "(triple_key f k t, e) \<in> set (g_edges g)" by (rule map_of_SomeD)
    with assms(1) have "triple_key f k t = triple_key (e_from e) (e_kind e) (e_to e)" "edge_plain e"
      by (auto simp: graph_ok_def)
    with m assms(2, 3) show "e \<in> snd ` set (g_edges g) \<and> e_from e = f \<and> e_kind e = k \<and> e_to e = t"
      by (force simp: triple_key_inj edge_plain_def)
  next
    assume "e \<in> snd ` set (g_edges g) \<and> e_from e = f \<and> e_kind e = k \<and> e_to e = t"
    then obtain key where "(key, e) \<in> set (g_edges g)" "e_from e = f" "e_kind e = k" "e_to e = t" by auto
    with assms(1) have "(triple_key f k t, e) \<in> set (g_edges g)" by (auto simp: graph_ok_def)
    then show "map_of (g_edges g) (triple_key f k t) = Some e" using bbolt.entries_iff [OF b] by simp
  qed
qed

lemma Neighbors_set:
  assumes "graph_ok g" "g_open g" "plain i" "plain kind"
  obtains ns where "Neighbors i kind g = Inr ns" "sorted_wrt (<) (map e_to ns)"
    "set ns = {e \<in> snd ` set (g_edges g). e_from e = i \<and> e_kind e = kind}"
proof -
  have b: "bucket_ok (g_edges g)" using assms(1) by (simp add: graph_ok_def)
  let ?p = "i @ ''|'' @ kind @ ''|''"
  define es where "es = filter (\<lambda>e. prefix ?p (fst e)) (g_edges g)"
  have N: "Neighbors i kind g = Inr (map snd es)"
    using bbolt.scan [OF b, of ?p] assms(2) by (simp add: Neighbors_def es_def)
  have key: "fst x = triple_key (e_from (snd x)) (e_kind (snd x)) (e_to (snd x)) \<and> edge_plain (snd x)"
    if "x \<in> set (g_edges g)" for x
    using that assms(1) by (auto simp: graph_ok_def)
  have sel: "prefix ?p (fst x) \<longleftrightarrow> e_from (snd x) = i \<and> e_kind (snd x) = kind" if "x \<in> set (g_edges g)" for x
    using key [OF that] assms(3, 4) triple_key_prefix [of i kind "e_from (snd x)" "e_kind (snd x)" "e_to (snd x)"]
    by (auto simp: edge_plain_def)
  have "set (map snd es) = {e \<in> snd ` set (g_edges g). e_from e = i \<and> e_kind e = kind}"
    using sel by (auto simp: es_def)
  moreover have "sorted_wrt (<) (map e_to (map snd es))"
  proof -
    have mono: "i @ ''|'' @ kind @ ''|'' @ t < i @ ''|'' @ kind @ ''|'' @ t' \<Longrightarrow> t < t'" for t t'
    proof -
      have "a @ t < a @ t' \<Longrightarrow> t < t'" for a t t' :: string by (induction a) auto
      from this [of ?p t t'] show "i @ ''|'' @ kind @ ''|'' @ t < i @ ''|'' @ kind @ ''|'' @ t' \<Longrightarrow> t < t'"
        by simp
    qed
    have "sorted_wrt (\<lambda>x y. fst x < fst y) es"
      using b by (simp add: bucket_ok_def es_def sorted_wrt_map sorted_wrt_filter)
    then have "sorted_wrt (\<lambda>x y. e_to (snd x) < e_to (snd y)) es"
    proof (rule sorted_wrt_mono_rel [rotated])
      fix x y assume xy: "x \<in> set es" "y \<in> set es" "fst x < fst y"
      have "fst z = triple_key i kind (e_to (snd z))" if "z \<in> set es" for z
      proof -
        have z: "z \<in> set (g_edges g)" "prefix ?p (fst z)" using that by (simp_all add: es_def)
        with key [OF z(1)] sel [OF z(1)] show ?thesis by simp
      qed
      from this [OF xy(1)] this [OF xy(2)]
      have "fst x = triple_key i kind (e_to (snd x))" "fst y = triple_key i kind (e_to (snd y))" .
      with xy(3) mono show "e_to (snd x) < e_to (snd y)" by (simp add: triple_key_def)
    qed
    then show ?thesis by (simp add: sorted_wrt_map comp_def)
  qed
  ultimately show thesis using that N by blast
qed

text \<open>C28: The graph store refines a labelled graph: adding an edge updates the abstract graph at
  its source, kind and target and nowhere else, and \<^verbatim>\<open>Neighbors\<close> lists exactly the edges
  of the source and kind, each target once and in ascending order, by one ordered scan of the
  bucket.\<close>

theorem graph_store_refines:
  assumes "graph_ok g" "g_open g" "plain i" "plain kind"
  shows "(\<exists>ns. Neighbors i kind g = Inr ns \<and> sorted_wrt (<) (map e_to ns) \<and>
      (\<forall>to w. graph_abs g i kind to = Some w \<longleftrightarrow> (\<exists>e \<in> set ns. e_to e = to \<and> e_weight e = w))) \<and>
    (\<forall>e g' to. edge_plain e \<longrightarrow> AddEdge e g = Inr g' \<longrightarrow> graph_ok g' \<and> g_open g' \<and>
      graph_abs g' i kind to =
        (if (e_from e, e_kind e, e_to e) = (i, kind, to) then Some (e_weight e) else graph_abs g i kind to))"
proof (intro conjI allI impI)
  obtain ns where ns: "Neighbors i kind g = Inr ns" "sorted_wrt (<) (map e_to ns)"
    "set ns = {e \<in> snd ` set (g_edges g). e_from e = i \<and> e_kind e = kind}"
    using Neighbors_set [OF assms] .
  have "graph_abs g i kind to = Some w \<longleftrightarrow> (\<exists>e \<in> set ns. e_to e = to \<and> e_weight e = w)" for to w
    using graph_entry_iff [OF assms(1, 3, 4), of to] ns(3) by (auto simp: graph_abs_def)
  with ns show "\<exists>ns. Neighbors i kind g = Inr ns \<and> sorted_wrt (<) (map e_to ns) \<and>
      (\<forall>to w. graph_abs g i kind to = Some w \<longleftrightarrow> (\<exists>e \<in> set ns. e_to e = to \<and> e_weight e = w))"
    by blast
next
  fix e g' to assume e: "edge_plain e" "AddEdge e g = Inr g'"
  show "graph_ok g'" by (rule AddEdge_ok [OF assms(1) e])
  show "g_open g'" using e(2) by (simp add: AddEdge_Inr)
  have "triple_key i kind to = triple_key (e_from e) (e_kind e) (e_to e) \<longleftrightarrow>
      (e_from e, e_kind e, e_to e) = (i, kind, to)"
    using e(1) assms(3, 4) by (auto simp: edge_plain_def triple_key_inj)
  with e(2) show "graph_abs g' i kind to =
      (if (e_from e, e_kind e, e_to e) = (i, kind, to) then Some (e_weight e) else graph_abs g i kind to)"
    by (auto simp: AddEdge_Inr graph_abs_def entry_put_map)
qed

lemma add_edges_ok: "graph_ok g \<Longrightarrow> \<forall>e \<in> set es. edge_plain e \<Longrightarrow> graph_ok (add_edges es g)"
  by (induction es g rule: add_edges.induct) (auto split: sum.splits dest: AddEdge_ok)

theorem graph_store_refines_witness:
  "\<exists>ns. Neighbors ''a'' ''r'' ex_graph = Inr ns \<and> map e_to ns = [''b'', ''c''] \<and>
    graph_abs ex_graph ''a'' ''r'' ''c'' = Some 2"
proof -
  have n: "Neighbors ''a'' ''r'' ex_graph = Inr [\<lparr>e_from = ''a'', e_to = ''b'', e_kind = ''r'', e_weight = 1\<rparr>,
      \<lparr>e_from = ''a'', e_to = ''c'', e_kind = ''r'', e_weight = 2\<rparr>]" by code_simp
  have "graph_ok ex_graph" by (rule add_edges_ok) (simp_all add: edge_plain_def plain_def)
  from graph_store_refines [OF this ex_graph_facts(1), of "''a''" "''r''"] n
  show ?thesis by (auto simp: plain_def)
qed

section \<open>The key-value store is a map of maps\<close>

definition kv_ok :: "'v kvdb \<Rightarrow> bool" where
  "kv_ok d \<longleftrightarrow> (\<forall>n b. map_of (buckets d) n = Some b \<longrightarrow> bucket_ok b)"

lemma bucket_ok_Nil [simp]: "bucket_ok []"
  by (simp add: bucket_ok_def)

definition buckets_ok :: "(string, 'v bucket) gomap \<Rightarrow> bool" where
  "buckets_ok m \<longleftrightarrow> (\<forall>n b. map_of m n = Some b \<longrightarrow> bucket_ok b)"

lemma buckets_ok_update: "buckets_ok m \<Longrightarrow> bucket_ok b \<Longrightarrow> buckets_ok (AList.update n b m)"
  by (simp add: buckets_ok_def update_conv')

lemma kv_ok_buckets: "kv_ok d \<longleftrightarrow> buckets_ok (buckets d)"
  by (simp add: kv_ok_def buckets_ok_def)

lemma create_buckets_ok: "create_buckets ns m = Inr m' \<Longrightarrow> buckets_ok m \<Longrightarrow> buckets_ok m'"
proof (induction ns arbitrary: m)
  case (Cons n ns)
  from Cons.prems(1) have "create_buckets ns (if map_of m n = None then AList.update n [] m else m) = Inr m'"
    by (cases "n = []") (auto simp only: create_buckets.simps if_True if_False sum.distinct refl)
  from Cons.IH [OF this] show ?case using Cons.prems(2) by (simp add: buckets_ok_update)
qed simp

lemma kv_New_ok: "kv_New ns = Inr d \<Longrightarrow> kv_ok d \<and> kv_open d"
proof -
  assume "kv_New ns = Inr d"
  then obtain m where m: "create_buckets ns [] = Inr m" "d = \<lparr>kv_open = True, buckets = m\<rparr>"
    by (auto simp: kv_New_def split: sum.splits)
  from create_buckets_ok [OF m(1)] m(2) show ?thesis by (simp add: kv_ok_buckets buckets_ok_def)
qed

lemma kv_Set_Inr:
  "kv_Set n k v d = Inr d' \<longleftrightarrow> kv_open d \<and> n \<noteq> [] \<and> k \<noteq> [] \<and> int (length k) \<le> MaxKeySize \<and>
     d' = d \<lparr>buckets := AList.update n (entry_put k v
       (case map_of (buckets d) n of Some b \<Rightarrow> b | None \<Rightarrow> [])) (buckets d)\<rparr>"
  by (auto simp: kv_Set_def Put_def)

lemma kv_Set_ok: "kv_ok d \<Longrightarrow> kv_Set n k v d = Inr d' \<Longrightarrow> kv_ok d'"
  unfolding kv_Set_Inr kv_ok_buckets
  by (auto simp: buckets_ok_def update_conv' entry_put_ok split: if_splits option.splits)

lemma kv_Get_Set:
  assumes "kv_Set n k v d = Inr d'"
  shows "kv_Get n k d' = Inr v"
    and "n' \<noteq> n \<Longrightarrow> kv_Get n' k' d' = kv_Get n' k' d" "n' \<noteq> n \<Longrightarrow> kv_Keys n' d' = kv_Keys n' d"
    and "k' \<noteq> k \<Longrightarrow> is_ok (kv_Get n k' d') = is_ok (kv_Get n k' d)"
    and "k' \<noteq> k \<Longrightarrow> kv_Get n k' d = Inr x \<Longrightarrow> kv_Get n k' d' = Inr x"
  using assms unfolding kv_Set_Inr
  by (auto simp: kv_Get_def kv_Keys_def update_conv' entry_put_map split: option.splits)

lemma kv_Keys_spec:
  assumes "kv_ok d" "kv_open d"
  obtains ks where "kv_Keys n d = Inr ks" "sorted_wrt (<) ks"
    "\<And>k. k \<in> set ks \<longleftrightarrow> is_ok (kv_Get n k d)"
proof (cases "map_of (buckets d) n")
  case None
  then show ?thesis using assms(2) that [of "[]"] by (simp add: kv_Keys_def kv_Get_def)
next
  case (Some b)
  have "k \<in> fst ` set b \<longleftrightarrow> map_of b k \<noteq> None" for k by (simp add: map_of_eq_None_iff)
  with Some assms show ?thesis
    by (intro that [of "map fst b"]) (auto simp: kv_Keys_def kv_Get_def kv_ok_def bucket_ok_def split: option.splits)
qed

end
