(* ===== verification/Paths.thy ===== *)
theory Paths
  imports GoStrings
begin

text \<open>
  Lexical paths: the functions of \<^verbatim>\<open>path/filepath\<close> the code uses, on a Unix host, and
  \<^verbatim>\<open>internal/safeio\<close>, which confines the paths the supervisor opens to a root directory.
  The working directory is an argument, \<open>None\<close> when it cannot be read.
\<close>

section \<open>The standard library's paths\<close>

definition comps :: "string \<Rightarrow> string list" where
  "comps p = filter (\<lambda>c. c \<noteq> [] \<and> c \<noteq> ''.'') (split_on (CHR ''/'') p)"

definition IsAbs :: "string \<Rightarrow> bool" where
  "IsAbs p \<longleftrightarrow> HasPrefix p ''/''"

text \<open>One component read; the stack holds the components kept, the last on top.\<close>

fun clean_step :: "bool \<Rightarrow> string \<Rightarrow> string list \<Rightarrow> string list" where
  "clean_step rooted c stack =
     (if c = ''..'' then
        (case stack of
           [] \<Rightarrow> if rooted then [] else [''..'']
         | t # rest \<Rightarrow> if t = ''..'' then ''..'' # stack else rest)
      else c # stack)"

definition clean_comps :: "bool \<Rightarrow> string list \<Rightarrow> string list" where
  "clean_comps rooted cs = rev (fold (clean_step rooted) cs [])"

definition of_comps :: "bool \<Rightarrow> string list \<Rightarrow> string" where
  "of_comps rooted cs =
     (if rooted then ''/'' @ Join cs ''/'' else if cs = [] then ''.'' else Join cs ''/'')"

definition Clean :: "string \<Rightarrow> string" where
  "Clean p = of_comps (IsAbs p) (clean_comps (IsAbs p) (comps p))"

definition JoinPath :: "string list \<Rightarrow> string" where
  "JoinPath es = (case dropWhile (\<lambda>e. e = []) es of [] \<Rightarrow> [] | es' \<Rightarrow> Clean (Join es' ''/''))"

definition Abs :: "string option \<Rightarrow> string \<Rightarrow> string option" where
  "Abs wd p = (if IsAbs p then Some (Clean p) else map_option (\<lambda>w. JoinPath [w, p]) wd)"

fun strip_common :: "string list \<Rightarrow> string list \<Rightarrow> string list \<times> string list" where
  "strip_common (b # bs) (t # ts) = (if b = t then strip_common bs ts else (b # bs, t # ts))"
| "strip_common bs ts = (bs, ts)"

text \<open>\<^verbatim>\<open>filepath.Rel\<close>; it fails when one path is rooted and the other not, or when it
  would have to name a directory it does not know.\<close>

definition Rel :: "string \<Rightarrow> string \<Rightarrow> string option" where
  "Rel base targ =
     (let b = Clean base; t = Clean targ in
      if IsAbs b \<noteq> IsAbs t then None
      else case strip_common (comps b) (comps t) of
        (bs, ts) \<Rightarrow>
          if bs \<noteq> [] \<and> hd bs = ''..'' then None
          else Some (of_comps False (map (\<lambda>_. ''..'') bs @ ts)))"

section \<open>internal/safeio\<close>

datatype safeio_error = EmptyPath | NoWorkingDir | Escapes string string | ReadFailed string

definition ResolvePath :: "string option \<Rightarrow> string \<Rightarrow> (safeio_error, string) result" where
  "ResolvePath wd path =
     (if path = [] then Inl EmptyPath
      else case Abs wd (Clean path) of None \<Rightarrow> Inl NoWorkingDir | Some a \<Rightarrow> Inr a)"

definition ResolveUnder :: "string option \<Rightarrow> string \<Rightarrow> string \<Rightarrow> (safeio_error, string) result" where
  "ResolveUnder wd root path =
     bind_res (ResolvePath wd root) (\<lambda>absRoot.
     bind_res (ResolvePath wd path) (\<lambda>abs.
       case Rel absRoot abs of
         None \<Rightarrow> Inl (Escapes path root)
       | Some rel \<Rightarrow>
           if rel = ''..'' \<or> HasPrefix rel ''../'' then Inl (Escapes path root) else Inr abs))"

text \<open>Reading: \<open>files\<close> gives the content of a path that can be read.\<close>

definition ReadFile :: "string option \<Rightarrow> (string \<Rightarrow> string option) \<Rightarrow> string \<Rightarrow> (safeio_error, string) result" where
  "ReadFile wd files path =
     bind_res (ResolvePath wd path) (\<lambda>p. case files p of None \<Rightarrow> Inl (ReadFailed p) | Some c \<Rightarrow> Inr c)"

definition ReadFileUnder :: "string option \<Rightarrow> (string \<Rightarrow> string option) \<Rightarrow> string \<Rightarrow> string \<Rightarrow> (safeio_error, string) result" where
  "ReadFileUnder wd files root path =
     bind_res (ResolveUnder wd root path) (\<lambda>p. case files p of None \<Rightarrow> Inl (ReadFailed p) | Some c \<Rightarrow> Inr c)"

section \<open>Clean paths\<close>

text \<open>A component of a path, and a path that names every directory on its way.\<close>

definition comp_ok :: "string \<Rightarrow> bool" where
  "comp_ok c \<longleftrightarrow> c \<noteq> [] \<and> c \<noteq> ''.'' \<and> CHR ''/'' \<notin> set c"

definition name_ok :: "string \<Rightarrow> bool" where
  "name_ok c \<longleftrightarrow> comp_ok c \<and> c \<noteq> ''..''"

lemma comps_ok: "c \<in> set (comps p) \<Longrightarrow> comp_ok c"
  by (auto simp: comps_def comp_ok_def dest: split_on_pieces)

lemma clean_step_ok:
  "comp_ok c \<Longrightarrow> \<forall>x \<in> set st. name_ok x \<Longrightarrow> \<forall>x \<in> set (clean_step True c st). name_ok x"
  by (auto simp: name_ok_def split: list.splits)

lemma clean_rooted_ok: "\<forall>c \<in> set cs. comp_ok c \<Longrightarrow> \<forall>c \<in> set (clean_comps True cs). name_ok c"
proof -
  assume cs: "\<forall>c \<in> set cs. comp_ok c"
  have "\<forall>x \<in> set (fold (clean_step True) cs st). name_ok x" if "\<forall>x \<in> set st. name_ok x" for st
    using cs that
  proof (induction cs arbitrary: st)
    case (Cons c cs)
    then show ?case using clean_step_ok [of c st] by (simp del: clean_step.simps)
  qed simp
  from this [of "[]"] show ?thesis by (simp add: clean_comps_def)
qed

lemma clean_names: "\<forall>c \<in> set cs. name_ok c \<Longrightarrow> clean_comps r cs = cs"
proof -
  assume cs: "\<forall>c \<in> set cs. name_ok c"
  have "fold (clean_step r) cs st = rev cs @ st" for st
    using cs by (induction cs arbitrary: st) (auto simp: name_ok_def)
  then show ?thesis by (simp add: clean_comps_def)
qed

lemma comps_Join: "\<forall>c \<in> set cs. comp_ok c \<Longrightarrow> comps (Join cs ''/'') = cs"
proof (cases "cs = []")
  case True
  then show ?thesis by (simp add: comps_def)
next
  case False
  assume cs: "\<forall>c \<in> set cs. comp_ok c"
  then have "split_on (CHR ''/'') (Join cs ''/'') = cs"
    using False by (intro split_join) (auto simp: comp_ok_def)
  with cs show ?thesis by (simp add: comps_def comp_ok_def filter_id_conv)
qed

lemma comps_rooted: "comps (CHR ''/'' # s) = comps s"
  by (simp add: comps_def)

lemma IsAbs_iff: "IsAbs p \<longleftrightarrow> (\<exists>s. p = CHR ''/'' # s)"
  by (auto simp: IsAbs_def HasPrefix_iff)

text \<open>The rooted clean paths: a slash and names joined by slashes.\<close>

definition abs_path :: "string list \<Rightarrow> string" where
  "abs_path cs = ''/'' @ Join cs ''/''"

lemma abs_path_facts:
  assumes "\<forall>c \<in> set cs. name_ok c"
  shows "IsAbs (abs_path cs)" "comps (abs_path cs) = cs" "Clean (abs_path cs) = abs_path cs"
proof -
  have ok: "\<forall>c \<in> set cs. comp_ok c" using assms by (simp add: name_ok_def)
  show a: "IsAbs (abs_path cs)" by (simp add: abs_path_def IsAbs_iff)
  show c: "comps (abs_path cs) = cs" using comps_Join [OF ok] by (simp add: abs_path_def comps_rooted)
  show "Clean (abs_path cs) = abs_path cs"
    using a c clean_names [OF assms] by (simp add: Clean_def of_comps_def abs_path_def)
qed

lemma Clean_abs: "IsAbs p \<Longrightarrow> Clean p = abs_path (clean_comps True (comps p)) \<and>
    (\<forall>c \<in> set (clean_comps True (comps p)). name_ok c)"
  using clean_rooted_ok [of "comps p"] comps_ok [of _ p]
  by (auto simp: Clean_def of_comps_def abs_path_def)

lemma Abs_cases:
  assumes "Abs wd p = Some a" "pred_option IsAbs wd"
  obtains cs where "a = abs_path cs" "\<forall>c \<in> set cs. name_ok c"
proof (cases "IsAbs p")
  case True
  with assms(1) have "a = Clean p" by (simp add: Abs_def)
  with Clean_abs [OF True] that show ?thesis by blast
next
  case False
  with assms(1) obtain w where w: "wd = Some w" "a = JoinPath [w, p]" by (auto simp: Abs_def)
  with assms(2) obtain s where s: "w = CHR ''/'' # s" by (auto simp: IsAbs_iff)
  then have "a = Clean (w @ ''/'' @ p)" "IsAbs (w @ ''/'' @ p)" by (simp_all add: w JoinPath_def IsAbs_iff)
  with Clean_abs [of "w @ ''/'' @ p"] that show ?thesis by blast
qed

lemma strip_common_spec:
  "strip_common bs ts = (b, t) \<Longrightarrow> \<exists>u. bs = u @ b \<and> ts = u @ t \<and> (b = [] \<or> t = [] \<or> hd b \<noteq> hd t)"
proof (induction bs ts rule: strip_common.induct)
  case (1 x bs y ts)
  show ?case
  proof (cases "x = y")
    case True
    with 1 obtain u where "bs = u @ b" "ts = u @ t" "b = [] \<or> t = [] \<or> hd b \<noteq> hd t" by auto
    with True show ?thesis by (intro exI [of _ "x # u"]) simp
  next
    case False
    with 1 show ?thesis by (intro exI [of _ "[]"]) auto
  qed
qed auto

lemma Rel_abs_paths:
  assumes "\<forall>c \<in> set rs. name_ok c" "\<forall>c \<in> set ps. name_ok c"
  shows "case Rel (abs_path rs) (abs_path ps) of
      None \<Rightarrow> False
    | Some rel \<Rightarrow> (rel = ''..'' \<or> HasPrefix rel ''../'') \<longleftrightarrow> \<not> prefix rs ps"
proof -
  obtain b t where bt: "strip_common rs ps = (b, t)" by fastforce
  then obtain u where u: "rs = u @ b" "ps = u @ t" "b = [] \<or> t = [] \<or> hd b \<noteq> hd t"
    using strip_common_spec by blast
  have b: "\<not> (b \<noteq> [] \<and> hd b = ''..'')" using assms(1) u(1) by (cases b) (auto simp: name_ok_def)
  let ?rel = "of_comps False (map (\<lambda>_. ''..'') b @ t)"
  have R: "Rel (abs_path rs) (abs_path ps) = Some ?rel"
    using abs_path_facts [OF assms(1)] abs_path_facts [OF assms(2)] bt b
    by (simp add: Rel_def Let_def)
  have pre: "prefix rs ps \<longleftrightarrow> b = []"
    using u by (cases b; cases t) (auto simp: prefix_def)
  have "(?rel = ''..'' \<or> HasPrefix ?rel ''../'') \<longleftrightarrow> b \<noteq> []"
  proof (cases b)
    case Nil
    show ?thesis
    proof (cases t)
      case (Cons c cs)
      have c: "name_ok c" using assms(2) u(2) Cons by simp
      have "?rel = c \<or> (\<exists>s. ?rel = c @ CHR ''/'' # s)" using Nil Cons by (cases cs) (auto simp: of_comps_def)
      moreover have "c \<noteq> ''..''" "\<not> HasPrefix c ''../''"
        using c by (auto simp: name_ok_def comp_ok_def HasPrefix_iff)
      moreover have "\<not> HasPrefix (c @ CHR ''/'' # s) ''../''" for s
      proof
        assume "HasPrefix (c @ CHR ''/'' # s) ''../''"
        then obtain z where "c @ CHR ''/'' # s = ''..'' @ CHR ''/'' # z" by (auto simp: HasPrefix_iff)
        then have "c = ''..''"
          using c cut_at_Some [of "CHR ''/''" "c @ CHR ''/'' # s" c s]
            cut_at_Some [of "CHR ''/''" "''..'' @ CHR ''/'' # z" "''..''" z]
          by (auto simp: name_ok_def comp_ok_def)
        with c show False by (simp add: name_ok_def)
      qed
      moreover have "c @ CHR ''/'' # s \<noteq> ''..''" for s
      proof
        assume "c @ CHR ''/'' # s = ''..''"
        then have "CHR ''/'' \<in> set ''..''" by (metis in_set_conv_decomp)
        then show False by simp
      qed
      ultimately have "\<not> (?rel = ''..'' \<or> HasPrefix ?rel ''../'')" by metis
      with Nil show ?thesis by blast
    qed (use Nil in \<open>auto simp: of_comps_def HasPrefix_def\<close>)
  next
    case (Cons x b')
    then show ?thesis
      by (cases "map (\<lambda>_. ''..'') b' @ t") (auto simp: of_comps_def HasPrefix_def)
  qed
  with R pre show ?thesis by simp
qed

text \<open>C34: \<^verbatim>\<open>ResolveUnder\<close> lets a path through exactly when, once both are cleaned and made
  absolute, its components begin with those of the root: no amount of \<^verbatim>\<open>..\<close> or \<^verbatim>\<open>.\<close> in the
  path or a sibling whose name begins with the root's name or with two dots gets around it. The
  path returned is clean, so it names no parent directory.\<close>

theorem ResolveUnder_confines:
  assumes "pred_option IsAbs wd"
  shows "ResolveUnder wd root path = Inr q \<longleftrightarrow>
    root \<noteq> [] \<and> path \<noteq> [] \<and> Abs wd (Clean path) = Some q \<and>
    (\<exists>rs ps. (\<forall>c \<in> set (rs @ ps). name_ok c) \<and>
       Abs wd (Clean root) = Some (abs_path rs) \<and> q = abs_path (rs @ ps))"
proof (cases "ResolvePath wd root")
  case (Inl e)
  then show ?thesis by (auto simp: ResolveUnder_def ResolvePath_def split: if_splits option.splits)
next
  case (Inr r)
  then have r: "root \<noteq> []" "Abs wd (Clean root) = Some r"
    by (auto simp: ResolvePath_def split: if_splits option.splits)
  obtain rs where rs: "r = abs_path rs" "\<forall>c \<in> set rs. name_ok c" using Abs_cases [OF r(2) assms] .
  show ?thesis
  proof (cases "ResolvePath wd path")
    case (Inl e)
    then show ?thesis using Inr by (auto simp: ResolveUnder_def ResolvePath_def split: if_splits option.splits)
  next
    case (Inr p)
    then have p: "path \<noteq> []" "Abs wd (Clean path) = Some p"
      by (auto simp: ResolvePath_def split: if_splits option.splits)
    obtain qs where qs: "p = abs_path qs" "\<forall>c \<in> set qs. name_ok c" using Abs_cases [OF p(2) assms] .
    have "ResolveUnder wd root path = Inr q \<longleftrightarrow> q = p \<and> prefix rs qs"
      using Rel_abs_paths [OF rs(2) qs(2)] \<open>ResolvePath wd root = Inr r\<close> Inr
      by (auto simp: ResolveUnder_def rs(1) qs(1) split: option.splits)
    moreover have "prefix rs qs \<longleftrightarrow>
        (\<exists>rs' ps. (\<forall>c \<in> set (rs' @ ps). name_ok c) \<and> r = abs_path rs' \<and> p = abs_path (rs' @ ps))"
    proof
      assume "prefix rs qs"
      then obtain ps where "qs = rs @ ps" by (auto simp: prefix_def)
      with rs qs show "\<exists>rs' ps. (\<forall>c \<in> set (rs' @ ps). name_ok c) \<and> r = abs_path rs' \<and> p = abs_path (rs' @ ps)"
        by blast
    next
      assume "\<exists>rs' ps. (\<forall>c \<in> set (rs' @ ps). name_ok c) \<and> r = abs_path rs' \<and> p = abs_path (rs' @ ps)"
      then obtain rs' ps where ok: "\<forall>c \<in> set (rs' @ ps). name_ok c" "r = abs_path rs'" "p = abs_path (rs' @ ps)"
        by blast
      have "\<forall>c \<in> set rs'. name_ok c" using ok(1) by simp
      note c = abs_path_facts(2) [OF rs(2)] abs_path_facts(2) [OF qs(2)] abs_path_facts(2) [OF this]
        abs_path_facts(2) [OF ok(1)]
      have "rs = rs'" using c(1, 3) ok(2) rs(1) by metis
      moreover have "qs = rs' @ ps" using c(2, 4) ok(3) qs(1) by metis
      ultimately show "prefix rs qs" by simp
    qed
    ultimately show ?thesis unfolding r(2) p(2) option.inject using r(1) p(1) by metis
  qed
qed

theorem ResolveUnder_confines_witness:
  "ResolveUnder (Some ''/srv'') ''/var/lib/a'' ''../var/lib/./a/..b'' = Inr ''/var/lib/a/..b'' \<and>
   (\<forall>q. ResolveUnder (Some ''/srv'') ''/var/lib/a'' ''/var/lib/a/../ab'' \<noteq> Inr q)"
proof -
  have a: "Abs (Some ''/srv'') (Clean ''/var/lib/a'') = Some (abs_path [''var'', ''lib'', ''a''])"
    "Abs (Some ''/srv'') (Clean ''../var/lib/./a/..b'') = Some (abs_path ([''var'', ''lib'', ''a''] @ [''..b'']))"
    "abs_path ([''var'', ''lib'', ''a''] @ [''..b'']) = ''/var/lib/a/..b''"
    "list_all name_ok ([''var'', ''lib'', ''a''] @ [''..b''])"
    by code_simp+
  have wd: "pred_option IsAbs (Some ''/srv'')" by (simp add: IsAbs_iff)
  have b: "case ResolveUnder (Some ''/srv'') ''/var/lib/a'' ''/var/lib/a/../ab'' of Inl _ \<Rightarrow> True | Inr _ \<Rightarrow> False"
    by code_simp
  have "\<forall>c \<in> set ([''var'', ''lib'', ''a''] @ [''..b'']). name_ok c" using a(4) by (simp only: list_all_iff)
  then have "ResolveUnder (Some ''/srv'') ''/var/lib/a'' ''../var/lib/./a/..b'' =
      Inr (abs_path ([''var'', ''lib'', ''a''] @ [''..b'']))"
    using a(1, 2) ResolveUnder_confines [OF wd, of "''/var/lib/a''" "''../var/lib/./a/..b''"] by blast
  with a(3) b show ?thesis by (auto split: sum.splits)
qed

end
