(* ===== verification/Crypto.thy ===== *)
theory Crypto
  imports Paths
begin

text \<open>
  \<^verbatim>\<open>core/crypto\<close>: the capability tokens and the provenance of agent binaries. A byte string
  is a list of characters. The digest and the Ed25519 signature scheme are arguments of the
  definitions, as are the wire encoding of a token's payload and the readable files.
\<close>

unbundle bit_operations_syntax

section \<open>Hexadecimal\<close>

definition hex_char :: "int \<Rightarrow> char" where
  "hex_char d = (if d < 10 then char_of (nat (48 + d)) else char_of (nat (87 + d)))"

definition hex_val :: "char \<Rightarrow> int option" where
  "hex_val c = (let n = int (of_char c) in
     if 48 \<le> n \<and> n \<le> 57 then Some (n - 48)
     else if 97 \<le> n \<and> n \<le> 102 then Some (n - 87)
     else if 65 \<le> n \<and> n \<le> 70 then Some (n - 55)
     else None)"

definition hex_byte :: "char \<Rightarrow> string" where
  "hex_byte c = [hex_char (int (of_char c) div 16), hex_char (int (of_char c) mod 16)]"

definition EncodeToString :: "string \<Rightarrow> string" where
  "EncodeToString s = concat (map hex_byte s)"

text \<open>\<^verbatim>\<open>hex.DecodeString\<close>: an odd length or any other character is an error.\<close>

fun DecodeString :: "string \<Rightarrow> string option" where
  "DecodeString [] = Some []"
| "DecodeString [_] = None"
| "DecodeString (a # b # s) =
     (case (hex_val a, hex_val b, DecodeString s) of
        (Some x, Some y, Some r) \<Rightarrow> Some (char_of (nat (16 * x + y)) # r)
      | _ \<Rightarrow> None)"

text \<open>\<^verbatim>\<open>fmt.Sscanf(s, "%x", &b)\<close>: leading white space is skipped, then byte after byte is
  read until a character that is no digit; no byte at all, or half a byte, is an error.\<close>

fun scan_hex_bytes :: "string \<Rightarrow> string option" where
  "scan_hex_bytes [] = Some []"
| "scan_hex_bytes (a # s) =
     (case hex_val a of
        None \<Rightarrow> Some []
      | Some x \<Rightarrow>
          (case s of
             [] \<Rightarrow> None
           | b # t \<Rightarrow>
               (case hex_val b of
                  None \<Rightarrow> None
                | Some y \<Rightarrow> map_option (\<lambda>r. char_of (nat (16 * x + y)) # r) (scan_hex_bytes t))))"

definition Sscanf_hex :: "string \<Rightarrow> string option" where
  "Sscanf_hex s = (case scan_hex_bytes (TrimLeftSpace s) of
     None \<Rightarrow> None | Some [] \<Rightarrow> None | Some (b # bs) \<Rightarrow> Some (b # bs))"

section \<open>Capability tokens\<close>

definition RightSignalTerm :: "64 word" where "RightSignalTerm = 1"
definition RightSignalKill :: "64 word" where "RightSignalKill = 2"
definition RightSignalUser :: "64 word" where "RightSignalUser = 4"

datatype token_error = ErrTokenMalformed | ErrTokenUnknownKey | ErrTokenSignature | ErrTokenExpired
  | ErrTokenRights | ErrKeySize | ErrMarshal

definition PublicKeySize :: int where "PublicKeySize = 32"
definition PrivateKeySize :: int where "PrivateKeySize = 64"
definition SignatureSize :: int where "SignatureSize = 64"

record token_payload =
  TokenId :: string
  SubjectUuid :: string
  Rights :: "64 word"
  IssuedAtMs :: int
  ExpiresAtMs :: int
  IssuerNodeId :: string
  KeyId :: string

record token =
  tk_payload :: string
  tk_signature :: string

definition RightForSignal :: "int \<Rightarrow> (token_error, 64 word) result" where
  "RightForSignal signum =
     (if signum \<in> {2, 15} then Inr RightSignalTerm
      else if signum = 9 then Inr RightSignalKill
      else if signum \<in> {10, 12} then Inr RightSignalUser
      else Inl ErrTokenRights)"

definition SignCapabilityToken :: "(string \<Rightarrow> string \<Rightarrow> string) \<Rightarrow> (token_payload \<Rightarrow> string option)
    \<Rightarrow> token_payload option \<Rightarrow> string \<Rightarrow> (token_error, token) result" where
  "SignCapabilityToken sign marshal payload priv =
     (case payload of
        None \<Rightarrow> Inl ErrTokenMalformed
      | Some p \<Rightarrow>
          if int (length priv) \<noteq> PrivateKeySize then Inl ErrKeySize
          else case marshal p of
            None \<Rightarrow> Inl ErrMarshal
          | Some raw \<Rightarrow> Inr \<lparr>tk_payload = raw, tk_signature = sign priv raw\<rparr>)"

definition VerifyCapabilityToken :: "(string \<Rightarrow> string \<Rightarrow> string \<Rightarrow> bool) \<Rightarrow> (string \<Rightarrow> token_payload option)
    \<Rightarrow> token option \<Rightarrow> (string \<Rightarrow> string option) option \<Rightarrow> int \<Rightarrow> 64 word
    \<Rightarrow> (token_error, token_payload) result" where
  "VerifyCapabilityToken verify unmarshal tok resolve nowMs required =
     (case tok of
        None \<Rightarrow> Inl ErrTokenMalformed
      | Some t \<Rightarrow>
        if tk_payload t = [] \<or> int (length (tk_signature t)) \<noteq> SignatureSize then Inl ErrTokenMalformed
        else case resolve of
          None \<Rightarrow> Inl ErrTokenUnknownKey
        | Some keyOf \<Rightarrow>
          (case unmarshal (tk_payload t) of
             None \<Rightarrow> Inl ErrTokenMalformed
           | Some p \<Rightarrow>
             (case keyOf (KeyId p) of
                None \<Rightarrow> Inl ErrTokenUnknownKey
              | Some pub \<Rightarrow>
                if int (length pub) \<noteq> PublicKeySize then Inl ErrTokenUnknownKey
                else if \<not> verify pub (tk_payload t) (tk_signature t) then Inl ErrTokenSignature
                else if ExpiresAtMs p \<le> IssuedAtMs p then Inl ErrTokenMalformed
                else if nowMs \<ge> ExpiresAtMs p then Inl ErrTokenExpired
                else if required AND NOT (Rights p) \<noteq> 0 then Inl ErrTokenRights
                else Inr p)))"

section \<open>Provenance of binaries\<close>

datatype verify_error = BadKeySize | NoDigest safeio_error | NoBinary safeio_error | DigestMismatch
  | NoSignature safeio_error | BadSignatureHex | SignatureRejected

record host_files =
  cwd :: "string option"
  file_content :: "string \<Rightarrow> string option"

text \<open>\<open>digest\<close> is the 32-byte BLAKE3 sum.\<close>

definition HashFile :: "(string \<Rightarrow> string) \<Rightarrow> host_files \<Rightarrow> string \<Rightarrow> (safeio_error, string) result" where
  "HashFile digest h path =
     bind_res (ReadFile (cwd h) (file_content h) path) (\<lambda>c. Inr (EncodeToString (digest c)))"

definition VerifySignedBinary :: "(string \<Rightarrow> string \<Rightarrow> string \<Rightarrow> bool) \<Rightarrow> (string \<Rightarrow> string) \<Rightarrow> host_files
    \<Rightarrow> string \<Rightarrow> string \<Rightarrow> (verify_error, unit) result" where
  "VerifySignedBinary verify digest h binPath pub =
     (if int (length pub) \<noteq> PublicKeySize then Inl BadKeySize
      else case ReadFile (cwd h) (file_content h) (binPath @ ''.b3'') of
        Inl e \<Rightarrow> Inl (NoDigest e)
      | Inr hashData \<Rightarrow>
        (case HashFile digest h binPath of
           Inl e \<Rightarrow> Inl (NoBinary e)
         | Inr actual \<Rightarrow>
           if actual \<noteq> TrimSpace hashData then Inl DigestMismatch
           else case ReadFile (cwd h) (file_content h) (binPath @ ''.sig'') of
             Inl e \<Rightarrow> Inl (NoSignature e)
           | Inr sigData \<Rightarrow>
             (case Sscanf_hex (TrimSpace sigData) of
                None \<Rightarrow> Inl BadSignatureHex
              | Some sigBytes \<Rightarrow>
                if verify pub actual sigBytes then Inr () else Inl SignatureRejected)))"

text \<open>\<^verbatim>\<open>HashDirectory\<close>: the walk gives the regular files below the directory, as the path and
  whether its base name matches the pattern; \<open>rel\<close> is the path relative to the directory.\<close>

datatype hash_dir_error = WalkFailed | NoFiles | HashRead safeio_error

fun hash_input :: "host_files \<Rightarrow> string \<Rightarrow> string list \<Rightarrow> (hash_dir_error, string) result" where
  "hash_input h dir [] = Inr []"
| "hash_input h dir (f # fs) =
     (case ReadFileUnder (cwd h) (file_content h) dir f of
        Inl e \<Rightarrow> Inl (HashRead e)
      | Inr d \<Rightarrow>
        (case hash_input h dir fs of
           Inl e \<Rightarrow> Inl e
         | Inr rest \<Rightarrow> Inr ((case Rel dir f of None \<Rightarrow> [] | Some r \<Rightarrow> r) @ d @ rest)))"

definition HashDirectory :: "(string \<Rightarrow> string) \<Rightarrow> host_files \<Rightarrow> (string \<times> bool) list option \<Rightarrow> string
    \<Rightarrow> (hash_dir_error, string) result" where
  "HashDirectory digest h walk dir =
     (case walk of
        None \<Rightarrow> Inl WalkFailed
      | Some fs \<Rightarrow>
        let files = map fst (filter snd fs) in
        if files = [] then Inl NoFiles
        else bind_res (hash_input h dir (sort files)) (\<lambda>i. Inr (EncodeToString (digest i))))"

definition LoadPublic :: "host_files \<Rightarrow> string \<Rightarrow> (verify_error, string) result" where
  "LoadPublic h path =
     (case ReadFile (cwd h) (file_content h) path of
        Inl e \<Rightarrow> Inl (NoDigest e)
      | Inr d \<Rightarrow> (case DecodeString d of None \<Rightarrow> Inl BadSignatureHex | Some k \<Rightarrow> Inr k))"

section \<open>Properties\<close>

lemma hex_val_char: "0 \<le> d \<Longrightarrow> d < 16 \<Longrightarrow> hex_val (hex_char d) = Some d"
  by (auto simp: hex_val_def hex_char_def Let_def nat_less_iff)

lemma byte_range: "0 \<le> int (of_char (c :: char)) \<and> int (of_char c) < 256"
proof -
  have "(of_char c :: int) = of_char c mod 256" by (metis char_of_char of_char_of)
  then show ?thesis by (metis Euclidean_Rings.pos_mod_bound Euclidean_Rings.pos_mod_sign zero_less_numeral of_nat_of_char)
qed

lemma hex_pair: "hex_val (hex_char (int (of_char c) div 16)) = Some (int (of_char c) div 16)"
  "hex_val (hex_char (int (of_char c) mod 16)) = Some (int (of_char c) mod 16)"
proof -
  have "0 \<le> int (of_char c) div 16" "int (of_char c) div 16 < 16"
    "0 \<le> int (of_char c) mod 16" "int (of_char c) mod 16 < 16"
    using byte_range [of c] by linarith+
  then show "hex_val (hex_char (int (of_char c) div 16)) = Some (int (of_char c) div 16)"
    "hex_val (hex_char (int (of_char c) mod 16)) = Some (int (of_char c) mod 16)"
    by (auto intro!: hex_val_char)
qed

lemma byte_join: "char_of (nat (16 * (int (of_char c) div 16) + int (of_char c) mod 16)) = c"
proof -
  have "16 * (int (of_char c) div 16) + int (of_char c) mod 16 = int (of_char c)" by simp
  then show ?thesis by (simp only: nat_int char_of_char)
qed

lemma Decode_Encode: "DecodeString (EncodeToString s) = Some s"
  by (induction s) (simp_all add: EncodeToString_def hex_byte_def hex_pair byte_join)

lemma scan_Encode:
  "rest = [] \<or> hex_val (hd rest) = None \<Longrightarrow> scan_hex_bytes (EncodeToString s @ rest) = Some s"
proof (induction s)
  case Nil
  then show ?case by (cases rest) (auto simp: EncodeToString_def)
next
  case (Cons c s)
  then show ?case by (simp add: EncodeToString_def hex_byte_def hex_pair byte_join)
qed

lemma hex_digit_no_space: "hex_val c = Some d \<Longrightarrow> \<not> is_space c"
  by (auto simp: hex_val_def is_space_def Let_def split: if_splits)

lemma Encode_digits: "c \<in> set (EncodeToString s) \<Longrightarrow> \<exists>d. hex_val c = Some d"
  using hex_pair by (auto simp: EncodeToString_def hex_byte_def)

lemma newline_no_digit [simp]: "hex_val (CHR 0x0A) = None" "is_space (CHR 0x0A)"
  by (simp_all add: hex_val_def is_space_def)

lemma Encode_Nil [simp]: "EncodeToString s = [] \<longleftrightarrow> s = []"
  by (cases s) (simp_all add: EncodeToString_def hex_byte_def)

lemma Trim_Encode: "nl \<in> {[], [CHR 0x0A]} \<Longrightarrow> TrimSpace (EncodeToString s @ nl) = EncodeToString s"
proof -
  assume nl: "nl \<in> {[], [CHR 0x0A]}"
  let ?e = "EncodeToString s"
  have ns: "\<not> is_space c" if "c \<in> set ?e" for c using Encode_digits [OF that] hex_digit_no_space by blast
  show ?thesis
  proof (cases "?e = []")
    case True
    show ?thesis unfolding True using nl by (auto simp: TrimSpace_def)
  next
    case False
    then have l: "dropWhile is_space (?e @ nl) = ?e @ nl" "dropWhile is_space (rev ?e) = rev ?e"
      using ns hd_in_set [OF False] last_in_set [OF False] by (auto simp: dropWhile_eq_self_iff hd_rev)
    have "dropWhile is_space (rev nl @ rev ?e) = rev ?e" using nl l(2) by auto
    with l(1) show ?thesis by (simp add: TrimSpace_def)
  qed
qed

lemma Sscanf_Encode: "s \<noteq> [] \<Longrightarrow> Sscanf_hex (EncodeToString s) = Some s"
proof -
  assume s: "s \<noteq> []"
  then have "TrimLeftSpace (EncodeToString s) = EncodeToString s"
    using Encode_digits [of "hd (EncodeToString s)" s] hex_digit_no_space
    by (auto simp: TrimLeftSpace_def dropWhile_eq_self_iff)
  with s show ?thesis using scan_Encode [of "[]" s] by (cases s) (auto simp: Sscanf_hex_def)
qed

lemma Encode_inj: "EncodeToString a = EncodeToString b \<longleftrightarrow> a = b"
  by (metis Decode_Encode option.inject)

text \<open>A binary signed by the command line, whose digest and signature files may or may not end
  in a newline, verifies exactly as long as its digest is the one that was signed; any other
  content is reported as a digest mismatch, whatever the signature.\<close>

theorem signed_binary_verifies:
  assumes sig: "\<And>m. verify pub m (sign priv m)" "\<And>m. int (length (sign priv m)) = SignatureSize"
    and pub: "int (length pub) = PublicKeySize"
    and files: "ReadFile (cwd h) (file_content h) bin = Inr content"
      "ReadFile (cwd h) (file_content h) (bin @ ''.b3'') = Inr (EncodeToString (digest original) @ nl)"
      "ReadFile (cwd h) (file_content h) (bin @ ''.sig'') =
         Inr (EncodeToString (sign priv (EncodeToString (digest original))) @ nl')"
    and nl: "nl \<in> {[], [CHR 0x0A]}" "nl' \<in> {[], [CHR 0x0A]}"
  shows "VerifySignedBinary verify digest h bin pub =
    (if digest content = digest original then Inr () else Inl DigestMismatch)"
proof -
  let ?s = "sign priv (EncodeToString (digest original))"
  have "?s \<noteq> []" using sig(2) [of "EncodeToString (digest original)"] by (auto simp: SignatureSize_def)
  from Sscanf_Encode [OF this] show ?thesis
    using assms by (simp add: VerifySignedBinary_def HashFile_def Trim_Encode Encode_inj del: insert_iff)
qed

definition ex_files :: "string \<Rightarrow> host_files" where
  "ex_files content = \<lparr>cwd = Some ''/'', file_content = (\<lambda>p.
     if p = ''/b'' then Some content
     else if p = ''/b.b3'' then Some (EncodeToString ''v1'' @ [CHR 0x0A])
     else if p = ''/b.sig'' then Some (EncodeToString (replicate 64 (CHR 0x07)) @ [CHR 0x0A])
     else None)\<rparr>"

theorem signed_binary_verifies_witness:
  "VerifySignedBinary (\<lambda>k m s. s = replicate 64 (CHR 0x07)) (\<lambda>c. take 2 c) (ex_files ''v1'') ''/b'' (replicate 32 (CHR 0x01))
     = Inr () \<and>
   VerifySignedBinary (\<lambda>k m s. s = replicate 64 (CHR 0x07)) (\<lambda>c. take 2 c) (ex_files ''v2'') ''/b'' (replicate 32 (CHR 0x01))
     = Inl DigestMismatch"
proof -
  have r: "ReadFile (Some ''/'') (file_content (ex_files c)) ''/b'' = Inr c"
    "ReadFile (Some ''/'') (file_content (ex_files c)) (''/b'' @ ''.b3'') = Inr (EncodeToString (take 2 ''v1'') @ [CHR 0x0A])"
    "ReadFile (Some ''/'') (file_content (ex_files c)) (''/b'' @ ''.sig'')
       = Inr (EncodeToString (replicate 64 (CHR 0x07)) @ [CHR 0x0A])" for c
    by (simp_all add: ReadFile_def ResolvePath_def Abs_def Clean_def IsAbs_def HasPrefix_def comps_def
        clean_comps_def of_comps_def ex_files_def)
  have w: "cwd (ex_files c) = Some ''/''" for c by (simp add: ex_files_def)
  have "VerifySignedBinary (\<lambda>k m s. s = replicate 64 (CHR 0x07)) (\<lambda>c. take 2 c) (ex_files c) ''/b'' (replicate 32 (CHR 0x01))
      = (if take 2 c = take 2 ''v1'' then Inr () else Inl DigestMismatch)" for c
    by (rule signed_binary_verifies [where sign = "\<lambda>k m. replicate 64 (CHR 0x07)" and original = "''v1''"
          and nl = "[CHR 0x0A]" and nl' = "[CHR 0x0A]"])
      (simp_all add: w r [unfolded append.simps] SignatureSize_def PublicKeySize_def r)
  from this [of "''v1''"] this [of "''v2''"] show ?thesis by simp
qed



text \<open>The digest of a directory runs the file names and the contents together, so two different
  directories can have one digest.\<close>

theorem HashDirectory_collides:
  "HashDirectory digest \<lparr>cwd = Some ''/'', file_content = (\<lambda>p. if p = ''/s/a'' then Some ''bx'' else None)\<rparr>
     (Some [(''/s/a'', True)]) ''/s'' =
   HashDirectory digest \<lparr>cwd = Some ''/'', file_content = (\<lambda>p. if p = ''/s/ab'' then Some ''x'' else None)\<rparr>
     (Some [(''/s/ab'', True)]) ''/s''"
proof -
  have 1: "ResolveUnder (Some ''/'') ''/s'' ''/s/a'' = Inr ''/s/a''" "Rel ''/s'' ''/s/a'' = Some ''a''"
    "ResolveUnder (Some ''/'') ''/s'' ''/s/ab'' = Inr ''/s/ab''" "Rel ''/s'' ''/s/ab'' = Some ''ab''"
    by code_simp+
  then show ?thesis by (simp add: HashDirectory_def ReadFileUnder_def)
qed

end
