(* ===== verification/Schedule.thy ===== *)
theory Schedule
  imports Schema
begin

text \<open>
  \<^verbatim>\<open>core/agentmgr/schedule.go\<close> and \<^verbatim>\<open>timer_agent.go\<close>: schedules, their parser, and the timer
  runner with its loop. Instants and durations are integers of nanoseconds; the zero time, which
  ends a schedule, is \<open>None\<close>. The cron parser is a third-party package and a parameter: for a
  text it gives the function from an instant to the next fire, or fails.
\<close>

section \<open>Schedules\<close>

datatype Schedule =
    IntervalSchedule int
  | OnceSchedule int bool
  | CronSchedule "int \<Rightarrow> int option"

fun Next :: "Schedule \<Rightarrow> int \<Rightarrow> int option \<times> Schedule" where
  "Next (IntervalSchedule d) t = (Some (t + d), IntervalSchedule d)"
| "Next (OnceSchedule at fired) t =
     (if fired then (None, OnceSchedule at fired) else (Some at, OnceSchedule at True))"
| "Next (CronSchedule f) t = (f t, CronSchedule f)"

datatype schedule_error = NotPositiveInterval int string | BadDuration string | BadCron string | BadSystemd string

definition usableInterval :: "int \<Rightarrow> string \<Rightarrow> (schedule_error, unit) result" where
  "usableInterval d raw = (if d \<le> 0 then Inl (NotPositiveInterval d raw) else Inr ())"

text \<open>A prefix, whether it repeats, and the instant its duration is counted from.\<close>

definition systemdPrefixes :: "(string \<times> bool \<times> (int \<Rightarrow> int \<Rightarrow> int)) list" where
  "systemdPrefixes =
     [(''OnUnitActiveSec='', True, \<lambda>now boot. now),
      (''OnStartupSec='', False, \<lambda>now boot. now),
      (''OnBootSec='', False, \<lambda>now boot. boot)]"

definition isSystemdSchedule :: "string \<Rightarrow> bool" where
  "isSystemdSchedule s \<longleftrightarrow> list_ex (\<lambda>p. HasPrefix s (fst p)) systemdPrefixes"

fun parse_systemd_from :: "(string \<times> bool \<times> (int \<Rightarrow> int \<Rightarrow> int)) list \<Rightarrow> string \<Rightarrow> int \<Rightarrow> int
    \<Rightarrow> (schedule_error, Schedule) result" where
  "parse_systemd_from [] s now boot = Inl (BadSystemd s)"
| "parse_systemd_from ((pre, repeating, anchor) # ps) s now boot =
     (if \<not> HasPrefix s pre then parse_systemd_from ps s now boot
      else let durStr = TrimPrefix s pre in
        (case ParseDuration durStr of
           None \<Rightarrow> Inl (BadDuration durStr)
         | Some d \<Rightarrow>
           if repeating then bind_res (usableInterval d durStr) (\<lambda>_. Inr (IntervalSchedule d))
           else Inr (OnceSchedule (anchor now boot + d) False)))"

definition parseSystemdSchedule :: "string \<Rightarrow> int \<Rightarrow> int \<Rightarrow> (schedule_error, Schedule) result" where
  "parseSystemdSchedule = parse_systemd_from systemdPrefixes"

definition ParseScheduleAt :: "(string \<Rightarrow> (int \<Rightarrow> int option) option) \<Rightarrow> string \<Rightarrow> int \<Rightarrow> int
    \<Rightarrow> (schedule_error, Schedule) result" where
  "ParseScheduleAt cron s0 now boot =
     (let s = TrimSpace s0 in
      if isSystemdSchedule s then parseSystemdSchedule s now boot
      else case ParseDuration s of
        Some dur \<Rightarrow> bind_res (usableInterval dur s) (\<lambda>_. Inr (IntervalSchedule dur))
      | None \<Rightarrow> (case cron s of None \<Rightarrow> Inl (BadCron s) | Some f \<Rightarrow> Inr (CronSchedule f)))"

section \<open>The timer runner\<close>

text \<open>The loop, given for each round the clock and whether the timer is stopped before its wait
  ends: the fires, as the instant of the round and the wait before it, and how the loop ended.\<close>

datatype loop_end = Exhausted | Cancelled | Waiting Schedule

fun timer_run :: "Schedule \<Rightarrow> (int \<times> bool) list \<Rightarrow> (int \<times> int) list \<times> loop_end" where
  "timer_run sch [] = ([], Waiting sch)"
| "timer_run sch ((now, cancelled) # rounds) =
     (case Next sch now of
        (None, sch') \<Rightarrow> ([], Exhausted)
      | (Some nxt, sch') \<Rightarrow>
        let duration = max (nxt - now) 0 in
        if cancelled then ([], Cancelled)
        else (case timer_run sch' rounds of (fires, e) \<Rightarrow> ((now, duration) # fires, e)))"

record timer_agent =
  ta_id :: string
  ta_path :: string
  ta_schedule :: string
  ta_lang :: string
  ta_pyRunner :: string
  ta_enabled :: bool
  ta_nextRunID :: string
  ta_loop :: "Schedule option"

datatype timer_status = TimerRUNNING string | TimerSTOPPED string

datatype timer_error = TimerAlreadyRunning | TimerBadSchedule string schedule_error

definition newTimerAgent :: "string \<Rightarrow> string \<Rightarrow> string \<Rightarrow> string \<Rightarrow> string \<Rightarrow> timer_agent" where
  "newTimerAgent i path schedule lang pyRunner =
     \<lparr>ta_id = i, ta_path = path, ta_schedule = schedule, ta_lang = lang, ta_pyRunner = pyRunner,
      ta_enabled = True, ta_nextRunID = [], ta_loop = None\<rparr>"

definition timer_Start :: "(string \<Rightarrow> (int \<Rightarrow> int option) option) \<Rightarrow> int \<Rightarrow> int \<Rightarrow> timer_agent
    \<Rightarrow> (timer_error, unit) result \<times> timer_agent \<times> timer_status list" where
  "timer_Start cron now boot ta =
     (if ta_loop ta \<noteq> None then (Inl TimerAlreadyRunning, ta, [])
      else case ParseScheduleAt cron (ta_schedule ta) now boot of
        Inl e \<Rightarrow> (Inl (TimerBadSchedule (ta_schedule ta) e), ta, [])
      | Inr sch \<Rightarrow> (Inr (), ta \<lparr>ta_loop := Some sch\<rparr>, [TimerRUNNING (ta_nextRunID ta)]))"

definition timer_Stop :: "timer_agent \<Rightarrow> timer_agent \<times> timer_status list" where
  "timer_Stop ta = (if ta_loop ta = None then (ta, [])
     else (ta \<lparr>ta_loop := None\<rparr>, [TimerSTOPPED (ta_nextRunID ta)]))"

definition timer_Reload :: "(string \<Rightarrow> (int \<Rightarrow> int option) option) \<Rightarrow> int \<Rightarrow> int \<Rightarrow> timer_agent
    \<Rightarrow> (timer_error, unit) result \<times> timer_agent \<times> timer_status list" where
  "timer_Reload cron now boot ta = (case timer_Stop ta of (ta1, s1) \<Rightarrow>
     (case timer_Start cron now boot ta1 of (r, ta2, s2) \<Rightarrow> (r, ta2, s1 @ s2)))"

definition timer_Reset :: "timer_agent \<Rightarrow> timer_agent" where
  "timer_Reset ta = ta \<lparr>ta_loop := None\<rparr>"

definition timer_SetRunID :: "string \<Rightarrow> timer_agent \<Rightarrow> timer_agent" where
  "timer_SetRunID rid ta = ta \<lparr>ta_nextRunID := rid\<rparr>"

text \<open>The command of one fire; \<open>on_path\<close> is \<^verbatim>\<open>exec.LookPath\<close>.\<close>

definition fireCommand :: "(string \<Rightarrow> bool) \<Rightarrow> timer_agent \<Rightarrow> string list" where
  "fireCommand on_path ta =
     (if ta_lang ta \<noteq> ''python'' then [ta_path ta]
      else let bin = (if \<not> on_path ''python'' \<and> on_path ''python3'' then ''python3'' else ''python'')
        in [bin, ta_pyRunner ta, ''--module'', ta_path ta, ''--id'', ta_id ta, ''--type'', ''timer'', ''--start''])"

section \<open>Properties\<close>

lemma parse_systemd_cases:
  assumes "parse_systemd_from ps s now boot = Inr sch"
  shows "\<exists>pre rep anchor d. (pre, rep, anchor) \<in> set ps \<and> HasPrefix s pre \<and> ParseDuration (TrimPrefix s pre) = Some d \<and>
    (if rep then 0 < d \<and> sch = IntervalSchedule d else sch = OnceSchedule (anchor now boot + d) False)"
  using assms
proof (induction ps s now boot rule: parse_systemd_from.induct)
  case (2 pre rep anchor ps s now boot)
  show ?case
  proof (cases "HasPrefix s pre")
    case True
    show ?thesis
    proof (cases "ParseDuration (TrimPrefix s pre)")
      case None
      with True "2.prems" show ?thesis by simp
    next
      case (Some d)
      have "if rep then 0 < d \<and> sch = IntervalSchedule d else sch = OnceSchedule (anchor now boot + d) False"
        using True Some "2.prems" by (simp add: usableInterval_def split: if_splits)
      with True Some show ?thesis by (intro exI [of _ pre] exI [of _ rep] exI [of _ anchor] exI [of _ d]) simp
    qed
  next
    case False
    with "2.prems" have "parse_systemd_from ps s now boot = Inr sch" by simp
    from "2.IH" [OF False this] show ?thesis by (meson list.set_intros(2))
  qed
qed simp

lemma interval_advances:
  assumes "ParseScheduleAt cron s now boot = Inr (IntervalSchedule d)"
  shows "0 < d"
  using assms parse_systemd_cases [of systemdPrefixes "TrimSpace s" now boot]
  by (auto simp: ParseScheduleAt_def Let_def parseSystemdSchedule_def usableInterval_def
      split: if_splits option.splits)

lemma timer_run_interval:
  "timer_run (IntervalSchedule d) rounds = (fires, e) \<Longrightarrow> 0 < d \<Longrightarrow> (n, w) \<in> set fires \<Longrightarrow> w = d"
proof (induction "IntervalSchedule d" rounds arbitrary: fires e rule: timer_run.induct)
  case (2 now cancelled rounds)
  then show ?case
    by (cases "timer_run (IntervalSchedule d) rounds") (auto simp: Let_def split: if_splits)
qed auto

lemma timer_run_fired: "timer_run (OnceSchedule at True) rounds = (fires, e) \<Longrightarrow> fires = []"
  by (cases rounds) (auto split: if_splits)



lemma systemd_validator:
  assumes "isSystemdSchedule s" "parseSystemdSchedule s now boot = Inr sch"
  shows "\<exists>pre d. pre \<in> {''OnUnitActiveSec='', ''OnBootSec='', ''OnStartupSec=''} \<and> HasPrefix s pre \<and>
    ParseDuration (TrimPrefix s pre) = Some d"
  using parse_systemd_cases [of systemdPrefixes s now boot sch] assms
  by (auto simp: parseSystemdSchedule_def systemdPrefixes_def)

text \<open>The validator accepts schedules the timer refuses: a repeating interval that is zero or
  negative, and a duration behind two prefixes. An agent declaring one passes validation, is
  registered, and fails at every start, whatever the cron parser does.\<close>

theorem ValidateSchedule_accepts_unusable:
  "list_all (\<lambda>s. ValidateSchedule s = Inr () \<and> \<not> is_ok (ParseScheduleAt cron s now boot))
     [''OnUnitActiveSec=0s'', ''-5s'', ''OnUnitActiveSec=OnBootSec=5s'']"
proof -
  have v: "ValidateSchedule ''OnUnitActiveSec=0s'' = Inr ()" "ValidateSchedule ''-5s'' = Inr ()"
    "ValidateSchedule ''OnUnitActiveSec=OnBootSec=5s'' = Inr ()" by code_simp+
  have t: "TrimSpace ''OnUnitActiveSec=0s'' = ''OnUnitActiveSec=0s''" "TrimSpace ''-5s'' = ''-5s''"
    "TrimSpace ''OnUnitActiveSec=OnBootSec=5s'' = ''OnUnitActiveSec=OnBootSec=5s''" by code_simp+
  have i: "isSystemdSchedule ''OnUnitActiveSec=0s''" "\<not> isSystemdSchedule ''-5s''"
    "isSystemdSchedule ''OnUnitActiveSec=OnBootSec=5s''" by code_simp+
  have d: "ParseDuration ''-5s'' = Some (- 5000000000)" "ParseDuration ''0s'' = Some 0"
    "ParseDuration ''OnBootSec=5s'' = None" by code_simp+
  have q: "TrimPrefix ''OnUnitActiveSec=0s'' ''OnUnitActiveSec='' = ''0s''"
    "TrimPrefix ''OnUnitActiveSec=OnBootSec=5s'' ''OnUnitActiveSec='' = ''OnBootSec=5s''"
    "HasPrefix ''OnUnitActiveSec=0s'' ''OnUnitActiveSec=''"
    "HasPrefix ''OnUnitActiveSec=OnBootSec=5s'' ''OnUnitActiveSec=''" by code_simp+
  show ?thesis
    by (simp add: v t i d q ParseScheduleAt_def parseSystemdSchedule_def systemdPrefixes_def usableInterval_def)
qed

text \<open>A timer agent that is started, stopped, reset or reloaded has at most one loop: a second
  start is refused and changes nothing, a start with a schedule that does not parse leaves the
  timer stopped, every successful start announces running with the run id of the attempt, and a
  stop is announced exactly when a loop was there.\<close>

theorem timer_agent_operations:
  "(case timer_Start cron now boot ta of (r, ta', st) \<Rightarrow>
     (ta_loop ta \<noteq> None \<longrightarrow> r = Inl TimerAlreadyRunning \<and> ta' = ta \<and> st = []) \<and>
     (ta_loop ta = None \<longrightarrow> (is_ok r = (ta_loop ta' \<noteq> None)) \<and>
        st = (if is_ok r then [TimerRUNNING (ta_nextRunID ta)] else []))) \<and>
   (case timer_Stop ta of (ta', st) \<Rightarrow> ta_loop ta' = None \<and> (st = []) = (ta_loop ta = None)) \<and>
   ta_loop (timer_Reset ta) = None \<and>
   (case timer_Reload cron now boot ta of (r, ta', st) \<Rightarrow>
     r \<noteq> Inl TimerAlreadyRunning \<and> (is_ok r = (ta_loop ta' \<noteq> None)))"
  by (auto simp: timer_Start_def timer_Stop_def timer_Reset_def timer_Reload_def split: sum.splits)

theorem timer_agent_operations_witness:
  "timer_Start (\<lambda>_. None) 0 0 ((newTimerAgent ''t'' ''/t'' ''5s'' ''go'' []) \<lparr>ta_loop := Some (IntervalSchedule 5)\<rparr>)
    = (Inl TimerAlreadyRunning, (newTimerAgent ''t'' ''/t'' ''5s'' ''go'' []) \<lparr>ta_loop := Some (IntervalSchedule 5)\<rparr>, [])"
  using timer_agent_operations [where cron = "\<lambda>_. None" and now = 0 and boot = 0
      and ta = "(newTimerAgent ''t'' ''/t'' ''5s'' ''go'' []) \<lparr>ta_loop := Some (IntervalSchedule 5)\<rparr>"]
  by (auto split: prod.splits)

end
