(* ===== verification/Manager.thy ===== *)
theory Manager
  imports Crypto Schema Schedule AgentGraph
begin

text \<open>
  \<^verbatim>\<open>core/agentmgr\<close>: the agents the manager keeps and how it finds them. An agent is what
  its runner was constructed with; the process it runs is modelled elsewhere. Discovery reads a
  \<open>host\<close>: file status, the walk of a directory, and what a candidate prints when it is
  asked to describe itself; decoding that output as JSON is an argument.
\<close>

section \<open>Agents\<close>

datatype runner_kind = GoRunner | PythonRunner | TimerRunner

record agent =
  a_kind :: runner_kind
  a_id :: string
  a_type :: string
  a_lang :: string
  a_path :: string
  a_deps :: agent_deps
  a_listen :: string
  a_cpu :: string
  a_mem :: string
  a_caps :: "string list"
  a_schedule :: string
  a_runner :: string
  a_enabled :: bool
  a_readiness :: int
  a_silence :: int

definition no_deps :: agent_deps where
  "no_deps = \<lparr>Requires = [], Wants = [], WantedBy = [], RequiredBy = []\<rparr>"

definition NewGoAgent :: "string \<Rightarrow> string \<Rightarrow> string \<Rightarrow> agent_deps \<Rightarrow> string \<Rightarrow> string \<Rightarrow> string \<Rightarrow> string list \<Rightarrow> agent" where
  "NewGoAgent i typ path deps listen cpu mem caps =
     \<lparr>a_kind = GoRunner, a_id = i, a_type = typ, a_lang = ''go'', a_path = path, a_deps = deps,
      a_listen = listen, a_cpu = cpu, a_mem = mem, a_caps = caps, a_schedule = [], a_runner = [],
      a_enabled = True, a_readiness = DefaultReadinessBudget ''go'', a_silence = SilenceBudgetOf ''go''\<rparr>"

definition NewPythonAgent :: "string \<Rightarrow> string \<Rightarrow> string \<Rightarrow> string \<Rightarrow> agent_deps \<Rightarrow> string \<Rightarrow> string \<Rightarrow> string
    \<Rightarrow> string list \<Rightarrow> agent" where
  "NewPythonAgent i typ path runner deps listen cpu mem caps =
     \<lparr>a_kind = PythonRunner, a_id = i, a_type = typ, a_lang = ''python'', a_path = path, a_deps = deps,
      a_listen = listen, a_cpu = cpu, a_mem = mem, a_caps = caps, a_schedule = [], a_runner = runner,
      a_enabled = True, a_readiness = DefaultReadinessBudget ''python'', a_silence = SilenceBudgetOf ''python''\<rparr>"

text \<open>A timer has none of the declared dependencies, limits, capabilities or sockets.\<close>

definition of_timer :: "timer_agent \<Rightarrow> agent" where
  "of_timer ta =
     \<lparr>a_kind = TimerRunner, a_id = ta_id ta, a_type = ''timer'', a_lang = ta_lang ta, a_path = ta_path ta,
      a_deps = no_deps, a_listen = [], a_cpu = [], a_mem = [], a_caps = [], a_schedule = ta_schedule ta,
      a_runner = ta_pyRunner ta, a_enabled = ta_enabled ta,
      a_readiness = DefaultReadinessBudget (ta_lang ta), a_silence = SilenceBudgetOf (ta_lang ta)\<rparr>"

definition Describe :: "string \<Rightarrow> agent \<Rightarrow> (string, string) gomap" where
  "Describe state a =
     (if a_kind a = TimerRunner then
        [(''id'', a_id a), (''type'', ''timer''), (''language'', a_lang a), (''path'', a_path a),
         (''schedule'', a_schedule a)]
      else
        [(''id'', a_id a), (''type'', a_type a), (''language'', a_lang a), (''path'', a_path a),
         (''state'', state),
         (''requires'', Join (Requires (a_deps a)) '',''), (''wants'', Join (Wants (a_deps a)) '',''),
         (''wanted_by'', Join (WantedBy (a_deps a)) '',''), (''required_by'', Join (RequiredBy (a_deps a)) '',''),
         (''capabilities'', Join (a_caps a) '',''), (''listen_stream'', a_listen a),
         (''cpu_limit'', a_cpu a), (''mem_limit'', a_mem a), (''deps'', Join (Requires (a_deps a)) '','')])"

text \<open>Reading a Go map of strings: a missing key is the empty string.\<close>

definition get :: "(string, string) gomap \<Rightarrow> string \<Rightarrow> string" where
  "get m k = (case map_of m k of None \<Rightarrow> [] | Some v \<Rightarrow> v)"

definition AgentEnabled :: "agent \<Rightarrow> bool" where "AgentEnabled a = a_enabled a"

section \<open>The manager\<close>

record manager =
  am_agents :: "(string, agent) gomap"
  am_pyRun :: string
  am_production :: bool
  am_verifyKey :: "string option"

definition NewAgentManager :: "string \<Rightarrow> bool \<Rightarrow> string option \<Rightarrow> manager" where
  "NewAgentManager pyRun production key =
     \<lparr>am_agents = [], am_pyRun = pyRun, am_production = production, am_verifyKey = key\<rparr>"

definition Register_agent :: "agent \<Rightarrow> manager \<Rightarrow> manager" where
  "Register_agent a am = am \<lparr>am_agents := AList.update (a_id a) a (am_agents am)\<rparr>"

definition Get_agent :: "manager \<Rightarrow> string \<Rightarrow> agent option" where
  "Get_agent am i = map_of (am_agents am) i"

definition Deregister :: "string \<Rightarrow> manager \<Rightarrow> manager" where
  "Deregister i am = am \<lparr>am_agents := AList.delete i (am_agents am)\<rparr>"

definition manager_graph :: "manager \<Rightarrow> agent_map" where
  "manager_graph am = map (\<lambda>(i, a). (i, a_deps a)) (am_agents am)"

datatype instantiate_error = NotInstalled string | AlreadyRegistered string | NotGo string string

definition Instantiate :: "string \<Rightarrow> string \<Rightarrow> manager \<Rightarrow> (instantiate_error, agent) result \<times> manager" where
  "Instantiate instanceID templateID am =
     (case Get_agent am templateID of
        None \<Rightarrow> (Inl (NotInstalled templateID), am)
      | Some tmpl \<Rightarrow>
        if Get_agent am instanceID \<noteq> None then (Inl (AlreadyRegistered instanceID), am)
        else if a_lang tmpl \<noteq> ''go'' then (Inl (NotGo templateID (a_lang tmpl)), am)
        else
          let d = Describe [] tmpl;
              c = get d ''capabilities'';
              caps = (if c = [] then [] else map TrimSpace (split_on CHR '','' c));
              a = NewGoAgent instanceID (a_type tmpl) (get d ''path'')
                    \<lparr>Requires = Requires (a_deps tmpl), Wants = Wants (a_deps tmpl), WantedBy = [], RequiredBy = []\<rparr>
                    [] (get d ''cpu_limit'') (get d ''mem_limit'') caps
          in (Inr a, Register_agent a am))"

section \<open>Discovery\<close>

record file_stat =
  st_mode :: "32 word"
  st_uid :: int

record walk_entry =
  w_path :: string
  w_name :: string
  w_failed :: bool
  w_isDir :: bool
  w_mode :: "32 word option"

datatype exec_result = ExecFailed | Output string

record host =
  h_files :: host_files
  h_stat :: "string \<Rightarrow> file_stat option"
  h_euid :: int
  h_exec :: "string \<Rightarrow> exec_result"
  h_exec_py :: "string \<Rightarrow> string \<Rightarrow> bool \<Rightarrow> exec_result"
  h_decode :: "string \<Rightarrow> AgentDescribe option"
  h_walk :: "string \<Rightarrow> walk_entry list"
  h_verify :: "string \<Rightarrow> string \<Rightarrow> string \<Rightarrow> bool"
  h_digest :: "string \<Rightarrow> string"

datatype unsafe_reason = WorldWritableFile | WorldWritableDir | ForeignFile int | ForeignDir int
  | NoVerifyKey | NotVerified verify_error

datatype discover_error = StatFailed string | Unsafe string unsafe_reason | DescribeFailed | EmptyOutput
  | BadJSON | NoAbs | RunnerMissing string | ModuleMissing string

definition Dir :: "string \<Rightarrow> string" where
  "Dir p = Clean (rev (dropWhile (\<lambda>c. c \<noteq> CHR ''/'') (rev p)))"

definition Base :: "string \<Rightarrow> string" where
  "Base p = (let s = rev (dropWhile (\<lambda>c. c = CHR ''/'') (rev p)) in
     if p = [] then ''.'' else if s = [] then ''/'' else last (split_on CHR ''/'' s))"

definition Ext :: "string \<Rightarrow> string" where
  "Ext n = (if CHR ''.'' \<in> set n then CHR ''.'' # rev (takeWhile (\<lambda>c. c \<noteq> CHR ''.'') (rev n)) else [])"

definition checkOwner :: "int \<Rightarrow> file_stat \<Rightarrow> int option" where
  "checkOwner euid st = (if st_uid st \<noteq> 0 \<and> st_uid st \<noteq> euid then Some (st_uid st) else None)"

definition safeToExecute :: "host \<Rightarrow> manager \<Rightarrow> string \<Rightarrow> (discover_error, unit) result" where
  "safeToExecute h am bin =
     (case h_stat h bin of
        None \<Rightarrow> Inl (StatFailed bin)
      | Some info \<Rightarrow>
        (case h_stat h (Dir bin) of
           None \<Rightarrow> Inl (StatFailed (Dir bin))
         | Some dirInfo \<Rightarrow>
           if st_mode info AND 2 \<noteq> 0 then Inl (Unsafe bin WorldWritableFile)
           else if st_mode dirInfo AND 2 \<noteq> 0 then Inl (Unsafe bin WorldWritableDir)
           else case checkOwner (h_euid h) info of
             Some u \<Rightarrow> Inl (Unsafe bin (ForeignFile u))
           | None \<Rightarrow>
             (case checkOwner (h_euid h) dirInfo of
                Some u \<Rightarrow> Inl (Unsafe bin (ForeignDir u))
              | None \<Rightarrow>
                if am_production am then
                  (case am_verifyKey am of
                     None \<Rightarrow> Inl (Unsafe bin NoVerifyKey)
                   | Some key \<Rightarrow>
                     (case VerifySignedBinary (h_verify h) (h_digest h) (h_files h) bin key of
                        Inl e \<Rightarrow> Inl (Unsafe bin (NotVerified e))
                      | Inr _ \<Rightarrow> Inr ()))
                else Inr ())))"

definition describe_output :: "host \<Rightarrow> string \<Rightarrow> (discover_error, AgentDescribe) result" where
  "describe_output h out =
     (if out = [] then Inl EmptyOutput
      else case h_decode h out of None \<Rightarrow> Inl BadJSON | Some d \<Rightarrow> Inr d)"

definition binaryDescribe :: "host \<Rightarrow> manager \<Rightarrow> string \<Rightarrow> (discover_error, AgentDescribe) result" where
  "binaryDescribe h am bin =
     bind_res (safeToExecute h am bin) (\<lambda>_.
       case h_exec h bin of
         ExecFailed \<Rightarrow> Inl DescribeFailed
       | Output s \<Rightarrow> describe_output h (TrimSpace s))"

definition byte_order_mark :: string where
  "byte_order_mark = [CHR 0xEF, CHR 0xBB, CHR 0xBF]"

definition pythonDescribe :: "host \<Rightarrow> manager \<Rightarrow> string \<Rightarrow> (discover_error, AgentDescribe) result" where
  "pythonDescribe h am path =
     (case (Abs (cwd (h_files h)) (am_pyRun am), Abs (cwd (h_files h)) path) of
        (Some runnerAbs, Some modAbs) \<Rightarrow>
          if h_stat h runnerAbs = None then Inl (RunnerMissing runnerAbs)
          else if h_stat h modAbs = None then Inl (ModuleMissing modAbs)
          else (case h_exec_py h runnerAbs modAbs (am_production am) of
             ExecFailed \<Rightarrow> Inl DescribeFailed
           | Output s \<Rightarrow> describe_output h (TrimPrefix (TrimSpace s) byte_order_mark))
      | _ \<Rightarrow> Inl NoAbs)"

definition resolveReadinessBudget :: "AgentDescribe \<Rightarrow> string \<Rightarrow> int" where
  "resolveReadinessBudget d lang = (case ParseReadinessBudget d of
     Inl _ \<Rightarrow> DefaultReadinessBudget lang | Inr declared \<Rightarrow> Resolve lang declared)"

definition declared_deps :: "AgentDescribe \<Rightarrow> agent_deps" where
  "declared_deps d = \<lparr>Requires = ad_Requires d, Wants = ad_Wants d, WantedBy = ad_WantedBy d, RequiredBy = ad_RequiredBy d\<rparr>"

definition is_python_path :: "string \<Rightarrow> bool" where
  "is_python_path path \<longleftrightarrow> HasSuffix path ''.py'' \<or> Contains (Base path) ''.py.''"

definition new_discovered :: "manager \<Rightarrow> string \<Rightarrow> AgentDescribe \<Rightarrow> agent" where
  "new_discovered am path d =
     (let typ = ToLower (ad_Type d) in
      if typ = ''timer'' then
        (let schedule = (if ad_Schedule d = [] then ''OnUnitActiveSec=60s'' else ad_Schedule d) in
         of_timer (if is_python_path path then newTimerAgent (ad_ID d) path schedule ''python'' (am_pyRun am)
           else newTimerAgent (ad_ID d) path schedule ''go'' []))
      else if is_python_path path then
        NewPythonAgent (ad_ID d) typ path (am_pyRun am) (declared_deps d) (ListenStream d) (CPULimit d)
          (MemoryLimit d) (Capabilities d)
      else NewGoAgent (ad_ID d) typ path (declared_deps d) (ListenStream d) (CPULimit d) (MemoryLimit d) (Capabilities d))"

definition processDiscovered :: "manager \<Rightarrow> string \<Rightarrow> AgentDescribe \<Rightarrow> agent list \<Rightarrow> agent list" where
  "processDiscovered am path d agents =
     (case ValidateAgentDescribe d of
        Inl _ \<Rightarrow> agents
      | Inr _ \<Rightarrow>
        let a = (new_discovered am path d) \<lparr>a_enabled := (Enabled d \<noteq> Some False)\<rparr>;
            a' = (if a_kind a = TimerRunner then a else a \<lparr>a_readiness := resolveReadinessBudget d (a_lang a)\<rparr>)
        in agents @ [a'])"

definition is_python_unit :: "string \<Rightarrow> bool" where
  "is_python_unit name \<longleftrightarrow> Contains name ''.py.'' \<and>
     (HasSuffix name ''.service'' \<or> HasSuffix name ''.timer'' \<or> HasSuffix name ''.socket'')"

text \<open>One file of the walk.\<close>

definition visit :: "host \<Rightarrow> manager \<Rightarrow> walk_entry \<Rightarrow> agent list \<Rightarrow> agent list" where
  "visit h am e agents =
     (case w_mode e of
        None \<Rightarrow> agents
      | Some mode \<Rightarrow>
        if is_python_unit (w_name e) then
          (case pythonDescribe h am (w_path e) of
             Inl _ \<Rightarrow> agents | Inr d \<Rightarrow> processDiscovered am (w_path e) d agents)
        else if Ext (w_name e) \<in> {''.go'', ''.md'', ''.json'', ''.b3'', ''.sig''} then agents
        else if mode AND 0x49 \<noteq> 0 then
          (case binaryDescribe h am (w_path e) of
             Inl _ \<Rightarrow> agents | Inr d \<Rightarrow> processDiscovered am (w_path e) d agents)
        else agents)"

text \<open>The walk ends at the first entry that cannot be read, and reports it.\<close>

fun discover_walk :: "host \<Rightarrow> manager \<Rightarrow> walk_entry list \<Rightarrow> agent list \<Rightarrow> agent list \<times> bool" where
  "discover_walk h am [] agents = (agents, True)"
| "discover_walk h am (e # es) agents =
     (if w_failed e then (agents, False)
      else if w_isDir e then discover_walk h am es agents
      else discover_walk h am es (visit h am e agents))"

definition discoverFromSinglePath :: "host \<Rightarrow> manager \<Rightarrow> string \<Rightarrow> agent list \<times> bool" where
  "discoverFromSinglePath h am root = discover_walk h am (h_walk h root) []"

fun register_new :: "agent list \<Rightarrow> string list \<Rightarrow> manager \<Rightarrow> (string, string) gomap list
    \<Rightarrow> string list \<times> manager \<times> (string, string) gomap list" where
  "register_new [] seen am out = (seen, am, out)"
| "register_new (a # as) seen am out =
     (if a_id a \<in> set seen then register_new as seen am out
      else register_new as (seen @ [a_id a]) (Register_agent a am) (out @ [Describe ''stopped'' a]))"

fun discover_paths :: "host \<Rightarrow> string list \<Rightarrow> string list \<Rightarrow> manager \<Rightarrow> (string, string) gomap list
    \<Rightarrow> manager \<times> (string, string) gomap list" where
  "discover_paths h [] seen am out = (am, out)"
| "discover_paths h (p # ps) seen am out =
     (if h_stat h p = None then discover_paths h ps seen am out
      else case discoverFromSinglePath h am p of
        (agents, ok) \<Rightarrow>
          if \<not> ok then discover_paths h ps seen am out
          else (case register_new agents seen am out of
             (seen', am', out') \<Rightarrow> discover_paths h ps seen' am' out'))"

definition DiscoverFromPaths :: "host \<Rightarrow> string list \<Rightarrow> manager \<Rightarrow> manager \<times> (string, string) gomap list" where
  "DiscoverFromPaths h searchPaths am = discover_paths h searchPaths [] am []"

text \<open>\<^verbatim>\<open>DiscoverFromPath\<close>, the scan of one directory: every agent found is registered, a later one
  over an earlier one.\<close>

definition DiscoverFromPath :: "host \<Rightarrow> string \<Rightarrow> manager \<Rightarrow> (manager \<times> (string, string) gomap list) option" where
  "DiscoverFromPath h root am =
     (case discoverFromSinglePath h am root of
        (agents, ok) \<Rightarrow>
          if ok then Some (fold Register_agent agents am, map (Describe ''stopped'') agents) else None)"

section \<open>Comma separated lists\<close>

lemma csv_roundtrip:
  assumes "\<forall>x \<in> set xs. x \<noteq> [] \<and> CHR '','' \<notin> set x"
  shows "(if Join xs '','' = [] then [] else split_on CHR '','' (Join xs '','')) = xs"
proof (cases "xs = []")
  case False
  then have "Join xs '','' \<noteq> []" using assms by (cases xs rule: remdups_adj.cases) auto
  with False assms show ?thesis by (simp add: split_join)
qed simp

lemma id_char_no_comma: "id_char c \<Longrightarrow> c \<noteq> CHR '',''"
  by (auto simp: id_char_def is_lower_def is_upper_def is_digit_def)

lemma csv_ids: "\<forall>x \<in> set xs. validateID x = Inr () \<Longrightarrow>
    (if Join xs '','' = [] then [] else split_on CHR '','' (Join xs '','')) = xs"
  by (rule csv_roundtrip) (use id_char_no_comma in \<open>auto simp: validateID_ok\<close>)

section \<open>What discovery finds\<close>

definition same_settings :: "manager \<Rightarrow> manager \<Rightarrow> bool" where
  "same_settings am am' \<longleftrightarrow> am_pyRun am = am_pyRun am' \<and> am_production am = am_production am' \<and>
     am_verifyKey am = am_verifyKey am'"

lemma same_settings_refl [simp]: "same_settings am am"
  by (simp add: same_settings_def)

lemma same_settings_register [simp]: "same_settings am (Register_agent a am') = same_settings am am'"
  by (simp add: same_settings_def Register_agent_def)

lemma same_settings_describe:
  "same_settings am am' \<Longrightarrow> binaryDescribe h am' p = binaryDescribe h am p \<and>
     pythonDescribe h am' p = pythonDescribe h am p \<and> processDiscovered am' p d as = processDiscovered am p d as"
proof -
  assume "same_settings am am'"
  then have e: "am_pyRun am' = am_pyRun am" "am_production am' = am_production am" "am_verifyKey am' = am_verifyKey am"
    by (simp_all add: same_settings_def)
  show ?thesis
    unfolding binaryDescribe_def pythonDescribe_def processDiscovered_def safeToExecute_def new_discovered_def e
    by simp
qed

lemma same_settings_visit: "same_settings am am' \<Longrightarrow> visit h am' e as = visit h am e as"
  unfolding visit_def using same_settings_describe [of am am' h "w_path e"]
  by (auto split: option.split sum.split)

lemma same_settings_walk: "same_settings am am' \<Longrightarrow> discover_walk h am' es as = discover_walk h am es as"
  by (induction es arbitrary: as) (simp_all add: same_settings_visit)

text \<open>All that the paths yield, in order of precedence; a path whose walk fails yields nothing.\<close>

definition found_in :: "host \<Rightarrow> manager \<Rightarrow> string \<Rightarrow> agent list" where
  "found_in h am p = (if h_stat h p = None then []
     else case discoverFromSinglePath h am p of (as, ok) \<Rightarrow> if ok then as else [])"

definition found :: "host \<Rightarrow> manager \<Rightarrow> string list \<Rightarrow> agent list" where
  "found h am ps = concat (map (found_in h am) ps)"

fun firsts :: "string list \<Rightarrow> agent list \<Rightarrow> agent list" where
  "firsts seen [] = []"
| "firsts seen (a # as) =
     (if a_id a \<in> set seen then firsts seen as else a # firsts (seen @ [a_id a]) as)"

lemma register_new_spec:
  "register_new as seen am out = (seen @ map a_id (firsts seen as), fold Register_agent (firsts seen as) am,
     out @ map (Describe ''stopped'') (firsts seen as))"
  by (induction as arbitrary: seen am out) auto

lemma firsts_append: "firsts seen (as @ bs) = firsts seen as @ firsts (seen @ map a_id (firsts seen as)) bs"
  by (induction as arbitrary: seen) auto

lemma same_settings_fold [simp]: "same_settings am (fold Register_agent as am') = same_settings am am'"
  by (induction as arbitrary: am') auto

lemma discover_paths_spec:
  "same_settings am0 am \<Longrightarrow> discover_paths h ps seen am out =
     (fold Register_agent (firsts seen (found h am0 ps)) am,
      out @ map (Describe ''stopped'') (firsts seen (found h am0 ps)))"
proof (induction ps arbitrary: seen am out)
  case (Cons p ps)
  have d: "discoverFromSinglePath h am p = discoverFromSinglePath h am0 p"
    using Cons.prems by (simp add: discoverFromSinglePath_def same_settings_walk)
  obtain as ok where a: "discoverFromSinglePath h am0 p = (as, ok)" by fastforce
  show ?case
  proof (cases "h_stat h p = None \<or> \<not> ok")
    case True
    with Cons a d show ?thesis by (auto simp: found_def found_in_def)
  next
    case False
    then have f: "found h am0 (p # ps) = as @ found h am0 ps"
      using a by (auto simp: found_def found_in_def)
    have "discover_paths h (p # ps) seen am out =
        discover_paths h ps (seen @ map a_id (firsts seen as)) (fold Register_agent (firsts seen as) am)
          (out @ map (Describe ''stopped'') (firsts seen as))"
      using False a d by (auto simp: register_new_spec)
    with Cons show ?thesis by (simp add: f firsts_append)
  qed
qed (simp add: found_def)

lemma firsts_ids: "distinct (map a_id (firsts seen as)) \<and> set (map a_id (firsts seen as)) \<inter> set seen = {} \<and>
    set (firsts seen as) \<subseteq> set as"
  by (induction as arbitrary: seen) (auto; metis Un_iff disjoint_iff empty_iff image_eqI list.set(1) list.simps(15) set_append singletonI subsetD)+

lemma firsts_find: "i \<notin> set seen \<Longrightarrow> List.find (\<lambda>a. a_id a = i) (firsts seen as) = List.find (\<lambda>a. a_id a = i) as"
  by (induction as arbitrary: seen) auto

lemma fold_register: "distinct (map a_id as) \<Longrightarrow>
    Get_agent (fold Register_agent as am) i =
      (case List.find (\<lambda>a. a_id a = i) as of Some a \<Rightarrow> Some a | None \<Rightarrow> Get_agent am i)"
proof (induction as arbitrary: am)
  case (Cons a as)
  have "a_id a = i \<Longrightarrow> List.find (\<lambda>a. a_id a = i) as = None"
    using Cons.prems by (auto simp: find_None_iff image_iff)
  with Cons show ?case
    by (auto simp: Get_agent_def Register_agent_def update_conv' split: option.splits)
qed simp

text \<open>C30: Discovery is an override by precedence: under every identifier the manager ends up with the
  first agent that the search paths yield for it, in path order and then walk order, whatever was
  registered before; other agents stay. The descriptions returned are those of exactly these
  agents, each identifier once, in the order of discovery.\<close>

theorem discovery_first_wins:
  assumes "DiscoverFromPaths h ps am = (am', out)"
  shows "(\<forall>i. Get_agent am' i = (case List.find (\<lambda>a. a_id a = i) (found h am ps) of
       Some a \<Rightarrow> Some a | None \<Rightarrow> Get_agent am i)) \<and>
    (\<exists>as. out = map (Describe ''stopped'') as \<and> distinct (map a_id as) \<and> subseq as (found h am ps) \<and>
       set (map a_id as) = set (map a_id (found h am ps)) \<and> (\<forall>a \<in> set as. Get_agent am' (a_id a) = Some a))"
proof -
  let ?f = "firsts [] (found h am ps)"
  have D: "am' = fold Register_agent ?f am" "out = map (Describe ''stopped'') ?f"
    using assms discover_paths_spec [OF same_settings_refl, of h ps "[]" am "[]"]
    by (simp_all add: DiscoverFromPaths_def)
  have dist: "distinct (map a_id ?f)" using firsts_ids by blast
  have G: "Get_agent am' i = (case List.find (\<lambda>a. a_id a = i) (found h am ps) of
       Some a \<Rightarrow> Some a | None \<Rightarrow> Get_agent am i)" for i
    unfolding D fold_register [OF dist] by (simp add: firsts_find)
  have sub: "subseq (firsts seen as) as" for seen as
    by (induction as arbitrary: seen) auto
  have ids: "set (map a_id (firsts seen as)) \<union> set seen = set (map a_id as) \<union> set seen" for seen as
  proof (induction as arbitrary: seen)
    case (Cons a as)
    show ?case
    proof (cases "a_id a \<in> set seen")
      case True
      with Cons.IH [of seen] show ?thesis by auto
    next
      case False
      with Cons.IH [of "seen @ [a_id a]"] show ?thesis by simp
    qed
  qed simp
  have "Get_agent am' (a_id a) = Some a" if "a \<in> set ?f" for a
  proof -
    have "List.find (\<lambda>b. a_id b = a_id a) ?f = Some a"
      using that dist
    proof (induction ?f)
      case (Cons b bs)
      then show ?case
      proof -
        have *: "List.find (\<lambda>b. a_id b = a_id a) xs = Some a" if "a \<in> set xs" "distinct (map a_id xs)" for xs
          using that by (induction xs) auto
        show ?thesis by (rule * [OF Cons.prems])
      qed
    qed simp
    then show ?thesis unfolding G by (simp add: firsts_find)
  qed
  then show ?thesis using G D(2) dist sub [of "[]"] ids [of "[]"] by (intro conjI exI [of _ ?f]) auto
qed


definition ex_host :: host where
  "ex_host = \<lparr>h_files = \<lparr>cwd = Some ''/'', file_content = (\<lambda>_. None)\<rparr>,
     h_stat = (\<lambda>p. if p = ''/w/b'' then Some \<lparr>st_mode = 0x1FF, st_uid = 0\<rparr>
        else Some \<lparr>st_mode = 0x1ED, st_uid = 0\<rparr>),
     h_euid = 1000, h_exec = Output, h_exec_py = (\<lambda>_ m _. Output m),
     h_decode = (\<lambda>s. Some (ex_describe \<lparr>ListenStream := []\<rparr>)),
     h_walk = (\<lambda>p. [\<lparr>w_path = p @ ''/b'', w_name = ''b'', w_failed = False, w_isDir = False, w_mode = Some 0x1ED\<rparr>]),
     h_verify = (\<lambda>_ _ _. False), h_digest = (\<lambda>c. c)\<rparr>"

definition ex_manager :: manager where
  "ex_manager = NewAgentManager ''/run.py'' False None"

theorem discovery_first_wins_witness:
  "map_option a_path (Get_agent (fst (DiscoverFromPaths ex_host [''/w'', ''/etc/a'', ''/usr/a''] ex_manager)) ''web'')
     = Some ''/etc/a/b''"
proof -
  have "map_option a_path (List.find (\<lambda>a. a_id a = ''web'') (found ex_host ex_manager [''/w'', ''/etc/a'', ''/usr/a'']))
      = Some ''/etc/a/b''"
    by code_simp
  then show ?thesis
    using discovery_first_wins [OF prod.collapse [symmetric], of ex_host "[''/w'', ''/etc/a'', ''/usr/a'']" ex_manager]
    by (auto split: option.splits)
qed


text \<open>Production mode does not cover Python agents at discovery: a Python unit is described by
  running the Python runner on it, and is registered, although the file is world-writable, owned
  by another user and unsigned and no verification key is configured at all.\<close>

theorem production_discovery_trusts_python:
  "\<exists>(h :: host) (am :: manager) (e :: walk_entry).
     am_production am \<and> am_verifyKey am = None \<and> is_python_unit (w_name e) \<and>
     \<not> is_ok (safeToExecute h am (w_path e)) \<and>
     map a_id (fst (discover_walk h am [e] [])) = [''web'']"
proof -
  let ?e = "\<lparr>w_path = ''/w/b.py.service'', w_name = ''b.py.service'', w_failed = False, w_isDir = False, w_mode = Some 0x1FF\<rparr>"
  let ?h = "ex_host \<lparr>h_stat := \<lambda>_. Some \<lparr>st_mode = 0x1FF, st_uid = 7\<rparr>\<rparr>"
  let ?m = "NewAgentManager ''/run.py'' True None"
  have "am_production ?m \<and> am_verifyKey ?m = None \<and> is_python_unit (w_name ?e) \<and>
     \<not> is_ok (safeToExecute ?h ?m (w_path ?e)) \<and> map a_id (fst (discover_walk ?h ?m [?e] [])) = [''web'']"
    by code_simp
  then show ?thesis by (intro exI [of _ ?h] exI [of _ ?m] exI [of _ ?e])
qed

lemma new_discovered_service:
  assumes "ToLower (ad_Type d) \<noteq> ''timer''"
  shows "a_kind (new_discovered am path d) \<noteq> TimerRunner" "a_id (new_discovered am path d) = ad_ID d"
    "a_type (new_discovered am path d) = ToLower (ad_Type d)" "a_path (new_discovered am path d) = path"
    "a_lang (new_discovered am path d) = (if is_python_path path then ''python'' else ''go'')"
    "a_deps (new_discovered am path d) = declared_deps d" "a_cpu (new_discovered am path d) = CPULimit d"
    "a_mem (new_discovered am path d) = MemoryLimit d" "a_caps (new_discovered am path d) = Capabilities d"
    "a_listen (new_discovered am path d) = ListenStream d"
  using assms by (cases "is_python_path path";
    simp add: new_discovered_def NewGoAgent_def NewPythonAgent_def)+

lemma new_discovered_timer:
  assumes "ToLower (ad_Type d) = ''timer''"
  shows "a_kind (new_discovered am path d) = TimerRunner" "a_id (new_discovered am path d) = ad_ID d"
    "a_type (new_discovered am path d) = ''timer''" "a_path (new_discovered am path d) = path"
    "a_lang (new_discovered am path d) = (if is_python_path path then ''python'' else ''go'')"
    "a_deps (new_discovered am path d) = no_deps" "a_cpu (new_discovered am path d) = []"
    "a_mem (new_discovered am path d) = []" "a_caps (new_discovered am path d) = []"
    "a_listen (new_discovered am path d) = []"
    "a_readiness (new_discovered am path d) = DefaultReadinessBudget (a_lang (new_discovered am path d))"
    "a_schedule (new_discovered am path d) =
       (if ad_Schedule d = [] then ''OnUnitActiveSec=60s'' else ad_Schedule d)"
  using assms by (cases "is_python_path path";
    simp add: new_discovered_def of_timer_def newTimerAgent_def)+

definition csv :: "string \<Rightarrow> string list" where
  "csv s = (if s = [] then [] else split_on CHR '','' s)"

text \<open>What a declaration says reaches the agent unless it is a timer: an accepted service keeps its
  four dependency lists, its limits, capabilities and socket and its readiness budget, and an
  identifier list survives the comma separated form in which the agent describes itself. Of a
  timer's declaration only the schedule survives: dependencies, limits, capabilities and budget
  are dropped.\<close>

theorem declaration_reaches_agent:
  assumes "ValidateAgentDescribe d = Inr ()"
  shows "\<exists>a. processDiscovered am path d [] = [a] \<and> a_id a = ad_ID d \<and> a_type a = ToLower (ad_Type d) \<and>
     a_path a = path \<and> AgentEnabled a = (Enabled d \<noteq> Some False) \<and>
     a_lang a = (if is_python_path path then ''python'' else ''go'') \<and>
     (if ToLower (ad_Type d) = ''timer'' then
        a_deps a = no_deps \<and> a_cpu a = [] \<and> a_mem a = [] \<and> a_caps a = [] \<and> a_listen a = [] \<and>
        a_readiness a = DefaultReadinessBudget (a_lang a) \<and>
        a_schedule a = (if ad_Schedule d = [] then ''OnUnitActiveSec=60s'' else ad_Schedule d)
      else
        a_deps a = declared_deps d \<and> a_cpu a = CPULimit d \<and> a_mem a = MemoryLimit d \<and>
        a_caps a = Capabilities d \<and> a_listen a = ListenStream d \<and>
        a_readiness a = (case ReadinessDecl d of None \<Rightarrow> DefaultReadinessBudget (a_lang a)
           | Some s \<Rightarrow> the (ParseDuration s)) \<and>
        csv (get (Describe state a) ''requires'') = ad_Requires d \<and>
        csv (get (Describe state a) ''wants'') = ad_Wants d \<and>
        csv (get (Describe state a) ''wanted_by'') = ad_WantedBy d \<and>
        csv (get (Describe state a) ''required_by'') = ad_RequiredBy d)"
proof -
  let ?n = "new_discovered am path d"
  let ?a = "?n \<lparr>a_enabled := (Enabled d \<noteq> Some False)\<rparr>"
  let ?b = "if a_kind ?a = TimerRunner then ?a else ?a \<lparr>a_readiness := resolveReadinessBudget d (a_lang ?a)\<rparr>"
  have P: "processDiscovered am path d [] = [?b]"
    using assms by (simp add: processDiscovered_def Let_def)
  have ids: "\<forall>i \<in> set (ad_Requires d @ ad_Wants d @ ad_WantedBy d @ ad_RequiredBy d). i \<noteq> [] \<and> (\<forall>c \<in> set i. id_char c)"
    using assms unfolding ValidateAgentDescribe_exact by simp
  have csv: "csv (Join xs '','') = xs"
    if "set xs \<subseteq> set (ad_Requires d @ ad_Wants d @ ad_WantedBy d @ ad_RequiredBy d)" for xs
    unfolding csv_def by (rule csv_roundtrip) (use that ids id_char_no_comma in blast)
  have budget: "resolveReadinessBudget d lang = (case ReadinessDecl d of None \<Rightarrow> DefaultReadinessBudget lang
      | Some s \<Rightarrow> the (ParseDuration s))" for lang
  proof -
    obtain r where "ParseReadinessBudget d = Inr r"
      using assms unfolding ValidateAgentDescribe_def by (auto simp: bind_res_eq_Inr)
    then show ?thesis
      by (auto simp: resolveReadinessBudget_def ParseReadinessBudget_def Resolve_def split: option.splits sum.splits)
  qed
  show ?thesis
  proof (cases "ToLower (ad_Type d) = ''timer''")
    case True
    show ?thesis
      by (rule exI [of _ ?b]) (simp add: P True new_discovered_timer [OF True] AgentEnabled_def)
  next
    case False
    have D: "Requires (declared_deps d) = ad_Requires d" "Wants (declared_deps d) = ad_Wants d"
      "WantedBy (declared_deps d) = ad_WantedBy d" "RequiredBy (declared_deps d) = ad_RequiredBy d"
      by (simp_all add: declared_deps_def)
    have keys: "get (Describe state b) ''requires'' = Join (Requires (a_deps b)) '',''"
      "get (Describe state b) ''wants'' = Join (Wants (a_deps b)) '',''"
      "get (Describe state b) ''wanted_by'' = Join (WantedBy (a_deps b)) '',''"
      "get (Describe state b) ''required_by'' = Join (RequiredBy (a_deps b)) '',''"
      if "a_kind b \<noteq> TimerRunner" for b
      using that by (simp_all add: Describe_def get_def)
    note n = new_discovered_service [OF False, of am path]
    have b: "?b = ?a \<lparr>a_readiness := resolveReadinessBudget d (a_lang ?a)\<rparr>" using n(1) by simp
    have c: "csv (Join (ad_Requires d) '','') = ad_Requires d" "csv (Join (ad_Wants d) '','') = ad_Wants d"
      "csv (Join (ad_WantedBy d) '','') = ad_WantedBy d" "csv (Join (ad_RequiredBy d) '','') = ad_RequiredBy d"
      by (rule csv; auto)+
    show ?thesis unfolding P b
      by (rule exI [of _ "?a \<lparr>a_readiness := resolveReadinessBudget d (a_lang ?a)\<rparr>"])
        (cases "ReadinessDecl d"; simp add: False n keys D c budget AgentEnabled_def)
  qed
qed

theorem declaration_reaches_agent_witness:
  "\<exists>a. processDiscovered ex_manager ''/etc/a/b'' ex_describe [] = [a] \<and> Requires (a_deps a) = [''db-1'']"
proof -
  have "ValidateAgentDescribe ex_describe = Inr ()" "ToLower (ad_Type ex_describe) \<noteq> ''timer''" by code_simp+
  from declaration_reaches_agent [OF this(1), of ex_manager "''/etc/a/b''" "[]"] this(2)
  obtain a where "processDiscovered ex_manager ''/etc/a/b'' ex_describe [] = [a]" "a_deps a = declared_deps ex_describe"
    by (simp only: if_False) blast
  then show ?thesis by (intro exI [of _ a]) (simp add: declared_deps_def)
qed

section \<open>Instances\<close>

lemma register_other: "i \<noteq> a_id a \<Longrightarrow> Get_agent (Register_agent a am) i = Get_agent am i"
  "Get_agent (Register_agent a am) (a_id a) = Some a"
  by (simp_all add: Get_agent_def Register_agent_def update_conv')

definition plain_caps :: "string list \<Rightarrow> bool" where
  "plain_caps cs \<longleftrightarrow> (\<forall>c \<in> set cs. c \<noteq> [] \<and> CHR '','' \<notin> set c \<and> TrimSpace c = c)"

lemma caps_roundtrip:
  "plain_caps cs \<Longrightarrow> (if Join cs '','' = [] then [] else map TrimSpace (split_on CHR '','' (Join cs '',''))) = cs"
proof -
  assume cs: "plain_caps cs"
  then have "csv (Join cs '','') = cs" unfolding csv_def by (intro csv_roundtrip) (auto simp: plain_caps_def)
  moreover have "map TrimSpace cs = cs" using cs by (intro map_idI) (auto simp: plain_caps_def)
  ultimately show ?thesis by (auto simp: csv_def split: if_splits)
qed

text \<open>An instance is created exactly from an installed template in Go under an identifier that is
  free, and then is the only change to the manager. It runs the template's binary with its limits
  and forward dependencies, without its socket and reverse dependencies, and keeps its
  capabilities as long as none contains a comma or outer white space. An instance of a Go timer
  is a plain Go agent: the schedule is lost.\<close>

theorem Instantiate_exact:
  "case Instantiate instanceID templateID am of (r, am') \<Rightarrow>
     (case Get_agent am templateID of
        None \<Rightarrow> r = Inl (NotInstalled templateID) \<and> am' = am
      | Some t \<Rightarrow>
        if Get_agent am instanceID \<noteq> None then r = Inl (AlreadyRegistered instanceID) \<and> am' = am
        else if a_lang t \<noteq> ''go'' then r = Inl (NotGo templateID (a_lang t)) \<and> am' = am
        else \<exists>a. r = Inr a \<and> (\<forall>j. Get_agent am' j = (if j = instanceID then Some a else Get_agent am j)) \<and>
          a_id a = instanceID \<and> a_kind a = GoRunner \<and> a_schedule a = [] \<and> a_type a = a_type t \<and>
          a_path a = a_path t \<and> a_listen a = [] \<and>
          a_deps a = \<lparr>Requires = Requires (a_deps t), Wants = Wants (a_deps t), WantedBy = [], RequiredBy = []\<rparr> \<and>
          (a_kind t \<noteq> TimerRunner \<longrightarrow> a_cpu a = a_cpu t \<and> a_mem a = a_mem t \<and>
             (plain_caps (a_caps t) \<longrightarrow> a_caps a = a_caps t)))"
proof (cases "Get_agent am templateID")
  case None
  then show ?thesis by (simp add: Instantiate_def)
next
  case (Some t)
  show ?thesis
  proof (cases "Get_agent am instanceID \<noteq> None \<or> a_lang t \<noteq> ''go''")
    case True
    with Some show ?thesis by (auto simp: Instantiate_def)
  next
    case False
    define a where "a = (let d = Describe [] t; c = get d ''capabilities'' in
      NewGoAgent instanceID (a_type t) (get d ''path'')
        \<lparr>Requires = Requires (a_deps t), Wants = Wants (a_deps t), WantedBy = [], RequiredBy = []\<rparr>
        [] (get d ''cpu_limit'') (get d ''mem_limit'') (if c = [] then [] else map TrimSpace (split_on CHR '','' c)))"
    have I: "Instantiate instanceID templateID am = (Inr a, Register_agent a am)"
      using Some False by (simp add: Instantiate_def a_def Let_def)
    have id: "a_id a = instanceID" by (simp add: a_def Let_def NewGoAgent_def)
    have path: "get (Describe [] t) ''path'' = a_path t"
      by (cases "a_kind t = TimerRunner") (simp_all add: Describe_def get_def)
    have more: "a_kind t \<noteq> TimerRunner \<Longrightarrow> get (Describe [] t) ''cpu_limit'' = a_cpu t \<and>
        get (Describe [] t) ''mem_limit'' = a_mem t \<and> get (Describe [] t) ''capabilities'' = Join (a_caps t) '',''"
      by (simp add: Describe_def get_def)
    have G: "Get_agent (Register_agent a am) j = (if j = instanceID then Some a else Get_agent am j)" for j
      using register_other(1) [of j a am] register_other(2) [of a am] id by auto
    have F: "a_kind a = GoRunner \<and> a_schedule a = [] \<and> a_type a = a_type t \<and> a_path a = a_path t \<and> a_listen a = [] \<and>
        a_deps a = \<lparr>Requires = Requires (a_deps t), Wants = Wants (a_deps t), WantedBy = [], RequiredBy = []\<rparr>"
      by (simp add: a_def Let_def NewGoAgent_def path)
    have L: "a_kind t \<noteq> TimerRunner \<longrightarrow> a_cpu a = a_cpu t \<and> a_mem a = a_mem t \<and>
        (plain_caps (a_caps t) \<longrightarrow> a_caps a = a_caps t)"
    proof (intro impI)
      assume k: "a_kind t \<noteq> TimerRunner"
      have "a_caps a = (if Join (a_caps t) '','' = [] then []
          else map TrimSpace (split_on CHR '','' (Join (a_caps t) '','')))"
        using more [OF k] by (simp add: a_def Let_def NewGoAgent_def)
      with caps_roundtrip [of "a_caps t"] more [OF k]
      show "a_cpu a = a_cpu t \<and> a_mem a = a_mem t \<and> (plain_caps (a_caps t) \<longrightarrow> a_caps a = a_caps t)"
        by (auto simp: a_def Let_def NewGoAgent_def)
    qed
    show ?thesis using Some False I G id F L by auto
  qed
qed

theorem Instantiate_exact_witness:
  "\<exists>a. fst (Instantiate ''w-1'' ''w'' (Register_agent (NewGoAgent ''w'' ''service'' ''/w'' no_deps '':80'' [] [] [''net'', ''fs'']) ex_manager))
     = Inr a \<and> a_caps a = [''net'', ''fs''] \<and> a_listen a = []"
proof -
  let ?t = "NewGoAgent ''w'' ''service'' ''/w'' no_deps '':80'' [] [] [''net'', ''fs'']"
  let ?m = "Register_agent ?t ex_manager"
  have g: "Get_agent ?m ''w'' = Some ?t" "Get_agent ?m ''w-1'' = None"
    by (simp_all add: Get_agent_def Register_agent_def ex_manager_def NewAgentManager_def NewGoAgent_def)
  have p: "plain_caps [''net'', ''fs'']" by (simp add: plain_caps_def TrimSpace_def is_space_def)
  show ?thesis
    using Instantiate_exact [where instanceID = "''w-1''" and templateID = "''w''" and am = ?m] g p
    by (auto simp: NewGoAgent_def split: prod.splits)
qed

end
