(* ===== verification/Registry.thy ===== *)
theory Registry
  imports Stores Manager
begin

text \<open>
  \<^verbatim>\<open>internal/agentreg\<close>: the registry of agent descriptions over the hybrid store, the check of
  an agent's signature when it is registered, and the dependency graph it writes. A registration
  that fails half way leaves the writes made before, so it returns the store in every case.
\<close>

section \<open>Model\<close>

record AgentDescription =
  rd_id :: string
  rd_path :: string
  rd_type :: string
  rd_language :: string
  rd_version :: string
  rd_hash :: string
  rd_caps :: "string list"
  rd_requires :: "string list"
  rd_wants :: "string list"
  rd_requiredBy :: "string list"
  rd_wantedBy :: "string list"
  rd_tags :: "string list"

record registry =
  r_store :: "AgentDescription hybrid"
  r_verifyKey :: "string option"

datatype registry_error = InvalidAgent | MissingSignature safeio_error | InvalidSignatureHex
  | CannotHash safeio_error | SignatureFailed | StoreFailed store_error | RegCycle topo_error

definition agentsBucket :: string where "agentsBucket = ''agents''"
definition edgeKindRequires :: string where "edgeKindRequires = ''requires''"
definition edgeKindWants :: string where "edgeKindWants = ''wants''"

definition NewAgentRegistry :: "AgentDescription hybrid \<Rightarrow> string option \<Rightarrow> registry" where
  "NewAgentRegistry s key = \<lparr>r_store = s, r_verifyKey = key\<rparr>"

definition check_integrity :: "host \<Rightarrow> string option \<Rightarrow> AgentDescription \<Rightarrow> (registry_error, unit) result" where
  "check_integrity h key a =
     (case key of
        None \<Rightarrow> Inr ()
      | Some pub \<Rightarrow>
        (case ReadFile (cwd (h_files h)) (file_content (h_files h)) (rd_path a @ ''.sig'') of
           Inl e \<Rightarrow> Inl (MissingSignature e)
         | Inr sigHex \<Rightarrow>
           (case DecodeString sigHex of
              None \<Rightarrow> Inl InvalidSignatureHex
            | Some sig \<Rightarrow>
              (case HashFile (h_digest h) (h_files h) (rd_path a) of
                 Inl e \<Rightarrow> Inl (CannotHash e)
               | Inr hash \<Rightarrow> if h_verify h pub hash sig then Inr () else Inl SignatureFailed))))"

definition dep_edge :: "string \<Rightarrow> string \<Rightarrow> string \<Rightarrow> Edge" where
  "dep_edge from to kind = \<lparr>e_from = from, e_to = to, e_kind = kind, e_weight = 0\<rparr>"

text \<open>The edges a description stands for, in the order they are written.\<close>

definition edges_of :: "AgentDescription \<Rightarrow> Edge list" where
  "edges_of a =
     map (\<lambda>dep. dep_edge (rd_id a) dep edgeKindRequires) (rd_requires a) @
     map (\<lambda>dep. dep_edge (rd_id a) dep edgeKindWants) (rd_wants a) @
     map (\<lambda>target. dep_edge target (rd_id a) edgeKindWants) (rd_wantedBy a) @
     map (\<lambda>target. dep_edge target (rd_id a) edgeKindRequires) (rd_requiredBy a)"

fun write_edges :: "Edge list \<Rightarrow> AgentDescription hybrid \<Rightarrow> (registry_error, unit) result \<times> AgentDescription hybrid" where
  "write_edges [] s = (Inr (), s)"
| "write_edges (e # es) s = (case hybrid_AddEdge e s of
     Inl err \<Rightarrow> (Inl (StoreFailed err), s)
   | Inr s' \<Rightarrow> write_edges es s')"

definition Register :: "host \<Rightarrow> AgentDescription option \<Rightarrow> registry \<Rightarrow> (registry_error, unit) result \<times> registry" where
  "Register h agent r =
     (case agent of
        None \<Rightarrow> (Inl InvalidAgent, r)
      | Some a \<Rightarrow>
        if TrimSpace (rd_id a) = [] \<or> TrimSpace (rd_type a) = [] then (Inl InvalidAgent, r)
        else case check_integrity h (r_verifyKey r) a of
          Inl e \<Rightarrow> (Inl e, r)
        | Inr _ \<Rightarrow>
          (case hybrid_Set agentsBucket (rd_id a) a (r_store r) of
             Inl e \<Rightarrow> (Inl (StoreFailed e), r)
           | Inr s1 \<Rightarrow>
             (case hybrid_AddNode \<lparr>n_id = rd_id a, n_type = rd_type a\<rparr> s1 of
                Inl e \<Rightarrow> (Inl (StoreFailed e), r \<lparr>r_store := s1\<rparr>)
              | Inr s2 \<Rightarrow>
                (case write_edges (edges_of a) s2 of (res, s3) \<Rightarrow> (res, r \<lparr>r_store := s3\<rparr>)))))"

definition Lookup :: "string \<Rightarrow> registry \<Rightarrow> (registry_error, AgentDescription) result" where
  "Lookup i r = (case hybrid_Get agentsBucket i (r_store r) of Inl e \<Rightarrow> Inl (StoreFailed e) | Inr a \<Rightarrow> Inr a)"

fun lookup_all :: "string list \<Rightarrow> registry \<Rightarrow> (registry_error, AgentDescription list) result" where
  "lookup_all [] r = Inr []"
| "lookup_all (k # ks) r = (case Lookup k r of
     Inl e \<Rightarrow> Inl e
   | Inr a \<Rightarrow> (case lookup_all ks r of Inl e \<Rightarrow> Inl e | Inr as \<Rightarrow> Inr (a # as)))"

definition List_agents :: "registry \<Rightarrow> (registry_error, AgentDescription list) result" where
  "List_agents r = (case hybrid_Keys agentsBucket (r_store r) of
     Inl e \<Rightarrow> Inl (StoreFailed e) | Inr ks \<Rightarrow> lookup_all ks r)"

text \<open>Each target once, at its first occurrence.\<close>

fun add_unseen :: "string list \<Rightarrow> string list \<Rightarrow> string list" where
  "add_unseen [] all = all"
| "add_unseen (t # ts) all = add_unseen ts (if t \<in> set all then all else all @ [t])"

definition GetDependencies :: "string \<Rightarrow> registry \<Rightarrow> (registry_error, string list) result" where
  "GetDependencies i r =
     (case hybrid_Neighbors i edgeKindRequires (r_store r) of
        Inl e \<Rightarrow> Inl (StoreFailed e)
      | Inr reqs \<Rightarrow>
        (case hybrid_Neighbors i edgeKindWants (r_store r) of
           Inl e \<Rightarrow> Inl (StoreFailed e)
         | Inr wants \<Rightarrow> Inr (add_unseen (map e_to wants) (add_unseen (map e_to reqs) []))))"

definition description_deps :: "AgentDescription \<Rightarrow> agent_deps" where
  "description_deps a = \<lparr>Requires = rd_requires a, Wants = rd_wants a, WantedBy = rd_wantedBy a, RequiredBy = rd_requiredBy a\<rparr>"

text \<open>\<^verbatim>\<open>syncGraph\<close> rewrites the graph of a store that has \<^verbatim>\<open>ClearGraph\<close>; \<open>clear\<close> is that method
  when there is one. The hybrid store has none.\<close>

definition syncGraph :: "(graph \<Rightarrow> graph) option \<Rightarrow> AgentDescription list \<Rightarrow> registry \<Rightarrow> registry" where
  "syncGraph clear agents r =
     (case clear of
        None \<Rightarrow> r
      | Some c \<Rightarrow> r \<lparr>r_store := (r_store r) \<lparr>h_graph :=
          fold (\<lambda>a g. fold (\<lambda>e g. case AddEdge e g of Inl _ \<Rightarrow> g | Inr g' \<Rightarrow> g') (edges_of a)
              (case AddNode \<lparr>n_id = rd_id a, n_type = rd_type a\<rparr> g of Inl _ \<Rightarrow> g | Inr g' \<Rightarrow> g'))
            agents (c (h_graph (r_store r)))\<rparr>\<rparr>)"

definition hybrid_clear :: "(graph \<Rightarrow> graph) option" where "hybrid_clear = None"

definition registry_graph :: "AgentDescription list \<Rightarrow> agent_map" where
  "registry_graph agents = map (\<lambda>a. (rd_id a, description_deps a)) agents"

definition registry_TopologicalSort :: "registry \<Rightarrow> (registry_error, string list) result \<times> registry" where
  "registry_TopologicalSort r =
     (case List_agents r of
        Inl e \<Rightarrow> (Inl e, r)
      | Inr agents \<Rightarrow>
        (case Sort (hard_map (registry_graph agents)) (soft_map (registry_graph agents)) of
           Inl e \<Rightarrow> (Inl (RegCycle e), r)
         | Inr order \<Rightarrow> (Inr order, syncGraph hybrid_clear agents r)))"

section \<open>Registration histories\<close>

inductive reg_history :: "host \<Rightarrow> string option \<Rightarrow> AgentDescription list \<Rightarrow> registry \<Rightarrow> bool" for h key where
  reg_new: "hybrid_New = Inr s \<Longrightarrow> reg_history h key [] (NewAgentRegistry s key)"
| reg_add: "reg_history h key hs r \<Longrightarrow> Register h (Some a) r = (Inr (), r') \<Longrightarrow> reg_history h key (hs @ [a]) r'"

inductive_cases reg_historyE: "reg_history h key hs r"

definition plain_desc :: "AgentDescription \<Rightarrow> bool" where
  "plain_desc a \<longleftrightarrow> plain (rd_id a) \<and> (\<forall>x \<in> set (rd_wantedBy a @ rd_requiredBy a). plain x)"

definition stored_edges :: "registry \<Rightarrow> Edge set" where
  "stored_edges r = snd ` set (g_edges (h_graph (r_store r)))"

definition last_with :: "string \<Rightarrow> AgentDescription list \<Rightarrow> AgentDescription option" where
  "last_with i hs = (case filter (\<lambda>a. rd_id a = i) hs of [] \<Rightarrow> None | x # xs \<Rightarrow> Some (last (x # xs)))"

lemma last_with_snoc: "last_with i (hs @ [a]) = (if rd_id a = i then Some a else last_with i hs)"
  by (cases "filter (\<lambda>a. rd_id a = i) hs") (simp_all add: last_with_def)

definition reg_ok :: "AgentDescription list \<Rightarrow> registry \<Rightarrow> bool" where
  "reg_ok hs r \<longleftrightarrow> graph_ok (h_graph (r_store r)) \<and> g_open (h_graph (r_store r)) \<and>
     kv_ok (h_kv (r_store r)) \<and> kv_open (h_kv (r_store r)) \<and>
     stored_edges r = (\<Union>a \<in> set hs. set (edges_of a)) \<and>
     (\<forall>i. case last_with i hs of Some a \<Rightarrow> Lookup i r = Inr a | None \<Rightarrow> \<not> is_ok (Lookup i r))"

lemma edges_of_zero: "e \<in> set (edges_of a) \<Longrightarrow> e_weight e = 0"
  by (auto simp: edges_of_def dep_edge_def)

lemma edges_of_plain: "plain_desc a \<Longrightarrow> e \<in> set (edges_of a) \<Longrightarrow> edge_plain e"
  by (auto simp: edges_of_def dep_edge_def plain_desc_def edge_plain_def edgeKindRequires_def
      edgeKindWants_def plain_def)

lemma AddEdge_set:
  assumes g: "graph_ok g" and e: "edge_plain e" "e_weight e = 0" and z: "\<forall>x \<in> snd ` set (g_edges g). e_weight x = 0"
    and a: "AddEdge e g = Inr g'"
  shows "snd ` set (g_edges g') = insert e (snd ` set (g_edges g))"
proof -
  have g': "graph_ok g'" by (rule AddEdge_ok [OF g e(1) a])
  have m: "map_of (g_edges g') = (map_of (g_edges g)) (triple_key (e_from e) (e_kind e) (e_to e) \<mapsto> e)"
    using a by (auto simp: AddEdge_Inr entry_put_map)
  have pl: "edge_plain x" if "graph_ok gr" "x \<in> snd ` set (g_edges gr)" for gr x
    using that by (auto simp: graph_ok_def)
  have i: "x \<in> snd ` set (g_edges gr) \<longleftrightarrow> map_of (g_edges gr) (triple_key (e_from x) (e_kind x) (e_to x)) = Some x"
    if "graph_ok gr" "edge_plain x" for gr x
    using graph_entry_iff [OF that(1), of "e_from x" "e_kind x" "e_to x" x] that(2) by (simp add: edge_plain_def)
  have same: "x = e" if "x \<in> snd ` set (g_edges g)" "e_from x = e_from e" "e_kind x = e_kind e" "e_to x = e_to e" for x
  proof -
    have "e_weight x = e_weight e" using bspec [OF z that(1)] e(2) by simp
    with that(2-4) show ?thesis by (simp add: Edge.equality)
  qed
  have "x \<in> snd ` set (g_edges g') \<longleftrightarrow> x \<in> insert e (snd ` set (g_edges g))" if x: "edge_plain x" for x
  proof (cases "triple_key (e_from x) (e_kind x) (e_to x) = triple_key (e_from e) (e_kind e) (e_to e)")
    case True
    then have eq: "e_from x = e_from e" "e_kind x = e_kind e" "e_to x = e_to e"
      using x e(1) by (auto simp: triple_key_inj edge_plain_def)
    have "x \<in> snd ` set (g_edges g') \<longleftrightarrow> x = e" using i [OF g' x] m True by auto
    with same [of x] eq show ?thesis by auto
  next
    case False
    then have "x \<noteq> e" by auto
    with i [OF g' x] i [OF g x] m False show ?thesis by simp
  qed
  then show ?thesis using pl [OF g'] pl [OF g] e(1) by blast
qed

lemma write_edges_ok:
  assumes "write_edges es s = (Inr (), s')" "graph_ok (h_graph s)" "\<forall>e \<in> set es. edge_plain e \<and> e_weight e = 0"
    and "\<forall>x \<in> snd ` set (g_edges (h_graph s)). e_weight x = 0"
  shows "graph_ok (h_graph s') \<and> g_open (h_graph s') = g_open (h_graph s) \<and> h_kv s' = h_kv s \<and>
    snd ` set (g_edges (h_graph s')) = set es \<union> snd ` set (g_edges (h_graph s))"
  using assms
proof (induction es arbitrary: s)
  case (Cons e es)
  from Cons.prems(1) obtain s1 where s1: "hybrid_AddEdge e s = Inr s1" "write_edges es s1 = (Inr (), s')"
    by (auto split: sum.splits)
  then obtain g where g: "AddEdge e (h_graph s) = Inr g" "s1 = s \<lparr>h_graph := g\<rparr>"
    by (auto simp: hybrid_AddEdge_def bind_res_eq_Inr)
  have e: "edge_plain e" "e_weight e = 0" using Cons.prems(3) by simp_all
  have k: "snd ` set (g_edges g) = insert e (snd ` set (g_edges (h_graph s)))"
    by (rule AddEdge_set [OF Cons.prems(2) e Cons.prems(4) g(1)])
  have "graph_ok g" by (rule AddEdge_ok [OF Cons.prems(2) e(1) g(1)])
  then have "graph_ok (h_graph s') \<and> g_open (h_graph s') = g_open (h_graph s1) \<and> h_kv s' = h_kv s1 \<and>
      snd ` set (g_edges (h_graph s')) = set es \<union> snd ` set (g_edges (h_graph s1))"
    using Cons.prems(3, 4) g(2) k e(2) by (intro Cons.IH [OF s1(2)]) auto
  then show ?case using g k by (auto simp: AddEdge_Inr)
qed simp

lemma Register_Inr:
  assumes "Register h (Some a) r = (Inr (), r')"
  obtains d g s3 where "check_integrity h (r_verifyKey r) a = Inr ()"
    "kv_Set agentsBucket (rd_id a) a (h_kv (r_store r)) = Inr d" "AddNode \<lparr>n_id = rd_id a, n_type = rd_type a\<rparr> (h_graph (r_store r)) = Inr g"
    "write_edges (edges_of a) \<lparr>h_kv = d, h_graph = g\<rparr> = (Inr (), s3)" "r' = r \<lparr>r_store := s3\<rparr>"
    "TrimSpace (rd_id a) \<noteq> []" "TrimSpace (rd_type a) \<noteq> []"
proof -
  obtain kv gr where st: "r_store r = \<lparr>h_kv = kv, h_graph = gr\<rparr>" by (cases "r_store r")
  from assms show ?thesis
    by (auto simp: Register_def hybrid_Set_def hybrid_AddNode_def st bind_res_def split: if_splits sum.splits prod.splits
        intro!: that)
qed

lemma Register_ok:
  assumes "reg_ok hs r" "plain_desc a" "Register h (Some a) r = (Inr (), r')"
  shows "reg_ok (hs @ [a]) r'"
proof -
  obtain d g s3 where R: "kv_Set agentsBucket (rd_id a) a (h_kv (r_store r)) = Inr d"
    "AddNode \<lparr>n_id = rd_id a, n_type = rd_type a\<rparr> (h_graph (r_store r)) = Inr g"
    "write_edges (edges_of a) \<lparr>h_kv = d, h_graph = g\<rparr> = (Inr (), s3)" "r' = r \<lparr>r_store := s3\<rparr>"
    using Register_Inr [OF assms(3)] by metis
  have N: "g_edges g = g_edges (h_graph (r_store r))" "g_open g"
    using R(2) assms(1) by (auto simp: AddNode_def Put_def reg_ok_def split: if_splits)
  have G: "graph_ok g" using assms(1) N by (simp add: reg_ok_def graph_ok_def)
  have Z: "\<forall>x \<in> snd ` set (g_edges g). e_weight x = 0"
    using assms(1) edges_of_zero N(1) unfolding reg_ok_def stored_edges_def by auto
  have W: "graph_ok (h_graph s3) \<and> g_open (h_graph s3) = g_open g \<and> h_kv s3 = d \<and>
      snd ` set (g_edges (h_graph s3)) = set (edges_of a) \<union> snd ` set (g_edges g)"
    using write_edges_ok [OF R(3)] G Z edges_of_plain [OF assms(2)] edges_of_zero by simp
  have D: "kv_ok d" "kv_open d" "kv_Get agentsBucket (rd_id a) d = Inr a"
    "\<And>i. i \<noteq> rd_id a \<Longrightarrow> is_ok (kv_Get agentsBucket i d) = is_ok (kv_Get agentsBucket i (h_kv (r_store r)))"
    "\<And>i x. i \<noteq> rd_id a \<Longrightarrow> kv_Get agentsBucket i (h_kv (r_store r)) = Inr x \<Longrightarrow> kv_Get agentsBucket i d = Inr x"
    using kv_Set_ok [OF _ R(1)] kv_Get_Set [OF R(1)] R(1) assms(1) by (auto simp: reg_ok_def kv_Set_Inr)
  have L: "Lookup i r' = (case kv_Get agentsBucket i d of Inl e \<Rightarrow> Inl (StoreFailed e) | Inr a \<Rightarrow> Inr a)" for i
    using W R(4) by (simp add: Lookup_def hybrid_Get_def)
  have L0: "Lookup i r = (case kv_Get agentsBucket i (h_kv (r_store r)) of Inl e \<Rightarrow> Inl (StoreFailed e) | Inr a \<Rightarrow> Inr a)" for i
    by (simp add: Lookup_def hybrid_Get_def)
  have "case last_with i (hs @ [a]) of Some b \<Rightarrow> Lookup i r' = Inr b | None \<Rightarrow> \<not> is_ok (Lookup i r')" for i
  proof (cases "rd_id a = i")
    case True
    then show ?thesis using D(3) by (simp add: last_with_snoc L)
  next
    case False
    have old: "case last_with i hs of Some b \<Rightarrow> Lookup i r = Inr b | None \<Rightarrow> \<not> is_ok (Lookup i r)"
      using assms(1) by (simp add: reg_ok_def)
    show ?thesis
    proof (cases "last_with i hs")
      case None
      with old False D(4) [of i] show ?thesis
        by (auto simp: last_with_snoc L L0 is_ok_def split: sum.splits)
    next
      case (Some b)
      with old have "kv_Get agentsBucket i (h_kv (r_store r)) = Inr b" by (auto simp: L0 split: sum.splits)
      with D(5) [of i b] False Some show ?thesis by (simp add: last_with_snoc L)
    qed
  qed
  then show ?thesis using W D N R(4) assms(1) by (auto simp: reg_ok_def stored_edges_def)
qed

lemma reg_ok_New: "hybrid_New = Inr s \<Longrightarrow> reg_ok [] (NewAgentRegistry s key)"
proof -
  assume "hybrid_New = Inr s"
  then obtain kv where kv: "kv_New [''default'', ''runtime''] = Inr kv" "s = \<lparr>h_kv = kv, h_graph = graph_New\<rparr>"
    by (auto simp: hybrid_New_def split: sum.splits)
  then have "buckets kv = [(''default'', []), (''runtime'', [])]"
    by (auto simp: kv_New_def)
  with kv kv_New_ok [OF kv(1)] show ?thesis
    by (simp add: reg_ok_def NewAgentRegistry_def stored_edges_def Lookup_def hybrid_Get_def kv_Get_def
        agentsBucket_def last_with_def is_ok_def) (simp add: graph_New_def)
qed

lemma reg_history_ok: "reg_history h key hs r \<Longrightarrow> \<forall>a \<in> set hs. plain_desc a \<Longrightarrow> reg_ok hs r"
  by (induction rule: reg_history.induct) (auto simp: reg_ok_New intro: Register_ok)

lemma add_unseen_spec: "distinct all \<Longrightarrow> distinct (add_unseen ts all) \<and> set (add_unseen ts all) = set ts \<union> set all"
  by (induction ts all rule: add_unseen.induct) auto

lemma edges_of_kind: "e \<in> set (edges_of a) \<Longrightarrow> e_kind e = edgeKindRequires \<or> e_kind e = edgeKindWants"
  by (auto simp: edges_of_def dep_edge_def)

lemma edge_kinds_plain [simp]: "plain edgeKindRequires" "plain edgeKindWants"
  by (simp_all add: plain_def edgeKindRequires_def edgeKindWants_def)

lemma GetDependencies_spec:
  assumes "reg_ok hs r" "plain i"
  obtains ds where "GetDependencies i r = Inr ds" "distinct ds"
    "set ds = {e_to e | e a. a \<in> set hs \<and> e \<in> set (edges_of a) \<and> e_from e = i}"
proof -
  have g: "graph_ok (h_graph (r_store r))" "g_open (h_graph (r_store r))"
    using assms(1) by (simp_all add: reg_ok_def)
  have E: "x \<in> snd ` set (g_edges (h_graph (r_store r))) \<longleftrightarrow> (\<exists>a \<in> set hs. x \<in> set (edges_of a))" for x
    using assms(1) unfolding reg_ok_def stored_edges_def by blast
  obtain rs where rs: "Neighbors i edgeKindRequires (h_graph (r_store r)) = Inr rs"
    "sorted_wrt (<) (map e_to rs)"
    "set rs = {e \<in> snd ` set (g_edges (h_graph (r_store r))). e_from e = i \<and> e_kind e = edgeKindRequires}"
    by (rule Neighbors_set [OF g assms(2) edge_kinds_plain(1)])
  obtain ws where ws: "Neighbors i edgeKindWants (h_graph (r_store r)) = Inr ws"
    "sorted_wrt (<) (map e_to ws)"
    "set ws = {e \<in> snd ` set (g_edges (h_graph (r_store r))). e_from e = i \<and> e_kind e = edgeKindWants}"
    by (rule Neighbors_set [OF g assms(2) edge_kinds_plain(2)])
  let ?ds = "add_unseen (map e_to ws) (add_unseen (map e_to rs) [])"
  have D: "distinct ?ds \<and> set ?ds = e_to ` set ws \<union> e_to ` set rs"
    using add_unseen_spec [of "[]" "map e_to rs"] add_unseen_spec [of "add_unseen (map e_to rs) []" "map e_to ws"]
    by simp
  show thesis
  proof (rule that)
    show "GetDependencies i r = Inr ?ds" by (simp add: GetDependencies_def hybrid_Neighbors_def rs(1) ws(1))
    show "distinct ?ds" using D by blast
    have "x \<in> set rs \<union> set ws \<longleftrightarrow> (\<exists>a \<in> set hs. x \<in> set (edges_of a)) \<and> e_from x = i" for x
      unfolding Un_iff rs(3) ws(3) mem_Collect_eq E using edges_of_kind by blast
    then have "e_to ` set ws \<union> e_to ` set rs = {e_to e | e a. a \<in> set hs \<and> e \<in> set (edges_of a) \<and> e_from e = i}"
      unfolding image_Un [symmetric] Un_commute [of "set ws"] by blast
    then show "set ?ds = {e_to e | e a. a \<in> set hs \<and> e \<in> set (edges_of a) \<and> e_from e = i}"
      using D by simp
  qed
qed

text \<open>C29: After any series of successful registrations the registry answers \<^verbatim>\<open>Lookup\<close> with the
  last description registered under an identifier, and \<^verbatim>\<open>GetDependencies\<close> with the targets of
  the edges of every description ever registered, each once: a description that is registered again
  replaces the record and leaves the edges of the old one.\<close>

theorem registry_after_registrations:
  assumes "reg_history h key hs r" "\<forall>a \<in> set hs. plain_desc a" "plain i"
  shows "(case last_with i hs of Some a \<Rightarrow> Lookup i r = Inr a | None \<Rightarrow> \<not> is_ok (Lookup i r)) \<and>
    (\<exists>ds. GetDependencies i r = Inr ds \<and> distinct ds \<and>
      set ds = {e_to e | e a. a \<in> set hs \<and> e \<in> set (edges_of a) \<and> e_from e = i})"
proof -
  have R: "reg_ok hs r" by (rule reg_history_ok [OF assms(1, 2)])
  obtain ds where "GetDependencies i r = Inr ds" "distinct ds"
    "set ds = {e_to e | e a. a \<in> set hs \<and> e \<in> set (edges_of a) \<and> e_from e = i}"
    by (rule GetDependencies_spec [OF R assms(3)])
  moreover have "case last_with i hs of Some a \<Rightarrow> Lookup i r = Inr a | None \<Rightarrow> \<not> is_ok (Lookup i r)"
    using R by (simp only: reg_ok_def)
  ultimately show ?thesis by blast
qed

text \<open>Registering a list, for concrete histories.\<close>

fun register_all :: "host \<Rightarrow> AgentDescription list \<Rightarrow> registry \<Rightarrow> registry option" where
  "register_all h [] r = Some r"
| "register_all h (a # as) r = (case Register h (Some a) r of
     (Inl _, _) \<Rightarrow> None | (Inr _, r') \<Rightarrow> register_all h as r')"

lemma register_all_history:
  "register_all h as r = Some r' \<Longrightarrow> reg_history h key hs r \<Longrightarrow> reg_history h key (hs @ as) r'"
proof (induction as arbitrary: hs r)
  case (Cons a as)
  from Cons.prems(1) obtain r1 where r1: "Register h (Some a) r = (Inr (), r1)" "register_all h as r1 = Some r'"
    by (auto split: prod.splits sum.splits)
  from Cons.IH [OF r1(2) reg_add [OF Cons.prems(2) r1(1)]] show ?case by simp
qed simp

definition ex_description :: "string \<Rightarrow> string list \<Rightarrow> AgentDescription" where
  "ex_description i deps = \<lparr>rd_id = i, rd_path = ''/b'', rd_type = ''service'', rd_language = [], rd_version = [],
     rd_hash = [], rd_caps = [], rd_requires = deps, rd_wants = [], rd_requiredBy = [], rd_wantedBy = [], rd_tags = []\<rparr>"

definition ex_registered :: "AgentDescription list \<Rightarrow> registry option" where
  "ex_registered as = (case hybrid_New of Inl _ \<Rightarrow> None
     | Inr s \<Rightarrow> register_all ex_host as (NewAgentRegistry s None))"

lemma ex_registered_history: "ex_registered as = Some r \<Longrightarrow> reg_history ex_host None as r"
  unfolding ex_registered_def
  using register_all_history [of ex_host as _ r None "[]"] reg_new by (fastforce split: sum.splits)

lemma ex_plain: "plain i \<Longrightarrow> plain_desc (ex_description i deps)"
  by (simp add: plain_desc_def ex_description_def)

theorem registry_after_registrations_witness:
  "\<exists>(r :: registry) ds. ex_registered [ex_description ''a'' [''b''], ex_description ''a'' [''c'']] = Some r \<and>
     Lookup ''a'' r = Inr (ex_description ''a'' [''c'']) \<and> GetDependencies ''a'' r = Inr ds \<and> set ds = {''b'', ''c''}"
proof -
  let ?hs = "[ex_description ''a'' [''b''], ex_description ''a'' [''c'']]"
  have "ex_registered ?hs \<noteq> None" by code_simp
  then obtain r where r: "ex_registered ?hs = Some r" by blast
  have p: "plain ''a''" by (simp add: plain_def)
  have L: "last_with ''a'' ?hs = Some (ex_description ''a'' [''c''])"
    by (simp add: last_with_def ex_description_def)
  have S: "{e_to e | e a. a \<in> set ?hs \<and> e \<in> set (edges_of a) \<and> e_from e = ''a''} = {''b'', ''c''}"
  proof -
    have E: "edges_of (ex_description ''a'' [d]) = [dep_edge ''a'' d edgeKindRequires]" for d
      by (simp add: edges_of_def ex_description_def)
    have "{e_to e | e a. a \<in> set ?hs \<and> e \<in> set (edges_of a) \<and> e_from e = ''a''} =
        e_to ` {e \<in> (\<Union>a \<in> set ?hs. set (edges_of a)). e_from e = ''a''}" by blast
    also have "(\<Union>a \<in> set ?hs. set (edges_of a)) = {dep_edge ''a'' ''b'' edgeKindRequires, dep_edge ''a'' ''c'' edgeKindRequires}"
      by (auto simp: E)
    finally show ?thesis by (simp add: dep_edge_def Collect_conv_if Collect_disj_eq conj_disj_distribR insert_commute)
  qed
  have "\<forall>a \<in> set ?hs. plain_desc a" using ex_plain [OF p] by simp
  from registry_after_registrations [OF ex_registered_history [OF r] this p] r
  show ?thesis unfolding L S option.case by blast
qed

section \<open>The registry's order and the manager's\<close>

lemma last_with_id: "last_with i hs = Some a \<Longrightarrow> rd_id a = i \<and> a \<in> set hs"
proof -
  assume "last_with i hs = Some a"
  then have ne: "filter (\<lambda>a. rd_id a = i) hs \<noteq> []" "a = last (filter (\<lambda>a. rd_id a = i) hs)"
    by (auto simp: last_with_def split: list.splits)
  from last_in_set [OF ne(1)] ne(2) show ?thesis by auto
qed

lemma lookup_all_spec:
  "\<forall>k \<in> set ks. \<exists>a. Lookup k r = Inr a \<Longrightarrow>
   lookup_all ks r = Inr (map (\<lambda>k. THE a. Lookup k r = Inr a) ks)"
  by (induction ks) auto

lemma List_agents_spec:
  assumes "reg_ok hs r"
  obtains xs where "List_agents r = Inr xs" "distinct (map rd_id xs)"
    "\<And>a. a \<in> set xs \<longleftrightarrow> last_with (rd_id a) hs = Some a"
proof -
  have kv: "kv_ok (h_kv (r_store r))" "kv_open (h_kv (r_store r))" using assms by (simp_all add: reg_ok_def)
  obtain ks where ks: "kv_Keys agentsBucket (h_kv (r_store r)) = Inr ks" "sorted_wrt (<) ks"
    "\<And>k. k \<in> set ks \<longleftrightarrow> is_ok (kv_Get agentsBucket k (h_kv (r_store r)))"
    using kv_Keys_spec [OF kv] by metis
  have ok: "k \<in> set ks \<longleftrightarrow> is_ok (Lookup k r)" for k
    by (simp add: ks(3) Lookup_def hybrid_Get_def is_ok_def split: sum.splits)
  have L: "case last_with k hs of Some a \<Rightarrow> Lookup k r = Inr a | None \<Rightarrow> \<not> is_ok (Lookup k r)" for k
    using assms by (simp add: reg_ok_def)
  have L': "k \<in> set ks \<longleftrightarrow> (\<exists>a. last_with k hs = Some a)" for k
    using L [of k] by (auto simp: ok is_ok_def split: option.splits)
  have L2: "last_with k hs = Some a \<Longrightarrow> Lookup k r = Inr a" for k a using L [of k] by simp
  let ?f = "\<lambda>k. THE a. Lookup k r = Inr a"
  have f: "?f k = a" if "last_with k hs = Some a" for k a using L2 [OF that] by simp
  have ids: "map rd_id (map ?f ks) = ks"
    unfolding map_map by (rule map_idI) (use L' f last_with_id in fastforce)
  have "distinct ks" using ks(2) by (metis sorted_wrt_map strict_sorted_iff map_ident)
  show thesis
  proof (rule that)
    show "List_agents r = Inr (map ?f ks)"
      unfolding List_agents_def hybrid_Keys_def ks(1) sum.case
      by (rule lookup_all_spec) (use L' L2 in blast)
    show "distinct (map rd_id (map ?f ks))" using ids \<open>distinct ks\<close> by simp
    show "a \<in> set (map ?f ks) \<longleftrightarrow> last_with (rd_id a) hs = Some a" for a
    proof
      assume "a \<in> set (map ?f ks)"
      then obtain k where "k \<in> set ks" "a = ?f k" by auto
      with L' f last_with_id show "last_with (rd_id a) hs = Some a" by metis
    next
      assume "last_with (rd_id a) hs = Some a"
      with L' [of "rd_id a"] f [of "rd_id a" a] show "a \<in> set (map ?f ks)" by force
    qed
  qed
qed

text \<open>The two start orders of the program agree: when the registry's last descriptions declare
  what the manager's agents declare, the registry's sort gives the manager's order, and it reports
  a cycle exactly when the manager does. The sort leaves the registry as it was, although it is
  meant to rewrite the graph: the store offers no way to clear it.\<close>

theorem registry_order_is_manager_order:
  assumes "reg_history h key hs r" "\<forall>a \<in> set hs. plain_desc a" "gomap_ok (am_agents am)"
    and "\<And>i. map_option description_deps (last_with i hs) = map_option a_deps (Get_agent am i)"
  shows "snd (registry_TopologicalSort r) = r \<and>
    (case TopologicalSort (manager_graph am) of
       Inr order \<Rightarrow> fst (registry_TopologicalSort r) = Inr order
     | Inl MgrErrCycle \<Rightarrow> (\<exists>e. fst (registry_TopologicalSort r) = Inl (RegCycle e)))"
proof -
  obtain xs where xs: "List_agents r = Inr xs" "distinct (map rd_id xs)"
    "\<And>a. a \<in> set xs \<longleftrightarrow> last_with (rd_id a) hs = Some a"
    using List_agents_spec [OF reg_history_ok [OF assms(1, 2)]] by metis
  have g: "gomap_ok (registry_graph xs)" using xs(2) by (simp add: registry_graph_def gomap_ok_def keys_def comp_def)
  have g': "gomap_ok (manager_graph am)" using assms(3) by (simp add: manager_graph_def)
  have m: "map_of (registry_graph xs) i = map_option description_deps (last_with i hs)" for i
  proof -
    have "map_of (registry_graph xs) i = Some d \<longleftrightarrow> map_option description_deps (last_with i hs) = Some d" for d
    proof -
      have "map_of (registry_graph xs) i = Some d \<longleftrightarrow> (i, d) \<in> set (registry_graph xs)"
        using g by (simp add: gomap_ok_map_of)
      also have "\<dots> \<longleftrightarrow> (\<exists>a. last_with i hs = Some a \<and> description_deps a = d)"
      proof
        assume "(i, d) \<in> set (registry_graph xs)"
        then obtain a where "a \<in> set xs" "i = rd_id a" "d = description_deps a"
          unfolding registry_graph_def by auto
        with xs(3) [of a] show "\<exists>a. last_with i hs = Some a \<and> description_deps a = d" by blast
      next
        assume "\<exists>a. last_with i hs = Some a \<and> description_deps a = d"
        then obtain a where a: "last_with i hs = Some a" "description_deps a = d" by blast
        from last_with_id [OF a(1)] have i: "rd_id a = i" by blast
        with xs(3) [of a] a have "a \<in> set xs" by simp
        with i a(2) show "(i, d) \<in> set (registry_graph xs)" unfolding registry_graph_def by force
      qed
      finally show ?thesis by auto
    qed
    then show ?thesis by (cases "map_option description_deps (last_with i hs)") (auto intro: option.exhaust)
  qed
  have "map_of (manager_graph am) i = map_option a_deps (Get_agent am i)" for i
    by (simp add: manager_graph_def Get_agent_def map_of_map)
  with m assms(4) have "map_of (registry_graph xs) = map_of (manager_graph am)" by auto
  then have "set (registry_graph xs) = set (manager_graph am)"
    using g g' by (metis gomap_ok_def map_of_inject_set keys_def)
  from TopologicalSort_cong [OF g g' this] show ?thesis
    by (auto simp: registry_TopologicalSort_def xs(1) TopologicalSort_def syncGraph_def hybrid_clear_def
        split: sum.splits topo_error.splits mgr_error.splits)
qed

lemma Decode_odd: "length s mod 2 = 1 \<Longrightarrow> DecodeString s = None"
  by (induction s rule: DecodeString.induct) (auto split: option.splits)

lemma Encode_length: "length (EncodeToString s) = 2 * length s"
  by (induction s) (simp_all add: EncodeToString_def hex_byte_def)

definition ex_agent :: "string \<Rightarrow> string list \<Rightarrow> agent" where
  "ex_agent i deps = NewGoAgent i ''/b'' ''service'' (no_deps \<lparr>Requires := deps\<rparr>) [] [] [] []"

theorem registry_order_is_manager_order_witness:
  "\<exists>(r :: registry). ex_registered [ex_description ''a'' [''b''], ex_description ''b'' []] = Some r \<and>
     fst (registry_TopologicalSort r) = Inr [''b'', ''a'']"
proof -
  let ?hs = "[ex_description ''a'' [''b''], ex_description ''b'' []]"
  let ?am = "Register_agent (ex_agent ''a'' [''b'']) (Register_agent (ex_agent ''b'' []) (NewAgentManager [] False None))"
  have "ex_registered ?hs \<noteq> None" by code_simp
  then obtain r where r: "ex_registered ?hs = Some r" by blast
  have p: "\<forall>a \<in> set ?hs. plain_desc a" using ex_plain [of "''a''"] ex_plain [of "''b''"] by (simp add: plain_def)
  have o: "TopologicalSort (manager_graph ?am) = Inr [''b'', ''a'']" by code_simp
  have m: "map_option description_deps (last_with i ?hs) = map_option a_deps (Get_agent ?am i)" for i
    by (simp add: last_with_def ex_description_def description_deps_def Get_agent_def Register_agent_def
        NewAgentManager_def ex_agent_def NewGoAgent_def no_deps_def)
  have g: "gomap_ok (am_agents ?am)"
    by (simp add: Register_agent_def NewAgentManager_def gomap_ok_def keys_def ex_agent_def NewGoAgent_def)
  from registry_order_is_manager_order [OF ex_registered_history [OF r] p g m] r o show ?thesis by auto
qed

text \<open>The signature file \<^verbatim>\<open>gapictl agent build --sign\<close> writes ends in a newline. The registration
  check decodes the file as it stands and refuses it, whatever the key, although the check made
  when the binary is started accepts the same file.\<close>

theorem built_signature_refused:
  assumes "ReadFile (cwd (h_files h)) (file_content (h_files h)) (rd_path a @ ''.sig'')
      = Inr (EncodeToString sig @ [CHR 0x0A])"
    and "r_verifyKey r = Some pub" "TrimSpace (rd_id a) \<noteq> []" "TrimSpace (rd_type a) \<noteq> []"
  shows "Register h (Some a) r = (Inl InvalidSignatureHex, r)"
  using assms by (simp add: Register_def check_integrity_def Decode_odd Encode_length)

theorem built_signature_refused_witness:
  "Register (ex_host \<lparr>h_files := ex_files ''v1''\<rparr>) (Some (ex_description ''a'' []))
     \<lparr>r_store = \<lparr>h_kv = \<lparr>kv_open = True, buckets = []\<rparr>, h_graph = graph_New\<rparr>, r_verifyKey = Some ''key''\<rparr>
   = (Inl InvalidSignatureHex, \<lparr>r_store = \<lparr>h_kv = \<lparr>kv_open = True, buckets = []\<rparr>, h_graph = graph_New\<rparr>, r_verifyKey = Some ''key''\<rparr>)"
proof (rule built_signature_refused [where sig = "replicate 64 (CHR 0x07)"])
  show "TrimSpace (rd_id (ex_description ''a'' [])) \<noteq> []" "TrimSpace (rd_type (ex_description ''a'' [])) \<noteq> []"
    by code_simp+
qed (simp_all add: ReadFile_def ResolvePath_def Abs_def Clean_def IsAbs_def HasPrefix_def comps_def
        clean_comps_def of_comps_def ex_files_def ex_description_def)

end
