(* ===== verification/Supervisor.thy ===== *)
theory Supervisor
  imports StartTrace Registry
begin

text \<open>
  \<^verbatim>\<open>core/supervisor\<close> and \<^verbatim>\<open>core/agentmgr/manager.go\<close>: what the daemon does with the
  manager, the registry and the controllers together. A supervisor holds the manager, the registry
  and the \<open>ctl_world\<close> of the controllers of the manager's agents; registering an agent
  gives it a new controller, and the one it had before goes to \<open>sv_orphans\<close>. The environment gives the host discovery reads, the answers of the
  runners and whether a socket can be armed.
\<close>

section \<open>Model\<close>

record sup_env =
  su_host :: host
  su_paths :: "string list"
  su_ctl :: ctl_env
  su_arm :: "string \<Rightarrow> bool"
  su_name :: string

record supervisor =
  sv_manager :: manager
  sv_registry :: registry
  sv_world :: ctl_world
  sv_traffic :: "string list"
  sv_orphans :: "(string \<times> ctl) list"

text \<open>The controllers an agent's constructor builds: a timer gets no resolver, and its runner reports
  no speech.\<close>

definition agent_cfg :: "string \<Rightarrow> manager \<Rightarrow> agent \<Rightarrow> ctl_cfg" where
  "agent_cfg name am a =
     \<lparr>ctl_host = name,
      ctl_deps = (if a_kind a = TimerRunner then NoResolver else depView (manager_graph am) (a_id a)),
      ctl_caps = \<lparr>SpeechReporter = (a_kind a \<noteq> TimerRunner), FirstFrameReporter = (a_kind a \<noteq> TimerRunner), Resetter = True\<rparr>,
      ReadinessBudget = a_readiness a, SilenceBudget = a_silence a\<rparr>"

definition agent_cfgs :: "string \<Rightarrow> manager \<Rightarrow> ctl_cfgs" where
  "agent_cfgs name am = map (\<lambda>(i, a). (i, agent_cfg name am a)) (am_agents am)"

definition new_controllers :: "string \<Rightarrow> string list \<Rightarrow> ctl_world \<Rightarrow> ctl_world" where
  "new_controllers name is w = fold (\<lambda>i. upd_ctl i (\<lambda>_. NewController i name)) is w"

subsection \<open>Construction\<close>

datatype new_error = TransportInit | BadVerifyKey string verify_error | StoreOpen store_error | NotHybrid

definition NewSupervisor :: "host_files \<Rightarrow> bool \<Rightarrow> string \<Rightarrow> string \<Rightarrow> string \<Rightarrow> bool \<Rightarrow> ctl_world
    \<Rightarrow> (new_error, supervisor) result" where
  "NewSupervisor files transport cfgKey envKey pyRunner production w =
     (if \<not> transport then Inl TransportInit
      else
        let kp = (if cfgKey = [] then envKey else cfgKey);
            key = (if kp = [] then Inr None
              else case LoadPublic files kp of Inl e \<Rightarrow> Inl (BadVerifyKey kp e) | Inr pk \<Rightarrow> Inr (Some pk))
        in bind_res key (\<lambda>pubKey.
             case Open ''hybrid'' of
               Inl e \<Rightarrow> Inl (StoreOpen e)
             | Inr (HybridStore db) \<Rightarrow>
                 Inr \<lparr>sv_manager = NewAgentManager pyRunner production pubKey,
                   sv_registry = NewAgentRegistry db pubKey, sv_world = w, sv_traffic = [], sv_orphans = []\<rparr>
             | Inr _ \<Rightarrow> Inl NotHybrid))"

subsection \<open>Starting and stopping all agents\<close>

definition apply_on :: "sup_env \<Rightarrow> string \<Rightarrow> Action \<Rightarrow> supervisor \<Rightarrow> lc_error option \<times> supervisor" where
  "apply_on env i a sv =
     (case Apply (agent_cfgs (su_name env) (sv_manager sv)) (su_ctl env) i a (sv_world sv) of
        (e, w) \<Rightarrow> (e, sv \<lparr>sv_world := w\<rparr>))"

datatype all_error = OrderCycle | AgentFailed string lc_error

fun apply_each :: "sup_env \<Rightarrow> Action \<Rightarrow> string list \<Rightarrow> supervisor \<Rightarrow> all_error option \<times> supervisor" where
  "apply_each env a [] sv = (None, sv)"
| "apply_each env a (i # is) sv =
     (if Get_agent (sv_manager sv) i = None then apply_each env a is sv
      else case apply_on env i a sv of
        (Some e, sv') \<Rightarrow> (Some (AgentFailed i e), sv')
      | (None, sv') \<Rightarrow> apply_each env a is sv')"

definition StartAll :: "sup_env \<Rightarrow> supervisor \<Rightarrow> all_error option \<times> supervisor" where
  "StartAll env sv = (case TopologicalSort (manager_graph (sv_manager sv)) of
     Inl _ \<Rightarrow> (Some OrderCycle, sv) | Inr order \<Rightarrow> apply_each env ActionStart order sv)"

definition StopAll :: "sup_env \<Rightarrow> supervisor \<Rightarrow> all_error option \<times> supervisor" where
  "StopAll env sv = (case TopologicalSort (manager_graph (sv_manager sv)) of
     Inl _ \<Rightarrow> (Some OrderCycle, sv) | Inr order \<Rightarrow> apply_each env ActionStop (rev order) sv)"

subsection \<open>Discovery and automatic start\<close>

definition description_of :: "(string, string) gomap \<Rightarrow> AgentDescription" where
  "description_of d =
     \<lparr>rd_id = get d ''id'', rd_path = get d ''path'', rd_type = get d ''type'', rd_language = get d ''language'',
      rd_version = get d ''version'', rd_hash = get d ''hash'', rd_caps = csv (get d ''capabilities''),
      rd_requires = (if csv (get d ''requires'') = [] \<and> get d ''deps'' \<noteq> [] then csv (get d ''deps'')
        else csv (get d ''requires'')),
      rd_wants = csv (get d ''wants''), rd_requiredBy = csv (get d ''required_by''),
      rd_wantedBy = csv (get d ''wanted_by''), rd_tags = csv (get d ''tags'')\<rparr>"

text \<open>A registration that fails is logged and passed over.\<close>

definition register_found :: "host \<Rightarrow> (string, string) gomap list \<Rightarrow> registry \<Rightarrow> registry" where
  "register_found h descs r = fold (\<lambda>d r. snd (Register h (Some (description_of d)) r)) descs r"

definition start_order :: "manager \<Rightarrow> string list" where
  "start_order am = (case TopologicalSort (manager_graph am) of
     Inr order \<Rightarrow> order | Inl _ \<Rightarrow> sort (keys (am_agents am)))"

text \<open>The automatic start of one enabled agent: a socket is armed, a timer or a plain service is
  started. The result tells whether one of them succeeded.\<close>

definition auto_start :: "sup_env \<Rightarrow> string \<Rightarrow> agent \<Rightarrow> supervisor \<Rightarrow> bool \<times> supervisor" where
  "auto_start env i ag sv =
     (let desc = Describe (ctl_state (sv_world sv) i) ag;
          typ = get desc ''type''; listen = get desc ''listen_stream'';
          armable = (listen \<noteq> [] \<and> a_kind ag \<noteq> TimerRunner);
          sv1 = (if armable then sv \<lparr>sv_traffic := sv_traffic sv @ [i]\<rparr> else sv);
          armed = (armable \<and> su_arm env i);
          (t, sv2) = (if typ = ''timer'' then
              (case apply_on env i ActionStart sv1 of (e, s) \<Rightarrow> (e = None, s)) else (False, sv1));
          (v, sv3) = (if (typ = ''service'' \<or> typ = ''oneshot'') \<and> listen = [] then
              (case apply_on env i ActionStart sv2 of (e, s) \<Rightarrow> (e = None, s)) else (False, sv2))
      in (armed \<or> t \<or> v, sv3))"

text \<open>The loop over the start order; \<open>started\<close> collects the agents started or armed.\<close>

fun start_loop :: "sup_env \<Rightarrow> string list \<Rightarrow> string list \<Rightarrow> supervisor \<Rightarrow> string list \<times> supervisor" where
  "start_loop env [] started sv = (started, sv)"
| "start_loop env (i # is) started sv =
     (if \<not> is_ok (Lookup i (sv_registry sv)) then start_loop env is started sv
      else case Get_agent (sv_manager sv) i of
        None \<Rightarrow> start_loop env is started sv
      | Some ag \<Rightarrow>
        if \<exists>r \<in> set (Requires (a_deps ag)). r \<notin> set started then start_loop env is started sv
        else if \<not> AgentEnabled ag then start_loop env is started sv
        else (case auto_start env i ag sv of
          (ok, sv') \<Rightarrow> start_loop env is (if ok then started @ [i] else started) sv'))"

text \<open>What \<^verbatim>\<open>setupAgents\<close> does before the loop: discovery replaces the agents it finds, each
  with a new controller, and the registry is told of each.\<close>

definition discovered :: "sup_env \<Rightarrow> supervisor \<Rightarrow> supervisor" where
  "discovered env sv =
     (case DiscoverFromPaths (su_host env) (su_paths env) (sv_manager sv) of
        (am, descs) \<Rightarrow>
          let ids = map (\<lambda>d. get d ''id'') descs in
          sv \<lparr>sv_manager := am,
            sv_registry := register_found (su_host env) descs (sv_registry sv),
            sv_world := new_controllers (su_name env) ids (sv_world sv),
            sv_traffic := filter (\<lambda>i. i \<notin> set ids) (sv_traffic sv),
            sv_orphans := sv_orphans sv @
              map (\<lambda>i. (i, ctls (sv_world sv) i)) (filter (\<lambda>i. Get_agent (sv_manager sv) i \<noteq> None) ids)\<rparr>)"

definition setupAgents :: "sup_env \<Rightarrow> supervisor \<Rightarrow> string list \<times> supervisor" where
  "setupAgents env sv = (let sv1 = discovered env sv in start_loop env (start_order (sv_manager sv1)) [] sv1)"

text \<open>The handler of traffic on an armed socket, and the \<^verbatim>\<open>agent.reload\<close> topic.\<close>

definition on_traffic :: "sup_env \<Rightarrow> string \<Rightarrow> supervisor \<Rightarrow> supervisor" where
  "on_traffic env i sv = (if i \<in> set (sv_traffic sv) then snd (apply_on env i ActionStart sv) else sv)"

definition on_agent_reload :: "sup_env \<Rightarrow> supervisor \<Rightarrow> supervisor" where
  "on_agent_reload env sv = snd (setupAgents env sv)"

section \<open>The agents a manager holds\<close>

definition agents_ok :: "manager \<Rightarrow> bool" where
  "agents_ok am \<longleftrightarrow> gomap_ok (am_agents am) \<and>
     (\<forall>i a. Get_agent am i = Some a \<longrightarrow> a_id a = i \<and> (a_kind a = TimerRunner \<longrightarrow> a_deps a = no_deps))"

lemma agents_ok_New [simp]: "agents_ok (NewAgentManager p production k)"
  by (simp add: agents_ok_def NewAgentManager_def Get_agent_def gomap_ok_def keys_def)

lemma agents_ok_Register:
  "agents_ok am \<Longrightarrow> (a_kind a = TimerRunner \<Longrightarrow> a_deps a = no_deps) \<Longrightarrow> agents_ok (Register_agent a am)"
  by (auto simp: agents_ok_def Register_agent_def Get_agent_def update_conv')

lemma new_discovered_timer_deps: "a_kind (new_discovered am path d) = TimerRunner \<Longrightarrow> a_deps (new_discovered am path d) = no_deps"
  by (auto simp: new_discovered_def Let_def of_timer_def NewPythonAgent_def NewGoAgent_def split: if_splits)

definition timers_free :: "agent list \<Rightarrow> bool" where
  "timers_free as \<longleftrightarrow> (\<forall>a \<in> set as. a_kind a = TimerRunner \<longrightarrow> a_deps a = no_deps)"

lemma processDiscovered_timers: "timers_free as \<Longrightarrow> timers_free (processDiscovered am path d as)"
  using new_discovered_timer_deps [of am path d]
  by (auto simp: processDiscovered_def Let_def timers_free_def split: sum.splits)

lemma discover_walk_timers: "timers_free as \<Longrightarrow> timers_free (fst (discover_walk h am es as))"
proof (induction es arbitrary: as)
  case (Cons e es)
  have "timers_free (visit h am e as)"
    using Cons.prems processDiscovered_timers by (auto simp: visit_def split: option.split sum.split)
  with Cons show ?case by simp
qed simp

lemma register_new_agents_ok:
  "agents_ok am \<Longrightarrow> timers_free as \<Longrightarrow> register_new as seen am out = (seen', am', out') \<Longrightarrow> agents_ok am'"
proof (induction as seen am out rule: register_new.induct)
  case (2 a as seen am out)
  then show ?case by (auto simp: timers_free_def agents_ok_Register split: if_splits)
qed simp

lemma discover_paths_agents_ok: "agents_ok am \<Longrightarrow> agents_ok (fst (discover_paths h ps seen am out))"
proof (induction ps arbitrary: seen am out)
  case (Cons p ps)
  obtain as b where d: "discoverFromSinglePath h am p = (as, b)" by fastforce
  obtain seen' am' out' where r: "register_new as seen am out = (seen', am', out')" by (metis prod_cases3)
  have "timers_free as"
    using discover_walk_timers [of "[]" h am "h_walk h p"] d by (simp add: discoverFromSinglePath_def timers_free_def)
  from register_new_agents_ok [OF Cons.prems this r] Cons show ?case by (simp add: d r)
qed simp

lemma DiscoverFromPaths_agents_ok: "agents_ok am \<Longrightarrow> agents_ok (fst (DiscoverFromPaths h ps am))"
  unfolding DiscoverFromPaths_def by (rule discover_paths_agents_ok)

lemma manager_graph_map: "map_of (manager_graph am) i = map_option a_deps (Get_agent am i)"
  by (simp add: manager_graph_def Get_agent_def map_of_map)

lemma cfgs_map: "map_of (agent_cfgs name am) i = map_option (agent_cfg name am) (Get_agent am i)"
  by (simp add: agent_cfgs_def Get_agent_def map_of_map)

lemma agent_deps_of:
  assumes "agents_ok am" "Get_agent am i = Some a"
  shows "hard_of (agent_cfgs name am) i = Requires (a_deps a)" "soft_of (agent_cfgs name am) i = Wants (a_deps a)"
  using assms
  by (auto simp: hard_of_def soft_of_def cfgs_map agent_cfg_def depView_def manager_graph_map dependencyClasses_def
      agents_ok_def no_deps_def)

lemma no_agent_no_deps:
  "Get_agent am i = None \<Longrightarrow> hard_of (agent_cfgs name am) i = []" "Get_agent am i = None \<Longrightarrow> soft_of (agent_cfgs name am) i = []"
  by (simp_all add: hard_of_def soft_of_def cfgs_map)

section \<open>Which agents the automatic start reaches\<close>

definition unit_type :: "agent \<Rightarrow> string" where
  "unit_type a = (if a_kind a = TimerRunner then ''timer'' else a_type a)"

definition unit_listen :: "agent \<Rightarrow> string" where
  "unit_listen a = (if a_kind a = TimerRunner then [] else a_listen a)"

text \<open>Agents started at once, and agents whose socket is armed instead.\<close>

definition launched :: "agent \<Rightarrow> bool" where
  "launched a \<longleftrightarrow> unit_type a = ''timer'' \<or> unit_type a \<in> {''service'', ''oneshot''} \<and> unit_listen a = []"

definition armed :: "sup_env \<Rightarrow> agent \<Rightarrow> bool" where
  "armed env a \<longleftrightarrow> unit_listen a \<noteq> [] \<and> su_arm env (a_id a)"

inductive eligible :: "sup_env \<Rightarrow> manager \<Rightarrow> registry \<Rightarrow> string \<Rightarrow> bool" for env am r where
  eligibleI: "is_ok (Lookup i r) \<Longrightarrow> Get_agent am i = Some a \<Longrightarrow> AgentEnabled a \<Longrightarrow> launched a \<or> armed env a \<Longrightarrow>
    \<forall>d \<in> set (Requires (a_deps a)). eligible env am r d \<Longrightarrow> eligible env am r i"

inductive_cases eligibleE: "eligible env am r i"

lemma Describe_unit:
  "get (Describe st a) ''type'' = unit_type a" "get (Describe st a) ''listen_stream'' = unit_listen a"
  by (simp_all add: Describe_def unit_type_def unit_listen_def get_def)

lemma auto_start_eq:
  "auto_start env i a sv =
     (let sv1 = (if unit_listen a \<noteq> [] then sv \<lparr>sv_traffic := sv_traffic sv @ [i]\<rparr> else sv) in
      if launched a then (case apply_on env i ActionStart sv1 of
          (e, sv') \<Rightarrow> (e = None \<or> unit_listen a \<noteq> [] \<and> su_arm env i, sv'))
      else (unit_listen a \<noteq> [] \<and> su_arm env i, sv1))"
proof -
  have t: "a_kind a = TimerRunner \<Longrightarrow> unit_listen a = []" by (simp add: unit_listen_def)
  show ?thesis
    unfolding auto_start_def Describe_unit launched_def Let_def
    using t by (auto split: prod.splits)
qed

text \<open>What an automatic start keeps: the manager and the registry, the quiet of the controllers.\<close>

lemma apply_on_start:
  assumes "quiet (sv_world sv)" "apply_on env i ActionStart sv = (e, sv')"
  obtains w' where "sv' = sv \<lparr>sv_world := w'\<rparr>" "quiet w'" "start_rel (agent_cfgs (su_name env) (sv_manager sv)) (sv_world sv) w'"
    "e = None \<Longrightarrow> up w' i"
    "Apply (agent_cfgs (su_name env) (sv_manager sv)) (su_ctl env) i ActionStart (sv_world sv) = (e, w')"
proof -
  obtain w' where w: "Apply (agent_cfgs (su_name env) (sv_manager sv)) (su_ctl env) i ActionStart (sv_world sv) = (e, w')"
    "sv' = sv \<lparr>sv_world := w'\<rparr>"
    using assms(2) by (auto simp: apply_on_def split: prod.splits)
  from Apply_start_main [OF assms(1) w(1)] that w show thesis by blast
qed

definition same_base :: "supervisor \<Rightarrow> supervisor \<Rightarrow> bool" where
  "same_base sv sv' \<longleftrightarrow> sv_manager sv' = sv_manager sv \<and> sv_registry sv' = sv_registry sv \<and> sv_orphans sv' = sv_orphans sv"

lemma auto_start_step:
  assumes "quiet (sv_world sv)" "auto_start env i a sv = (ok, sv')"
  shows "same_base sv sv' \<and> quiet (sv_world sv') \<and> (ok \<longrightarrow> launched a \<or> unit_listen a \<noteq> [] \<and> su_arm env i) \<and>
    (if launched a then \<exists>e. Apply (agent_cfgs (su_name env) (sv_manager sv)) (su_ctl env) i ActionStart (sv_world sv)
          = (e, sv_world sv') \<and> (e = None \<longrightarrow> ok)
     else sv_world sv' = sv_world sv \<and> ok = (unit_listen a \<noteq> [] \<and> su_arm env i))"
proof -
  let ?sv1 = "if unit_listen a \<noteq> [] then sv \<lparr>sv_traffic := sv_traffic sv @ [i]\<rparr> else sv"
  have b: "sv_manager ?sv1 = sv_manager sv" "sv_world ?sv1 = sv_world sv" "same_base sv ?sv1"
    by (simp_all add: same_base_def)
  show ?thesis
  proof (cases "launched a")
    case True
    obtain e sv2 where a: "apply_on env i ActionStart ?sv1 = (e, sv2)" by fastforce
    have q: "quiet (sv_world ?sv1)" using assms(1) b(2) by simp
    obtain w' where w': "sv2 = ?sv1 \<lparr>sv_world := w'\<rparr>" "quiet w'"
      "Apply (agent_cfgs (su_name env) (sv_manager ?sv1)) (su_ctl env) i ActionStart (sv_world ?sv1) = (e, w')"
      using apply_on_start [OF q a] by metis
    have r: "(ok, sv') = (e = None \<or> unit_listen a \<noteq> [] \<and> su_arm env i, sv2)"
      using assms(2) True a unfolding auto_start_eq Let_def by simp
    have "same_base sv sv2" using b(3) w'(1) by (simp add: same_base_def)
    with r w' True b show ?thesis by auto
  next
    case False
    then have "(ok, sv') = (unit_listen a \<noteq> [] \<and> su_arm env i, ?sv1)"
      using assms(2) unfolding auto_start_eq Let_def by simp
    with False b assms(1) show ?thesis by auto
  qed
qed

lemma same_base_refl [simp]: "same_base sv sv"
  by (simp add: same_base_def)

lemma same_base_trans: "same_base a b \<Longrightarrow> same_base b c \<Longrightarrow> same_base a c"
  by (simp add: same_base_def)

text \<open>One agent of the loop: it is passed over, or it is eligible and its automatic start is made.\<close>

lemma start_loop_step:
  assumes "agents_ok (sv_manager sv)" "\<forall>x \<in> set started. eligible env (sv_manager sv) (sv_registry sv) x"
  obtains (skip) "start_loop env (i # is) started sv = start_loop env is started sv"
      "\<not> (\<exists>a. is_ok (Lookup i (sv_registry sv)) \<and> Get_agent (sv_manager sv) i = Some a \<and> AgentEnabled a \<and>
         set (Requires (a_deps a)) \<subseteq> set started)"
  | (attempt) a ok sv' where "is_ok (Lookup i (sv_registry sv))" "Get_agent (sv_manager sv) i = Some a" "AgentEnabled a"
      "set (Requires (a_deps a)) \<subseteq> set started" "auto_start env i a sv = (ok, sv')"
      "start_loop env (i # is) started sv = start_loop env is (if ok then started @ [i] else started) sv'"
      "a_id a = i" "launched a \<or> armed env a \<Longrightarrow> eligible env (sv_manager sv) (sv_registry sv) i"
proof (cases "\<exists>a. is_ok (Lookup i (sv_registry sv)) \<and> Get_agent (sv_manager sv) i = Some a \<and> AgentEnabled a \<and>
    set (Requires (a_deps a)) \<subseteq> set started")
  case True
  then obtain a where a: "is_ok (Lookup i (sv_registry sv))" "Get_agent (sv_manager sv) i = Some a" "AgentEnabled a"
    "set (Requires (a_deps a)) \<subseteq> set started" by blast
  obtain ok sv' where st: "auto_start env i a sv = (ok, sv')" by fastforce
  have n: "\<not> (\<exists>r \<in> set (Requires (a_deps a)). r \<notin> set started)" using a(4) by blast
  have l: "start_loop env (i # is) started sv = start_loop env is (if ok then started @ [i] else started) sv'"
    using a(1-3) n st by simp
  have "a_id a = i" using assms(1) a(2) by (simp add: agents_ok_def)
  moreover have "eligible env (sv_manager sv) (sv_registry sv) i" if "launched a \<or> armed env a"
    using eligibleI [OF a(1-3) that] a(4) assms(2) by blast
  ultimately show thesis using attempt a st l by blast
next
  case False
  then have "start_loop env (i # is) started sv = start_loop env is started sv"
    by (auto split: option.split) 
  then show thesis using skip False by blast
qed

lemma start_loop_safe:
  assumes "agents_ok (sv_manager sv)" "quiet (sv_world sv)"
    and "\<forall>x \<in> set started. eligible env (sv_manager sv) (sv_registry sv) x"
    and R: "deps_within (agent_cfgs (su_name env) (sv_manager sv)) R"
      "\<And>x. x \<in> set is \<Longrightarrow> eligible env (sv_manager sv) (sv_registry sv) x \<Longrightarrow> x \<in> R"
    and "start_loop env is started sv = (started', sv')"
  shows "same_base sv sv' \<and> quiet (sv_world sv') \<and> writes R (sv_world sv) (sv_world sv') \<and>
    start_rel (agent_cfgs (su_name env) (sv_manager sv)) (sv_world sv) (sv_world sv') \<and>
    (\<forall>x \<in> set started'. eligible env (sv_manager sv) (sv_registry sv) x)"
  using assms
proof (induction "is" arbitrary: started sv)
  case Nil
  then show ?case by (simp add: writes_refl start_rel_refl)
next
  case (Cons i "is")
  let ?cfgs = "agent_cfgs (su_name env) (sv_manager sv)"
  show ?case
  proof (cases rule: start_loop_step [OF Cons.prems(1, 3), of i "is", case_names skip attempt])
    case skip
    with Cons show ?thesis by simp
  next
    case (attempt a ok sv1)
    note st = auto_start_step [OF Cons.prems(2) attempt(5)]
    have b: "sv_manager sv1 = sv_manager sv" "sv_registry sv1 = sv_registry sv" "same_base sv sv1"
      using st by (simp_all add: same_base_def)
    have el: "ok \<Longrightarrow> eligible env (sv_manager sv) (sv_registry sv) i"
      using st attempt(7, 8) by (auto simp: armed_def)
    have w: "writes R (sv_world sv) (sv_world sv1) \<and> start_rel ?cfgs (sv_world sv) (sv_world sv1)"
    proof (cases "launched a")
      case True
      then obtain e where ap: "Apply ?cfgs (su_ctl env) i ActionStart (sv_world sv) = (e, sv_world sv1)" using st by auto
      have "i \<in> R" using Cons.prems(5) attempt(8) True by simp
      with Apply_start_writes [OF ap Cons.prems(4)] Apply_start_main(1) [OF Cons.prems(2) ap] show ?thesis by blast
    next
      case False
      with st show ?thesis by (simp add: writes_refl start_rel_refl)
    qed
    have "same_base sv1 sv' \<and> quiet (sv_world sv') \<and> writes R (sv_world sv1) (sv_world sv') \<and>
        start_rel (agent_cfgs (su_name env) (sv_manager sv1)) (sv_world sv1) (sv_world sv') \<and>
        (\<forall>x \<in> set started'. eligible env (sv_manager sv1) (sv_registry sv1) x)"
    proof (rule Cons.IH)
      show "start_loop env is (if ok then started @ [i] else started) sv1 = (started', sv')"
        using Cons.prems(6) attempt(6) by simp
      show "\<forall>x \<in> set (if ok then started @ [i] else started). eligible env (sv_manager sv1) (sv_registry sv1) x"
        using Cons.prems(3) el b by simp
    qed (use Cons.prems b st in auto)
    with b w show ?thesis using writes_trans start_rel_trans same_base_trans by metis
  qed
qed

section \<open>The automatic start succeeds\<close>

definition rank_in :: "string list \<Rightarrow> string \<Rightarrow> nat" where
  "rank_in order x = length (takeWhile (\<lambda>y. y \<noteq> x) order)"

lemma before_rank:
  assumes "before order d i" "distinct order"
  shows "rank_in order d < rank_in order i"
proof -
  obtain us vs where u: "order = us @ vs" "d \<in> set us" "i \<in> set vs" using assms(1) by (auto simp: before_def)
  then have n: "\<forall>y \<in> set us. y \<noteq> i" using assms(2) by auto
  have "length (takeWhile (\<lambda>y. y \<noteq> d) us) < length us"
    using u(2) by (metis length_takeWhile_le linorder_not_less nat_less_le set_takeWhileD takeWhile_eq_take take_all_iff)
  moreover have "takeWhile (\<lambda>y. y \<noteq> d) (us @ vs) = takeWhile (\<lambda>y. y \<noteq> d) us"
    by (rule takeWhile_append1 [OF u(2)]) simp
  moreover have "takeWhile (\<lambda>y. y \<noteq> i) (us @ vs) = us @ takeWhile (\<lambda>y. y \<noteq> i) vs"
    using n by (simp add: takeWhile_append2)
  ultimately show ?thesis unfolding rank_in_def u(1) by simp
qed

lemma before_prefix: "before (p @ i # is) d i \<Longrightarrow> distinct (p @ i # is) \<Longrightarrow> d \<in> set p"
  by (induction p) (auto simp: before_Cons dest: before_in_set)

lemma eligible_agent: "eligible env am r i \<Longrightarrow> \<exists>a. Get_agent am i = Some a"
  by (auto elim: eligibleE)

lemma eligible_not_self: "eligible env am r i \<Longrightarrow> Get_agent am i = Some a \<Longrightarrow> i \<notin> set (Requires (a_deps a))"
proof (induction arbitrary: a rule: eligible.induct)
  case (eligibleI i b)
  then have "a = b" by simp
  with eligibleI show ?case by blast
qed

lemma topo_requires:
  assumes "gomap_ok agents" "TopologicalSort agents = Inr order"
  shows "distinct order" "set order = set (keys agents)" "requires_edge agents n d \<Longrightarrow> before order d n"
proof -
  note g = hard_map_spec(1) [OF assms(1)]
  have S: "Sort (hard_map agents) (soft_map agents) = Inr order" using assms(2) by (simp add: TopologicalSort_Inr)
  show "distinct order" "set order = set (keys agents)"
    using topo.srt_perm [OF g S] hard_map_spec(2) [OF assms(1)] by auto
  assume "requires_edge agents n d"
  then have "(n, d) \<in> (set (edgeSet (keys (hard_map agents)) (hard_map agents)))\<^sup>+"
    unfolding hard_map_spec(3) [OF assms(1)] by auto
  then show "before order d n" by (rule topo.transitive_hard [OF g S])
qed

lemma eligible_before:
  assumes "agents_ok am" "TopologicalSort (manager_graph am) = Inr order" "eligible env am r i"
    "Get_agent am i = Some a" "d \<in> set (Requires (a_deps a))"
  shows "before order d i"
proof -
  have g: "gomap_ok (manager_graph am)" using assms(1) by (simp add: agents_ok_def manager_graph_def)
  have mem: "(j, a_deps b) \<in> set (manager_graph am)" if "Get_agent am j = Some b" for j b
    using that by (simp add: gomap_ok_map_of [OF g] manager_graph_map)
  have "eligible env am r d" using assms(3-5) by (auto elim: eligibleE)
  then obtain b where b: "Get_agent am d = Some b" using eligible_agent by blast
  have ks: "i \<in> set (keys (manager_graph am))" "d \<in> set (keys (manager_graph am))"
    using mem [OF assms(4)] mem [OF b] by (force simp: keys_def)+
  have "d \<noteq> i" using eligible_not_self [OF assms(3, 4)] assms(5) by blast
  then have "requires_edge (manager_graph am) i d"
    unfolding requires_edge_def using ks mem [OF assms(4)] assms(5) by blast
  then show ?thesis by (rule topo_requires(3) [OF g assms(2)])
qed

lemma eligible_ranked:
  assumes "agents_ok am" "TopologicalSort (manager_graph am) = Inr order"
  shows "ranked_in (agent_cfgs name am) (rank_in order) {i. eligible env am r i}"
  unfolding ranked_in_def
proof (intro ballI)
  fix i d assume i: "i \<in> {i. eligible env am r i}" and d: "d \<in> set (hard_of (agent_cfgs name am) i)"
  obtain a where a: "Get_agent am i = Some a" using eligible_agent i by blast
  have r: "d \<in> set (Requires (a_deps a))" using d agent_deps_of(1) [OF assms(1) a] by simp
  have e: "eligible env am r d" using i r a by (auto elim: eligibleE)
  obtain b where b: "Get_agent am d = Some b" using eligible_agent [OF e] by blast
  have "gomap_ok (manager_graph am)" using assms(1) by (simp add: agents_ok_def manager_graph_def)
  then have "distinct order" by (rule topo_requires(1) [OF _ assms(2)])
  with eligible_before [OF assms _ a r] i have "rank_in order d < rank_in order i" by (auto intro: before_rank)
  with e b show "map_of (agent_cfgs name am) d \<noteq> None \<and> d \<in> {i. eligible env am r i} \<and> rank_in order d < rank_in order i"
    by (simp add: cfgs_map)
qed

lemma eligible_requires_started:
  assumes "agents_ok am" "TopologicalSort (manager_graph am) = Inr (p @ i # is)" "eligible env am r i" "Get_agent am i = Some a"
  shows "set (Requires (a_deps a)) \<subseteq> set (filter (eligible env am r) p)"
proof
  have g: "gomap_ok (manager_graph am)" using assms(1) by (simp add: agents_ok_def manager_graph_def)
  note ds = topo_requires(1) [OF g assms(2)]
  fix d assume d: "d \<in> set (Requires (a_deps a))"
  have "before (p @ i # is) d i" by (rule eligible_before [OF assms d])
  then have "d \<in> set p" by (rule before_prefix [OF _ ds])
  moreover have "eligible env am r d" using assms(3, 4) d by (auto elim: eligibleE)
  ultimately show "d \<in> set (filter (eligible env am r) p)" by simp
qed

lemma start_loop_live:
  assumes "agents_ok (sv_manager sv)" "quiet (sv_world sv)" "startable (sv_world sv)" "responsive (su_ctl env)"
    and order: "TopologicalSort (manager_graph (sv_manager sv)) = Inr (p @ is @ rest)"
    and "started = filter (eligible env (sv_manager sv) (sv_registry sv)) p"
    and "\<And>x a. x \<in> set started \<Longrightarrow> Get_agent (sv_manager sv) x = Some a \<Longrightarrow> launched a \<Longrightarrow> up (sv_world sv) x"
    and "start_loop env is started sv = (started', sv')"
  shows "started' = filter (eligible env (sv_manager sv) (sv_registry sv)) (p @ is) \<and> startable (sv_world sv') \<and>
    (\<forall>x a. x \<in> set started' \<and> Get_agent (sv_manager sv) x = Some a \<and> launched a \<longrightarrow> up (sv_world sv') x)"
  using assms
proof (induction "is" arbitrary: p started sv)
  case Nil
  then show ?case by auto
next
  case (Cons i "is")
  let ?am = "sv_manager sv" let ?el = "eligible env ?am (sv_registry sv)" let ?cfgs = "agent_cfgs (su_name env) ?am"
  have el: "\<forall>x \<in> set started. ?el x" using Cons.prems(6) by simp
  have req: "set (Requires (a_deps a)) \<subseteq> set started" if "?el i" "Get_agent ?am i = Some a" for a
    using eligible_requires_started [OF Cons.prems(1) _ that, of p "is @ rest"] Cons.prems(5, 6) by simp
  show ?case
  proof (cases rule: start_loop_step [OF Cons.prems(1) el, of i "is", case_names skip attempt])
    case skip
    have "\<not> ?el i" using skip(2) req by (blast elim: eligibleE)
    then have "started = filter ?el (p @ [i])" using Cons.prems(6) by simp
    with Cons.IH [OF Cons.prems(1-4), of "p @ [i]" started] Cons.prems(5, 7, 8) skip(1) show ?thesis by simp
  next
    case (attempt a ok sv1)
    note st = auto_start_step [OF Cons.prems(2) attempt(5)]
    have b: "sv_manager sv1 = ?am" "sv_registry sv1 = sv_registry sv" using st by (simp_all add: same_base_def)
    have iff: "?el i \<longleftrightarrow> launched a \<or> armed env a" using attempt(2, 8) by (auto elim: eligibleE)
    have w: "ok = ?el i \<and> startable (sv_world sv1) \<and> (\<forall>x. up (sv_world sv) x \<longrightarrow> up (sv_world sv1) x) \<and>
        (launched a \<longrightarrow> up (sv_world sv1) i)"
    proof (cases "launched a")
      case True
      then obtain e where ap: "Apply ?cfgs (su_ctl env) i ActionStart (sv_world sv) = (e, sv_world sv1)" "e = None \<longrightarrow> ok"
        using st by auto
      have "e = None \<and> startable (sv_world sv1)"
        by (rule Apply_start_succeeds_in [OF Cons.prems(2-4) eligible_ranked [OF Cons.prems(1, 5)] _ _ ap(1)])
          (use iff True attempt(2) in \<open>simp_all add: cfgs_map\<close>)
      then have e: "e = None" "startable (sv_world sv1)" by simp_all
      note m = Apply_start_main [OF Cons.prems(2) ap(1)]
      have "ok" "?el i" using ap(2) e(1) iff True by simp_all
      moreover have "up (sv_world sv1) x" if "up (sv_world sv) x" for x using start_rel_up [OF m(1) that] .
      ultimately show ?thesis using e(2) m(3) [OF e(1)] by blast
    next
      case False
      then have "sv_world sv1 = sv_world sv" "ok = (unit_listen a \<noteq> [] \<and> su_arm env i)" using st by (simp_all only: if_False)
      moreover have "?el i = (unit_listen a \<noteq> [] \<and> su_arm env i)"
        unfolding iff armed_def attempt(7) using False by blast
      ultimately show ?thesis using Cons.prems(3) False by (simp only:) blast
    qed
    have "started' = filter (eligible env (sv_manager sv1) (sv_registry sv1)) ((p @ [i]) @ is) \<and> startable (sv_world sv') \<and>
      (\<forall>x a. x \<in> set started' \<and> Get_agent (sv_manager sv1) x = Some a \<and> launched a \<longrightarrow> up (sv_world sv') x)"
    proof (rule Cons.IH)
      show "start_loop env is (if ok then started @ [i] else started) sv1 = (started', sv')"
        using Cons.prems(8) attempt(6) by simp
      show "TopologicalSort (manager_graph (sv_manager sv1)) = Inr ((p @ [i]) @ is @ rest)" using Cons.prems(5) b by simp
      show "(if ok then started @ [i] else started) = filter (eligible env (sv_manager sv1) (sv_registry sv1)) (p @ [i])"
        using Cons.prems(6) w b by simp
      fix x c assume x: "x \<in> set (if ok then started @ [i] else started)" "Get_agent (sv_manager sv1) x = Some c" "launched c"
      show "up (sv_world sv1) x"
      proof (cases "x \<in> set started")
        case True
        with x Cons.prems(7) [of x c] b w show ?thesis by simp
      next
        case False
        with x have "x = i" by (auto split: if_splits)
        with x attempt(2) b w show ?thesis by simp
      qed
    qed (use Cons.prems b w st in auto)
    with b show ?thesis by simp
  qed
qed

section \<open>Discovery gives fresh controllers\<close>

lemma fresh_ctl [simp]:
  "lifecycle_reachable (ctl_sm (NewController i h))" "observers (ctl_sm (NewController i h)) = [(i, h)]"
  "\<not> starting (NewController i h)" "GetState (ctl_sm (NewController i h)) = StateStopped"
  using new_machine
  by (simp_all add: NewController_def NewLifecycleStateMachine_def OnTransition_def NewBaseStateMachine_def GetState_def)

lemma new_controllers_Cons: "new_controllers h (i # is) w = new_controllers h is (upd_ctl i (\<lambda>_. NewController i h) w)"
  by (simp add: new_controllers_def)

lemma new_controllers_ctls:
  "ctls (new_controllers h is w) j = (if j \<in> set is then NewController j h else ctls w j)"
  by (induction "is" arbitrary: w) (auto simp: new_controllers_Cons upd_ctl_def, simp_all add: new_controllers_def)

lemma new_controllers_trace [simp]: "trace (new_controllers h is w) = trace w"
  by (induction "is" arbitrary: w) (simp_all add: new_controllers_Cons, simp add: new_controllers_def)

lemma new_controllers_quiet: "quiet w \<Longrightarrow> quiet (new_controllers h is w)"
  by (simp add: quiet_def machines_ok_def new_controllers_ctls)

lemma new_controllers_state:
  "ctl_state (new_controllers h is w) j = (if j \<in> set is then StateStopped else ctl_state w j)"
  by (simp add: ctl_state_def new_controllers_ctls)

lemma new_controllers_startable: "startable w \<Longrightarrow> startable (new_controllers h is w)"
  by (auto simp: startable_def machines_ok_def new_controllers_ctls new_controllers_state)

text \<open>The identifiers discovery registers.\<close>

definition found_ids :: "sup_env \<Rightarrow> supervisor \<Rightarrow> string list" where
  "found_ids env sv = map (\<lambda>d. get d ''id'') (snd (DiscoverFromPaths (su_host env) (su_paths env) (sv_manager sv)))"

lemma discovered_facts:
  "sv_world (discovered env sv) = new_controllers (su_name env) (found_ids env sv) (sv_world sv)"
  "sv_manager (discovered env sv) = fst (DiscoverFromPaths (su_host env) (su_paths env) (sv_manager sv))"
  "agents_ok (sv_manager sv) \<Longrightarrow> agents_ok (sv_manager (discovered env sv))"
  "sv_orphans (discovered env sv) = sv_orphans sv @
     map (\<lambda>i. (i, ctls (sv_world sv) i)) (filter (\<lambda>i. Get_agent (sv_manager sv) i \<noteq> None) (found_ids env sv))"
  using DiscoverFromPaths_agents_ok [of "sv_manager sv" "su_host env" "su_paths env"]
  by (cases "DiscoverFromPaths (su_host env) (su_paths env) (sv_manager sv)";
    simp add: discovered_def found_ids_def Let_def)+

lemma setupAgents_facts:
  assumes "agents_ok (sv_manager sv)" "quiet (sv_world sv)" "setupAgents env sv = (started, sv')"
    and "deps_within (agent_cfgs (su_name env) (sv_manager sv')) R"
    and "\<And>x. eligible env (sv_manager sv') (sv_registry sv') x \<Longrightarrow> x \<in> R"
  shows "same_base (discovered env sv) sv'" "writes R (sv_world sv) (sv_world sv')" "quiet (sv_world sv')"
    "start_rel (agent_cfgs (su_name env) (sv_manager sv')) (sv_world (discovered env sv)) (sv_world sv')"
    "\<forall>x \<in> set started. eligible env (sv_manager sv') (sv_registry sv') x"
proof -
  let ?s = "discovered env sv"
  have l: "start_loop env (start_order (sv_manager ?s)) [] ?s = (started, sv')"
    using assms(3) by (simp add: setupAgents_def Let_def)
  have q: "quiet (sv_world ?s)" using assms(2) by (simp add: discovered_facts(1) new_controllers_quiet)
  note ok = discovered_facts(3) [OF assms(1)]
  have base: "same_base ?s sv'"
    using start_loop_safe [OF ok q, of "[]" env UNIV "start_order (sv_manager ?s)" started sv'] l
    by (auto simp: deps_within_def)
  then have b: "sv_manager ?s = sv_manager sv'" "sv_registry ?s = sv_registry sv'" by (simp_all add: same_base_def)
  have "same_base ?s sv' \<and> quiet (sv_world sv') \<and> writes R (sv_world ?s) (sv_world sv') \<and>
    start_rel (agent_cfgs (su_name env) (sv_manager ?s)) (sv_world ?s) (sv_world sv') \<and>
    (\<forall>x \<in> set started. eligible env (sv_manager ?s) (sv_registry ?s) x)"
    by (rule start_loop_safe [OF ok q _ _ _ l]) (use assms(4, 5) b in auto)
  then show "same_base ?s sv'" "quiet (sv_world sv')"
    "start_rel (agent_cfgs (su_name env) (sv_manager sv')) (sv_world (discovered env sv)) (sv_world sv')"
    "\<forall>x \<in> set started. eligible env (sv_manager sv') (sv_registry sv') x"
    "writes R (sv_world sv) (sv_world sv')"
    unfolding b by (auto simp: writes_def discovered_facts(1))
qed

lemma setup_starts_live:
  assumes "agents_ok (sv_manager sv)" "quiet (sv_world sv)" "startable (sv_world sv)" "responsive (su_ctl env)"
    and "setupAgents env sv = (started, sv')" "TopologicalSort (manager_graph (sv_manager sv')) = Inr order"
  shows "started = filter (eligible env (sv_manager sv') (sv_registry sv')) order \<and>
    (\<forall>i a. eligible env (sv_manager sv') (sv_registry sv') i \<and> Get_agent (sv_manager sv') i = Some a \<and> launched a \<longrightarrow>
      up (sv_world sv') i) \<and> startable (sv_world sv')"
proof -
  let ?s = "discovered env sv"
  note F = setupAgents_facts [OF assms(1, 2, 5), of UNIV]
  have b: "sv_manager ?s = sv_manager sv'" "sv_registry ?s = sv_registry sv'"
    using F(1) by (simp_all add: same_base_def deps_within_def)
  have ok: "agents_ok (sv_manager sv')" using discovered_facts(3) [OF assms(1), of env] b by simp
  have l: "start_loop env order [] ?s = (started, sv')"
    using assms(5, 6) b by (simp add: setupAgents_def start_order_def Let_def)
  have "started = filter (eligible env (sv_manager ?s) (sv_registry ?s)) ([] @ order) \<and> startable (sv_world sv') \<and>
    (\<forall>x a. x \<in> set started \<and> Get_agent (sv_manager ?s) x = Some a \<and> launched a \<longrightarrow> up (sv_world sv') x)"
    by (rule start_loop_live [where rest = "[]"])
      (use assms(2-4, 6) l ok b in \<open>auto simp: discovered_facts(1) new_controllers_quiet new_controllers_startable\<close>)
  moreover have "i \<in> set order" if "eligible env (sv_manager sv') (sv_registry sv') i" for i
  proof -
    have g: "gomap_ok (manager_graph (sv_manager sv'))" using ok by (simp add: agents_ok_def manager_graph_def)
    have "map_of (manager_graph (sv_manager sv')) i \<noteq> None"
      using eligible_agent [OF that] by (auto simp: manager_graph_map)
    then show ?thesis unfolding topo_requires(2) [OF g assms(6)] by (auto simp: set_keys)
  qed
  ultimately show ?thesis unfolding b by auto
qed

section \<open>Properties of the automatic start\<close>

text \<open>C11: Whatever the order and the answers of the runners, the automatic start counts as started only
  eligible agents - enabled, known to the registry, of a type it starts, with every required agent
  started before - and spawns processes only for them and for what they depend on, transitively; it
  stops, resets and reloads nothing.\<close>

theorem setup_spawns_within:
  assumes "agents_ok (sv_manager sv)" "quiet (sv_world sv)" "setupAgents env sv = (started, sv')"
    and "deps_within (agent_cfgs (su_name env) (sv_manager sv')) R"
    and "\<And>x. eligible env (sv_manager sv') (sv_registry sv') x \<Longrightarrow> x \<in> R"
  shows "(\<forall>x \<in> set started. eligible env (sv_manager sv') (sv_registry sv') x) \<and>
    (\<exists>us. trace (sv_world sv') = trace (sv_world sv) @ us \<and>
      (\<forall>i rid ok. TRunStart i rid ok \<in> set us \<longrightarrow> i \<in> R) \<and>
      (\<forall>i ok. TRunStop i \<notin> set us \<and> TRunReset i \<notin> set us \<and> TRunReload i ok \<notin> set us))"
  using setupAgents_facts(2, 5) [OF assms] by (fastforce simp: writes_def start_event_def)

text \<open>C12: With responsive runners and an order without cycles the automatic start reaches exactly
  the eligible agents, in the order of their requirements, and every one of them that is started at
  once, rather than when its socket sees traffic, is up at the end.\<close>

theorem setup_starts_exactly:
  assumes "agents_ok (sv_manager sv)" "quiet (sv_world sv)" "startable (sv_world sv)" "responsive (su_ctl env)"
    and "setupAgents env sv = (started, sv')" "TopologicalSort (manager_graph (sv_manager sv')) = Inr order"
  shows "started = filter (eligible env (sv_manager sv') (sv_registry sv')) order \<and>
    (\<forall>i a. eligible env (sv_manager sv') (sv_registry sv') i \<and> Get_agent (sv_manager sv') i = Some a \<and> launched a \<longrightarrow>
      up (sv_world sv') i)"
  using setup_starts_live [OF assms] by blast

text \<open>The \<^verbatim>\<open>agent.reload\<close> topic starts every agent a second time: discovery replaces the agents
  it finds again by new ones with controllers in \<open>stopped\<close>, whatever their state, and the
  automatic start spawns them anew. Nothing is stopped, and the controllers of the processes that
  were running are no longer reachable.\<close>

theorem reload_spawns_again:
  assumes "agents_ok (sv_manager sv)" "quiet (sv_world sv)" "startable (sv_world sv)" "responsive (su_ctl env)"
    and "sv' = on_agent_reload env sv" "TopologicalSort (manager_graph (sv_manager sv')) = Inr order"
    and "i \<in> set (found_ids env sv)" "Get_agent (sv_manager sv) i \<noteq> None"
    and "eligible env (sv_manager sv') (sv_registry sv') i" "Get_agent (sv_manager sv') i = Some a" "launched a"
  shows "(i, ctls (sv_world sv) i) \<in> set (sv_orphans sv') \<and>
    (\<exists>us rid. trace (sv_world sv') = trace (sv_world sv) @ us \<and> TRunStart i rid True \<in> set us \<and>
      (\<forall>j. TRunStop j \<notin> set us))"
proof -
  obtain started where st: "setupAgents env sv = (started, sv')"
    using assms(5) by (cases "setupAgents env sv") (simp add: on_agent_reload_def)
  note F = setupAgents_facts [OF assms(1, 2) st, of UNIV]
  have up: "up (sv_world sv') i"
    using setup_starts_live [OF assms(1-4) st assms(6)] assms(9-11) by blast
  have "\<not> up (sv_world (discovered env sv)) i"
    using assms(7) by (simp add: discovered_facts(1) up_def new_controllers_state)
  then obtain us rid where us: "trace (sv_world sv') = trace (sv_world sv) @ us" "TRunStart i rid True \<in> set us"
    using start_relD(3) [OF F(4)] up by (auto simp: deps_within_def discovered_facts(1))
  moreover have "TRunStop j \<notin> set us" for j
    using F(2) us(1) by (fastforce simp: writes_def start_event_def deps_within_def)
  moreover have "(i, ctls (sv_world sv) i) \<in> set (sv_orphans sv')"
    using F(1) assms(7, 8) by (auto simp: same_base_def discovered_facts(4) deps_within_def)
  ultimately show ?thesis by blast
qed

lemma start_loop_append:
  "start_loop env (p @ q) started sv = (case start_loop env p started sv of (st, sv') \<Rightarrow> start_loop env q st sv')"
  by (induction env p started sv rule: start_loop.induct) (auto split: option.splits prod.splits)

text \<open>The conditions of the automatic start do not hold for agents that are only wanted: when it
  starts an agent nothing else depends on, every agent that one wants and that requires nothing is
  started too, though it may be disabled or unknown to the registry, as one is whose signature was
  refused.\<close>

theorem wanted_agents_started_unchecked:
  assumes "agents_ok (sv_manager sv)" "quiet (sv_world sv)" "startable (sv_world sv)" "responsive (su_ctl env)"
    and "setupAgents env sv = (started, sv')" "TopologicalSort (manager_graph (sv_manager sv')) = Inr order"
    and i: "eligible env (sv_manager sv') (sv_registry sv') i" "Get_agent (sv_manager sv') i = Some a" "launched a"
      "i \<in> set (found_ids env sv)"
    and top: "\<And>j b. Get_agent (sv_manager sv') j = Some b \<Longrightarrow> i \<notin> set (Requires (a_deps b)) \<union> set (Wants (a_deps b))"
    and d: "d \<in> set (Wants (a_deps a))" "Get_agent (sv_manager sv') d = Some b" "Requires (a_deps b) = []"
  shows "up (sv_world sv') d"
proof -
  let ?s = "discovered env sv" let ?am = "sv_manager sv'" let ?cfgs = "agent_cfgs (su_name env) ?am"
  have b: "sv_manager ?s = ?am" "sv_registry ?s = sv_registry sv'"
    using setupAgents_facts(1) [OF assms(1, 2, 5), of UNIV] by (simp_all add: same_base_def deps_within_def)
  have ok: "agents_ok ?am" using discovered_facts(3) [OF assms(1), of env] b by simp
  have g: "gomap_ok (manager_graph ?am)" using ok by (simp add: agents_ok_def manager_graph_def)
  have "i \<in> set order" unfolding topo_requires(2) [OF g assms(6)] set_keys using i(2) by (simp add: dom_def manager_graph_map)
  then obtain p q where pq: "order = p @ i # q" by (auto dest: split_list)
  have ni: "i \<notin> set p" using topo_requires(1) [OF g assms(6)] pq by simp
  have s0: "quiet (sv_world ?s)" "startable (sv_world ?s)"
    using assms(2, 3) by (simp_all add: discovered_facts(1) new_controllers_quiet new_controllers_startable)
  obtain st1 s1 where p: "start_loop env p [] ?s = (st1, s1)" by fastforce
  have ot: "TopologicalSort (manager_graph (sv_manager ?s)) = Inr ([] @ p @ i # q)" using assms(6) pq b by simp
  have L: "st1 = filter (eligible env (sv_manager ?s) (sv_registry ?s)) ([] @ p) \<and> startable (sv_world s1) \<and>
    (\<forall>x a. x \<in> set st1 \<and> Get_agent (sv_manager ?s) x = Some a \<and> launched a \<longrightarrow> up (sv_world s1) x)"
    by (rule start_loop_live [OF _ s0 assms(4) ot _ _ p]) (use ok b in auto)
  have R: "deps_within ?cfgs (UNIV - {i})"
    unfolding deps_within_def
  proof (intro ballI)
    fix j assume "j \<in> UNIV - {i}"
    show "set (hard_of ?cfgs j) \<union> set (soft_of ?cfgs j) \<subseteq> UNIV - {i}"
      using top agent_deps_of [OF ok] no_agent_no_deps by (cases "Get_agent ?am j") fastforce+
  qed
  have S: "same_base ?s s1 \<and> quiet (sv_world s1) \<and> writes (UNIV - {i}) (sv_world ?s) (sv_world s1) \<and>
      start_rel (agent_cfgs (su_name env) (sv_manager ?s)) (sv_world ?s) (sv_world s1) \<and>
      (\<forall>x \<in> set st1. eligible env (sv_manager ?s) (sv_registry ?s) x)"
    by (rule start_loop_safe [OF _ s0(1) _ _ _ p]) (use ok b R ni in auto)
  have b1: "sv_manager s1 = ?am" "sv_registry s1 = sv_registry sv'" using S b by (simp_all add: same_base_def)
  have down: "\<not> up (sv_world s1) i"
  proof
    assume u: "up (sv_world s1) i"
    have "\<not> up (sv_world ?s) i" using i(4) by (simp add: discovered_facts(1) up_def new_controllers_state)
    with u S obtain us r where "trace (sv_world s1) = trace (sv_world ?s) @ us" "TRunStart i r True \<in> set us"
      using start_relD(3) by blast
    with S show False by (fastforce simp: writes_def start_event_def)
  qed
  have el: "\<forall>x \<in> set st1. eligible env (sv_manager s1) (sv_registry s1) x" using S b b1 by simp
  have full: "start_loop env (i # q) st1 s1 = (started, sv')"
  proof -
    have "start_loop env (p @ i # q) [] ?s = (started, sv')"
      using assms(5, 6) b pq by (simp add: setupAgents_def start_order_def Let_def)
    then show ?thesis unfolding start_loop_append p by simp
  qed
  show ?thesis
  proof (cases rule: start_loop_step [OF _ el, of i q, case_names ok skip attempt])
    case ok
    then show ?case using \<open>agents_ok ?am\<close> b1 by simp
  next
    case skip
    have "set (Requires (a_deps a)) \<subseteq> set st1"
      using eligible_requires_started [OF ok _ i(1, 2), of p q] assms(6) pq L b by simp
    with skip(2) i b1 have False by (auto elim: eligibleE)
    then show ?thesis ..
  next
    case (attempt a' k s2)
    then have a': "a' = a" using i(2) b1 by simp
    have q1: "quiet (sv_world s1)" using S by blast
    note st = auto_start_step [OF q1 attempt(5)]
    obtain e where ap: "Apply ?cfgs (su_ctl env) i ActionStart (sv_world s1) = (e, sv_world s2)"
      using st a' i(3) b1 by auto
    have s1: "startable (sv_world s1)" using L by blast
    have e: "e = None"
      using Apply_start_succeeds_in [OF q1 s1 assms(4) eligible_ranked [OF ok assms(6)] _ _ ap] i(1, 2)
      by (simp add: cfgs_map)
    have "d \<noteq> i" using top [OF i(2)] d(1) by auto
    then have u: "up (sv_world s2) d"
      using Apply_start_wanted [OF q1 s1 assms(4) down ap [unfolded e]] d agent_deps_of [OF ok] i(2)
      by (simp add: cfgs_map)
    have b2: "sv_manager s2 = ?am" "quiet (sv_world s2)" "\<forall>x \<in> set (if k then st1 @ [i] else st1).
        eligible env (sv_manager s2) (sv_registry s2) x" "sv_registry s2 = sv_registry sv'"
      using st b1 el i(1) by (auto simp: same_base_def)
    have "start_rel (agent_cfgs (su_name env) (sv_manager s2)) (sv_world s2) (sv_world sv')"
      using start_loop_safe [OF _ b2(2, 3), of UNIV q started sv'] attempt(6) full ok b2(1)
      by (simp add: deps_within_def)
    from start_rel_up [OF this u] show ?thesis .
  qed
qed

section \<open>Stopping all agents\<close>

fun stops :: "trace_ev list \<Rightarrow> string list" where
  "stops [] = []"
| "stops (TRunStop i # es) = i # stops es"
| "stops (_ # es) = stops es"

lemma stops_append [simp]: "stops (es @ fs) = stops es @ stops fs"
  by (induction es rule: stops.induct) simp_all

lemma stops_transitions [simp]: "stops (map (\<lambda>n. TTransition (f n)) ns) = []"
  by (induction ns) simp_all

definition stoppable :: "string \<Rightarrow> bool" where
  "stoppable s \<longleftrightarrow> s \<in> {StateStopped, StateRunning, StateStopping, StateError}"

lemma moved_stops: "\<exists>es. trace (moved i s w) = trace w @ es \<and> stops es = []"
  by (cases "TransitionTo (ctl_sm (ctls w i)) s")
    (auto simp: moved_def transition_to_def split: prod.splits)

lemma finish_stop:
  assumes "machines_ok w" "ctl_state w i = StateStopping"
  shows "case snd (transition_to i StateStopped (publishStatus i AS_STOPPED
      (if r then emit [TRunReset i] (emit [TRunStop i] w) else emit [TRunStop i] w))) of w' \<Rightarrow>
    machines_ok w' \<and> ctl_state w' i = StateStopped \<and> (\<forall>j. j \<noteq> i \<longrightarrow> ctls w' j = ctls w j) \<and>
    (\<exists>us. trace w' = trace w @ us \<and> stops us = [i])"
proof -
  let ?f = "publishStatus i AS_STOPPED (if r then emit [TRunReset i] (emit [TRunStop i] w) else emit [TRunStop i] w)"
  have f: "machines_ok ?f" "ctl_state ?f i = StateStopping" "ctls ?f = ctls w"
    using assms by (simp_all add: publishStatus_def)
  obtain es where es: "trace (moved i StateStopped ?f) = trace ?f @ es" "stops es = []" using moved_stops by blast
  have m: "snd (transition_to i StateStopped ?f) = moved i StateStopped ?f" by (simp add: moved_def)
  have "\<exists>us. trace ?f = trace w @ us \<and> stops us = [i]" by (simp add: publishStatus_def)
  with es have "\<exists>us. trace (moved i StateStopped ?f) = trace w @ us \<and> stops us = [i]" by auto
  with f show ?thesis unfolding m by simp
qed

lemma do_stop_effect:
  assumes ok: "machines_ok w" and st: "do_stop c i w = (e, w')"
  shows "machines_ok w' \<and> (e = None) = stoppable (ctl_state w i) \<and>
    (\<forall>j. j \<noteq> i \<longrightarrow> ctls w' j = ctls w j) \<and> ctl_state w' i = (if e = None then StateStopped else ctl_state w i) \<and>
    (\<exists>us. trace w' = trace w @ us \<and> stops us = (if e = None \<and> ctl_state w i \<noteq> StateStopped then [i] else []))"
proof -
  let ?w0 = "publishControl i ACTION_STOP w"
  have w0: "machines_ok ?w0" "ctl_state ?w0 i = ctl_state w i" "ctls ?w0 = ctls w"
    "trace ?w0 = trace w @ [TControl i ACTION_STOP]" using ok by (simp_all add: publishControl_def)
  consider "ctl_state w i = StateStopped" | "ctl_state w i = StateStopping"
    | "ctl_state w i \<noteq> StateStopped" "ctl_state w i \<noteq> StateStopping" by blast
  then show ?thesis
  proof cases
    case 1
    then show ?thesis using st ok by (simp add: do_stop_def stoppable_def)
  next
    case 2
    from finish_stop [OF ok 2, of "Resetter (ctl_caps c)"] 2 st show ?thesis
      by (auto simp: do_stop_def Let_def stoppable_def)
  next
    case 3
    have r: "lifecycle_reachable (ctl_sm (ctls w i))" using ok by (simp add: machines_ok_def)
    from lifecycle_reachable_visited [OF r]
    have v: "ctl_state w i \<in> set visited_states" by (simp add: ctl_state_def GetState_def)
    show ?thesis
    proof (cases "StateStopping \<in> set (next_states (ctl_state w i))")
      case True
      let ?w1 = "moved i StateStopping ?w0"
      have s1: "machines_ok ?w1" "ctl_state ?w1 i = StateStopping" "\<forall>j. j \<noteq> i \<longrightarrow> ctls ?w1 j = ctls w j"
        using w0 True by simp_all
      obtain us where us: "trace ?w1 = trace w @ us" "stops us = []"
        using moved_stops [of i StateStopping ?w0] w0(4) by auto
      have "stoppable (ctl_state w i)" using True v 3 by (auto simp: visited_states_def stoppable_def)
      moreover have "e = None \<and> w' = snd (transition_to i StateStopped (publishStatus i AS_STOPPED
          (if Resetter (ctl_caps c) then emit [TRunReset i] (emit [TRunStop i] ?w1) else emit [TRunStop i] ?w1)))"
        using st 3 True by (auto simp: do_stop_def Let_def transition_to_eq [OF w0(1)] w0(2))
      moreover note finish_stop [OF s1(1, 2), of "Resetter (ctl_caps c)"]
      ultimately show ?thesis using s1(3) us 3 by auto
    next
      case False
      then have "\<not> stoppable (ctl_state w i)" using 3 by (auto simp: stoppable_def)
      moreover have "e \<noteq> None" "w' = ?w0"
        using st 3 False by (auto simp: do_stop_def Let_def transition_to_eq [OF w0(1)] w0(2))
      ultimately show ?thesis using w0 by auto
    qed
  qed
qed

lemma apply_each_stop:
  assumes "agents_ok (sv_manager sv)" "machines_ok (sv_world sv)" "set is \<subseteq> set (keys (am_agents (sv_manager sv)))"
    and "distinct is" "apply_each env ActionStop is sv = (e, sv')"
    and "pre = takeWhile (\<lambda>i. stoppable (ctl_state (sv_world sv) i)) is"
  shows "(e = None) = (pre = is) \<and> sv_manager sv' = sv_manager sv \<and>
    (\<forall>i. ctl_state (sv_world sv') i = (if i \<in> set pre then StateStopped else ctl_state (sv_world sv) i)) \<and>
    (\<exists>us. trace (sv_world sv') = trace (sv_world sv) @ us \<and>
      stops us = filter (\<lambda>i. ctl_state (sv_world sv) i \<noteq> StateStopped) pre)"
  using assms
proof (induction "is" arbitrary: sv pre)
  case Nil
  then show ?case by auto
next
  case (Cons i "is")
  have "Get_agent (sv_manager sv) i \<noteq> None" using Cons.prems(3) by (auto simp: Get_agent_def set_keys)
  then obtain c where c: "map_of (agent_cfgs (su_name env) (sv_manager sv)) i = Some c" "Get_agent (sv_manager sv) i \<noteq> None"
    by (auto simp: cfgs_map)
  obtain e1 w1 where d: "do_stop c i (sv_world sv) = (e1, w1)" by fastforce
  note eff = do_stop_effect [OF Cons.prems(2) d]
  have on: "apply_on env i ActionStop sv = (e1, sv \<lparr>sv_world := w1\<rparr>)"
    by (simp add: apply_on_def Apply_simple(1) [OF c(1)] d)
  have st1: "ctl_state w1 j = (if j = i then (if e1 = None then StateStopped else ctl_state (sv_world sv) i)
      else ctl_state (sv_world sv) j)" for j
    using eff by (simp add: ctl_state_def)
  show ?case
  proof (cases e1)
    case (Some x)
    then have ns: "\<not> stoppable (ctl_state (sv_world sv) i)" using eff by simp
    then have "pre = []" using Cons.prems(6) by simp
    moreover have "e = Some (AgentFailed i x)" "sv' = sv \<lparr>sv_world := w1\<rparr>" using Cons.prems(5) c(2) on Some by auto
    ultimately show ?thesis using st1 Some eff by auto
  next
    case None
    let ?sv1 = "sv \<lparr>sv_world := w1\<rparr>"
    have s: "stoppable (ctl_state (sv_world sv) i)" using eff None by simp
    let ?p1 = "takeWhile (\<lambda>j. stoppable (ctl_state (sv_world ?sv1) j)) is"
    have ni: "i \<notin> set is" using Cons.prems(4) by simp
    then have p1: "?p1 = takeWhile (\<lambda>j. stoppable (ctl_state (sv_world sv) j)) is"
      by (intro takeWhile_cong) (auto simp: st1)
    have pre: "pre = i # ?p1" using Cons.prems(6) s p1 by simp
    have "apply_each env ActionStop is ?sv1 = (e, sv')" using Cons.prems(5) c(2) on None by auto
    from Cons.IH [OF _ _ _ _ this refl] Cons.prems(1, 3, 4) eff
    have IH: "(e = None) = (?p1 = is) \<and> sv_manager sv' = sv_manager ?sv1 \<and>
      (\<forall>i. ctl_state (sv_world sv') i = (if i \<in> set ?p1 then StateStopped else ctl_state w1 i)) \<and>
      (\<exists>us. trace (sv_world sv') = trace w1 @ us \<and> stops us = filter (\<lambda>i. ctl_state w1 i \<noteq> StateStopped) ?p1)"
      by simp
    have nip: "i \<notin> set ?p1" using ni set_takeWhileD by fastforce
    have f: "filter (\<lambda>j. ctl_state w1 j \<noteq> StateStopped) ?p1 = filter (\<lambda>j. ctl_state (sv_world sv) j \<noteq> StateStopped) ?p1"
      by (rule filter_cong [OF refl]) (use nip in \<open>auto simp: st1\<close>)
    obtain us where us: "trace w1 = trace (sv_world sv) @ us"
      "stops us = (if ctl_state (sv_world sv) i \<noteq> StateStopped then [i] else [])"
      using eff None by auto
    obtain vs where "trace (sv_world sv') = trace w1 @ vs" "stops vs = filter (\<lambda>j. ctl_state w1 j \<noteq> StateStopped) ?p1"
      using IH by blast
    with us have t: "trace (sv_world sv') = trace (sv_world sv) @ us @ vs"
      "stops (us @ vs) = filter (\<lambda>i. ctl_state (sv_world sv) i \<noteq> StateStopped) pre"
      using f pre by simp_all
    show ?thesis
    proof (intro conjI)
      show "(e = None) = (pre = i # is)" "sv_manager sv' = sv_manager sv" using IH pre by simp_all
      show "\<forall>j. ctl_state (sv_world sv') j = (if j \<in> set pre then StateStopped else ctl_state (sv_world sv) j)"
        using IH pre st1 None by simp
      show "\<exists>us. trace (sv_world sv') = trace (sv_world sv) @ us \<and>
          stops us = filter (\<lambda>i. ctl_state (sv_world sv) i \<noteq> StateStopped) pre" using t by blast
    qed
  qed
qed

lemma before_initial: "before (xs @ ys) a b \<Longrightarrow> distinct (xs @ ys) \<Longrightarrow> b \<in> set xs \<Longrightarrow> before xs a b"
  by (induction xs) (auto simp: before_Cons dest: before_in_set)

lemma before_filter: "before xs a b \<Longrightarrow> P a \<Longrightarrow> P b \<Longrightarrow> before (filter P xs) a b"
  by (induction xs) (auto simp: before_Cons)

text \<open>C13: \<^verbatim>\<open>StopAll\<close> stops the agents in the reverse of the start order, so each before whatever
  it requires, up to the first one that is starting or reloading: there it gives up, and that agent
  and all before it in the start order stay as they are. When the requirements are cyclic, under
  which agents are still started, it stops none.\<close>

theorem StopAll_exact:
  assumes "agents_ok (sv_manager sv)" "machines_ok (sv_world sv)" "StopAll env sv = (e, sv')"
  shows "case TopologicalSort (manager_graph (sv_manager sv)) of
      Inl _ \<Rightarrow> e = Some OrderCycle \<and> sv' = sv
    | Inr order \<Rightarrow>
        (\<exists>stopped us. stopped = takeWhile (\<lambda>i. stoppable (ctl_state (sv_world sv) i)) (rev order) \<and>
          (e = None) = (stopped = rev order) \<and>
          (\<forall>i. ctl_state (sv_world sv') i = (if i \<in> set stopped then StateStopped else ctl_state (sv_world sv) i)) \<and>
          trace (sv_world sv') = trace (sv_world sv) @ us \<and>
          stops us = filter (\<lambda>i. ctl_state (sv_world sv) i \<noteq> StateStopped) stopped \<and>
          (\<forall>n d. requires_edge (manager_graph (sv_manager sv)) n d \<and> n \<in> set (stops us) \<and> d \<in> set (stops us) \<longrightarrow>
            before (stops us) n d))"
proof (cases "TopologicalSort (manager_graph (sv_manager sv))")
  case (Inl x)
  then show ?thesis using assms(3) by (simp add: StopAll_def)
next
  case (Inr order)
  let ?P = "\<lambda>i. stoppable (ctl_state (sv_world sv) i)" let ?st = "takeWhile ?P (rev order)"
  have g: "gomap_ok (manager_graph (sv_manager sv))" using assms(1) by (simp add: agents_ok_def manager_graph_def)
  note o = topo_requires(1, 2) [OF g Inr]
  have a: "apply_each env ActionStop (rev order) sv = (e, sv')" using assms(3) Inr by (simp add: StopAll_def)
  have k: "set (rev order) \<subseteq> set (keys (am_agents (sv_manager sv)))"
    using o(2) by (simp add: manager_graph_def)
  have "(e = None) = (?st = rev order) \<and> sv_manager sv' = sv_manager sv \<and>
    (\<forall>i. ctl_state (sv_world sv') i = (if i \<in> set ?st then StateStopped else ctl_state (sv_world sv) i)) \<and>
    (\<exists>us. trace (sv_world sv') = trace (sv_world sv) @ us \<and>
      stops us = filter (\<lambda>i. ctl_state (sv_world sv) i \<noteq> StateStopped) ?st)"
    by (rule apply_each_stop [OF assms(1, 2) k _ a refl]) (simp add: o(1))
  moreover have "before (filter Q ?st) n d"
    if e: "requires_edge (manager_graph (sv_manager sv)) n d" and m: "n \<in> set (filter Q ?st)" "d \<in> set (filter Q ?st)" for Q n d
  proof -
    have "before (rev order) n d" using topo_requires(3) [OF g Inr e] by simp
    then have "before (?st @ dropWhile ?P (rev order)) n d" by simp
    moreover have "distinct (?st @ dropWhile ?P (rev order))" using o(1) by simp
    ultimately have "before ?st n d" using before_initial m by (metis filter_is_subset subsetD)
    then show ?thesis by (rule before_filter) (use m in auto)
  qed
  ultimately show ?thesis unfolding Inr by auto
qed

section \<open>A supervisor with three agents\<close>

abbreviation ex_unit :: "string \<Rightarrow> string list \<Rightarrow> string list \<Rightarrow> bool \<Rightarrow> AgentDescribe" where
  "ex_unit i requires wants on \<equiv> \<lparr>SchemaVersion = ''1.0.0'', ad_ID = i, ad_Type = ''service'', CPULimit = [],
     MemoryLimit = [], ad_Schedule = [], ListenStream = [], ad_Requires = requires, ad_Wants = wants,
     ad_WantedBy = [], ad_RequiredBy = [], Capabilities = [], Enabled = Some on, ReadinessDecl = None\<rparr>"

definition ex_file :: "string \<Rightarrow> walk_entry" where
  "ex_file n = \<lparr>w_path = ''/u/'' @ n, w_name = n, w_failed = False, w_isDir = False, w_mode = Some 0x1ED\<rparr>"

definition ex_units_host :: host where
  "ex_units_host = \<lparr>h_files = \<lparr>cwd = Some ''/'', file_content = (\<lambda>_. None)\<rparr>,
     h_stat = (\<lambda>p. Some \<lparr>st_mode = 0x1ED, st_uid = 0\<rparr>), h_euid = 0, h_exec = Output,
     h_exec_py = (\<lambda>_ m _. Output m),
     h_decode = (\<lambda>s. if s = ''/u/api'' then Some (ex_unit ''api'' [''db''] [''log''] True)
        else if s = ''/u/db'' then Some (ex_unit ''db'' [] [] True)
        else if s = ''/u/log'' then Some (ex_unit ''log'' [] [] False) else None),
     h_walk = (\<lambda>p. [ex_file ''api'', ex_file ''db'', ex_file ''log'']),
     h_verify = (\<lambda>_ _ _. False), h_digest = (\<lambda>c. c)\<rparr>"

definition ex_env :: sup_env where
  "ex_env = \<lparr>su_host = ex_units_host, su_paths = [''/u''], su_ctl = good_env, su_arm = (\<lambda>_. True), su_name = ''h''\<rparr>"

definition ex_sv :: supervisor where
  "ex_sv = \<lparr>sv_manager = NewAgentManager [] False None,
     sv_registry = NewAgentRegistry \<lparr>h_kv = \<lparr>kv_open = True, buckets = []\<rparr>, h_graph = graph_New\<rparr> None,
     sv_world = initial_world, sv_traffic = [], sv_orphans = []\<rparr>"

definition ex_up :: supervisor where
  "ex_up = snd (setupAgents ex_env ex_sv)"

lemma ex_sv_ok [simp]: "agents_ok (sv_manager ex_sv)" "sv_world ex_sv = initial_world" "responsive (su_ctl ex_env)"
  by (simp_all add: ex_sv_def ex_env_def)

definition ex_am :: manager where
  "ex_am = fst (DiscoverFromPaths ex_units_host [''/u''] (NewAgentManager [] False None))"

definition ex_reg :: registry where
  "ex_reg = sv_registry (discovered ex_env ex_sv)"

lemma ex_order: "TopologicalSort (manager_graph ex_am) = Inr [''db'', ''log'', ''api'']"
  by code_simp

lemma ex_found: "map (\<lambda>d. get d ''id'') (snd (DiscoverFromPaths ex_units_host [''/u''] (NewAgentManager [] False None)))
    = [''api'', ''db'', ''log'']"
  by code_simp

lemma ex_lookup: "is_ok (Lookup ''api'' ex_reg) \<and> is_ok (Lookup ''db'' ex_reg)"
  by code_simp

lemma ex_agents:
  "map (\<lambda>i. map_option (\<lambda>a. (a_kind a, a_type a, a_listen a, a_enabled a)) (Get_agent ex_am i)) [''api'', ''db'', ''log'']
     = [Some (GoRunner, ''service'', [], True), Some (GoRunner, ''service'', [], True), Some (GoRunner, ''service'', [], False)]"
  "map (\<lambda>i. map_option (\<lambda>a. (Requires (a_deps a), Wants (a_deps a))) (Get_agent ex_am i)) [''api'', ''db'', ''log'']
     = [Some ([''db''], [''log'']), Some ([], []), Some ([], [])]"
  "keys (am_agents ex_am) = [''api'', ''db'', ''log'']"
  by code_simp+

lemma ex_discovered [simp]:
  "sv_manager (discovered ex_env ex_sv) = ex_am" "sv_registry (discovered ex_env ex_sv) = ex_reg"
  "found_ids ex_env ex_sv = [''api'', ''db'', ''log'']"
  using ex_found by (simp_all add: discovered_facts(2) ex_am_def ex_reg_def found_ids_def ex_env_def ex_sv_def)

lemma ex_agent:
  obtains a b c where "Get_agent ex_am ''api'' = Some a" "Requires (a_deps a) = [''db'']" "Wants (a_deps a) = [''log'']"
    "Get_agent ex_am ''db'' = Some b" "Requires (a_deps b) = []" "Wants (a_deps b) = []"
    "Get_agent ex_am ''log'' = Some c" "Requires (a_deps c) = []" "Wants (a_deps c) = []"
    "AgentEnabled a" "AgentEnabled b" "\<not> AgentEnabled c" "launched a" "launched b"
  using ex_agents(1, 2) by (auto simp: AgentEnabled_def launched_def unit_type_def unit_listen_def)

lemma ex_Get: "Get_agent ex_am i \<noteq> None \<Longrightarrow> i \<in> {''api'', ''db'', ''log''}"
  using ex_agents(3) set_keys [of "am_agents ex_am"] by (auto simp: Get_agent_def)

lemma ex_eligible: "eligible ex_env ex_am ex_reg i \<longleftrightarrow> i \<in> {''api'', ''db''}"
proof -
  obtain a b c where x: "Get_agent ex_am ''api'' = Some a" "Requires (a_deps a) = [''db'']" "Wants (a_deps a) = [''log'']"
    "Get_agent ex_am ''db'' = Some b" "Requires (a_deps b) = []" "Wants (a_deps b) = []"
    "Get_agent ex_am ''log'' = Some c" "Requires (a_deps c) = []" "Wants (a_deps c) = []"
    "AgentEnabled a" "AgentEnabled b" "\<not> AgentEnabled c" "launched a" "launched b" by (rule ex_agent)
  have db: "eligible ex_env ex_am ex_reg ''db''"
    by (rule eligibleI [OF _ x(4)]) (use ex_lookup x in auto)
  have "eligible ex_env ex_am ex_reg ''api''"
    by (rule eligibleI [OF _ x(1)]) (use ex_lookup x db in auto)
  moreover have "i \<in> {''api'', ''db''}" if e: "eligible ex_env ex_am ex_reg i"
  proof -
    obtain d where "Get_agent ex_am i = Some d" "AgentEnabled d" using e by cases blast
    with ex_Get [of i] x(7, 12) show ?thesis by auto
  qed
  ultimately show ?thesis using db by auto
qed

lemma ex_setup:
  obtains started sv' where "setupAgents ex_env ex_sv = (started, sv')" "sv_manager sv' = ex_am" "sv_registry sv' = ex_reg"
proof -
  obtain started sv' where s: "setupAgents ex_env ex_sv = (started, sv')" by fastforce
  have "same_base (discovered ex_env ex_sv) sv'"
    by (rule setupAgents_facts(1) [OF _ _ s, of UNIV]) (simp_all add: deps_within_def)
  with s that show thesis by (simp add: same_base_def)
qed

definition ex_reg2 :: registry where
  "ex_reg2 = register_found ex_units_host (snd (DiscoverFromPaths ex_units_host [''/u''] ex_am)) ex_reg"

lemma ex_again:
  "fst (DiscoverFromPaths ex_units_host [''/u''] ex_am) = ex_am"
  "map (\<lambda>d. get d ''id'') (snd (DiscoverFromPaths ex_units_host [''/u''] ex_am)) = [''api'', ''db'', ''log'']"
  "is_ok (Lookup ''db'' ex_reg2)"
  by code_simp+

lemma agents_ok_ex: "agents_ok ex_am"
  using DiscoverFromPaths_agents_ok [OF agents_ok_New] by (simp add: ex_am_def)

lemma discovered_registry: "sv_registry (discovered env sv) =
    register_found (su_host env) (snd (DiscoverFromPaths (su_host env) (su_paths env) (sv_manager sv))) (sv_registry sv)"
  by (cases "DiscoverFromPaths (su_host env) (su_paths env) (sv_manager sv)") (simp add: discovered_def Let_def)

theorem setup_spawns_within_witness:
  "\<exists>started sv' us. setupAgents ex_env ex_sv = (started, sv') \<and> trace (sv_world sv') = us \<and> TRunStop ''db'' \<notin> set us"
proof -
  obtain started sv' where s: "setupAgents ex_env ex_sv = (started, sv')" by fastforce
  have "trace initial_world = []" by (simp add: initial_world_def)
  with setup_spawns_within [OF _ _ s, of UNIV] s show ?thesis by (auto simp: deps_within_def)
qed

theorem setup_starts_exactly_witness:
  "\<exists>sv'. setupAgents ex_env ex_sv = ([''db'', ''api''], sv') \<and> up (sv_world sv') ''api''"
proof -
  obtain started sv' where s: "setupAgents ex_env ex_sv = (started, sv')" "sv_manager sv' = ex_am" "sv_registry sv' = ex_reg"
    by (rule ex_setup)
  have o: "TopologicalSort (manager_graph (sv_manager sv')) = Inr [''db'', ''log'', ''api'']" using ex_order s(2) by simp
  obtain a where a: "Get_agent ex_am ''api'' = Some a" "launched a" by (metis ex_agent)
  from setup_starts_exactly [OF _ _ _ _ s(1) o] a s show ?thesis by (simp add: ex_eligible)
qed

theorem reload_spawns_again_witness:
  "\<exists>sv sv' us rid. up (sv_world sv) ''db'' \<and> sv' = on_agent_reload ex_env sv \<and>
     trace (sv_world sv') = trace (sv_world sv) @ us \<and> TRunStart ''db'' rid True \<in> set us"
proof -
  obtain started sv where s: "setupAgents ex_env ex_sv = (started, sv)" "sv_manager sv = ex_am" "sv_registry sv = ex_reg"
    by (rule ex_setup)
  have o: "TopologicalSort (manager_graph (sv_manager sv)) = Inr [''db'', ''log'', ''api'']" using ex_order s(2) by simp
  obtain b where b: "Get_agent ex_am ''db'' = Some b" "launched b" "Requires (a_deps b) = []" "AgentEnabled b"
    by (metis ex_agent)
  have live: "up (sv_world sv) ''db''"
    using setup_starts_live [OF _ _ _ _ s(1) o] b s by (simp add: ex_eligible)
  have q: "quiet (sv_world sv)" by (rule setupAgents_facts(3) [OF _ _ s(1), of UNIV]) (simp_all add: deps_within_def)
  have st: "startable (sv_world sv)"
    using setup_starts_live [OF _ _ _ _ s(1) o] by simp
  have d: "sv_manager (discovered ex_env sv) = ex_am" "found_ids ex_env sv = [''api'', ''db'', ''log'']"
    "sv_registry (discovered ex_env sv) = ex_reg2"
    using ex_again s by (simp_all add: discovered_facts(2) found_ids_def ex_env_def ex_reg2_def discovered_registry)
  obtain started' sv' where s': "setupAgents ex_env sv = (started', sv')" by fastforce
  have "same_base (discovered ex_env sv) sv'"
    by (rule setupAgents_facts(1) [OF _ q s', of UNIV]) (use s agents_ok_ex in \<open>simp_all add: deps_within_def\<close>)
  with d have base: "sv_manager sv' = ex_am" "sv_registry sv' = ex_reg2" by (simp_all add: same_base_def)
  have "eligible ex_env ex_am ex_reg2 ''db''"
    by (rule eligibleI [OF _ b(1)]) (use ex_again b in auto)
  then show ?thesis
    using reload_spawns_again [OF _ q st, of ex_env sv' "[''db'', ''log'', ''api'']" "''db''" b] s s' d b base ex_order agents_ok_ex live
    by (fastforce simp: on_agent_reload_def)
qed

theorem wanted_agents_started_unchecked_witness:
  "\<exists>started sv'. setupAgents ex_env ex_sv = (started, sv') \<and> up (sv_world sv') ''log'' \<and>
     map_option a_enabled (Get_agent (sv_manager sv') ''log'') = Some False"
proof -
  obtain started sv' where s: "setupAgents ex_env ex_sv = (started, sv')" "sv_manager sv' = ex_am" "sv_registry sv' = ex_reg"
    by (rule ex_setup)
  have o: "TopologicalSort (manager_graph (sv_manager sv')) = Inr [''db'', ''log'', ''api'']" using ex_order s(2) by simp
  obtain a b c where x: "Get_agent ex_am ''api'' = Some a" "Requires (a_deps a) = [''db'']" "Wants (a_deps a) = [''log'']"
    "Get_agent ex_am ''db'' = Some b" "Requires (a_deps b) = []" "Wants (a_deps b) = []"
    "Get_agent ex_am ''log'' = Some c" "Requires (a_deps c) = []" "Wants (a_deps c) = []"
    "AgentEnabled a" "AgentEnabled b" "\<not> AgentEnabled c" "launched a" "launched b" by (rule ex_agent)
  have top: "''api'' \<notin> set (Requires (a_deps d)) \<union> set (Wants (a_deps d))" if "Get_agent ex_am j = Some d" for j d
    using that ex_Get [of j] x by auto
  have "up (sv_world sv') ''log''"
    by (rule wanted_agents_started_unchecked [OF _ _ _ _ s(1) o, of "''api''" a _ c])
      (use s x top in \<open>auto simp: ex_eligible\<close>)
  with s x show ?thesis by (auto simp: AgentEnabled_def)
qed

theorem StopAll_exact_witness:
  "fst (StopAll ex_env (discovered ex_env ex_sv)) = None"
proof -
  obtain e sv' where s: "StopAll ex_env (discovered ex_env ex_sv) = (e, sv')" by fastforce
  have m: "machines_ok (sv_world (discovered ex_env ex_sv))" "agents_ok (sv_manager (discovered ex_env ex_sv))"
    using new_controllers_quiet [OF initial_quiet] discovered_facts(3) [of ex_sv ex_env]
    by (simp_all add: discovered_facts(1) quiet_def)
  have st: "ctl_state (sv_world (discovered ex_env ex_sv)) i = StateStopped" if "i \<in> {''api'', ''db'', ''log''}" for i
    using that by (auto simp: discovered_facts(1) new_controllers_state)
  from StopAll_exact [OF m(2, 1) s] show ?thesis
    using s st by (simp add: ex_order stoppable_def)
qed

end
