(* ===== verification/Handlers.thy ===== *)
theory Handlers
  imports Supervisor
begin

text \<open>
  \<^verbatim>\<open>core/supervisor\<close>: the handlers of the daemon's topics and the periodic metrics. A handler
  returns the replies it publishes, in order, the metrics it changed and the supervisor. The text
  of an error and what a payload decodes to are arguments.
\<close>

section \<open>Model\<close>

subsection \<open>Metrics\<close>

record gauges =
  AgentState_g :: "string \<times> string \<times> string \<Rightarrow> int"
  AgentStarts :: "string \<times> string \<Rightarrow> nat"
  AgentStops :: "string \<times> string \<Rightarrow> nat"
  AgentFailures :: "string \<times> string \<times> string \<Rightarrow> nat"
  AgentMemoryBytes :: "string \<times> string \<Rightarrow> int"
  AgentsTotal :: nat

definition RecordAgentStart :: "string \<Rightarrow> string \<Rightarrow> gauges \<Rightarrow> gauges" where
  "RecordAgentStart i t m = m \<lparr>AgentStarts := (AgentStarts m) ((i, t) := Suc (AgentStarts m (i, t)))\<rparr>"

definition RecordAgentStop :: "string \<Rightarrow> string \<Rightarrow> gauges \<Rightarrow> gauges" where
  "RecordAgentStop i t m = m \<lparr>AgentStops := (AgentStops m) ((i, t) := Suc (AgentStops m (i, t)))\<rparr>"

definition RecordAgentFailure :: "string \<Rightarrow> string \<Rightarrow> string \<Rightarrow> gauges \<Rightarrow> gauges" where
  "RecordAgentFailure i t reason m =
     m \<lparr>AgentFailures := (AgentFailures m) ((i, t, reason) := Suc (AgentFailures m (i, t, reason)))\<rparr>"

definition UpdateAgentResources :: "string \<Rightarrow> string \<Rightarrow> int \<Rightarrow> gauges \<Rightarrow> gauges" where
  "UpdateAgentResources i t mem m =
     (if mem > 0 then m \<lparr>AgentMemoryBytes := (AgentMemoryBytes m) ((i, t) := mem)\<rparr> else m)"

definition set_state :: "string \<Rightarrow> string \<Rightarrow> string \<Rightarrow> int \<Rightarrow> gauges \<Rightarrow> gauges" where
  "set_state i t s v m = m \<lparr>AgentState_g := (AgentState_g m) ((i, t, s) := v)\<rparr>"

definition cleared_states :: "string list" where
  "cleared_states = [''initializing'', ''initialized'', ''starting'', ''running'', ''stopping'', ''stopped'',
     ''reloading'', ''error'']"

text \<open>\<open>stats\<close> gives the memory usage of the cgroup of an agent that can be read.\<close>

definition collect_one :: "(string \<Rightarrow> int option) \<Rightarrow> supervisor \<Rightarrow> AgentDescription \<Rightarrow> gauges \<Rightarrow> gauges" where
  "collect_one stats sv entry m =
     (case Get_agent (sv_manager sv) (rd_id entry) of
        None \<Rightarrow> m
      | Some ag \<Rightarrow>
        let i = rd_id entry; t = rd_type entry;
            m1 = fold (\<lambda>s. set_state i t s 0) cleared_states m;
            m2 = set_state i t (ctl_state (sv_world sv) (a_id ag)) 1 m1
        in (case stats i of None \<Rightarrow> m2 | Some mem \<Rightarrow> UpdateAgentResources i t (if mem > 0 then mem else 0) m2))"

definition collectMetrics :: "(string \<Rightarrow> int option) \<Rightarrow> supervisor \<Rightarrow> gauges \<Rightarrow> gauges" where
  "collectMetrics stats sv m =
     (case List_agents (sv_registry sv) of
        Inl _ \<Rightarrow> m
      | Inr entries \<Rightarrow> fold (collect_one stats sv) entries (m \<lparr>AgentsTotal := length entries\<rparr>))"

subsection \<open>Looking agents up\<close>

fun find_ci :: "string \<Rightarrow> string list \<Rightarrow> manager \<Rightarrow> agent option" where
  "find_ci low [] am = None"
| "find_ci low (k # ks) am =
     (case Get_agent am k of
        None \<Rightarrow> find_ci low ks am
      | Some ag \<Rightarrow> if ToLower k = low \<or> ToLower (get (Describe [] ag) ''id'') = low then Some ag else find_ci low ks am)"

definition getAgentCI :: "manager \<Rightarrow> string \<Rightarrow> agent option" where
  "getAgentCI am i =
     (if i = [] then None
      else case Get_agent am i of
        Some ag \<Rightarrow> Some ag
      | None \<Rightarrow> find_ci (ToLower i) (sort (keys (am_agents am))) am)"

definition mapStateToProto :: "string \<Rightarrow> AgentState" where
  "mapStateToProto s =
     (if s = StateInitializing then AS_INITIALIZED
      else if s = StateStarting then AS_STARTING
      else if s = StateRunning then AS_RUNNING
      else if s = StateStopping then AS_STOPPING
      else if s = StateStopped then AS_STOPPED
      else if s = StateReloading then AS_RELOADING
      else if s = StateRestarting then AS_STARTING
      else if s = StateError then AS_FAILED
      else AS_UNSPECIFIED)"

definition isInFlight :: "string \<Rightarrow> bool" where
  "isInFlight state \<longleftrightarrow> ToUpper (TrimSpace state) \<in>
     {''PENDING'', ''STARTING'', ''STOPPING'', ''RELOADING'', ''INITIALIZING'', ''''}"

subsection \<open>Lifecycle requests\<close>

text \<open>The numbers of \<^verbatim>\<open>LifecycleControl.Action\<close>.\<close>

definition actionFromEnum :: "int \<Rightarrow> string" where
  "actionFromEnum act =
     (if act = 2 then ''start'' else if act = 3 then ''stop'' else if act = 5 then ''reload''
      else if act = 4 then ''restart'' else ''initialize'')"

record lifecycle_cmd =
  cmd_agent :: string
  cmd_action :: int

record status_reply =
  sr_agent :: string
  sr_state :: string
  sr_msg :: string
  sr_host :: string

definition replyStatus :: "sup_env \<Rightarrow> string \<Rightarrow> string \<Rightarrow> string \<Rightarrow> status_reply" where
  "replyStatus env i state msg = \<lparr>sr_agent = i, sr_state = state, sr_msg = msg, sr_host = su_name env\<rparr>"

text \<open>The action the request names, with the metrics of its success.\<close>

definition apply_named :: "sup_env \<Rightarrow> string \<Rightarrow> string \<Rightarrow> string \<Rightarrow> string \<Rightarrow> gauges \<Rightarrow> supervisor
    \<Rightarrow> lc_error option \<times> gauges \<times> supervisor" where
  "apply_named env action cid target typ m sv =
     (if action = ''initialize'' then (case apply_on env cid ActionInitialize sv of (e, s) \<Rightarrow> (e, m, s))
      else if action = ''start'' then (case apply_on env cid ActionStart sv of (e, s) \<Rightarrow>
        (e, if e = None then RecordAgentStart target typ m else m, s))
      else if action = ''stop'' then (case apply_on env cid ActionStop sv of (e, s) \<Rightarrow>
        (e, if e = None then RecordAgentStop target typ m else m, s))
      else if action = ''reload'' then (case apply_on env cid ActionReload sv of (e, s) \<Rightarrow> (e, m, s))
      else if action = ''restart'' then (case apply_on env cid ActionRestart sv of (e, s) \<Rightarrow>
        (e, if e = None then RecordAgentStart target typ (RecordAgentStop target typ m) else m, s))
      else (Some (ErrUnknownAction action), m, sv))"

definition handleLifecycleAction :: "(lc_error \<Rightarrow> string) \<Rightarrow> sup_env \<Rightarrow> (string \<times> string, lifecycle_cmd) result
    \<Rightarrow> gauges \<Rightarrow> supervisor \<Rightarrow> status_reply list \<times> gauges \<times> supervisor" where
  "handleLifecycleAction txt env payload m sv =
     (case payload of
        Inl (i, err) \<Rightarrow> ([replyStatus env i ''FAILED'' (''decode error: '' @ err)], m, sv)
      | Inr cmd \<Rightarrow>
        let target = TrimSpace (cmd_agent cmd) in
        (case getAgentCI (sv_manager sv) target of
           None \<Rightarrow> ([replyStatus env target ''FAILED'' ''unknown agent''], m, sv)
         | Some ag \<Rightarrow>
           let pending = replyStatus env target ''PENDING'' ''accepted'';
               action = actionFromEnum (cmd_action cmd);
               typ = get (Describe (ctl_state (sv_world sv) (a_id ag)) ag) ''type'';
               (e, m', sv') = apply_named env action (a_id ag) target typ m sv;
               final = ctl_state (sv_world sv') (a_id ag)
           in (case e of
                 Some err \<Rightarrow>
                   let okStart = (action = ''start'' \<and> (EqualFold final StateRunning \<or> EqualFold final StateStarting));
                       okStop = (action = ''stop'' \<and> (EqualFold final StateStopped \<or> EqualFold final StateStopping))
                   in if \<not> okStart \<and> \<not> okStop
                      then ([pending, replyStatus env target StateError (txt err)], RecordAgentFailure target typ action m', sv')
                      else ([pending, replyStatus env target final ''ok''], m', sv')
               | None \<Rightarrow>
                   ([pending, replyStatus env target final
                      (if isInFlight final then ''still settling; current state='' @ final else ''ok'')], m', sv'))))"

subsection \<open>Status requests\<close>

record agent_status =
  as_id :: string
  as_type :: string
  as_state :: AgentState
  as_deps :: "string list"
  as_caps :: "string list"
  as_memory :: int
  as_uptime :: int

definition status_of :: "(string \<Rightarrow> int option) \<Rightarrow> (string \<Rightarrow> int) \<Rightarrow> supervisor \<Rightarrow> AgentDescription \<Rightarrow> agent_status" where
  "status_of stats uptime sv entry =
     (let ag = getAgentCI (sv_manager sv) (rd_id entry) in
      \<lparr>as_id = rd_id entry, as_type = rd_type entry,
       as_state = (case ag of None \<Rightarrow> AS_UNSPECIFIED | Some a \<Rightarrow> mapStateToProto (ctl_state (sv_world sv) (a_id a))),
       as_deps = (case GetDependencies (rd_id entry) (sv_registry sv) of Inl _ \<Rightarrow> rd_requires entry | Inr ds \<Rightarrow> ds),
       as_caps = rd_caps entry,
       as_memory = (case stats (rd_id entry) of None \<Rightarrow> 0 | Some mem \<Rightarrow> if mem > 0 then mem else 0),
       as_uptime = (case ag of None \<Rightarrow> 0 | Some a \<Rightarrow> if a_kind a = TimerRunner then 0 else uptime (a_id a))\<rparr>)"

text \<open>The answer to a request on \<^verbatim>\<open>agents/\<close>; a registry that cannot be listed gives none.\<close>

definition on_agents_request :: "(string \<Rightarrow> int option) \<Rightarrow> (string \<Rightarrow> int) \<Rightarrow> supervisor \<Rightarrow> agent_status list option" where
  "on_agents_request stats uptime sv =
     (case List_agents (sv_registry sv) of Inl _ \<Rightarrow> None | Inr entries \<Rightarrow> Some (map (status_of stats uptime sv) entries))"

section \<open>Finding an agent\<close>

lemma find_ci_spec:
  "find_ci low ks am = Some a \<Longrightarrow>
   \<exists>us k vs. ks = us @ k # vs \<and> Get_agent am k = Some a \<and> (ToLower k = low \<or> ToLower (a_id a) = low) \<and>
     (\<forall>j \<in> set us. \<forall>b. Get_agent am j = Some b \<longrightarrow> ToLower j \<noteq> low \<and> ToLower (a_id b) \<noteq> low)"
proof (induction ks)
  case (Cons k ks)
  have d: "get (Describe [] b) ''id'' = a_id b" for b by (simp add: Describe_def get_def)
  show ?case
  proof (cases "\<exists>b. Get_agent am k = Some b \<and> (ToLower k = low \<or> ToLower (a_id b) = low)")
    case True
    with Cons.prems have "Get_agent am k = Some a" "ToLower k = low \<or> ToLower (a_id a) = low" by (auto simp: d)
    then show ?thesis by (intro exI [of _ "[]"] exI [of _ k] exI [of _ ks]) simp
  next
    case False
    with Cons.prems have "find_ci low ks am = Some a" by (auto simp: d split: option.splits)
    from Cons.IH [OF this] obtain us j vs where "ks = us @ j # vs" "Get_agent am j = Some a"
      "ToLower j = low \<or> ToLower (a_id a) = low"
      "\<forall>j \<in> set us. \<forall>b. Get_agent am j = Some b \<longrightarrow> ToLower j \<noteq> low \<and> ToLower (a_id b) \<noteq> low" by blast
    with False show ?thesis by (intro exI [of _ "k # us"] exI [of _ j] exI [of _ vs]) auto
  qed
qed simp

lemma getAgentCI_found:
  assumes "getAgentCI am i = Some a" "agents_ok am"
  shows "Get_agent am (a_id a) = Some a"
proof -
  have "\<exists>k. Get_agent am k = Some a"
  proof (cases "Get_agent am i")
    case None
    with assms(1) have "find_ci (ToLower i) (sort (keys (am_agents am))) am = Some a"
      by (simp add: getAgentCI_def split: if_splits)
    from find_ci_spec [OF this] show ?thesis by blast
  next
    case (Some b)
    with assms(1) show ?thesis by (auto simp: getAgentCI_def split: if_splits)
  qed
  then obtain k where k: "Get_agent am k = Some a" by blast
  with assms(2) have "a_id a = k" by (simp add: agents_ok_def)
  with k show ?thesis by simp
qed

lemma getAgentCI_exact: "i \<noteq> [] \<Longrightarrow> Get_agent am i = Some a \<Longrightarrow> getAgentCI am i = Some a"
  by (simp add: getAgentCI_def)

section \<open>Lifecycle requests\<close>

definition action_of :: "int \<Rightarrow> Action" where
  "action_of act = (if act = 2 then ActionStart else if act = 3 then ActionStop else if act = 5 then ActionReload
     else if act = 4 then ActionRestart else ActionInitialize)"

lemma Apply_start_error_down:
  assumes "quiet w" "map_of cfgs i \<noteq> None" "Apply cfgs env i ActionStart w = (Some e, w')"
  shows "\<not> up w' i"
proof -
  note ap = assms(3) [unfolded Apply_def]
  have oc: "only_callers ([] @ [i]) (mark i w)" by (rule only_callers_mark [OF quietD(2) [OF assms(1)]])
  have m: "machines_ok (mark i w)" using quietD(1) [OF assms(1)] by simp
  show ?thesis
  proof (cases rule: apply_start_cases [OF ap, case_names cycle missing noop dep spawn])
    case (dep c hard soft e1 w1)
    have "start_rel cfgs (mark i w) w1" using start_main(2) [OF m oc dep(6)] by simp
    from start_rel_marked [OF this, of i] dep(3, 8) show ?thesis by (simp add: up_def)
  next
    case (spawn c hard soft w1 w2 w3)
    have h: "start_rel cfgs (mark i w) w1" "machines_ok w1" using start_main(2) [OF m oc spawn(6)] by simp_all
    have h2: "start_rel cfgs w1 w2" "machines_ok w2"
      using start_main(3) [OF h(2) only_callers_rel [OF h(1) oc] spawn(7) [symmetric]] by simp_all
    have "\<not> up w2 i" using start_rel_marked [OF start_rel_trans [OF h(1) h2(1)], of i] spawn(3) by (simp add: up_def)
    from spawn_and_wait_effect [OF h2(2) this spawn(8)] spawn(9) show ?thesis by (simp add: spawn_effect_def)
  qed (use assms(2) in auto)
qed

lemma visited_lower: "s \<in> set visited_states \<Longrightarrow> ToLower s = s"
proof -
  have "\<forall>s \<in> set visited_states. ToLower s = s" by code_simp
  then show "s \<in> set visited_states \<Longrightarrow> ToLower s = s" by blast
qed

lemma visited_fold_iff: "s \<in> set visited_states \<Longrightarrow> t \<in> set visited_states \<Longrightarrow> EqualFold s t \<longleftrightarrow> s = t"
  by (simp add: EqualFold_def visited_lower)

lemma machine_visited: "machines_ok w \<Longrightarrow> ctl_state w i \<in> set visited_states"
  using lifecycle_reachable_visited by (auto simp: machines_ok_def ctl_state_def GetState_def)

lemma visited_simps [simp]:
  "StateRunning \<in> set visited_states" "StateStarting \<in> set visited_states" "StateStopped \<in> set visited_states"
  "StateStopping \<in> set visited_states"
  by (simp_all add: visited_states_def)

text \<open>When an action fails, the machine is never in the state the action was after.\<close>

lemma failed_state:
  assumes "agents_ok (sv_manager sv)" "quiet (sv_world sv)" "Get_agent (sv_manager sv) i \<noteq> None"
    and "apply_on env i a sv = (Some e, sv')"
  shows "a = ActionStart \<Longrightarrow> ctl_state (sv_world sv') i \<notin> {StateRunning, StateStarting}"
    and "a = ActionStop \<Longrightarrow> ctl_state (sv_world sv') i \<notin> {StateStopped, StateStopping}"
    and "machines_ok (sv_world sv')"
proof -
  let ?c = "agent_cfgs (su_name env) (sv_manager sv)"
  obtain w' where w': "Apply ?c (su_ctl env) i a (sv_world sv) = (Some e, w')" "sv' = sv \<lparr>sv_world := w'\<rparr>"
    using assms(4) by (auto simp: apply_on_def split: prod.splits)
  obtain c where c: "map_of ?c i = Some c" using assms(3) by (auto simp: cfgs_map)
  show "a = ActionStart \<Longrightarrow> ctl_state (sv_world sv') i \<notin> {StateRunning, StateStarting}"
    using Apply_start_error_down [OF assms(2), of ?c i "su_ctl env" e w'] w' c by (auto simp: up_def)
  show "a = ActionStop \<Longrightarrow> ctl_state (sv_world sv') i \<notin> {StateStopped, StateStopping}"
    using do_stop_effect [OF quietD(1) [OF assms(2)], of c i "Some e" w'] w' Apply_simple(1) [OF c] by (auto simp: stoppable_def)
  show "machines_ok (sv_world sv')"
    using machines.rel_apply(1) [where w = "sv_world sv" and cfgs = ?c and env = "su_ctl env" and stack = "[]" and i = i and a = a]
      quietD(1) [OF assms(2)] w' by (simp add: Apply_def)
qed

lemma apply_named_eq:
  "apply_named env (actionFromEnum act) cid target typ m sv = (e, m', sv') \<Longrightarrow> apply_on env cid (action_of act) sv = (e, sv')"
  by (auto simp: apply_named_def actionFromEnum_def action_of_def split: if_splits prod.splits)

lemma handle_replies:
  assumes "agents_ok (sv_manager sv)" "quiet (sv_world sv)" "getAgentCI (sv_manager sv) (TrimSpace (cmd_agent cmd)) = Some a"
    and "handleLifecycleAction txt env (Inr cmd) m sv = (replies, m', sv')"
  shows "\<exists>e. apply_on env (a_id a) (action_of (cmd_action cmd)) sv = (e, sv') \<and>
    replies = [replyStatus env (TrimSpace (cmd_agent cmd)) ''PENDING'' ''accepted'',
      (let final = ctl_state (sv_world sv') (a_id a) in
       case e of
         Some err \<Rightarrow> replyStatus env (TrimSpace (cmd_agent cmd)) StateError (txt err)
       | None \<Rightarrow> replyStatus env (TrimSpace (cmd_agent cmd)) final
           (if isInFlight final then ''still settling; current state='' @ final else ''ok''))]"
proof -
  let ?t = "TrimSpace (cmd_agent cmd)" let ?act = "actionFromEnum (cmd_action cmd)"
  let ?ty = "get (Describe (ctl_state (sv_world sv) (a_id a)) a) ''type''"
  obtain e m1 sv1 where n: "apply_named env ?act (a_id a) ?t ?ty m sv = (e, m1, sv1)" by (metis prod_cases3)
  note on = apply_named_eq [OF n]
  have g: "Get_agent (sv_manager sv) (a_id a) \<noteq> None" using getAgentCI_found [OF assms(3, 1)] by simp
  show ?thesis
  proof (cases e)
    case None
    with assms(3, 4) n on show ?thesis by (auto simp: handleLifecycleAction_def Let_def)
  next
    case (Some err)
    note f = failed_state [OF assms(1, 2) g on [unfolded Some]]
    have v: "ctl_state (sv_world sv1) (a_id a) \<in> set visited_states" by (rule machine_visited [OF f(3)])
    have "?act = ''start'' \<longrightarrow> action_of (cmd_action cmd) = ActionStart" "?act = ''stop'' \<longrightarrow> action_of (cmd_action cmd) = ActionStop"
      by (auto simp: actionFromEnum_def action_of_def)
    then have "\<not> (?act = ''start'' \<and> (EqualFold (ctl_state (sv_world sv1) (a_id a)) StateRunning \<or>
          EqualFold (ctl_state (sv_world sv1) (a_id a)) StateStarting))"
      "\<not> (?act = ''stop'' \<and> (EqualFold (ctl_state (sv_world sv1) (a_id a)) StateStopped \<or>
          EqualFold (ctl_state (sv_world sv1) (a_id a)) StateStopping))"
      using f(1, 2) v by (auto simp: visited_fold_iff)
    with assms(3, 4) n on Some show ?thesis
      by (auto simp: handleLifecycleAction_def Let_def simp del: EqualFold_def)
  qed
qed

text \<open>C14: A lifecycle request for an agent that exists is answered twice: at once that it was accepted,
  and after the action with the machine's state or, when the action failed, with the state
  \<open>error\<close> and the reason. So a failed request reads \<open>error\<close> whatever the machine's state is, and
  the two cases in which the handler would overlook a failure never occur.\<close>

theorem lifecycle_request_answered:
  assumes "agents_ok (sv_manager sv)" "quiet (sv_world sv)" "getAgentCI (sv_manager sv) (TrimSpace (cmd_agent cmd)) = Some a"
    and "handleLifecycleAction txt env (Inr cmd) m sv = (replies, m', sv')"
  shows "\<exists>e. apply_on env (a_id a) (action_of (cmd_action cmd)) sv = (e, sv') \<and>
    replies = [replyStatus env (TrimSpace (cmd_agent cmd)) ''PENDING'' ''accepted'',
      (let final = ctl_state (sv_world sv') (a_id a) in
       case e of
         Some err \<Rightarrow> replyStatus env (TrimSpace (cmd_agent cmd)) StateError (txt err)
       | None \<Rightarrow> replyStatus env (TrimSpace (cmd_agent cmd)) final
           (if isInFlight final then ''still settling; current state='' @ final else ''ok''))]"
  by (rule handle_replies [OF assms])

theorem lifecycle_request_answered_witness:
  "\<forall>m. \<exists>m' sv'. handleLifecycleAction (\<lambda>_. ''restart failed'') ex_env (Inr \<lparr>cmd_agent = '' API '', cmd_action = 4\<rparr>) m (discovered ex_env ex_sv)
     = ([replyStatus ex_env ''API'' ''PENDING'' ''accepted'', replyStatus ex_env ''API'' ''error'' ''restart failed''], m', sv')"
proof
  fix m :: gauges
  let ?sv = "discovered ex_env ex_sv" let ?cmd = "\<lparr>cmd_agent = '' API '', cmd_action = 4\<rparr>"
  have t: "TrimSpace (cmd_agent ?cmd) = ''API''" by code_simp
  have "map_option a_id (getAgentCI ex_am ''API'') = Some ''api''" by code_simp
  then obtain a where a: "getAgentCI (sv_manager ?sv) (TrimSpace (cmd_agent ?cmd)) = Some a" "a_id a = ''api''"
    unfolding t by auto
  have ok: "agents_ok (sv_manager ?sv)" "quiet (sv_world ?sv)"
    using agents_ok_ex new_controllers_quiet [OF initial_quiet] by (simp_all add: discovered_facts(1))
  obtain replies m' sv' where h: "handleLifecycleAction (\<lambda>_. ''restart failed'') ex_env (Inr ?cmd) m ?sv = (replies, m', sv')"
    by (metis prod_cases3)
  obtain e where e: "apply_on ex_env (a_id a) (action_of (cmd_action ?cmd)) ?sv = (e, sv')"
    "replies = [replyStatus ex_env (TrimSpace (cmd_agent ?cmd)) ''PENDING'' ''accepted'',
      (let final = ctl_state (sv_world sv') (a_id a) in
       case e of
         Some err \<Rightarrow> replyStatus ex_env (TrimSpace (cmd_agent ?cmd)) StateError ''restart failed''
       | None \<Rightarrow> replyStatus ex_env (TrimSpace (cmd_agent ?cmd)) final
           (if isInFlight final then ''still settling; current state='' @ final else ''ok''))]"
    using lifecycle_request_answered [OF ok a(1) h] by auto
  have "Get_agent ex_am ''api'' \<noteq> None" using ex_agents(1) by auto
  then obtain c where "map_of (agent_cfgs (su_name ex_env) (sv_manager ?sv)) ''api'' = Some c" by (auto simp: cfgs_map)
  from Apply_simple(2) [OF this] e(1) a(2) have "e \<noteq> None" by (auto simp: apply_on_def action_of_def)
  with e(2) h t show "\<exists>m' sv'. handleLifecycleAction (\<lambda>_. ''restart failed'') ex_env (Inr ?cmd) m ?sv
     = ([replyStatus ex_env ''API'' ''PENDING'' ''accepted'', replyStatus ex_env ''API'' ''error'' ''restart failed''], m', sv')"
    by (auto simp: Let_def StateError_def)
qed

section \<open>Status requests and metrics\<close>

definition targets_from :: "AgentDescription list \<Rightarrow> string \<Rightarrow> string set" where
  "targets_from hs i = {e_to e | e a. a \<in> set hs \<and> e \<in> set (edges_of a) \<and> e_from e = i}"

lemma status_of_fields:
  "as_id (status_of stats uptime sv x) = rd_id x" "as_type (status_of stats uptime sv x) = rd_type x"
  "as_caps (status_of stats uptime sv x) = rd_caps x"
  "as_state (status_of stats uptime sv x) = (case getAgentCI (sv_manager sv) (rd_id x) of
        None \<Rightarrow> AS_UNSPECIFIED | Some a \<Rightarrow> mapStateToProto (ctl_state (sv_world sv) (a_id a)))"
  "GetDependencies (rd_id x) (sv_registry sv) = Inr ds \<Longrightarrow> as_deps (status_of stats uptime sv x) = ds"
  by (simp_all add: status_of_def Let_def)

lemma last_with_ids:
  assumes "\<And>a. a \<in> set xs \<longleftrightarrow> last_with (rd_id a) hs = Some a"
  shows "rd_id ` set xs = rd_id ` set hs"
proof
  show "rd_id ` set xs \<subseteq> rd_id ` set hs"
  proof
    fix i assume "i \<in> rd_id ` set xs"
    then obtain a where "last_with i hs = Some a" using assms by auto
    with last_with_id [OF this] show "i \<in> rd_id ` set hs" by auto
  qed
  show "rd_id ` set hs \<subseteq> rd_id ` set xs"
  proof
    fix i assume "i \<in> rd_id ` set hs"
    then obtain a where "a \<in> set hs" "rd_id a = i" by auto
    then have "last_with i hs \<noteq> None" by (auto simp: last_with_def filter_empty_conv split: list.split)
    then obtain b where b: "last_with i hs = Some b" by blast
    with last_with_id [OF b] assms [of b] show "i \<in> rd_id ` set xs" by auto
  qed
qed

text \<open>A status request is answered with one entry for each identifier ever registered: its last
  description, the targets of all its registered edges, and the state of the manager's controller
  for it.\<close>

theorem status_request_exact:
  assumes "reg_history h key hs (sv_registry sv)" "\<forall>a \<in> set hs. plain_desc a"
  shows "\<exists>sts. on_agents_request stats uptime sv = Some sts \<and> distinct (map as_id sts) \<and>
    as_id ` set sts = rd_id ` set hs \<and>
    (\<forall>s \<in> set sts. \<exists>entry. last_with (as_id s) hs = Some entry \<and> as_type s = rd_type entry \<and> as_caps s = rd_caps entry \<and>
      distinct (as_deps s) \<and> set (as_deps s) = targets_from hs (as_id s) \<and>
      as_state s = (case getAgentCI (sv_manager sv) (as_id s) of
        None \<Rightarrow> AS_UNSPECIFIED | Some a \<Rightarrow> mapStateToProto (ctl_state (sv_world sv) (a_id a))))"
    (is "\<exists>sts. _ \<and> _ \<and> _ \<and> (\<forall>s \<in> set sts. ?ok s)")
proof -
  note R = reg_history_ok [OF assms]
  obtain xs where xs: "List_agents (sv_registry sv) = Inr xs" "distinct (map rd_id xs)"
    "\<And>a. a \<in> set xs \<longleftrightarrow> last_with (rd_id a) hs = Some a"
    using List_agents_spec [OF R] by metis
  let ?sts = "map (status_of stats uptime sv) xs"
  have ids: "map as_id ?sts = map rd_id xs" by (simp add: status_of_fields)
  have ok: "?ok (status_of stats uptime sv x)" if "x \<in> set xs" for x
  proof -
    have l: "last_with (rd_id x) hs = Some x" using that xs(3) by simp
    have "plain (rd_id x)" using last_with_id [OF l] assms(2) by (simp add: plain_desc_def)
    then obtain ds where d: "GetDependencies (rd_id x) (sv_registry sv) = Inr ds" "distinct ds" "set ds = targets_from hs (rd_id x)"
      unfolding targets_from_def by (rule GetDependencies_spec [OF R])
    show ?thesis unfolding status_of_fields(1-4) status_of_fields(5) [OF d(1)] using l d(2, 3) by simp
  qed
  have "on_agents_request stats uptime sv = Some ?sts" by (simp add: on_agents_request_def xs(1))
  moreover have "distinct (map as_id ?sts)" unfolding ids by (rule xs(2))
  moreover have "as_id ` set ?sts = rd_id ` set hs"
    using last_with_ids [OF xs(3)] by (simp add: image_image status_of_fields)
  moreover have "\<forall>s \<in> set ?sts. ?ok s"
  proof
    fix s assume "s \<in> set ?sts"
    then obtain x where "s = status_of stats uptime sv x" "x \<in> set xs" by auto
    with ok show "?ok s" by metis
  qed
  ultimately show ?thesis by blast
qed

theorem status_request_exact_witness:
  "\<exists>sts (r :: registry). ex_registered [ex_description ''a'' [''b'']] = Some r \<and>
     on_agents_request (\<lambda>_. None) (\<lambda>_. 0) (ex_sv \<lparr>sv_registry := r\<rparr>) = Some sts \<and> map as_id sts = [''a''] \<and>
     as_deps (hd sts) = [''b'']"
proof -
  let ?hs = "[ex_description ''a'' [''b'']]"
  have "ex_registered ?hs \<noteq> None" by code_simp
  then obtain r where r: "ex_registered ?hs = Some r" by blast
  have p: "\<forall>a \<in> set ?hs. plain_desc a" using ex_plain [of "''a''"] by (simp add: plain_def)
  have E: "targets_from ?hs ''a'' = {''b''}"
    by (auto simp: targets_from_def edges_of_def ex_description_def dep_edge_def)
  have h: "reg_history ex_host None ?hs (sv_registry (ex_sv \<lparr>sv_registry := r\<rparr>))"
    using ex_registered_history [OF r] by simp
  from status_request_exact [OF h p, of "\<lambda>_. None" "\<lambda>_. 0"]
  obtain sts where s: "on_agents_request (\<lambda>_. None) (\<lambda>_. 0) (ex_sv \<lparr>sv_registry := r\<rparr>) = Some sts" "distinct (map as_id sts)"
    "as_id ` set sts = rd_id ` set ?hs" and
    d: "\<forall>s \<in> set sts. distinct (as_deps s) \<and> set (as_deps s) = targets_from ?hs (as_id s)"
    by (elim exE conjE) (simp; metis)
  have "length sts = 1" using s(2, 3) distinct_card [OF s(2)] by (simp add: ex_description_def)
  then obtain x where x: "sts = [x]" by (auto simp: length_Suc_conv)
  with s(3) have i: "as_id x = ''a''" by (simp add: ex_description_def)
  with d x E have "distinct (as_deps x)" "set (as_deps x) = {''b''}" by simp_all
  then have "as_deps x = [''b'']" by (cases "as_deps x"; cases "tl (as_deps x)") auto
  with r s(1) i x show ?thesis by (intro exI [of _ sts] exI [of _ r]) simp
qed

text \<open>The state shown agrees with the machine's own reading in every state the controller reaches,
  except \<open>restarting\<close>, which no action enters.\<close>

lemma mapStateToProto_agrees:
  assumes "lifecycle_reachable sm" "GetState sm \<noteq> StateRestarting"
  shows "mapStateToProto (GetState sm) = CurrentProtoState sm"
  using lifecycle_reachable_visited [OF assms(1)] assms(2)
  by (auto simp: visited_states_def mapStateToProto_def CurrentProtoState_def GetState_def Let_def state_name_defs)

lemma proto_states_differ:
  "mapStateToProto StateInitializing \<noteq> CurrentProtoState \<lparr>current = StateInitializing, transitions = [], observers = []\<rparr>"
  "mapStateToProto StateInitialized \<noteq> CurrentProtoState \<lparr>current = StateInitialized, transitions = [], observers = []\<rparr>"
  "mapStateToProto StateRestarting \<noteq> CurrentProtoState \<lparr>current = StateRestarting, transitions = [], observers = []\<rparr>"
  by (simp_all add: mapStateToProto_def CurrentProtoState_def GetState_def Let_def state_name_defs)

lemma set_states_other:
  "(i, t) \<noteq> (j, u) \<Longrightarrow> AgentState_g (fold (\<lambda>s. set_state i t s v) ss m) (j, u, x) = AgentState_g m (j, u, x)"
  by (induction ss arbitrary: m) (auto simp: set_state_def)

lemma set_states_same:
  "AgentState_g (fold (\<lambda>s. set_state i t s v) ss m) (i, t, x) = (if x \<in> set ss then v else AgentState_g m (i, t, x))"
  by (induction ss arbitrary: m) (auto simp: set_state_def)

lemma resources_keep_state [simp]: "AgentState_g (UpdateAgentResources i t mem m) = AgentState_g m"
  by (simp add: UpdateAgentResources_def)

lemma collect_one_state:
  "AgentState_g (collect_one stats sv entry m) (i, t, x) =
     (case Get_agent (sv_manager sv) (rd_id entry) of
        None \<Rightarrow> AgentState_g m (i, t, x)
      | Some ag \<Rightarrow>
        if (i, t) \<noteq> (rd_id entry, rd_type entry) then AgentState_g m (i, t, x)
        else if x = ctl_state (sv_world sv) (a_id ag) then 1
        else if x \<in> set cleared_states then 0 else AgentState_g m (i, t, x))"
  using set_states_other [of "rd_id entry" "rd_type entry" i t 0 cleared_states m x]
  by (auto simp: collect_one_def Let_def set_state_def set_states_same split: option.split)

text \<open>After the metrics are collected, of the states of a registered agent exactly the present one reads
  1, whatever was there before. The memory of an agent that has stopped keeps its last value.\<close>

lemma collectMetrics_one_state:
  assumes "List_agents (sv_registry sv) = Inr entries" "distinct (map rd_id entries)" "entry \<in> set entries"
    and "Get_agent (sv_manager sv) (rd_id entry) = Some ag" "x \<in> set cleared_states"
  shows "AgentState_g (collectMetrics stats sv m) (rd_id entry, rd_type entry, x)
    = (if x = ctl_state (sv_world sv) (a_id ag) then 1 else 0)"
proof -
  have keep: "AgentState_g (fold (collect_one stats sv) es m) (rd_id entry, t, x) = AgentState_g m (rd_id entry, t, x)"
    if "rd_id entry \<notin> set (map rd_id es)" for es m t
    using that by (induction es arbitrary: m) (auto simp: collect_one_state split: option.split)
  have "AgentState_g (fold (collect_one stats sv) es m) (rd_id entry, rd_type entry, x) =
      (if x = ctl_state (sv_world sv) (a_id ag) then 1 else 0)"
    if "entry \<in> set es" "distinct (map rd_id es)" for es m
    using that
  proof (induction es arbitrary: m)
    case (Cons e es)
    show ?case
    proof (cases "entry = e")
      case True
      with Cons.prems keep [of es] assms(4, 5) show ?thesis by (simp add: collect_one_state)
    next
      case False
      with Cons show ?thesis by simp
    qed
  qed simp
  from this [OF assms(3, 2)] assms(1) show ?thesis by (simp add: collectMetrics_def)
qed

end
