(* ===== verification/EventBus.thy ===== *)
theory EventBus
  imports GoStrings
begin

text \<open>
  \<^verbatim>\<open>core/eventbus\<close>: subscriptions, ordered delivery and publishing. A subscription is a bounded
  queue with one consumer; the maps hold the identifiers of the live ones, and a queue that has
  been taken out of the maps still drains. The transport is a parameter: what its
  \<^verbatim>\<open>PublishRemote\<close> returned. Each operation is a function on the bus; \<open>bus_step\<close> is
  their interleaving, with the events offered to every subscription as a history.
\<close>

section \<open>Events and keys\<close>

record 'p event =
  e_id :: string
  e_scope :: string
  e_ns :: string
  e_topic :: string
  e_payload :: 'p
  e_source :: string
  e_tags :: "string list"

definition NewEvent :: "string \<Rightarrow> string \<Rightarrow> string \<Rightarrow> string \<Rightarrow> string \<Rightarrow> 'p \<Rightarrow> string list \<Rightarrow> 'p event" where
  "NewEvent fresh scope ns topic source payload tags =
     \<lparr>e_id = fresh, e_scope = scope, e_ns = ns, e_topic = topic, e_payload = payload,
      e_source = source, e_tags = tags\<rparr>"

datatype bus_error = InvalidScope string | EmptyTopic | BusClosed

datatype transport_error = ErrNoPeer | TransportFailed string

definition validScopes :: "string list" where
  "validScopes = [''system'', ''user'', ''admin'']"

definition ValidateEvent :: "'p event \<Rightarrow> (bus_error, unit) result" where
  "ValidateEvent e =
     (if e_scope e \<notin> set validScopes then Inl (InvalidScope (e_scope e))
      else if TrimSpace (e_topic e) = [] then Inl EmptyTopic
      else Inr ())"

definition fullKey :: "string \<Rightarrow> string \<Rightarrow> string \<Rightarrow> string" where
  "fullKey scope ns topic =
     scope @ ''/'' @ (if ns = [] then ''default'' else ns) @ ''/'' @ topic"

definition match_key :: "string \<Rightarrow> string" where
  "match_key k = ''__MATCH:'' @ k"

section \<open>The bus\<close>

definition deliveryQueueDepth :: nat where "deliveryQueueDepth = 256"

text \<open>A handler: the code pointer of the caller's function, and how the subscription wraps it.\<close>

datatype wrapper = Plain | Once string | Correlated string string

record 'p delivery =
  q :: "'p event list"
  drops :: nat
  stopped :: bool
  fn :: nat
  wrap :: wrapper
  fired :: bool
  handled :: "'p event list"

definition newDelivery :: "nat \<Rightarrow> wrapper \<Rightarrow> 'p delivery" where
  "newDelivery f w = \<lparr>q = [], drops = 0, stopped = False, fn = f, wrap = w, fired = False, handled = []\<rparr>"

definition send :: "'p event \<Rightarrow> 'p delivery \<Rightarrow> 'p delivery" where
  "send e d = (if length (q d) < deliveryQueueDepth then d \<lparr>q := q d @ [e]\<rparr> else d \<lparr>drops := drops d + 1\<rparr>)"

definition stop :: "'p delivery \<Rightarrow> 'p delivery" where
  "stop d = d \<lparr>stopped := True\<rparr>"

record 'p bus =
  subs :: "(string, nat list) gomap"
  prefixSubs :: "(string, nat list) gomap"
  nextSubID :: nat
  bus_closed :: bool
  dels :: "nat \<Rightarrow> 'p delivery"

definition NewEventBus :: "'p bus" where
  "NewEventBus = \<lparr>subs = [], prefixSubs = [], nextSubID = 0, bus_closed = False,
     dels = (\<lambda>_. newDelivery 0 Plain)\<rparr>"

definition ids_at :: "(string, nat list) gomap \<Rightarrow> string \<Rightarrow> nat list" where
  "ids_at m k = (case map_of m k of None \<Rightarrow> [] | Some ids \<Rightarrow> ids)"

text \<open>\<^verbatim>\<open>m[k] = ids\<close>, and the deletion of an empty entry.\<close>

definition set_ids :: "string \<Rightarrow> nat list \<Rightarrow> (string, nat list) gomap \<Rightarrow> (string, nat list) gomap" where
  "set_ids k ids m = (if ids = [] then AList.delete k m else AList.update k ids m)"

definition upd_del :: "nat \<Rightarrow> ('p delivery \<Rightarrow> 'p delivery) \<Rightarrow> 'p bus \<Rightarrow> 'p bus" where
  "upd_del i f b = b \<lparr>dels := (dels b) (i := f (dels b i))\<rparr>"

text \<open>Registration: a fresh identifier, a fresh queue, an entry at the end of its key's list.\<close>

definition add_exact :: "string \<Rightarrow> nat \<Rightarrow> wrapper \<Rightarrow> 'p bus \<Rightarrow> nat \<times> 'p bus" where
  "add_exact k f w b =
     (let i = nextSubID b + 1 in
      (i, b \<lparr>nextSubID := i, subs := AList.update k (ids_at (subs b) k @ [i]) (subs b),
        dels := (dels b) (i := newDelivery f w)\<rparr>))"

definition add_prefix :: "string \<Rightarrow> nat \<Rightarrow> 'p bus \<Rightarrow> nat \<times> 'p bus" where
  "add_prefix k f b =
     (let i = nextSubID b + 1 in
      (i, b \<lparr>nextSubID := i, prefixSubs := AList.update k (ids_at (prefixSubs b) k @ [i]) (prefixSubs b),
        dels := (dels b) (i := newDelivery f Plain)\<rparr>))"

definition guarded :: "string \<Rightarrow> 'p bus \<Rightarrow> ('p bus \<Rightarrow> 'x) \<Rightarrow> (bus_error, 'x) result" where
  "guarded scope b act =
     (if scope \<notin> set validScopes then Inl (InvalidScope scope)
      else if bus_closed b then Inl BusClosed else Inr (act b))"

definition Subscribe :: "string \<Rightarrow> string \<Rightarrow> string \<Rightarrow> nat \<Rightarrow> 'p bus \<Rightarrow> (bus_error, nat \<times> 'p bus) result" where
  "Subscribe scope ns topic f b = guarded scope b (add_exact (fullKey scope ns topic) f Plain)"

definition SubscribePrefix :: "string \<Rightarrow> string \<Rightarrow> string \<Rightarrow> nat \<Rightarrow> 'p bus \<Rightarrow> (bus_error, nat \<times> 'p bus) result" where
  "SubscribePrefix scope ns topicPrefix f b =
     guarded scope b (add_prefix (match_key (fullKey scope ns topicPrefix)) f)"

definition SubscribeOnce :: "string \<Rightarrow> string \<Rightarrow> string \<Rightarrow> nat \<Rightarrow> 'p bus \<Rightarrow> (bus_error, nat \<times> 'p bus) result" where
  "SubscribeOnce scope ns topic f b =
     (let k = fullKey scope ns topic in guarded scope b (add_exact k f (Once k)))"

definition SubscribeCorrelated :: "string \<Rightarrow> string \<Rightarrow> string \<Rightarrow> string \<Rightarrow> nat \<Rightarrow> 'p bus
    \<Rightarrow> (bus_error, nat \<times> 'p bus) result" where
  "SubscribeCorrelated scope ns topic corrID f b =
     (let k = fullKey scope ns topic in guarded scope b (add_exact k f (Correlated k corrID)))"

definition removeSubByID :: "string \<Rightarrow> nat \<Rightarrow> 'p bus \<Rightarrow> 'p bus" where
  "removeSubByID k i b =
     (if i \<in> set (ids_at (subs b) k)
      then (upd_del i stop b) \<lparr>subs := set_ids k (remove1 i (ids_at (subs b) k)) (subs b)\<rparr>
      else b)"

definition removePrefixSubByID :: "string \<Rightarrow> nat \<Rightarrow> 'p bus \<Rightarrow> 'p bus" where
  "removePrefixSubByID k i b =
     (if i \<in> set (ids_at (prefixSubs b) k)
      then (upd_del i stop b) \<lparr>prefixSubs := set_ids k (remove1 i (ids_at (prefixSubs b) k)) (prefixSubs b)\<rparr>
      else b)"

text \<open>Removal by code pointer takes the first entry whose handler has it. A one-shot wrapper is
  a closure of the bus itself, so its code pointer is that of no caller.\<close>

definition has_fn :: "'p bus \<Rightarrow> nat \<Rightarrow> nat \<Rightarrow> bool" where
  "has_fn b target i \<longleftrightarrow> wrap (dels b i) = Plain \<and> fn (dels b i) = target"

definition Unsubscribe :: "string \<Rightarrow> string \<Rightarrow> string \<Rightarrow> nat \<Rightarrow> 'p bus \<Rightarrow> 'p bus" where
  "Unsubscribe scope ns topic target b =
     (let k = fullKey scope ns topic in
      case find (has_fn b target) (ids_at (subs b) k) of None \<Rightarrow> b | Some i \<Rightarrow> removeSubByID k i b)"

definition UnsubscribePrefix :: "string \<Rightarrow> string \<Rightarrow> string \<Rightarrow> nat \<Rightarrow> 'p bus \<Rightarrow> 'p bus" where
  "UnsubscribePrefix scope ns topicPrefix target b =
     (let k = match_key (fullKey scope ns topicPrefix) in
      case find (has_fn b target) (ids_at (prefixSubs b) k) of None \<Rightarrow> b | Some i \<Rightarrow> removePrefixSubByID k i b)"

text \<open>The subscriptions an event goes to, in the order of the sends.\<close>

definition targets :: "'p event \<Rightarrow> 'p bus \<Rightarrow> nat list" where
  "targets e b =
     (let k = fullKey (e_scope e) (e_ns e) (e_topic e) in
      ids_at (subs b) k @
      concat [ids. (key, ids) \<leftarrow> prefixSubs b, HasPrefix k (TrimPrefix key ''__MATCH:'')])"

definition dispatch :: "'p event \<Rightarrow> 'p bus \<Rightarrow> 'p bus" where
  "dispatch e b = fold (\<lambda>i b. upd_del i (send e) b) (targets e b) b"

text \<open>\<^verbatim>\<open>publish\<close>: the transport error and the caller's error separately; \<open>sent\<close> is what the
  transport, if there is one, answered.\<close>

definition publish :: "transport_error option \<Rightarrow> 'p event \<Rightarrow> 'p bus
    \<Rightarrow> transport_error option \<times> bus_error option \<times> 'p bus" where
  "publish sent e b = (case ValidateEvent e of
     Inl err \<Rightarrow> (None, Some err, b)
   | Inr _ \<Rightarrow> (sent, None, dispatch e b))"

definition Publish :: "transport_error option \<Rightarrow> 'p event \<Rightarrow> 'p bus \<Rightarrow> bus_error option \<times> 'p bus" where
  "Publish sent e b = (case publish sent e b of (terr, err, b') \<Rightarrow> (err, b'))"

definition PublishRequest :: "transport_error option \<Rightarrow> 'p event \<Rightarrow> 'p bus
    \<Rightarrow> (transport_error + bus_error) option \<times> 'p bus" where
  "PublishRequest sent e b = (case publish sent e b of (terr, err, b') \<Rightarrow>
     (case terr of Some t \<Rightarrow> Some (Inl t) | None \<Rightarrow> map_option Inr err, b'))"

text \<open>An event arriving from a peer.\<close>

definition on_remote_event :: "'p event \<Rightarrow> 'p bus \<Rightarrow> 'p bus" where
  "on_remote_event e b = (case ValidateEvent e of Inl _ \<Rightarrow> b | Inr _ \<Rightarrow> dispatch e b)"

text \<open>One turn of a delivery goroutine: take the oldest event and run the handler with it.\<close>

definition deliver :: "nat \<Rightarrow> 'p bus \<Rightarrow> 'p bus" where
  "deliver i b = (case q (dels b i) of
     [] \<Rightarrow> b
   | e # rest \<Rightarrow>
     let d = (dels b i) \<lparr>q := rest\<rparr>; b1 = upd_del i (\<lambda>_. d) b in
     (case wrap d of
        Plain \<Rightarrow> upd_del i (\<lambda>d. d \<lparr>handled := handled d @ [e]\<rparr>) b1
      | Once k \<Rightarrow>
        if fired d then b1
        else removeSubByID k i (upd_del i (\<lambda>d. d \<lparr>fired := True, handled := handled d @ [e]\<rparr>) b1)
      | Correlated k corrID \<Rightarrow>
        if e_id e \<noteq> corrID \<or> fired d then b1
        else removeSubByID k i (upd_del i (\<lambda>d. d \<lparr>fired := True, handled := handled d @ [e]\<rparr>) b1)))"

definition all_ids :: "'p bus \<Rightarrow> nat list" where
  "all_ids b = concat (map snd (subs b)) @ concat (map snd (prefixSubs b))"

definition Close :: "'p bus \<Rightarrow> 'p bus" where
  "Close b = (if bus_closed b then b
     else (fold (\<lambda>i b. upd_del i stop b) (all_ids b) b) \<lparr>bus_closed := True, subs := [], prefixSubs := []\<rparr>)"

text \<open>\<^verbatim>\<open>WaitForTopic\<close>: it registers a waiter, returns on whichever comes first, and removes the
  waiter in every case.\<close>

datatype wait_outcome = TopicFired | ContextDone | WaitTimeout

definition wait_register :: "string \<Rightarrow> string \<Rightarrow> string \<Rightarrow> nat \<Rightarrow> 'p bus \<Rightarrow> (bus_error, nat \<times> 'p bus) result" where
  "wait_register scope ns topic f b = guarded scope b (add_exact (fullKey scope ns topic) f Plain)"

definition wait_return :: "string \<Rightarrow> nat \<Rightarrow> wait_outcome \<Rightarrow> 'p bus \<Rightarrow> (wait_outcome, unit) result \<times> 'p bus" where
  "wait_return k i out b =
     (case out of TopicFired \<Rightarrow> Inr () | o' \<Rightarrow> Inl o', removeSubByID k i b)"

section \<open>The maps of subscriptions\<close>

definition tbl_ok :: "(string, nat list) gomap \<Rightarrow> bool" where
  "tbl_ok m \<longleftrightarrow> gomap_ok m \<and> (\<forall>k. distinct (ids_at m k)) \<and>
     (\<forall>k k' i. i \<in> set (ids_at m k) \<longrightarrow> i \<in> set (ids_at m k') \<longrightarrow> k = k')"

definition live :: "(string, nat list) gomap \<Rightarrow> nat set" where
  "live m = {i. \<exists>k. i \<in> set (ids_at m k)}"

text \<open>Every live subscription has one entry, an identifier already given out, and an open queue.\<close>

definition maps_ok :: "'p bus \<Rightarrow> bool" where
  "maps_ok b \<longleftrightarrow> tbl_ok (subs b) \<and> tbl_ok (prefixSubs b) \<and> live (subs b) \<inter> live (prefixSubs b) = {} \<and>
     (\<forall>i \<in> live (subs b) \<union> live (prefixSubs b). i \<le> nextSubID b \<and> \<not> stopped (dels b i)) \<and>
     (bus_closed b \<longrightarrow> subs b = [] \<and> prefixSubs b = [])"

lemma ids_at_update [simp]:
  "ids_at (AList.update k ids m) k' = (if k' = k then ids else ids_at m k')"
  by (simp add: ids_at_def update_conv')

lemma ids_at_set_ids [simp]: "gomap_ok m \<Longrightarrow>
  ids_at (set_ids k ids m) k' = (if k' = k then ids else ids_at m k')"
  by (auto simp: ids_at_def set_ids_def update_conv' delete_conv')

lemma gomap_ok_set_ids [simp]: "gomap_ok m \<Longrightarrow> gomap_ok (set_ids k ids m)"
  by (simp add: set_ids_def)

lemma ids_at_Nil [simp]: "ids_at [] k = []"
  by (simp add: ids_at_def)

lemma ids_at_entry: "gomap_ok m \<Longrightarrow> (k, ids) \<in> set m \<Longrightarrow> ids_at m k = ids"
  by (simp add: ids_at_def gomap_ok_map_of)

lemma upd_del_simps [simp]:
  "subs (upd_del i f b) = subs b" "prefixSubs (upd_del i f b) = prefixSubs b"
  "nextSubID (upd_del i f b) = nextSubID b" "bus_closed (upd_del i f b) = bus_closed b"
  "dels (upd_del i f b) j = (if j = i then f (dels b i) else dels b j)"
  by (simp_all add: upd_del_def)

lemma send_simps [simp]:
  "stopped (send e d) = stopped d" "wrap (send e d) = wrap d" "fired (send e d) = fired d"
  "handled (send e d) = handled d"
  by (simp_all add: send_def)

lemma stop_simps [simp]:
  "stopped (stop d)" "wrap (stop d) = wrap d" "fired (stop d) = fired d" "handled (stop d) = handled d"
  "q (stop d) = q d" "drops (stop d) = drops d"
  by (simp_all add: stop_def)

lemma live_Nil [simp]: "live [] = {}"
  by (simp add: live_def)

lemma tbl_ok_Nil [simp]: "tbl_ok []"
  by (simp add: tbl_ok_def gomap_ok_def)

lemma tbl_add:
  assumes "tbl_ok m" "i \<notin> live m"
  shows "tbl_ok (AList.update k (ids_at m k @ [i]) m)" "live (AList.update k (ids_at m k @ [i]) m) = insert i (live m)"
proof -
  have f: "i \<notin> set (ids_at m k')" for k' using assms(2) by (simp add: live_def)
  show "tbl_ok (AList.update k (ids_at m k @ [i]) m)"
    using assms(1) f unfolding tbl_ok_def by (auto split: if_splits)
  show "live (AList.update k (ids_at m k @ [i]) m) = insert i (live m)"
    by (auto simp: live_def split: if_splits)
qed

lemma tbl_remove:
  assumes "tbl_ok m" "i \<in> set (ids_at m k)"
  shows "tbl_ok (set_ids k (remove1 i (ids_at m k)) m)" "live (set_ids k (remove1 i (ids_at m k)) m) = live m - {i}"
proof -
  have g: "gomap_ok m" and d: "\<And>k. distinct (ids_at m k)"
    and u: "\<And>k' j. j \<in> set (ids_at m k) \<Longrightarrow> j \<in> set (ids_at m k') \<Longrightarrow> k = k'"
    and u2: "\<And>k k' j. j \<in> set (ids_at m k) \<Longrightarrow> j \<in> set (ids_at m k') \<Longrightarrow> k = k'"
    using assms(1) by (auto simp: tbl_ok_def)
  have s: "set (remove1 i (ids_at m k)) = set (ids_at m k) - {i}" using d by (simp add: set_remove1_eq)
  show "tbl_ok (set_ids k (remove1 i (ids_at m k)) m)"
    unfolding tbl_ok_def
  proof (intro conjI allI impI)
    fix k1 k2 j
    assume "j \<in> set (ids_at (set_ids k (remove1 i (ids_at m k)) m) k1)"
      "j \<in> set (ids_at (set_ids k (remove1 i (ids_at m k)) m) k2)"
    then have "j \<in> set (ids_at m k1)" "j \<in> set (ids_at m k2)" using g s by (auto split: if_splits)
    then show "k1 = k2" by (rule u2)
  qed (use g d in \<open>auto simp: distinct_remove1\<close>)
  show "live (set_ids k (remove1 i (ids_at m k)) m) = live m - {i}"
  proof -
    have "set (ids_at (set_ids k (remove1 i (ids_at m k)) m) k') = set (ids_at m k') - {i}" for k'
      using g s u [OF assms(2), of k'] by auto
    then show ?thesis by (auto simp: live_def)
  qed
qed

lemma maps_ok_new [simp]: "maps_ok NewEventBus"
  by (simp add: maps_ok_def NewEventBus_def)

lemma fresh_id: "maps_ok b \<Longrightarrow> Suc (nextSubID b) \<notin> live (subs b) \<and> Suc (nextSubID b) \<notin> live (prefixSubs b)"
  unfolding maps_ok_def using Suc_n_not_le_n by blast

lemma maps_ok_add_exact:
  assumes "maps_ok b" "\<not> bus_closed b"
  shows "maps_ok (snd (add_exact k f w b))"
  using assms fresh_id [OF assms(1)]
  by (auto simp: maps_ok_def add_exact_def tbl_add newDelivery_def intro: le_SucI)

lemma maps_ok_add_prefix:
  assumes "maps_ok b" "\<not> bus_closed b"
  shows "maps_ok (snd (add_prefix k f b))"
  using assms fresh_id [OF assms(1)]
  by (auto simp: maps_ok_def add_prefix_def tbl_add newDelivery_def intro: le_SucI)

lemma live_subs_nonempty: "i \<in> set (ids_at m k) \<Longrightarrow> m \<noteq> []"
  by auto

lemma maps_ok_remove:
  assumes "maps_ok b"
  shows "maps_ok (removeSubByID k i b)" "maps_ok (removePrefixSubByID k i b)"
proof -
  show "maps_ok (removeSubByID k i b)"
  proof (cases "i \<in> set (ids_at (subs b) k)")
    case True
    then have "\<not> bus_closed b" "i \<in> live (subs b)" using assms by (auto simp: maps_ok_def live_def)
    with True assms show ?thesis by (auto simp: maps_ok_def removeSubByID_def tbl_remove)
  qed (use assms in \<open>simp add: removeSubByID_def\<close>)
  show "maps_ok (removePrefixSubByID k i b)"
  proof (cases "i \<in> set (ids_at (prefixSubs b) k)")
    case True
    then have "\<not> bus_closed b" "i \<in> live (prefixSubs b)" using assms by (auto simp: maps_ok_def live_def)
    with True assms show ?thesis by (auto simp: maps_ok_def removePrefixSubByID_def tbl_remove)
  qed (use assms in \<open>simp add: removePrefixSubByID_def\<close>)
qed

lemma maps_ok_upd_del:
  "(\<And>d. stopped (f d) = stopped d) \<Longrightarrow> maps_ok (upd_del i f b) = maps_ok b"
  by (auto simp: maps_ok_def)

section \<open>Dispatch\<close>

lemma targets_live: "maps_ok b \<Longrightarrow> i \<in> set (targets e b) \<Longrightarrow> i \<in> live (subs b) \<union> live (prefixSubs b)"
  by (fastforce simp: targets_def Let_def live_def maps_ok_def tbl_ok_def dest: ids_at_entry split: if_splits)

lemma dispatch_simps [simp]:
  "subs (dispatch e b) = subs b" "prefixSubs (dispatch e b) = prefixSubs b"
  "nextSubID (dispatch e b) = nextSubID b" "bus_closed (dispatch e b) = bus_closed b"
proof -
  have "subs (fold (\<lambda>i b. upd_del i (send e) b) xs b) = subs b \<and>
      prefixSubs (fold (\<lambda>i b. upd_del i (send e) b) xs b) = prefixSubs b \<and>
      nextSubID (fold (\<lambda>i b. upd_del i (send e) b) xs b) = nextSubID b \<and>
      bus_closed (fold (\<lambda>i b. upd_del i (send e) b) xs b) = bus_closed b" for xs
    by (induction xs arbitrary: b) auto
  then show "subs (dispatch e b) = subs b" "prefixSubs (dispatch e b) = prefixSubs b"
    "nextSubID (dispatch e b) = nextSubID b" "bus_closed (dispatch e b) = bus_closed b"
    by (simp_all add: dispatch_def)
qed

lemma fold_send: "distinct xs \<Longrightarrow>
  dels (fold (\<lambda>i b. upd_del i (send e) b) xs b) j = (if j \<in> set xs then send e (dels b j) else dels b j)"
  by (induction xs arbitrary: b) auto

lemma distinct_concat_entries:
  assumes "tbl_ok m"
  shows "distinct (concat [ids. (key, ids) \<leftarrow> m, P key])"
proof -
  have "gomap_ok m' \<Longrightarrow> set m' \<subseteq> set m \<Longrightarrow> distinct (concat [ids. (key, ids) \<leftarrow> m', P key])" for m'
  proof (induction m')
    case (Cons x m')
    obtain k ids where x: "x = (k, ids)" by (cases x)
    have g: "gomap_ok m" using assms by (simp add: tbl_ok_def)
    have k: "ids_at m k = ids" using Cons.prems x g by (auto intro: ids_at_entry)
    have d: "distinct ids" using assms k unfolding tbl_ok_def by blast
    have "set ids \<inter> set ids' = {}" if "(k', ids') \<in> set m'" for k' ids'
    proof -
      have "ids_at m k' = ids'" using Cons.prems that g by (auto intro: ids_at_entry)
      moreover have "k \<noteq> k'" using Cons.prems(1) that x by (force simp: gomap_ok_def keys_def)
      ultimately show ?thesis using assms k unfolding tbl_ok_def by blast
    qed
    moreover have "distinct (concat [ids. (key, ids) \<leftarrow> m', P key])"
      using Cons.IH Cons.prems x by (auto simp: gomap_ok_def)
    ultimately show ?case using d x by (fastforce split: if_splits)
  qed simp
  then show ?thesis using assms by (simp add: tbl_ok_def)
qed

lemma targets_distinct:
  assumes ok: "maps_ok b"
  shows "distinct (targets e b)"
proof -
  let ?k = "fullKey (e_scope e) (e_ns e) (e_topic e)"
  let ?P = "\<lambda>key. HasPrefix ?k (TrimPrefix key ''__MATCH:'')"
  let ?xs = "concat [ids. (key, ids) \<leftarrow> prefixSubs b, ?P key]"
  have "distinct ?xs" using distinct_concat_entries [of "prefixSubs b" ?P] ok by (simp add: maps_ok_def)
  moreover have "set ?xs \<subseteq> live (prefixSubs b)"
    using ok by (auto simp: maps_ok_def tbl_ok_def live_def dest: ids_at_entry split: if_splits)
  moreover have "set (ids_at (subs b) ?k) \<inter> live (prefixSubs b) = {}"
    using ok by (auto simp: maps_ok_def live_def)
  moreover have "distinct (ids_at (subs b) ?k)" using ok by (simp add: maps_ok_def tbl_ok_def)
  ultimately have "distinct (ids_at (subs b) ?k @ ?xs)" by (simp only: distinct_append) blast
  then show ?thesis by (simp only: targets_def Let_def)
qed

lemma dispatch_dels: "maps_ok b \<Longrightarrow>
  dels (dispatch e b) j = (if j \<in> set (targets e b) then send e (dels b j) else dels b j)"
  unfolding dispatch_def by (rule fold_send [OF targets_distinct])

lemma maps_ok_dispatch: "maps_ok b \<Longrightarrow> maps_ok (dispatch e b)"
proof -
  assume ok: "maps_ok b"
  then have "stopped (dels (dispatch e b) i) = stopped (dels b i)" for i by (simp add: dispatch_dels)
  with ok show ?thesis by (simp add: maps_ok_def)
qed

section \<open>Delivery\<close>

text \<open>What a queue of one subscription promises its bus: sending keeps the order of what was
  accepted, loses an event only when the queue is full, and counts it.\<close>

locale event_queue =
  fixes put :: "'e \<Rightarrow> 'd \<Rightarrow> 'd" and contents :: "'d \<Rightarrow> 'e list" and lost :: "'d \<Rightarrow> nat" and cap :: nat
  assumes put_accept: "length (contents d) < cap \<Longrightarrow> contents (put e d) = contents d @ [e] \<and> lost (put e d) = lost d"
    and put_full: "\<not> length (contents d) < cap \<Longrightarrow> contents (put e d) = contents d \<and> lost (put e d) = lost d + 1"
begin

lemma put_bound: "length (contents d) \<le> cap \<Longrightarrow> length (contents (put e d)) \<le> cap"
  using put_accept [of d e] put_full [of d e] by (cases "length (contents d) < cap") auto

lemma put_history:
  assumes "subseq (taken @ contents d) hist" "length hist = length taken + length (contents d) + lost d"
  shows "subseq (taken @ contents (put e d)) (hist @ [e])"
    and "length (hist @ [e]) = length taken + length (contents (put e d)) + lost (put e d)"
proof (atomize (full), cases "length (contents d) < cap")
  case True
  from put_accept [OF True, of e] assms list_emb_append_mono [OF assms(1), of "[e]" "[e]"]
  show "subseq (taken @ contents (put e d)) (hist @ [e]) \<and>
      length (hist @ [e]) = length taken + length (contents (put e d)) + lost (put e d)" by simp
next
  case False
  from put_full [OF False, of e] assms
  show "subseq (taken @ contents (put e d)) (hist @ [e]) \<and>
      length (hist @ [e]) = length taken + length (contents (put e d)) + lost (put e d)" by auto
qed

end

interpretation delivery_queue: event_queue send q drops deliveryQueueDepth
  by unfold_locales (auto simp: send_def)

text \<open>The events a handler has seen, as a function of the events its goroutine has taken.\<close>

definition accepted :: "wrapper \<Rightarrow> 'p event list \<Rightarrow> 'p event list" where
  "accepted w taken = (case w of
     Plain \<Rightarrow> taken
   | Once _ \<Rightarrow> take 1 taken
   | Correlated _ corrID \<Rightarrow> take 1 (filter (\<lambda>e. e_id e = corrID) taken))"

definition delivery_ok :: "'p event list \<Rightarrow> 'p delivery \<Rightarrow> bool" where
  "delivery_ok hist d \<longleftrightarrow> length (q d) \<le> deliveryQueueDepth \<and>
     (\<exists>taken. subseq (taken @ q d) hist \<and> length hist = length taken + length (q d) + drops d \<and>
       handled d = accepted (wrap d) taken \<and> (wrap d \<noteq> Plain \<longrightarrow> fired d = (handled d \<noteq> [])))"

lemma delivery_ok_new [simp]: "delivery_ok [] (newDelivery f w)"
  by (auto simp: delivery_ok_def newDelivery_def accepted_def split: wrapper.split)

lemma delivery_ok_send: "delivery_ok h d \<Longrightarrow> delivery_ok (h @ [e]) (send e d)"
  unfolding delivery_ok_def
  using delivery_queue.put_bound delivery_queue.put_history by (metis send_simps(2-4))

lemma delivery_ok_stop [simp]: "delivery_ok h (stop d) = delivery_ok h d"
  by (simp add: delivery_ok_def)

text \<open>Taking the oldest event and handing it to the wrapped handler.\<close>

definition take_one :: "'p event \<Rightarrow> 'p event list \<Rightarrow> 'p delivery \<Rightarrow> 'p delivery" where
  "take_one e rest d = (let d' = d \<lparr>q := rest\<rparr> in
     case wrap d of
       Plain \<Rightarrow> d' \<lparr>handled := handled d @ [e]\<rparr>
     | Once _ \<Rightarrow> if fired d then d' else d' \<lparr>fired := True, handled := handled d @ [e]\<rparr>
     | Correlated _ c \<Rightarrow> if e_id e \<noteq> c \<or> fired d then d' else d' \<lparr>fired := True, handled := handled d @ [e]\<rparr>)"

lemma delivery_ok_take:
  assumes "delivery_ok h d" "q d = e # rest"
  shows "delivery_ok h (take_one e rest d)"
proof -
  from assms(1) obtain taken where t0: "subseq (taken @ q d) h" "length h = length taken + length (q d) + drops d"
    "handled d = accepted (wrap d) taken" "wrap d \<noteq> Plain \<longrightarrow> fired d = (handled d \<noteq> [])"
    "length (q d) \<le> deliveryQueueDepth"
    unfolding delivery_ok_def by blast
  then have t: "subseq (taken @ e # rest) h" "length h = length taken + Suc (length rest) + drops d"
    "handled d = accepted (wrap d) taken" "wrap d \<noteq> Plain \<longrightarrow> fired d = (handled d \<noteq> [])"
    "Suc (length rest) \<le> deliveryQueueDepth"
    using assms(2) by simp_all
  have q': "q (take_one e rest d) = rest" "drops (take_one e rest d) = drops d" "wrap (take_one e rest d) = wrap d"
    by (auto simp: take_one_def Let_def split: wrapper.splits)
  have "handled (take_one e rest d) = accepted (wrap d) (taken @ [e]) \<and>
      (wrap d \<noteq> Plain \<longrightarrow> fired (take_one e rest d) = (handled (take_one e rest d) \<noteq> []))"
    using t(3, 4) by (cases "wrap d") (auto simp: take_one_def Let_def accepted_def Suc_le_eq)
  moreover have "subseq ((taken @ [e]) @ rest) h \<and> length h = length (taken @ [e]) + length rest + drops d"
    using t(1, 2) by simp
  ultimately show ?thesis
    using q' t(5) unfolding delivery_ok_def by (metis Suc_leD)
qed

lemma deliver_dels:
  "dels (deliver i b) j = (case q (dels b i) of [] \<Rightarrow> dels b j
     | e # rest \<Rightarrow> if j \<noteq> i then dels b j
       else if stopped (dels (deliver i b) i) then stop (take_one e rest (dels b i)) else take_one e rest (dels b i))"
  by (auto simp: deliver_def take_one_def Let_def removeSubByID_def stop_def split: list.splits wrapper.splits)

section \<open>Interleavings\<close>

definition offer :: "'p event \<Rightarrow> 'p bus \<Rightarrow> (nat \<Rightarrow> 'p event list) \<Rightarrow> nat \<Rightarrow> 'p event list" where
  "offer e b h i = (if i \<in> set (targets e b) then h i @ [e] else h i)"

inductive bus_step :: "'p bus \<times> (nat \<Rightarrow> 'p event list) \<Rightarrow> 'p bus \<times> (nat \<Rightarrow> 'p event list) \<Rightarrow> bool" where
  subscribe: "Subscribe s n t f b = Inr (i, b') \<Longrightarrow> bus_step (b, h) (b', h(i := []))"
| subscribe_prefix: "SubscribePrefix s n t f b = Inr (i, b') \<Longrightarrow> bus_step (b, h) (b', h(i := []))"
| subscribe_once: "SubscribeOnce s n t f b = Inr (i, b') \<Longrightarrow> bus_step (b, h) (b', h(i := []))"
| subscribe_correlated: "SubscribeCorrelated s n t c f b = Inr (i, b') \<Longrightarrow> bus_step (b, h) (b', h(i := []))"
| wait_start: "wait_register s n t f b = Inr (i, b') \<Longrightarrow> bus_step (b, h) (b', h(i := []))"
| wait_end: "wait_return k i out b = (r, b') \<Longrightarrow> bus_step (b, h) (b', h)"
| unsubscribe: "bus_step (b, h) (Unsubscribe s n t f b, h)"
| unsubscribe_prefix: "bus_step (b, h) (UnsubscribePrefix s n t f b, h)"
| context_done: "bus_step (b, h) (removePrefixSubByID k i b, h)"
| publish: "EventBus.publish sent e b = (terr, None, b') \<Longrightarrow> bus_step (b, h) (b', offer e b h)"
| publish_invalid: "EventBus.publish sent e b = (terr, Some err, b') \<Longrightarrow> bus_step (b, h) (b', h)"
| remote: "ValidateEvent e = Inr () \<Longrightarrow> bus_step (b, h) (on_remote_event e b, offer e b h)"
| remote_invalid: "ValidateEvent e = Inl err \<Longrightarrow> bus_step (b, h) (on_remote_event e b, h)"
| deliver: "bus_step (b, h) (EventBus.deliver i b, h)"
| close: "bus_step (b, h) (Close b, h)"

inductive bus_reachable :: "'p bus \<times> (nat \<Rightarrow> 'p event list) \<Rightarrow> bool" where
  new_bus: "bus_reachable (NewEventBus, \<lambda>_. [])"
| bus_next: "bus_reachable s \<Longrightarrow> bus_step s s' \<Longrightarrow> bus_reachable s'"

definition bus_ok :: "'p bus \<times> (nat \<Rightarrow> 'p event list) \<Rightarrow> bool" where
  "bus_ok s \<longleftrightarrow> maps_ok (fst s) \<and> (\<forall>i. delivery_ok (snd s i) (dels (fst s) i))"

lemma guarded_Inr: "guarded s b act = Inr x \<longleftrightarrow> s \<in> set validScopes \<and> \<not> bus_closed b \<and> act b = x"
  by (auto simp: guarded_def)

lemma dels_add_exact: "add_exact k f w b = (i, b') \<Longrightarrow> dels b' = (dels b) (i := newDelivery f w)"
  by (auto simp: add_exact_def)

lemma dels_add_prefix: "add_prefix k f b = (i, b') \<Longrightarrow> dels b' = (dels b) (i := newDelivery f Plain)"
  by (auto simp: add_prefix_def)

lemma bus_ok_add:
  assumes "bus_ok (b, h)" "\<not> bus_closed b"
  shows "add_exact k f w b = (i, b') \<Longrightarrow> bus_ok (b', h(i := []))"
    and "add_prefix k f b = (i, b') \<Longrightarrow> bus_ok (b', h(i := []))"
  using assms maps_ok_add_exact [of b k f w] maps_ok_add_prefix [of b k f]
  by (auto simp: bus_ok_def dels_add_exact dels_add_prefix)

lemma dels_remove:
  "dels (removeSubByID k i b) j = (if j = i \<and> i \<in> set (ids_at (subs b) k) then stop (dels b j) else dels b j)"
  "dels (removePrefixSubByID k i b) j = (if j = i \<and> i \<in> set (ids_at (prefixSubs b) k) then stop (dels b j) else dels b j)"
  by (auto simp: removeSubByID_def removePrefixSubByID_def)

lemma bus_ok_remove:
  assumes "bus_ok (b, h)"
  shows "bus_ok (removeSubByID k i b, h)" "bus_ok (removePrefixSubByID k i b, h)"
  using assms maps_ok_remove by (auto simp: bus_ok_def dels_remove)

lemma bus_ok_dispatch: "bus_ok (b, h) \<Longrightarrow> bus_ok (dispatch e b, offer e b h)"
  by (auto simp: bus_ok_def maps_ok_dispatch dispatch_dels offer_def delivery_ok_send)

lemma maps_ok_cong:
  assumes "maps_ok b" "subs b' = subs b" "prefixSubs b' = prefixSubs b" "nextSubID b' = nextSubID b"
    "bus_closed b' = bus_closed b" "\<And>i. stopped (dels b' i) = stopped (dels b i)"
  shows "maps_ok b'"
  using assms by (simp add: maps_ok_def)

lemma maps_ok_deliver:
  assumes ok: "maps_ok b"
  shows "maps_ok (EventBus.deliver i b)"
proof (cases "q (dels b i)")
  case (Cons e rest)
  let ?b1 = "upd_del i (\<lambda>_. (dels b i) \<lparr>q := rest\<rparr>) b"
  have b1: "maps_ok ?b1" by (rule maps_ok_cong [OF ok]) auto
  have b3: "maps_ok (upd_del i (\<lambda>d. d \<lparr>handled := handled d @ [e]\<rparr>) ?b1)"
    by (rule maps_ok_cong [OF b1]) auto
  have b4: "maps_ok (upd_del i (\<lambda>d. d \<lparr>fired := True, handled := handled d @ [e]\<rparr>) ?b1)"
    by (rule maps_ok_cong [OF b1]) auto
  show ?thesis
    unfolding deliver_def Cons list.case Let_def
    using b1 b3 maps_ok_remove [OF b4] by (simp split: wrapper.split)
qed (simp add: deliver_def ok)

lemma bus_ok_deliver:
  assumes "bus_ok (b, h)"
  shows "bus_ok (EventBus.deliver i b, h)"
proof -
  have m: "maps_ok b" and d: "\<And>j. delivery_ok (h j) (dels b j)" using assms by (simp_all add: bus_ok_def)
  have "delivery_ok (h j) (dels (EventBus.deliver i b) j)" for j
  proof (cases "q (dels b i)")
    case Nil
    then show ?thesis using d by (subst deliver_dels) simp
  next
    case (Cons e rest)
    with delivery_ok_take [OF d Cons] d show ?thesis by (subst deliver_dels) simp
  qed
  with maps_ok_deliver [OF m] show ?thesis by (simp add: bus_ok_def)
qed

lemma fold_stop: "dels (fold (\<lambda>i b. upd_del i stop b) xs b) j = (if j \<in> set xs then stop (dels b j) else dels b j)"
  by (induction xs arbitrary: b) (auto simp: stop_def)

lemma bus_ok_close: "bus_ok (b, h) \<Longrightarrow> bus_ok (Close b, h)"
  by (auto simp: bus_ok_def Close_def fold_stop maps_ok_def)

lemma bus_step_ok: "bus_step s s' \<Longrightarrow> bus_ok s \<Longrightarrow> bus_ok s'"
proof (induction rule: bus_step.induct)
  case (publish sent e b terr b' h)
  then have "b' = dispatch e b" by (auto simp: publish_def split: sum.splits)
  with publish show ?case by (simp add: bus_ok_dispatch)
next
  case (publish_invalid sent e b terr err b' h)
  then show ?case by (auto simp: publish_def split: sum.splits)
qed (auto simp: Subscribe_def SubscribePrefix_def SubscribeOnce_def SubscribeCorrelated_def wait_register_def
    guarded_Inr Let_def wait_return_def Unsubscribe_def UnsubscribePrefix_def on_remote_event_def
    intro: bus_ok_add bus_ok_remove bus_ok_dispatch bus_ok_deliver bus_ok_close split: option.split)

lemma bus_reachable_ok: "bus_reachable s \<Longrightarrow> bus_ok s"
proof (induction rule: bus_reachable.induct)
  case new_bus
  have "dels (NewEventBus :: 'a bus) i = newDelivery 0 Plain" for i by (simp add: NewEventBus_def)
  then show ?case by (simp add: bus_ok_def)
qed (blast intro: bus_step_ok)

section \<open>Properties\<close>


definition ex_event :: "unit event" where
  "ex_event = NewEvent ''e1'' ''system'' [] ''agents/up'' ''sup'' () []"

definition ex_bus1 :: "unit bus" where
  "ex_bus1 = snd (add_exact (fullKey ''system'' [] ''agents/up'') 7 Plain NewEventBus)"

definition ex_bus2 :: "unit bus" where
  "ex_bus2 = dispatch ex_event ex_bus1"

lemma ex_bus_facts:
  "Subscribe ''system'' [] ''agents/up'' 7 NewEventBus = Inr (1, ex_bus1)"
  "EventBus.publish None ex_event ex_bus1 = (None, None, ex_bus2)"
  "1 \<in> set (targets ex_event ex_bus1)" "wrap (dels ex_bus2 1) = Plain" "drops (dels ex_bus2 1) = 0"
proof -
  have v: "ValidateEvent ex_event = Inr ()" by code_simp
  then show "EventBus.publish None ex_event ex_bus1 = (None, None, ex_bus2)" by (simp add: publish_def ex_bus2_def)
  show "Subscribe ''system'' [] ''agents/up'' 7 NewEventBus = Inr (1, ex_bus1)"
    by (simp add: Subscribe_def guarded_def validScopes_def ex_bus1_def add_exact_def Let_def NewEventBus_def)
  have t: "targets ex_event ex_bus1 = [1]"
    by (simp add: targets_def ex_event_def NewEvent_def ex_bus1_def add_exact_def NewEventBus_def fullKey_def ids_at_def)
  then show "1 \<in> set (targets ex_event ex_bus1)" by simp
  show "wrap (dels ex_bus2 1) = Plain" "drops (dels ex_bus2 1) = 0"
    by (simp_all add: ex_bus2_def dispatch_def t)
      (simp_all add: ex_bus1_def add_exact_def NewEventBus_def newDelivery_def send_def deliveryQueueDepth_def)
qed


text \<open>In every reachable bus an event is handed to exactly the live subscriptions whose key is
  its key or, for prefix subscriptions, a prefix of it, each once, and never to a queue that has
  been closed, so no send can hit a closed channel.\<close>

theorem dispatch_exact:
  assumes "bus_reachable (b, h)"
  shows "distinct (targets e b) \<and>
    (\<forall>i. i \<in> set (targets e b) \<longrightarrow> \<not> stopped (dels b i)) \<and>
    (\<forall>i. i \<in> set (targets e b) \<longleftrightarrow>
       i \<in> set (ids_at (subs b) (fullKey (e_scope e) (e_ns e) (e_topic e))) \<or>
       (\<exists>key. i \<in> set (ids_at (prefixSubs b) key) \<and>
          HasPrefix (fullKey (e_scope e) (e_ns e) (e_topic e)) (TrimPrefix key ''__MATCH:''))) \<and>
    (\<forall>i. dels (dispatch e b) i = (if i \<in> set (targets e b) then send e (dels b i) else dels b i))"
proof -
  have ok: "maps_ok b" using bus_reachable_ok [OF assms] by (simp add: bus_ok_def)
  have "(\<exists>x\<in>set (prefixSubs b). HasPrefix k (TrimPrefix (fst x) ''__MATCH:'') \<and> i \<in> set (snd x)) \<longleftrightarrow>
      (\<exists>key. i \<in> set (ids_at (prefixSubs b) key) \<and> HasPrefix k (TrimPrefix key ''__MATCH:''))" for k i
  proof
    assume "\<exists>x\<in>set (prefixSubs b). HasPrefix k (TrimPrefix (fst x) ''__MATCH:'') \<and> i \<in> set (snd x)"
    then obtain key ids where x: "(key, ids) \<in> set (prefixSubs b)" "HasPrefix k (TrimPrefix key ''__MATCH:'')" "i \<in> set ids"
      by auto
    then have "ids_at (prefixSubs b) key = ids" using ok by (auto simp: maps_ok_def tbl_ok_def intro: ids_at_entry)
    with x show "\<exists>key. i \<in> set (ids_at (prefixSubs b) key) \<and> HasPrefix k (TrimPrefix key ''__MATCH:'')" by blast
  next
    assume "\<exists>key. i \<in> set (ids_at (prefixSubs b) key) \<and> HasPrefix k (TrimPrefix key ''__MATCH:'')"
    then obtain key where k: "i \<in> set (ids_at (prefixSubs b) key)" "HasPrefix k (TrimPrefix key ''__MATCH:'')" by blast
    then obtain ids where "map_of (prefixSubs b) key = Some ids" "i \<in> set ids"
      by (cases "map_of (prefixSubs b) key") (auto simp: ids_at_def)
    with k(2) show "\<exists>x\<in>set (prefixSubs b). HasPrefix k (TrimPrefix (fst x) ''__MATCH:'') \<and> i \<in> set (snd x)"
      by (intro bexI [of _ "(key, ids)"]) (auto dest: map_of_SomeD)
  qed
  then have "i \<in> set (targets e b) \<longleftrightarrow>
       i \<in> set (ids_at (subs b) (fullKey (e_scope e) (e_ns e) (e_topic e))) \<or>
       (\<exists>key. i \<in> set (ids_at (prefixSubs b) key) \<and>
          HasPrefix (fullKey (e_scope e) (e_ns e) (e_topic e)) (TrimPrefix key ''__MATCH:''))" for i
    unfolding targets_def Let_def by (auto split: if_splits) fastforce+
  with targets_distinct [OF ok] targets_live [OF ok] dispatch_dels [OF ok] ok show ?thesis
    unfolding maps_ok_def by blast
qed

theorem dispatch_exact_witness:
  "distinct (targets ex_event ex_bus1)"
proof -
  have "bus_reachable (ex_bus1, (\<lambda>_. []) (1 := []))"
    by (rule bus_next [OF new_bus]) (rule bus_step.subscribe [OF ex_bus_facts(1)])
  from dispatch_exact [OF this, of ex_event] show ?thesis by blast
qed

text \<open>Publishing reports an invalid event and changes nothing then; a failed remote send is
  reported by \<^verbatim>\<open>PublishRequest\<close> and never by \<^verbatim>\<open>Publish\<close>, and in both the event still reaches the
  local subscribers. An invalid event from a peer is discarded.\<close>

theorem publish_errors:
  "(case ValidateEvent e of
      Inl err \<Rightarrow> Publish sent e b = (Some err, b) \<and> PublishRequest sent e b = (Some (Inr err), b) \<and> on_remote_event e b = b
    | Inr _ \<Rightarrow> Publish sent e b = (None, dispatch e b) \<and>
        PublishRequest sent e b = (map_option Inl sent, dispatch e b) \<and> on_remote_event e b = dispatch e b)"
  by (auto simp: Publish_def PublishRequest_def publish_def on_remote_event_def split: sum.splits option.splits)

text \<open>Keys do not separate namespaces from topics: an event of one namespace reaches the exact
  subscribers of another when a slash moves between the two parts.\<close>

theorem fullKey_not_injective:
  "fullKey ''system'' ''a/b'' ''c'' = fullKey ''system'' ''a'' ''b/c'' \<and>
   fullKey ''system'' [] ''c'' = fullKey ''system'' ''default'' ''c''"
  by code_simp

end
