(* ===== verification/Config.thy ===== *)
theory Config
  imports Paths GoConv
begin

text \<open>
  \<^verbatim>\<open>core/product\<close> and \<^verbatim>\<open>core/config\<close>: the identity of the product and the names that
  follow from it, the directories searched for agents, the configuration keys with their defaults and
  environment names, the timeouts, and the files in which daemons publish where they listen. The
  environment, the home directory and the answers of the file system are arguments.
\<close>

section \<open>Model\<close>

subsection \<open>The product\<close>

datatype product_panic = BadName string | NameUnset | UndeclaredEnv string | NoControlAddr string | NoMetricsAddr string

definition name_re :: "string \<Rightarrow> bool" where
  "name_re n \<longleftrightarrow> (case n of [] \<Rightarrow> False | c # cs \<Rightarrow> is_lower c \<and> list_all (\<lambda>d. is_lower d \<or> is_digit d) cs)"

definition directEnv :: "string list" where
  "directEnv = [''CONFIG'', ''AGENT_PATH'', ''AGENT_PATH_EXCLUSIVE'', ''DEV_AGENTS'', ''SKIP_SYSTEM_AGENTS'', ''CGROUPS_DISABLE'',
     ''VERIFY_KEY'', ''PY_ADK'', ''GO_ADK'', ''KMSG_PATH'']"

definition controlAddrDefaults :: "(string, string) gomap" where
  "controlAddrDefaults = [(''gapi'', ''127.0.0.1:29979''), (''goblin'', ''127.0.0.1:31415'')]"

definition metricsAddrDefaults :: "(string, string) gomap" where
  "metricsAddrDefaults = [(''gapi'', ''127.0.0.1:10973''), (''goblin'', ''127.0.0.1:13703'')]"

text \<open>The state is the name last set, empty at first. A panic is an error.\<close>

definition Set_product :: "string \<Rightarrow> string \<Rightarrow> (product_panic, string) result" where
  "Set_product n st = (if \<not> name_re n then Inl (BadName n) else Inr n)"

definition Name :: "string \<Rightarrow> (product_panic, string) result" where
  "Name st = (if st = [] then Inl NameUnset else Inr st)"

definition IsSet :: "string \<Rightarrow> bool" where "IsSet st \<longleftrightarrow> st \<noteq> []"

definition Daemon :: "string \<Rightarrow> (product_panic, string) result" where
  "Daemon st = bind_res (Name st) (\<lambda>n. Inr (n @ ''d''))"

definition EnvPrefix :: "string \<Rightarrow> (product_panic, string) result" where
  "EnvPrefix st = bind_res (Name st) (\<lambda>n. Inr (ToUpper n))"

definition EnvKey :: "string \<Rightarrow> string \<Rightarrow> (product_panic, string) result" where
  "EnvKey st sfx =
     (if sfx \<notin> set directEnv then Inl (UndeclaredEnv sfx)
      else bind_res (EnvPrefix st) (\<lambda>p. Inr (p @ ''_'' @ sfx)))"

definition DirectEnvNames :: "string \<Rightarrow> (product_panic, string list) result" where
  "DirectEnvNames st = bind_res (EnvPrefix st) (\<lambda>p. Inr (sort (map (\<lambda>s. p @ ''_'' @ s) directEnv)))"

definition DefaultControlAddr :: "string \<Rightarrow> (product_panic, string) result" where
  "DefaultControlAddr st = bind_res (Name st) (\<lambda>n.
     case map_of controlAddrDefaults n of None \<Rightarrow> Inl (NoControlAddr n) | Some a \<Rightarrow> Inr a)"

definition DefaultMetricsAddr :: "string \<Rightarrow> (product_panic, string) result" where
  "DefaultMetricsAddr st = bind_res (Name st) (\<lambda>n.
     case map_of metricsAddrDefaults n of None \<Rightarrow> Inl (NoMetricsAddr n) | Some a \<Rightarrow> Inr a)"

definition ConfigDir :: "string \<Rightarrow> (product_panic, string) result" where
  "ConfigDir st = bind_res (Name st) (\<lambda>n. Inr (JoinPath [''/etc'', n]))"

definition DefaultLogPath :: "string \<Rightarrow> (product_panic, string) result" where
  "DefaultLogPath st = bind_res (Name st) (\<lambda>n. Inr (JoinPath [''/var/log'', n, n @ ''.log'']))"

subsection \<open>Where agents are searched\<close>

text \<open>From here on \<open>p\<close> is the name that has been set.\<close>

datatype Scope = ScopeSystem | ScopeUser

definition Scope_String :: "Scope \<Rightarrow> string" where
  "Scope_String s = (if s = ScopeUser then ''user'' else ''system'')"

text \<open>\<open>getenv\<close> answers the empty string for a variable that is not set; \<open>home\<close> is what
  \<^verbatim>\<open>os.UserHomeDir\<close> answers, and \<open>there\<close> tells which paths exist.\<close>

record surroundings =
  getenv :: "string \<Rightarrow> string"
  home :: "string option"
  there :: "string \<Rightarrow> bool"
  workdir :: "string option"

definition product_env :: "string \<Rightarrow> surroundings \<Rightarrow> string \<Rightarrow> string" where
  "product_env p h sfx = getenv h (ToUpper p @ ''_'' @ sfx)"

definition isTruthy :: "string \<Rightarrow> bool" where
  "isTruthy v \<longleftrightarrow> ToLower v \<in> {''1'', ''true'', ''yes'', ''on''}"

definition xdgDir :: "surroundings \<Rightarrow> string \<Rightarrow> string \<Rightarrow> string" where
  "xdgDir h var homeRelative =
     (if getenv h var \<noteq> [] then getenv h var
      else case home h of None \<Rightarrow> [] | Some d \<Rightarrow> if d = [] then [] else JoinPath [d, homeRelative])"

definition splitPathList :: "string \<Rightarrow> string list" where
  "splitPathList v = filter (\<lambda>p. p \<noteq> []) (split_on (CHR '':'') v)"

definition withoutPrefixes :: "string list \<Rightarrow> string list \<Rightarrow> string list" where
  "withoutPrefixes paths dropped = filter (\<lambda>p. p \<notin> set dropped) paths"

definition systemScopeDirs :: "string \<Rightarrow> string list" where
  "systemScopeDirs p =
     [JoinPath [JoinPath [''/etc'', p], ''agents''], JoinPath [''/run'', p, ''agents''],
      JoinPath [''/usr/local/lib'', p, ''agents''], JoinPath [''/usr/lib'', p, ''agents'']]"

definition userScopeDirs :: "string \<Rightarrow> surroundings \<Rightarrow> string list" where
  "userScopeDirs p h =
     (let cfg = xdgDir h ''XDG_CONFIG_HOME'' ''.config''; run = getenv h ''XDG_RUNTIME_DIR'';
          data = xdgDir h ''XDG_DATA_HOME'' (JoinPath [''.local'', ''share'']) in
      (if cfg \<noteq> [] then [JoinPath [cfg, p, ''agents'']] else []) @
      [JoinPath [JoinPath [''/etc'', p], ''user'', ''agents'']] @
      (if run \<noteq> [] then [JoinPath [run, p, ''agents'']] else []) @
      (if data \<noteq> [] then [JoinPath [data, p, ''agents'']] else []) @
      (case home h of None \<Rightarrow> []
       | Some d \<Rightarrow> let legacy = JoinPath [d, ''.'' @ p, ''agents''] in if there h legacy then [legacy] else []) @
      [JoinPath [''/usr/lib'', p, ''user'', ''agents'']])"

definition vendorAgentDirs :: "string \<Rightarrow> Scope \<Rightarrow> string list" where
  "vendorAgentDirs p scope =
     (if scope = ScopeUser then [JoinPath [''/usr/lib'', p, ''user'', ''agents'']]
      else [JoinPath [''/usr/local/lib'', p, ''agents''], JoinPath [''/usr/lib'', p, ''agents'']])"

definition skipSystemAgents :: "string \<Rightarrow> surroundings \<Rightarrow> bool" where
  "skipSystemAgents p h \<longleftrightarrow> isTruthy (product_env p h ''SKIP_SYSTEM_AGENTS'')"

definition AgentSearchPathsFor :: "string \<Rightarrow> surroundings \<Rightarrow> Scope \<Rightarrow> string list" where
  "AgentSearchPathsFor p h scope =
     (let custom = splitPathList (product_env p h ''AGENT_PATH'') in
      if isTruthy (product_env p h ''AGENT_PATH_EXCLUSIVE'') then custom
      else
        let dev = product_env p h ''DEV_AGENTS'';
            paths = (if dev \<noteq> [] then splitPathList dev else []) @ custom @
              (if scope = ScopeUser then userScopeDirs p h else systemScopeDirs p)
        in if skipSystemAgents p h then withoutPrefixes paths (vendorAgentDirs p scope) else paths)"

definition AgentSearchPaths :: "string \<Rightarrow> surroundings \<Rightarrow> string list" where
  "AgentSearchPaths p h = AgentSearchPathsFor p h ScopeSystem"

datatype PathType = PathTypeDevelopment | PathTypeUser | PathTypeSystem

definition underPrefix :: "string option \<Rightarrow> string \<Rightarrow> string \<Rightarrow> bool" where
  "underPrefix wd absPath pre =
     (case Abs wd pre of None \<Rightarrow> False | Some p \<Rightarrow> absPath = p \<or> HasPrefix absPath (p @ ''/''))"

definition ClassifyPath :: "string \<Rightarrow> surroundings \<Rightarrow> string \<Rightarrow> PathType" where
  "ClassifyPath p h path =
     (case Abs (workdir h) path of
        None \<Rightarrow> PathTypeDevelopment
      | Some absPath \<Rightarrow>
        if product_env p h ''DEV_AGENTS'' \<noteq> [] \<and>
           list_ex (underPrefix (workdir h) absPath) (splitPathList (product_env p h ''DEV_AGENTS''))
        then PathTypeDevelopment
        else if list_ex (underPrefix (workdir h) absPath) (systemScopeDirs p) then PathTypeSystem
        else PathTypeUser)"

definition PathType_String :: "PathType \<Rightarrow> string" where
  "PathType_String t = (case t of PathTypeDevelopment \<Rightarrow> ''DEV'' | PathTypeUser \<Rightarrow> ''USER'' | PathTypeSystem \<Rightarrow> ''SYSTEM'')"

subsection \<open>Keys and defaults\<close>

text \<open>The configuration's structs by their tags: what a field holds.\<close>

datatype scalar = TString | TBool | TInt

datatype ctype = Scalar scalar | MapOrSlice | Struct "(string \<times> ctype) list"

definition ConfigType :: ctype where
  "ConfigType = Struct
     [(''transport'', Struct [(''type'', Scalar TString), (''address'', Scalar TString), (''tlsCert'', Scalar TString), (''tlsKey'', Scalar TString),
        (''tlsCa'', Scalar TString), (''insecureSkipVerify'', Scalar TBool)]),
      (''security'', Struct [(''verifyKey'', Scalar TString)]),
      (''metrics'', Struct [(''enabled'', Scalar TBool), (''addr'', Scalar TString)]),
      (''logging'', Struct [(''level'', Scalar TString), (''format'', Scalar TString),
        (''file'', Struct [(''enabled'', Scalar TBool), (''path'', Scalar TString), (''maxSize'', Scalar TInt), (''maxBackups'', Scalar TInt),
          (''maxAge'', Scalar TInt), (''compress'', Scalar TBool)]),
        (''loki'', Struct [(''enabled'', Scalar TBool), (''url'', Scalar TString), (''labels'', MapOrSlice)])]),
      (''timeouts'', Struct [(''quicStream'', Scalar TString), (''quicIdle'', Scalar TString), (''clientPending'', Scalar TString), (''clientTerminal'', Scalar TString),
        (''supervisorStart'', Scalar TString), (''supervisorShutdown'', Scalar TString)]),
      (''supervisor'', Struct [(''productionMode'', Scalar TBool), (''pid1Mode'', Scalar TBool), (''noEarlyMounts'', Scalar TBool),
        (''watchdog'', Struct [(''enabled'', Scalar TBool), (''device'', Scalar TString), (''interval'', Scalar TString)]),
        (''shutdown'', Struct [(''gracePeriod'', Scalar TString)])])]"

definition EnvKeyFor :: "string \<Rightarrow> string \<Rightarrow> string" where
  "EnvKeyFor p path = ToUpper p @ ''_'' @ ToUpper (map (\<lambda>c. if c = CHR ''.'' then CHR ''_'' else c) path)"

text \<open>The keys bound, each with its environment variable.\<close>

fun bind_field :: "string \<Rightarrow> string \<Rightarrow> ctype \<Rightarrow> (string \<times> string) list"
  and bind_fields :: "string \<Rightarrow> string \<Rightarrow> (string \<times> ctype) list \<Rightarrow> (string \<times> string) list" where
  "bind_field p path (Scalar k) = [(path, EnvKeyFor p path)]"
| "bind_field p path MapOrSlice = []"
| "bind_field p path (Struct fs) = bind_fields p path fs"
| "bind_fields p pre [] = []"
| "bind_fields p pre ((tag, t) # fs) =
     (case cut_at (CHR '','') tag of
        None \<Rightarrow> if tag = [] \<or> tag = ''-'' then bind_fields p pre fs
                else bind_field p (if pre \<noteq> [] then pre @ ''.'' @ tag else tag) t @ bind_fields p pre fs
      | Some (name, _) \<Rightarrow> if name = [] then bind_fields p pre fs
                else bind_field p (if pre \<noteq> [] then pre @ ''.'' @ name else name) t @ bind_fields p pre fs)"

definition bindEnvOverrides :: "string \<Rightarrow> (string \<times> string) list" where
  "bindEnvOverrides p = bind_field p [] ConfigType"

datatype cvalue = VString string | VBool bool | VInt int | VDuration int

fun type_of :: "cvalue \<Rightarrow> scalar" where
  "type_of (VString s) = TString" | "type_of (VBool b) = TBool" | "type_of (VInt n) = TInt" | "type_of (VDuration d) = TString"

record Timeouts =
  QUICStreamTimeout :: int
  QUICIdleTimeout :: int
  ClientPendingTimeout :: int
  ClientTerminalTimeout :: int
  SupervisorStartDeadline :: int
  SupervisorShutdownTimeout :: int

definition default_timeouts :: Timeouts where
  "default_timeouts = \<lparr>QUICStreamTimeout = 10000000000, QUICIdleTimeout = 60000000000, ClientPendingTimeout = 2000000000,
     ClientTerminalTimeout = 20000000000, SupervisorStartDeadline = 20000000000, SupervisorShutdownTimeout = 5000000000\<rparr>"

text \<open>A \<open>VDuration\<close> is the text of that duration.\<close>

definition setDefaults :: "string \<Rightarrow> Timeouts \<Rightarrow> (product_panic, (string \<times> cvalue) list) result" where
  "setDefaults p t =
     bind_res (DefaultControlAddr p) (\<lambda>ctl. bind_res (DefaultMetricsAddr p) (\<lambda>met. bind_res (DefaultLogPath p) (\<lambda>log. Inr
     [(''transport.type'', VString ''quic''), (''transport.address'', VString ctl), (''transport.insecureSkipVerify'', VBool True),
      (''transport.tlsCert'', VString []), (''transport.tlsKey'', VString []), (''transport.tlsCa'', VString []),
      (''metrics.enabled'', VBool False), (''metrics.addr'', VString met),
      (''security.verifyKey'', VString []),
      (''logging.level'', VString ''info''), (''logging.format'', VString ''json''), (''logging.file.enabled'', VBool False),
      (''logging.file.path'', VString log), (''logging.file.maxSize'', VInt 100), (''logging.file.maxBackups'', VInt 3),
      (''logging.file.maxAge'', VInt 28), (''logging.file.compress'', VBool True), (''logging.loki.enabled'', VBool False),
      (''logging.loki.url'', VString []),
      (''supervisor.productionMode'', VBool False), (''supervisor.pid1Mode'', VBool False), (''supervisor.noEarlyMounts'', VBool False),
      (''supervisor.watchdog.enabled'', VBool False), (''supervisor.watchdog.device'', VString []),
      (''supervisor.watchdog.interval'', VString []), (''supervisor.shutdown.gracePeriod'', VString []),
      (''timeouts.quicStream'', VDuration (QUICStreamTimeout t)), (''timeouts.quicIdle'', VDuration (QUICIdleTimeout t)),
      (''timeouts.clientPending'', VDuration (ClientPendingTimeout t)), (''timeouts.clientTerminal'', VDuration (ClientTerminalTimeout t)),
      (''timeouts.supervisorStart'', VDuration (SupervisorStartDeadline t)),
      (''timeouts.supervisorShutdown'', VDuration (SupervisorShutdownTimeout t))])))"

record TimeoutConfig =
  QUICStream :: string
  QUICIdle :: string
  ClientPending :: string
  ClientTerminal :: string
  SupervisorStart :: string
  SupervisorShutdown :: string

text \<open>The error is the text that did not parse, the last one.\<close>

definition take_timeout :: "string \<Rightarrow> (int \<Rightarrow> Timeouts \<Rightarrow> Timeouts) \<Rightarrow> string option \<times> Timeouts \<Rightarrow> string option \<times> Timeouts" where
  "take_timeout s upd st = (case ParseDuration s of Some v \<Rightarrow> (fst st, upd v (snd st)) | None \<Rightarrow> (Some s, snd st))"

definition updateTimeouts :: "TimeoutConfig \<Rightarrow> Timeouts \<Rightarrow> string option \<times> Timeouts" where
  "updateTimeouts c t =
     take_timeout (SupervisorShutdown c) (\<lambda>v t. t \<lparr>SupervisorShutdownTimeout := v\<rparr>)
     (take_timeout (SupervisorStart c) (\<lambda>v t. t \<lparr>SupervisorStartDeadline := v\<rparr>)
     (take_timeout (ClientTerminal c) (\<lambda>v t. t \<lparr>ClientTerminalTimeout := v\<rparr>)
     (take_timeout (ClientPending c) (\<lambda>v t. t \<lparr>ClientPendingTimeout := v\<rparr>)
     (take_timeout (QUICIdle c) (\<lambda>v t. t \<lparr>QUICIdleTimeout := v\<rparr>)
     (take_timeout (QUICStream c) (\<lambda>v t. t \<lparr>QUICStreamTimeout := v\<rparr>) (None, t))))))"

subsection \<open>Published addresses\<close>

record ControlAddr =
  ca_Addr :: string
  ca_PID :: int
  ca_From :: string

datatype addr_error = NoWritableDir string "string list" | DirUnreadable string | FileUnreadable string
  | ErrAmbiguousControlAddr "ControlAddr list" | RemoveFailed string

text \<open>\<open>dirs\<close> gives the entries of a directory, a directory being \<open>None\<close>; the rest are the
  answers of the file system.\<close>

record run_fs =
  dirs :: "string \<Rightarrow> (string, string option) gomap option"
  can_mkdir :: "string \<Rightarrow> bool"
  can_write :: "string \<Rightarrow> bool"
  can_list :: "string \<Rightarrow> bool"
  can_read :: "string \<Rightarrow> bool"
  can_remove :: "string \<Rightarrow> bool"

definition ControlAddrDirs :: "string \<Rightarrow> surroundings \<Rightarrow> string list" where
  "ControlAddrDirs p h =
     (if getenv h ''XDG_RUNTIME_DIR'' \<noteq> [] then [JoinPath [getenv h ''XDG_RUNTIME_DIR'', p, ''control'']] else []) @
     [JoinPath [''/run'', p, ''control'']]"

definition addr_entry :: "int \<Rightarrow> string" where "addr_entry pid = Itoa pid @ ''.addr''"

definition controlAddrFile :: "string \<Rightarrow> int \<Rightarrow> string" where
  "controlAddrFile dir pid = JoinPath [dir, addr_entry pid]"

fun write_in :: "string list \<Rightarrow> int \<Rightarrow> string \<Rightarrow> string list \<Rightarrow> run_fs \<Rightarrow> (addr_error, string) result \<times> run_fs" where
  "write_in [] pid addr attempts fs = (Inl (NoWritableDir addr attempts), fs)"
| "write_in (d # ds) pid addr attempts fs =
     (if \<not> can_mkdir fs d then write_in ds pid addr (attempts @ [d]) fs
      else
        let entries = (case dirs fs d of None \<Rightarrow> [] | Some es \<Rightarrow> es); fs1 = fs \<lparr>dirs := (dirs fs) (d := Some entries)\<rparr> in
        if \<not> can_write fs (controlAddrFile d pid) then write_in ds pid addr (attempts @ [controlAddrFile d pid]) fs1
        else (Inr (controlAddrFile d pid),
              fs \<lparr>dirs := (dirs fs) (d := Some (AList.update (addr_entry pid) (Some (addr @ [CHR 0x0A])) entries))\<rparr>))"

definition WriteControlAddr :: "string \<Rightarrow> surroundings \<Rightarrow> int \<Rightarrow> string \<Rightarrow> run_fs \<Rightarrow> (addr_error, string) result \<times> run_fs" where
  "WriteControlAddr p h pid addr fs = write_in (ControlAddrDirs p h) pid addr [] fs"

text \<open>\<open>kill0\<close> tells for which PIDs signal 0 succeeds or is not permitted.\<close>

definition pidAlive :: "(int \<Rightarrow> bool) \<Rightarrow> int \<Rightarrow> bool" where
  "pidAlive kill0 pid \<longleftrightarrow> pid > 0 \<and> kill0 pid"

definition addr_names :: "(string, string option) gomap \<Rightarrow> string list" where
  "addr_names es = sort (map fst (filter (\<lambda>e. snd e \<noteq> None \<and> HasSuffix (fst e) ''.addr'') es))"

fun live_names :: "(int \<Rightarrow> bool) \<Rightarrow> run_fs \<Rightarrow> string \<Rightarrow> (string, string option) gomap \<Rightarrow> string list \<Rightarrow>
    int list \<times> ControlAddr list \<Rightarrow> (addr_error, int list \<times> ControlAddr list) result" where
  "live_names kill0 fs d es [] st = Inr st"
| "live_names kill0 fs d es (n # ns) (seen, found) =
     (case Atoi (TrimSuffix n ''.addr'') of
        None \<Rightarrow> live_names kill0 fs d es ns (seen, found)
      | Some pid \<Rightarrow>
        if pid \<in> set seen \<or> \<not> pidAlive kill0 pid then live_names kill0 fs d es ns (seen, found)
        else (case map_of es n of
            Some (Some raw) \<Rightarrow>
              if \<not> can_read fs (JoinPath [d, n]) then Inl (FileUnreadable (JoinPath [d, n]))
              else if TrimSpace raw = [] then live_names kill0 fs d es ns (seen, found)
              else live_names kill0 fs d es ns
                (pid # seen, found @ [\<lparr>ca_Addr = TrimSpace raw, ca_PID = pid, ca_From = JoinPath [d, n]\<rparr>])
          | _ \<Rightarrow> live_names kill0 fs d es ns (seen, found)))"

fun live_dirs :: "(int \<Rightarrow> bool) \<Rightarrow> run_fs \<Rightarrow> string list \<Rightarrow> int list \<times> ControlAddr list \<Rightarrow> (addr_error, int list \<times> ControlAddr list) result" where
  "live_dirs kill0 fs [] st = Inr st"
| "live_dirs kill0 fs (d # ds) st =
     (case dirs fs d of
        None \<Rightarrow> live_dirs kill0 fs ds st
      | Some es \<Rightarrow>
        if \<not> can_list fs d then Inl (DirUnreadable d)
        else bind_res (live_names kill0 fs d es (addr_names es) st) (live_dirs kill0 fs ds))"

definition LiveControlAddrs :: "string \<Rightarrow> surroundings \<Rightarrow> (int \<Rightarrow> bool) \<Rightarrow> run_fs \<Rightarrow> (addr_error, ControlAddr list) result" where
  "LiveControlAddrs p h kill0 fs =
     (case live_dirs kill0 fs (ControlAddrDirs p h) ([], []) of Inl e \<Rightarrow> Inl e | Inr (_, found) \<Rightarrow> Inr found)"

definition ReadControlAddr :: "string \<Rightarrow> surroundings \<Rightarrow> (int \<Rightarrow> bool) \<Rightarrow> run_fs \<Rightarrow> (addr_error, string \<times> string) result" where
  "ReadControlAddr p h kill0 fs = bind_res (LiveControlAddrs p h kill0 fs) (\<lambda>live.
     case live of [] \<Rightarrow> Inr ([], []) | [a] \<Rightarrow> Inr (ca_Addr a, ca_From a) | _ \<Rightarrow> Inl (ErrAmbiguousControlAddr live))"

fun remove_in :: "string list \<Rightarrow> int \<Rightarrow> run_fs \<Rightarrow> addr_error option \<times> run_fs" where
  "remove_in [] pid fs = (None, fs)"
| "remove_in (d # ds) pid fs =
     (case dirs fs d of
        None \<Rightarrow> remove_in ds pid fs
      | Some es \<Rightarrow>
        if addr_entry pid \<notin> set (keys es) then remove_in ds pid fs
        else if \<not> can_remove fs (controlAddrFile d pid) then (Some (RemoveFailed (controlAddrFile d pid)), fs)
        else remove_in ds pid (fs \<lparr>dirs := (dirs fs) (d := Some (AList.delete (addr_entry pid) es))\<rparr>))"

definition RemoveControlAddr :: "string \<Rightarrow> surroundings \<Rightarrow> int \<Rightarrow> run_fs \<Rightarrow> addr_error option \<times> run_fs" where
  "RemoveControlAddr p h pid fs = remove_in (ControlAddrDirs p h) pid fs"

text \<open>What the supervisor does with them; \<open>bound\<close> is where its transport listens, empty if nowhere.\<close>

definition publishControlAddr :: "string \<Rightarrow> surroundings \<Rightarrow> int \<Rightarrow> string \<Rightarrow> run_fs \<Rightarrow> run_fs" where
  "publishControlAddr p h pid bound fs = (if bound = [] then fs else snd (WriteControlAddr p h pid bound fs))"

definition unpublishControlAddr :: "string \<Rightarrow> surroundings \<Rightarrow> int \<Rightarrow> run_fs \<Rightarrow> run_fs" where
  "unpublishControlAddr p h pid fs = snd (RemoveControlAddr p h pid fs)"

section \<open>Addresses are found and withdrawn\<close>

text \<open>An entry that is passed over whatever has been found so far.\<close>

definition inert :: "(int \<Rightarrow> bool) \<Rightarrow> run_fs \<Rightarrow> string \<Rightarrow> (string, string option) gomap \<Rightarrow> string \<Rightarrow> bool" where
  "inert kill0 fs d es n \<longleftrightarrow>
     (case Atoi (TrimSuffix n ''.addr'') of
        None \<Rightarrow> True
      | Some pid \<Rightarrow> \<not> pidAlive kill0 pid \<or>
          (case map_of es n of Some (Some raw) \<Rightarrow> can_read fs (JoinPath [d, n]) \<and> TrimSpace raw = [] | _ \<Rightarrow> True))"

definition published :: "int \<Rightarrow> string \<Rightarrow> string \<Rightarrow> ControlAddr" where
  "published pid addr d = \<lparr>ca_Addr = TrimSpace addr, ca_PID = pid, ca_From = controlAddrFile d pid\<rparr>"

lemma live_names_grow: "live_names kill0 fs d es ns (seen, found) = Inr (seen', found') \<Longrightarrow> \<exists>zs. found' = found @ zs"
  by (induction ns arbitrary: seen found) (fastforce split: option.splits if_splits)+

lemma live_names_none:
  "live_names kill0 fs d es ns ([], []) = Inr (seen', []) \<longleftrightarrow> seen' = [] \<and> (\<forall>n \<in> set ns. inert kill0 fs d es n)"
proof (induction ns)
  case (Cons n ns)
  have no: "live_names kill0 fs d es ns (s, [a]) \<noteq> Inr (s', [])" for s a s'
    using live_names_grow [of kill0 fs d es ns s "[a]" s' "[]"] by auto
  show ?case
  proof (cases "inert kill0 fs d es n")
    case True
    then have "live_names kill0 fs d es (n # ns) ([], []) = live_names kill0 fs d es ns ([], [])"
      by (auto simp: inert_def split: option.splits)
    with Cons True show ?thesis by simp
  next
    case False
    then obtain pid raw where "Atoi (TrimSuffix n ''.addr'') = Some pid" "pidAlive kill0 pid" "map_of es n = Some (Some raw)"
      "can_read fs (JoinPath [d, n]) \<longrightarrow> TrimSpace raw \<noteq> []"
      by (auto simp: inert_def split: option.splits)
    with no False show ?thesis by (cases "can_read fs (JoinPath [d, n])") (simp_all add: inert_def)
  qed
qed auto

lemma live_names_inert: "\<forall>n \<in> set ns. inert kill0 fs d es n \<Longrightarrow> live_names kill0 fs d es ns st = Inr st"
  by (induction ns; cases st) (auto simp: inert_def split: option.splits)

lemma addr_entry_pid: "- (2 ^ 63) \<le> pid \<Longrightarrow> pid < 2 ^ 63 \<Longrightarrow> Atoi (TrimSuffix (addr_entry pid) ''.addr'') = Some pid"
  by (simp add: addr_entry_def ParseInt_Itoa)

lemma TrimSpace_newline: "TrimSpace (s @ [CHR 0x0A]) = TrimSpace s"
proof -
  have nl: "is_space (CHR 0x0A)" by (simp only: is_space_def) simp
  show ?thesis
  proof (cases "dropWhile is_space s = []")
    case True
    then have "dropWhile is_space (s @ [CHR 0x0A]) = []" using nl unfolding dropWhile_eq_Nil_conv by simp
    with True show ?thesis by (simp only: TrimSpace_def)
  next
    case False
    then have "dropWhile is_space (s @ [CHR 0x0A]) = dropWhile is_space s @ [CHR 0x0A]"
      unfolding dropWhile_eq_Nil_conv by (metis dropWhile_append1)
    then show ?thesis by (simp only: TrimSpace_def rev_append rev.simps append.simps dropWhile.simps nl if_True)
  qed
qed

lemma live_names_one:
  assumes "\<forall>n \<in> set ns. n \<noteq> addr_entry pid \<longrightarrow> inert kill0 fs d es n"
    and "map_of es (addr_entry pid) = Some (Some (addr @ [CHR 0x0A]))" "can_read fs (controlAddrFile d pid)"
    and "pidAlive kill0 pid" "TrimSpace addr \<noteq> []" "pid < 2 ^ 63"
  shows "live_names kill0 fs d es ns (seen, found) =
    Inr (if addr_entry pid \<in> set ns \<and> pid \<notin> set seen then (pid # seen, found @ [published pid addr d]) else (seen, found))"
  using assms(1)
proof (induction ns arbitrary: seen found)
  case (Cons n ns)
  show ?case
  proof (cases "n = addr_entry pid")
    case True
    have p: "- (2 ^ 63) \<le> pid" using assms(4) by (simp add: pidAlive_def)
    with Cons True assms show ?thesis
      by (simp add: addr_entry_pid TrimSpace_newline published_def controlAddrFile_def)
  next
    case False
    with Cons.prems have "inert kill0 fs d es n" by simp
    with Cons False show ?thesis by (auto simp: inert_def split: option.splits)
  qed
qed simp
lemma live_dirs_grow: "live_dirs kill0 fs ds (seen, found) = Inr (seen', found') \<Longrightarrow> \<exists>zs. found' = found @ zs"
proof (induction ds arbitrary: seen found)
  case (Cons d ds)
  show ?case
  proof (cases "dirs fs d")
    case (Some es)
    with Cons.prems obtain s1 f1 where "live_names kill0 fs d es (addr_names es) (seen, found) = Inr (s1, f1)"
      "live_dirs kill0 fs ds (s1, f1) = Inr (seen', found')"
      by (auto simp: bind_res_eq_Inr split: if_splits)
    with live_names_grow Cons.IH show ?thesis by (metis append.assoc)
  qed (use Cons in auto)
qed auto

definition quiet_dir :: "(int \<Rightarrow> bool) \<Rightarrow> run_fs \<Rightarrow> string \<Rightarrow> bool" where
  "quiet_dir kill0 fs d \<longleftrightarrow> (case dirs fs d of None \<Rightarrow> True | Some es \<Rightarrow> can_list fs d \<and> (\<forall>n \<in> set (addr_names es). inert kill0 fs d es n))"

lemma live_dirs_none: "live_dirs kill0 fs ds ([], []) = Inr (s, []) \<Longrightarrow> \<forall>d \<in> set ds. quiet_dir kill0 fs d"
proof (induction ds)
  case (Cons d ds)
  show ?case
  proof (cases "dirs fs d")
    case None
    with Cons show ?thesis by (simp add: quiet_dir_def)
  next
    case (Some es)
    with Cons.prems obtain s1 f1 where l: "can_list fs d" "live_names kill0 fs d es (addr_names es) ([], []) = Inr (s1, f1)"
      "live_dirs kill0 fs ds (s1, f1) = Inr (s, [])"
      by (auto simp: bind_res_eq_Inr split: if_splits)
    have "f1 = []" using live_dirs_grow [OF l(3)] by simp
    with l have "s1 = []" "\<forall>n \<in> set (addr_names es). inert kill0 fs d es n" by (simp_all add: live_names_none)
    with l Some \<open>f1 = []\<close> Cons.IH show ?thesis by (simp add: quiet_dir_def)
  qed
qed simp

lemma live_dirs_quiet: "\<forall>d \<in> set ds. quiet_dir kill0 fs d \<Longrightarrow> live_dirs kill0 fs ds st = Inr st"
  by (induction ds) (auto simp: quiet_dir_def live_names_inert split: option.splits)

lemma addr_names_Nil [simp]: "addr_names [] = []"
  by (simp add: addr_names_def)

lemma set_addr_names: "set (addr_names es) = {n. (\<exists>raw. (n, Some raw) \<in> set es) \<and> HasSuffix n ''.addr''}"
  by (force simp: addr_names_def)

lemma set_update: "(k, v) \<in> set (AList.update k v es)" "n \<noteq> k \<Longrightarrow> (n, w) \<in> set (AList.update k v es) \<longleftrightarrow> (n, w) \<in> set es"
  by (induction es) auto

lemma set_delete: "set (AList.delete k es) = {e \<in> set es. fst e \<noteq> k}"
  by (auto simp: AList.delete_eq)

lemma write_in_effect:
  assumes "write_in ds pid addr att fs = (Inr path, fs')"
  shows "\<exists>d \<in> set ds. path = controlAddrFile d pid \<and> can_list fs' = can_list fs \<and> can_read fs' = can_read fs \<and>
    dirs fs' d = Some (AList.update (addr_entry pid) (Some (addr @ [CHR 0x0A])) (case dirs fs d of None \<Rightarrow> [] | Some es \<Rightarrow> es)) \<and>
    (\<forall>d'. d' \<noteq> d \<longrightarrow> dirs fs' d' = dirs fs d' \<or> dirs fs' d' = Some [])"
  using assms
proof (induction ds pid addr att fs rule: write_in.induct)
  case (2 d ds pid addr att fs)
  let ?es = "case dirs fs d of None \<Rightarrow> [] | Some es \<Rightarrow> es"
  let ?fs = "fs \<lparr>dirs := (dirs fs) (d := Some ?es)\<rparr>"
  show ?case
  proof (cases "can_mkdir fs d \<and> can_write fs (controlAddrFile d pid)")
    case True
    with "2.prems" show ?thesis by (intro bexI [of _ d]) auto
  next
    case False
    show ?thesis
    proof (cases "can_mkdir fs d")
      case no: False
      with "2.IH"(1) [OF no] "2.prems" show ?thesis by auto
    next
      case yes: True
      with False have nw: "\<not> can_write fs (controlAddrFile d pid)" by simp
      from yes nw "2.prems" have w: "write_in ds pid addr (att @ [controlAddrFile d pid]) ?fs = (Inr path, fs')"
        by (simp add: Let_def)
      have nn: "\<not> \<not> can_mkdir fs d" using yes by simp
      from "2.IH"(2) [OF nn refl refl nw w] obtain e where e: "e \<in> set ds" "path = controlAddrFile e pid"
        "can_list fs' = can_list fs" "can_read fs' = can_read fs"
        "dirs fs' e = Some (AList.update (addr_entry pid) (Some (addr @ [CHR 0x0A])) (case dirs ?fs e of None \<Rightarrow> [] | Some es \<Rightarrow> es))"
        "\<forall>d'. d' \<noteq> e \<longrightarrow> dirs fs' d' = dirs ?fs d' \<or> dirs fs' d' = Some []"
        by auto
      have "(case dirs ?fs e of None \<Rightarrow> [] | Some es \<Rightarrow> es) = (case dirs fs e of None \<Rightarrow> [] | Some es \<Rightarrow> es)"
        by simp
      moreover have "dirs fs' d' = dirs fs d' \<or> dirs fs' d' = Some []" if "d' \<noteq> e" for d'
        using e(6) that by (cases "dirs fs d"; cases "d' = d") auto
      ultimately show ?thesis using e by (intro bexI [of _ e]) auto
    qed
  qed
qed simp
lemma remove_in_effect:
  assumes "remove_in ds pid fs = (None, fs')"
  shows "can_list fs' = can_list fs \<and> can_read fs' = can_read fs \<and>
    dirs fs' = (\<lambda>d. if d \<in> set ds then map_option (AList.delete (addr_entry pid)) (dirs fs d) else dirs fs d)"
  using assms
proof (induction ds pid fs rule: remove_in.induct)
  case (2 d ds pid fs)
  show ?case
  proof (cases "dirs fs d")
    case None
    with 2 show ?thesis by auto
  next
    case (Some es)
    show ?thesis
    proof (cases "addr_entry pid \<in> set (keys es)")
      case False
      then have "AList.delete (addr_entry pid) es = es" by (force simp: AList.delete_eq filter_id_conv keys_def)
      with Some False 2 show ?thesis by auto
    next
      case True
      with Some 2 have "can_remove fs (controlAddrFile d pid)" by (auto split: if_splits)
      with Some True 2 show ?thesis by (auto simp: AList.delete_idem)
    qed
  qed
qed simp

lemma live_dirs_one:
  assumes "\<forall>e \<in> set ds. e \<noteq> d \<longrightarrow> quiet_dir kill0 fs e" "dirs fs d = Some es" "can_list fs d"
    and "addr_entry pid \<in> set (addr_names es)" "\<forall>n \<in> set (addr_names es). n \<noteq> addr_entry pid \<longrightarrow> inert kill0 fs d es n"
    and "map_of es (addr_entry pid) = Some (Some (addr @ [CHR 0x0A]))" "can_read fs (controlAddrFile d pid)"
    and "pidAlive kill0 pid" "TrimSpace addr \<noteq> []" "pid < 2 ^ 63"
  shows "live_dirs kill0 fs ds (seen, found) =
    Inr (if d \<in> set ds \<and> pid \<notin> set seen then (pid # seen, found @ [published pid addr d]) else (seen, found))"
  using assms(1)
proof (induction ds arbitrary: seen found)
  case (Cons e ds)
  show ?case
  proof (cases "e = d")
    case True
    with Cons assms(2-4) live_names_one [OF assms(5-10), of seen found] show ?thesis by simp
  next
    case False
    with Cons have "live_dirs kill0 fs (e # ds) (seen, found) = live_dirs kill0 fs ds (seen, found)"
      by (auto simp: quiet_dir_def live_names_inert split: option.splits)
    with Cons False show ?thesis by auto
  qed
qed simp

lemma inert_cong: "can_read fs' = can_read fs \<Longrightarrow> map_of es' n = map_of es n \<Longrightarrow> inert kill0 fs' d es' n = inert kill0 fs d es n"
  unfolding inert_def by (simp only:)

text \<open>C38: An address published by a daemon, when no other live daemon has published one, is exactly what a
  client reads, with the file it came from; the entries of dead processes and files that are not
  addresses do not matter. Once the daemon has withdrawn it nothing is read.\<close>

theorem published_address_found:
  assumes "LiveControlAddrs p h kill0 fs = Inr []" "WriteControlAddr p h pid addr fs = (Inr path, fs')"
    and "pidAlive kill0 pid" "pid < 2 ^ 63" "TrimSpace addr \<noteq> []"
    and "\<forall>d \<in> set (ControlAddrDirs p h). can_list fs d" "can_read fs path"
    and "RemoveControlAddr p h pid fs' = (None, fs'')"
  shows "ReadControlAddr p h kill0 fs' = Inr (TrimSpace addr, path) \<and> ReadControlAddr p h kill0 fs'' = Inr ([], [])"
proof -
  let ?ds = "ControlAddrDirs p h" let ?k = "addr_entry pid"
  from assms(1) obtain s where "live_dirs kill0 fs ?ds ([], []) = Inr (s, [])"
    by (auto simp: LiveControlAddrs_def split: sum.splits)
  note q = live_dirs_none [OF this]
  from write_in_effect [OF assms(2) [unfolded WriteControlAddr_def]] obtain d es0 where d: "d \<in> set ?ds" "path = controlAddrFile d pid"
    "can_list fs' = can_list fs" "can_read fs' = can_read fs" "es0 = (case dirs fs d of None \<Rightarrow> [] | Some es \<Rightarrow> es)"
    "dirs fs' d = Some (AList.update ?k (Some (addr @ [CHR 0x0A])) es0)"
    "\<forall>e. e \<noteq> d \<longrightarrow> dirs fs' e = dirs fs e \<or> dirs fs' e = Some []"
    by metis
  let ?es = "AList.update ?k (Some (addr @ [CHR 0x0A])) es0"
  note r = remove_in_effect [OF assms(8) [unfolded RemoveControlAddr_def]]
  have q0: "inert kill0 fs d es0 n" if "n \<in> set (addr_names es0)" for n
  proof (cases "dirs fs d")
    case None
    with d(5) that show ?thesis by (simp add: addr_names_def)
  next
    case (Some es)
    have "quiet_dir kill0 fs d" using q d(1) by blast
    with Some d(5) that show ?thesis by (simp add: quiet_dir_def)
  qed
  have names: "n \<in> set (addr_names ?es) \<longleftrightarrow> n = ?k \<or> n \<in> set (addr_names es0) \<and> n \<noteq> ?k" for n
    using set_update(1) [of ?k "Some (addr @ [CHR 0x0A])" es0] set_update(2) [of n ?k _ "Some (addr @ [CHR 0x0A])" es0]
    by (auto simp: set_addr_names addr_entry_def HasSuffix_iff)
  have m: "map_of ?es = (map_of es0) (?k \<mapsto> Some (addr @ [CHR 0x0A]))" by (rule update_conv')
  have other: "quiet_dir kill0 fs' e" if "e \<in> set ?ds" "e \<noteq> d" for e
  proof -
    have "quiet_dir kill0 fs e" "can_list fs e" using q that(1) assms(6) by blast+
    moreover have "dirs fs' e = dirs fs e \<or> dirs fs' e = Some []" using d(7) that(2) by blast
    ultimately show ?thesis
      using d(3) inert_cong [OF d(4) refl] by (auto simp: quiet_dir_def split: option.splits)
  qed
  have here: "\<forall>n \<in> set (addr_names ?es). n \<noteq> ?k \<longrightarrow> inert kill0 fs' d ?es n"
  proof (intro ballI impI)
    fix n assume n: "n \<in> set (addr_names ?es)" "n \<noteq> ?k"
    then have "inert kill0 fs d es0 n" using names q0 by blast
    then show "inert kill0 fs' d ?es n" using inert_cong [OF d(4), of ?es n es0] m n(2) by simp
  qed
  have "live_dirs kill0 fs' ?ds ([], []) = Inr ([pid], [published pid addr d])"
    using live_dirs_one [of ?ds d kill0 fs' ?es pid addr "[]" "[]"] other here d names m assms(3-7) by simp
  then have one: "ReadControlAddr p h kill0 fs' = Inr (TrimSpace addr, path)"
    by (simp add: ReadControlAddr_def LiveControlAddrs_def published_def d(2))
  have "quiet_dir kill0 fs'' e" if e: "e \<in> set ?ds" for e
  proof (cases "dirs fs' e")
    case None
    with r e show ?thesis by (simp add: quiet_dir_def)
  next
    case (Some es1)
    have in1: "n \<in> set (addr_names es1) \<and> n \<noteq> ?k" if "n \<in> set (addr_names (AList.delete ?k es1))" for n
      using that by (auto simp: set_addr_names set_delete)
    have "inert kill0 fs' e es1 n" if "n \<in> set (addr_names es1)" "n \<noteq> ?k" for n
    proof (cases "e = d")
      case True
      with Some d(6) here that show ?thesis by simp
    next
      case False
      with other [OF e] Some that show ?thesis by (simp add: quiet_dir_def)
    qed
    then have "inert kill0 fs'' e (AList.delete ?k es1) n" if "n \<in> set (addr_names (AList.delete ?k es1))" for n
      using in1 [OF that] inert_cong [of fs'' fs' "AList.delete ?k es1" n es1] r by (auto simp: AList.delete_conv')
    with Some r e d(3) assms(6) show ?thesis by (simp add: quiet_dir_def)
  qed
  then have "live_dirs kill0 fs'' ?ds ([], []) = Inr ([], [])" by (intro live_dirs_quiet) blast
  then have "ReadControlAddr p h kill0 fs'' = Inr ([], [])" by (simp add: ReadControlAddr_def LiveControlAddrs_def)
  with one show ?thesis by simp
qed
definition demo_surroundings :: surroundings where
  "demo_surroundings = \<lparr>getenv = (\<lambda>_. []), home = None, there = (\<lambda>_. False), workdir = None\<rparr>"

definition demo_run :: run_fs where
  "demo_run = \<lparr>dirs = (\<lambda>d. if d = ''/run/gapi/control'' then Some [(''5.addr'', Some ''127.0.0.1:1''), (''x.addr'', None)] else None),
     can_mkdir = (\<lambda>_. True), can_write = (\<lambda>_. True), can_list = (\<lambda>_. True), can_read = (\<lambda>_. True), can_remove = (\<lambda>_. True)\<rparr>"

theorem published_address_found_witness:
  "ReadControlAddr ''gapi'' demo_surroundings (\<lambda>k. k = 7) (snd (WriteControlAddr ''gapi'' demo_surroundings 7 ''[::1]:9'' demo_run)) =
     Inr (''[::1]:9'', ''/run/gapi/control/7.addr'') \<and>
   ReadControlAddr ''gapi'' demo_surroundings (\<lambda>k. k = 7)
     (snd (RemoveControlAddr ''gapi'' demo_surroundings 7 (snd (WriteControlAddr ''gapi'' demo_surroundings 7 ''[::1]:9'' demo_run)))) =
     Inr ([], [])"
proof -
  let ?w = "WriteControlAddr ''gapi'' demo_surroundings 7 ''[::1]:9'' demo_run"
  let ?r = "RemoveControlAddr ''gapi'' demo_surroundings 7 (snd ?w)"
  have e: "LiveControlAddrs ''gapi'' demo_surroundings (\<lambda>k. k = 7) demo_run = Inr []"
    "fst ?w = Inr ''/run/gapi/control/7.addr''" "fst ?r = None" "TrimSpace ''[::1]:9'' = ''[::1]:9''"
    by code_simp+
  have w: "?w = (Inr ''/run/gapi/control/7.addr'', snd ?w)" "?r = (None, snd ?r)" by (intro prod_eqI; simp add: e)+
  show ?thesis
    using published_address_found [OF e(1) w(1) _ _ _ _ _ w(2)] e(4) by (simp add: pidAlive_def demo_run_def)
qed

text \<open>What a client may choose among: live processes, each once.\<close>

lemma live_names_alive:
  "live_names kill0 fs d es ns (seen, found) = Inr (seen', found') \<Longrightarrow>
   seen = rev (map ca_PID found) \<Longrightarrow> distinct seen \<Longrightarrow> \<forall>a \<in> set found. pidAlive kill0 (ca_PID a) \<and> ca_Addr a \<noteq> [] \<Longrightarrow>
   seen' = rev (map ca_PID found') \<and> distinct seen' \<and> (\<forall>a \<in> set found'. pidAlive kill0 (ca_PID a) \<and> ca_Addr a \<noteq> [])"
proof (induction ns arbitrary: seen found)
  case (Cons n ns)
  show ?case
  proof (cases "Atoi (TrimSuffix n ''.addr'')")
    case None
    show ?thesis by (rule Cons.IH [OF _ Cons.prems(2-4)]) (use Cons.prems(1) None in simp)
  next
    case (Some pid)
    consider (skip) "live_names kill0 fs d es ns (seen, found) = Inr (seen', found')"
      | (take) raw where "pid \<notin> set seen" "pidAlive kill0 pid" "TrimSpace raw \<noteq> []"
        "live_names kill0 fs d es ns (pid # seen, found @ [\<lparr>ca_Addr = TrimSpace raw, ca_PID = pid, ca_From = JoinPath [d, n]\<rparr>])
           = Inr (seen', found')"
      using Cons.prems(1) Some by (auto split: if_splits option.splits)
    then show ?thesis
    proof cases
      case skip
      show ?thesis by (rule Cons.IH [OF skip Cons.prems(2-4)])
    next
      case (take raw)
      show ?thesis by (rule Cons.IH [OF take(4)]) (use Cons.prems take in auto)
    qed
  qed
qed (use distinct_rev in auto)

lemma live_dirs_alive:
  "live_dirs kill0 fs ds (seen, found) = Inr (seen', found') \<Longrightarrow>
   seen = rev (map ca_PID found) \<Longrightarrow> distinct seen \<Longrightarrow> \<forall>a \<in> set found. pidAlive kill0 (ca_PID a) \<and> ca_Addr a \<noteq> [] \<Longrightarrow>
   distinct seen' \<and> seen' = rev (map ca_PID found') \<and> (\<forall>a \<in> set found'. pidAlive kill0 (ca_PID a) \<and> ca_Addr a \<noteq> [])"
proof (induction ds arbitrary: seen found)
  case (Cons d ds)
  show ?case
  proof (cases "dirs fs d")
    case None
    show ?thesis by (rule Cons.IH [OF _ Cons.prems(2-4)]) (use Cons.prems(1) None in simp)
  next
    case (Some es)
    with Cons.prems obtain s1 f1 where l: "live_names kill0 fs d es (addr_names es) (seen, found) = Inr (s1, f1)"
      "live_dirs kill0 fs ds (s1, f1) = Inr (seen', found')"
      by (auto simp: bind_res_eq_Inr split: if_splits)
    note h = live_names_alive [OF l(1) Cons.prems(2-4)]
    show ?thesis using Cons.IH [OF l(2) conjunct1 [OF h] conjunct1 [OF conjunct2 [OF h]] conjunct2 [OF conjunct2 [OF h]]] .
  qed
qed (use distinct_rev in auto)

lemma live_addrs_alive:
  "LiveControlAddrs p h kill0 fs = Inr live \<Longrightarrow>
   distinct (map ca_PID live) \<and> (\<forall>a \<in> set live. pidAlive kill0 (ca_PID a) \<and> ca_Addr a \<noteq> [])"
  using live_dirs_alive [of kill0 fs _ "[]" "[]"]
  by (fastforce simp: LiveControlAddrs_def split: sum.splits)

lemma ReadControlAddr_sole:
  assumes "ReadControlAddr p h kill0 fs = Inr (addr, from')" "addr \<noteq> []"
  shows "\<exists>pid. LiveControlAddrs p h kill0 fs = Inr [\<lparr>ca_Addr = addr, ca_PID = pid, ca_From = from'\<rparr>] \<and> pidAlive kill0 pid"
proof -
  obtain live where l: "LiveControlAddrs p h kill0 fs = Inr live" using assms(1) by (auto simp: ReadControlAddr_def bind_res_eq_Inr)
  with assms obtain a where a: "live = [a]" "ca_Addr a = addr" "ca_From a = from'"
    by (auto simp: ReadControlAddr_def split: list.splits)
  with live_addrs_alive [OF l] have "pidAlive kill0 (ca_PID a)" by simp
  with l a show ?thesis by (intro exI [of _ "ca_PID a"]) auto
qed

section \<open>Timeouts and prefixes\<close>

lemma take_timeout_eq:
  "take_timeout s u (e, t) = (if ParseDuration s = None then Some s else e, case ParseDuration s of None \<Rightarrow> t | Some v \<Rightarrow> u v t)"
  by (simp add: take_timeout_def split: option.splits)

definition kept :: "'a option \<Rightarrow> 'a \<Rightarrow> 'a" where
  "kept r d = (case r of None \<Rightarrow> d | Some v \<Rightarrow> v)"

lemma timeout_updates:
  "(case r of None \<Rightarrow> t | Some v \<Rightarrow> t \<lparr>QUICStreamTimeout := v\<rparr>) = t \<lparr>QUICStreamTimeout := kept r (QUICStreamTimeout t)\<rparr>"
  "(case r of None \<Rightarrow> t | Some v \<Rightarrow> t \<lparr>QUICIdleTimeout := v\<rparr>) = t \<lparr>QUICIdleTimeout := kept r (QUICIdleTimeout t)\<rparr>"
  "(case r of None \<Rightarrow> t | Some v \<Rightarrow> t \<lparr>ClientPendingTimeout := v\<rparr>) = t \<lparr>ClientPendingTimeout := kept r (ClientPendingTimeout t)\<rparr>"
  "(case r of None \<Rightarrow> t | Some v \<Rightarrow> t \<lparr>ClientTerminalTimeout := v\<rparr>) = t \<lparr>ClientTerminalTimeout := kept r (ClientTerminalTimeout t)\<rparr>"
  "(case r of None \<Rightarrow> t | Some v \<Rightarrow> t \<lparr>SupervisorStartDeadline := v\<rparr>) = t \<lparr>SupervisorStartDeadline := kept r (SupervisorStartDeadline t)\<rparr>"
  "(case r of None \<Rightarrow> t | Some v \<Rightarrow> t \<lparr>SupervisorShutdownTimeout := v\<rparr>) = t \<lparr>SupervisorShutdownTimeout := kept r (SupervisorShutdownTimeout t)\<rparr>"
  by (cases r; simp add: kept_def)+

text \<open>An error does not undo anything: what parses is in force, what does not keeps its value.\<close>

lemma updateTimeouts_applies:
  "updateTimeouts c t = (e, t') \<Longrightarrow>
   (e = None \<longleftrightarrow> (\<forall>s \<in> {QUICStream c, QUICIdle c, ClientPending c, ClientTerminal c, SupervisorStart c, SupervisorShutdown c}.
      ParseDuration s \<noteq> None)) \<and>
   t' = \<lparr>QUICStreamTimeout = kept (ParseDuration (QUICStream c)) (QUICStreamTimeout t),
     QUICIdleTimeout = kept (ParseDuration (QUICIdle c)) (QUICIdleTimeout t),
     ClientPendingTimeout = kept (ParseDuration (ClientPending c)) (ClientPendingTimeout t),
     ClientTerminalTimeout = kept (ParseDuration (ClientTerminal c)) (ClientTerminalTimeout t),
     SupervisorStartDeadline = kept (ParseDuration (SupervisorStart c)) (SupervisorStartDeadline t),
     SupervisorShutdownTimeout = kept (ParseDuration (SupervisorShutdown c)) (SupervisorShutdownTimeout t)\<rparr>"
  by (cases t) (auto simp: updateTimeouts_def take_timeout_eq timeout_updates split: if_splits)

text \<open>The test is on whole components, the root directory being the one prefix with nothing below it.\<close>

lemma split_on_snoc: "split_on sep (a @ sep # b) = split_on sep a @ split_on sep b"
  by (induction a) (auto split: list.splits)

lemma comps_append: "comps (a @ CHR ''/'' # b) = comps a @ comps b"
  by (simp add: comps_def split_on_snoc)

lemma underPrefix_components:
  assumes "\<forall>c \<in> set ps. name_ok c" "\<forall>c \<in> set cs. name_ok c" "ps \<noteq> []"
  shows "underPrefix wd (abs_path cs) (abs_path ps) \<longleftrightarrow> prefix ps cs"
proof -
  note f = abs_path_facts [OF assms(1)] abs_path_facts [OF assms(2)]
  have A: "Abs wd (abs_path ps) = Some (abs_path ps)" using f by (simp add: Abs_def)
  have j: "Join (ps @ rs) ''/'' = Join ps ''/'' @ ''/'' @ Join rs ''/''" if "rs \<noteq> []" for rs
    using assms(3) that
  proof (induction ps)
    case (Cons p ps)
    then show ?case by (cases ps; cases rs) auto
  qed simp
  show ?thesis
  proof
    assume "prefix ps cs"
    then obtain rs where "cs = ps @ rs" by (auto simp: prefix_def)
    with j [of rs] A show "underPrefix wd (abs_path cs) (abs_path ps)"
      by (cases "rs = []") (auto simp: underPrefix_def abs_path_def HasPrefix_iff)
  next
    assume "underPrefix wd (abs_path cs) (abs_path ps)"
    with A consider "abs_path cs = abs_path ps" | s where "abs_path cs = abs_path ps @ ''/'' @ s"
      by (auto simp: underPrefix_def HasPrefix_iff)
    then show "prefix ps cs"
    proof cases
      case 1
      with f have "ps = cs" by metis
      then show ?thesis by simp
    next
      case 2
      have "comps (abs_path ps @ ''/'' @ s) = ps @ comps s" using f(2) comps_append by simp
      with 2 f(5) have "cs = ps @ comps s" by metis
      then show ?thesis by (simp add: prefix_def)
    qed
  qed
qed

lemma root_prefix_holds_nothing: "underPrefix wd ''/usr/lib'' ''/'' = False"
  by code_simp
section \<open>The defaults are well typed\<close>

text \<open>The type of the field a key names.\<close>

fun field_at :: "string list \<Rightarrow> ctype \<Rightarrow> scalar option" where
  "field_at [] (Scalar k) = Some k"
| "field_at (n # ns) (Struct fs) = (case map_of fs n of None \<Rightarrow> None | Some t \<Rightarrow> field_at ns t)"
| "field_at _ _ = None"

definition key_type :: "string \<Rightarrow> scalar option" where
  "key_type path = field_at (split_on (CHR ''.'') path) ConfigType"

definition well_typed_defaults :: "string \<Rightarrow> (string \<times> cvalue) list \<Rightarrow> bool" where
  "well_typed_defaults p ds \<longleftrightarrow> distinct (map fst ds) \<and> set (map fst ds) = set (map fst (bindEnvOverrides p)) \<and>
     list_all (\<lambda>(path, v). key_type path = Some (type_of v)) ds"

text \<open>The keys of a type with the types of their values, and the tags that are plain names.\<close>

fun leaves :: "string \<Rightarrow> ctype \<Rightarrow> (string \<times> scalar) list"
  and leaves_of :: "string \<Rightarrow> (string \<times> ctype) list \<Rightarrow> (string \<times> scalar) list" where
  "leaves path (Scalar k) = [(path, k)]"
| "leaves path MapOrSlice = []"
| "leaves path (Struct fs) = leaves_of path fs"
| "leaves_of path [] = []"
| "leaves_of path ((tag, t) # fs) = leaves (if path \<noteq> [] then path @ ''.'' @ tag else tag) t @ leaves_of path fs"

fun plain_tags :: "ctype \<Rightarrow> bool" and plain_tags_of :: "(string \<times> ctype) list \<Rightarrow> bool" where
  "plain_tags (Struct fs) = plain_tags_of fs"
| "plain_tags _ = True"
| "plain_tags_of [] = True"
| "plain_tags_of ((tag, t) # fs) = (tag \<noteq> [] \<and> tag \<noteq> ''-'' \<and> CHR '','' \<notin> set tag \<and> plain_tags t \<and> plain_tags_of fs)"

lemma bind_leaves:
  "plain_tags t \<Longrightarrow> bind_field p path t = map (\<lambda>(q, k). (q, EnvKeyFor p q)) (leaves path t)"
  "plain_tags_of fs \<Longrightarrow> bind_fields p path fs = map (\<lambda>(q, k). (q, EnvKeyFor p q)) (leaves_of path fs)"
proof (induction path t and path fs rule: leaves_leaves_of.induct)
  case (5 path tag t fs)
  then have "cut_at (CHR '','') tag = None" by (simp add: cut_at_None)
  with 5 show ?case by simp
qed simp_all

definition key_list :: "(string \<times> scalar) list" where
  "key_list = [(''transport.type'', TString), (''transport.address'', TString), (''transport.tlsCert'', TString),
     (''transport.tlsKey'', TString), (''transport.tlsCa'', TString), (''transport.insecureSkipVerify'', TBool),
     (''security.verifyKey'', TString), (''metrics.enabled'', TBool), (''metrics.addr'', TString),
     (''logging.level'', TString), (''logging.format'', TString), (''logging.file.enabled'', TBool),
     (''logging.file.path'', TString), (''logging.file.maxSize'', TInt), (''logging.file.maxBackups'', TInt),
     (''logging.file.maxAge'', TInt), (''logging.file.compress'', TBool), (''logging.loki.enabled'', TBool),
     (''logging.loki.url'', TString), (''timeouts.quicStream'', TString), (''timeouts.quicIdle'', TString),
     (''timeouts.clientPending'', TString), (''timeouts.clientTerminal'', TString), (''timeouts.supervisorStart'', TString),
     (''timeouts.supervisorShutdown'', TString), (''supervisor.productionMode'', TBool), (''supervisor.pid1Mode'', TBool),
     (''supervisor.noEarlyMounts'', TBool), (''supervisor.watchdog.enabled'', TBool), (''supervisor.watchdog.device'', TString),
     (''supervisor.watchdog.interval'', TString), (''supervisor.shutdown.gracePeriod'', TString)]"

lemma plain_config: "plain_tags ConfigType" by code_simp
lemma leaves_config: "leaves [] ConfigType = key_list" by code_simp
lemma key_list_types: "list_all (\<lambda>(q, k). key_type q = Some k) key_list" by code_simp
lemma key_list_distinct: "distinct (map fst key_list)" by code_simp

lemma bound_keys: "bindEnvOverrides p = map (\<lambda>(q, k). (q, EnvKeyFor p q)) key_list"
  by (simp add: bindEnvOverrides_def bind_leaves(1) [OF plain_config] leaves_config)

definition upper_key :: "string \<Rightarrow> string" where
  "upper_key path = ToUpper (map (\<lambda>c. if c = CHR ''.'' then CHR ''_'' else c) path)"

text \<open>Capital letters by a table, which evaluates faster.\<close>

lemma lower_letters: "is_lower c \<Longrightarrow> c \<in> set ''abcdefghijklmnopqrstuvwxyz''"
proof -
  assume "is_lower c"
  then have "of_char c \<in> {97..122 :: nat}" by (auto simp: is_lower_def less_eq_char_def)
  then have "of_char c \<in> set [97 ..< 123 :: nat]" by (simp only: set_upt) auto
  then have "char_of (of_char c :: nat) \<in> char_of ` set [97 ..< 123 :: nat]" by blast
  moreover have "map char_of [97 ..< 123 :: nat] = ''abcdefghijklmnopqrstuvwxyz''" by code_simp
  ultimately show ?thesis by (metis char_of_char set_map)
qed

lemma upper_table: "list_all (\<lambda>(c, d). upper_char c = d) (zip ''abcdefghijklmnopqrstuvwxyz'' ''ABCDEFGHIJKLMNOPQRSTUVWXYZ'')"
  by code_simp

lemma upper_char_table: "upper_char c = (case map_of (zip ''abcdefghijklmnopqrstuvwxyz'' ''ABCDEFGHIJKLMNOPQRSTUVWXYZ'') c of None \<Rightarrow> c | Some d \<Rightarrow> d)"
proof (cases "map_of (zip ''abcdefghijklmnopqrstuvwxyz'' ''ABCDEFGHIJKLMNOPQRSTUVWXYZ'') c")
  case None
  then have "c \<notin> set ''abcdefghijklmnopqrstuvwxyz''" by (rule map_of_zip_is_None [THEN iffD1, rotated]) simp
  then have "\<not> is_lower c" using lower_letters [of c] by blast
  with None show ?thesis by (simp only: upper_char_def option.case if_False)
next
  case (Some d)
  from map_of_SomeD [OF this] upper_table have "upper_char c = d" by (auto simp only: list_all_iff prod.case)
  with Some show ?thesis by simp
qed

definition upper_text :: "string \<Rightarrow> string" where
  "upper_text = map (\<lambda>c. case map_of (zip ''abcdefghijklmnopqrstuvwxyz'' ''ABCDEFGHIJKLMNOPQRSTUVWXYZ'') c of None \<Rightarrow> c | Some d \<Rightarrow> d)"

lemma ToUpper_text: "ToUpper = upper_text"
  unfolding ToUpper_def upper_text_def upper_char_table ..

lemma env_names_distinct: "distinct (map (\<lambda>(q, k). upper_key q) key_list @ directEnv)"
  unfolding upper_key_def ToUpper_text by code_simp

definition default_types :: "(string \<times> scalar) list" where
  "default_types =
     [(''transport.type'', TString), (''transport.address'', TString), (''transport.insecureSkipVerify'', TBool), 
     (''transport.tlsCert'', TString), (''transport.tlsKey'', TString), (''transport.tlsCa'', TString), 
     (''metrics.enabled'', TBool), (''metrics.addr'', TString), (''security.verifyKey'', TString), (''logging.level'', TString), 
     (''logging.format'', TString), (''logging.file.enabled'', TBool), (''logging.file.path'', TString), 
     (''logging.file.maxSize'', TInt), (''logging.file.maxBackups'', TInt), (''logging.file.maxAge'', TInt), 
     (''logging.file.compress'', TBool), (''logging.loki.enabled'', TBool), (''logging.loki.url'', TString), 
     (''supervisor.productionMode'', TBool), (''supervisor.pid1Mode'', TBool), (''supervisor.noEarlyMounts'', TBool), 
     (''supervisor.watchdog.enabled'', TBool), (''supervisor.watchdog.device'', TString), 
     (''supervisor.watchdog.interval'', TString), (''supervisor.shutdown.gracePeriod'', TString), 
     (''timeouts.quicStream'', TString), (''timeouts.quicIdle'', TString), (''timeouts.clientPending'', TString), 
     (''timeouts.clientTerminal'', TString), (''timeouts.supervisorStart'', TString), (''timeouts.supervisorShutdown'', TString)]"

lemma setDefaults_types: "setDefaults p t = Inr ds \<Longrightarrow> map (\<lambda>(q, v). (q, type_of v)) ds = default_types"
  by (auto simp only: setDefaults_def default_types_def bind_res_eq_Inr sum.inject list.map prod.case type_of.simps)

lemma setDefaults_ok: "is_ok (setDefaults p t) \<longleftrightarrow> p = ''gapi'' \<or> p = ''goblin''"
  by (auto simp: setDefaults_def DefaultControlAddr_def DefaultMetricsAddr_def DefaultLogPath_def Name_def
    controlAddrDefaults_def metricsAddrDefaults_def is_ok_def bind_res_def split: option.splits sum.splits if_splits)

lemma default_types_perm:
  "distinct (map fst default_types)" "list_all (\<lambda>e. e \<in> set key_list) default_types"
  "list_all (\<lambda>e. e \<in> set default_types) key_list"
  by code_simp+
lemma map_snd_type: "map fst (map (\<lambda>(q, v). (q, type_of v)) ds) = map fst ds"
  by (induction ds) auto

text \<open>C39: A product has defaults exactly when it has addresses of its own, and then the defaults are
  well typed against the configuration's structs: every key a field can be set by has exactly one
  default, of the field's type, and no default is for a key without a field. The environment names
  of the keys are distinct, and none is one of the names read directly.\<close>

theorem defaults_well_typed:
  "(is_ok (setDefaults p t) \<longleftrightarrow> p = ''gapi'' \<or> p = ''goblin'') \<and>
   (case setDefaults p t of Inl _ \<Rightarrow> True | Inr ds \<Rightarrow> well_typed_defaults p ds) \<and>
   distinct (map snd (bindEnvOverrides p) @ map (\<lambda>s. ToUpper p @ ''_'' @ s) directEnv)"
proof (intro conjI)
  show "is_ok (setDefaults p t) \<longleftrightarrow> p = ''gapi'' \<or> p = ''goblin''" by (rule setDefaults_ok)
  show "case setDefaults p t of Inl _ \<Rightarrow> True | Inr ds \<Rightarrow> well_typed_defaults p ds"
  proof (cases "setDefaults p t")
    case (Inr ds)
    note ty = setDefaults_types [OF Inr]
    have keys: "map fst ds = map fst default_types" using map_snd_type [of ds] ty by metis
    have sets: "set default_types = set key_list" using default_types_perm(2, 3) by (auto simp: list_all_iff)
    have "key_type q = Some (type_of v)" if "(q, v) \<in> set ds" for q v
    proof -
      from that have "(q, type_of v) \<in> set (map (\<lambda>(q, v). (q, type_of v)) ds)" by force
      with ty sets key_list_types show ?thesis by (auto simp: list_all_iff)
    qed
    with keys sets default_types_perm(1) Inr show ?thesis
      by (auto simp: well_typed_defaults_def bound_keys list_all_iff image_image case_prod_unfold)
  qed simp
  have "map snd (bindEnvOverrides p) @ map (\<lambda>s. ToUpper p @ ''_'' @ s) directEnv =
      map (\<lambda>s. ToUpper p @ ''_'' @ s) (map (\<lambda>(q, k). upper_key q) key_list @ directEnv)"
    by (simp add: bound_keys EnvKeyFor_def upper_key_def case_prod_unfold)
  also have "distinct \<dots>" using env_names_distinct by (subst distinct_map) (simp add: inj_on_def)
  finally show "distinct (map snd (bindEnvOverrides p) @ map (\<lambda>s. ToUpper p @ ''_'' @ s) directEnv)" .
qed
end
