(* ===== verification/Client.thy ===== *)
theory Client
  imports Handlers Config
begin

text \<open>
  The control client: \<^verbatim>\<open>core/client\<close>, \<^verbatim>\<open>internal/statewatch\<close> and, of \<^verbatim>\<open>pkg/cli\<close>,
  \<^verbatim>\<open>control_target.go\<close> and \<^verbatim>\<open>lifecycle.go\<close>: what a lifecycle command sends, how long it
  waits, what it prints and with which status it exits. What a \<^verbatim>\<open>select\<close> sees, one channel at a
  time, is a list of events; the order in which goroutines end is an argument.
\<close>

section \<open>Model\<close>

subsection \<open>Waiting for a lifecycle status\<close>

definition isTerminal :: "string \<Rightarrow> bool" where
  "isTerminal state \<longleftrightarrow> ToUpper (TrimSpace state) \<notin>
     {''PENDING'', ''STARTING'', ''STOPPING'', ''RELOADING'', ''INITIALIZING'', ''''}"

datatype wait_error = CtxExpired | NoPending | NoTerminal | NoSubscription string

definition wait_text :: "wait_error \<Rightarrow> string" where
  "wait_text e = (case e of
       CtxExpired \<Rightarrow> ''context deadline exceeded''
     | NoPending \<Rightarrow> ''timeout waiting for PENDING''
     | NoTerminal \<Rightarrow> ''timeout waiting for terminal state''
     | NoSubscription s \<Rightarrow> ''subscribe to lifecycle status: '' @ s)"

text \<open>An event on the status topic, \<open>None\<close> when it does not decode; the loop reading the channel; the
  timer that is active; the end of the context.\<close>

datatype wevent = Announced "status_reply option" | Loop_takes | Timer_fires | Ctx_done

record watch =
  w_queue :: "status_reply list"
  w_pending :: bool
  w_result :: "(wait_error, status_reply) result option"

definition watch0 :: watch where
  "watch0 = \<lparr>w_queue = [], w_pending = False, w_result = None\<rparr>"

definition queue_status :: "string \<Rightarrow> status_reply option \<Rightarrow> watch \<Rightarrow> watch" where
  "queue_status agent p w =
     (case p of
        None \<Rightarrow> w
      | Some st \<Rightarrow>
        if sr_agent st \<noteq> agent then w
        else if length (w_queue w) < 8 then w \<lparr>w_queue := w_queue w @ [st]\<rparr> else w)"

definition on_take :: "watch \<Rightarrow> watch" where
  "on_take w =
     (case w_queue w of
        [] \<Rightarrow> w
      | st # q \<Rightarrow>
        if isTerminal (sr_state st) then w \<lparr>w_queue := q, w_result := Some (Inr st)\<rparr>
        else if \<not> w_pending w \<and> sr_state st = ''PENDING'' then w \<lparr>w_queue := q, w_pending := True\<rparr>
        else w \<lparr>w_queue := q\<rparr>)"

definition watch_step :: "string \<Rightarrow> wevent \<Rightarrow> watch \<Rightarrow> watch" where
  "watch_step agent e w =
     (case e of
        Announced p \<Rightarrow> queue_status agent p w
      | Loop_takes \<Rightarrow> if w_result w \<noteq> None then w else on_take w
      | Timer_fires \<Rightarrow> if w_result w \<noteq> None then w
          else w \<lparr>w_result := Some (Inl (if \<not> w_pending w then NoPending else NoTerminal))\<rparr>
      | Ctx_done \<Rightarrow> if w_result w \<noteq> None then w else w \<lparr>w_result := Some (Inl CtxExpired)\<rparr>)"

text \<open>\<open>None\<close>: still waiting.\<close>

definition WaitForPendingThenTerminal :: "string option \<Rightarrow> string \<Rightarrow> wevent list \<Rightarrow> (wait_error, status_reply) result option" where
  "WaitForPendingThenTerminal sub_err agent evs =
     (case sub_err of Some e \<Rightarrow> Some (Inl (NoSubscription e)) | None \<Rightarrow> w_result (fold (watch_step agent) evs watch0))"

subsection \<open>Lifecycle actions\<close>

record lc_result =
  lr_agent :: string
  lr_status :: "status_reply option"
  lr_err :: "string option"

definition lifecycle_one :: "(string \<Rightarrow> string option) \<Rightarrow> (string \<Rightarrow> (wait_error, status_reply) result) \<Rightarrow> string \<Rightarrow> lc_result" where
  "lifecycle_one publish wait agent =
     (case publish agent of
        Some e \<Rightarrow> \<lparr>lr_agent = agent, lr_status = None, lr_err = Some (''publish control: '' @ e)\<rparr>
      | None \<Rightarrow> (case wait agent of
          Inl e \<Rightarrow> \<lparr>lr_agent = agent, lr_status = None, lr_err = Some (wait_text e)\<rparr>
        | Inr st \<Rightarrow> \<lparr>lr_agent = agent, lr_status = Some st, lr_err = None\<rparr>))"

text \<open>\<open>finish\<close> is the order in which the agents' goroutines report.\<close>

definition LifecycleWithOpts :: "(string \<Rightarrow> string option) \<Rightarrow> (string \<Rightarrow> (wait_error, status_reply) result)
    \<Rightarrow> (string list \<Rightarrow> string list) \<Rightarrow> string list \<Rightarrow> lc_result list" where
  "LifecycleWithOpts publish wait finish ids = map (lifecycle_one publish wait) (finish ids)"

definition isFailedState :: "string \<Rightarrow> bool" where
  "isFailedState state \<longleftrightarrow> state = ''FAILED'' \<or> state = ''AGENT_STATE_FAILED''"

definition lr_state :: "lc_result \<Rightarrow> string" where
  "lr_state r = (case lr_status r of None \<Rightarrow> [] | Some st \<Rightarrow> sr_state st)"

definition lr_msg :: "lc_result \<Rightarrow> string" where
  "lr_msg r = (case lr_status r of None \<Rightarrow> [] | Some st \<Rightarrow> sr_msg st)"

text \<open>The line printed for a result, and whether it counts as failed.\<close>

definition result_line :: "bool \<Rightarrow> lc_result \<Rightarrow> bool \<times> string" where
  "result_line isQuery r =
     (case lr_err r of
        Some e \<Rightarrow> (True, ''[FAIL] '' @ lr_agent r @ '': '' @ e)
      | None \<Rightarrow>
        if \<not> isQuery \<and> isFailedState (lr_state r)
        then (True, ''[FAIL] '' @ lr_agent r @ '' -> '' @ lr_state r @ '': '' @ lr_msg r)
        else (False, ''[OK] '' @ lr_agent r @ '' -> '' @ lr_state r @ '': '' @ lr_msg r))"

text \<open>The lines printed and the error with which the command exits.\<close>

definition sendLifecycleCommand :: "string option \<Rightarrow> string option \<Rightarrow> int \<Rightarrow> lc_result list \<Rightarrow> string list \<times> string option" where
  "sendLifecycleCommand load_err init_err action results =
     (case load_err of
        Some e \<Rightarrow> ([], Some (''load config: '' @ e))
      | None \<Rightarrow> (case init_err of
          Some e \<Rightarrow> ([], Some (''init client: '' @ e))
        | None \<Rightarrow>
          let out = map (result_line (action = 0)) results; failed = int (length (filter fst out))
          in (map snd out,
              if failed > 0 then Some (Itoa failed @ '' of '' @ Itoa (int (length results)) @ '' agents failed'') else None)))"

subsection \<open>Requests that are repeated\<close>

datatype 'a aevent = Reply 'a | Bad_reply string | Ctx_expired | Tick

datatype await_error = Unpublished string | Unrepublished string | Undecoded string | Expired

text \<open>\<open>publish k\<close> is the error of publishing for the \<open>k\<close>-th time; the ticker is on or has been stopped.
  The outcome comes with the number of times the request was published again.\<close>

fun await_reply :: "(nat \<Rightarrow> string option) \<Rightarrow> bool \<Rightarrow> nat \<Rightarrow> 'a aevent list \<Rightarrow> (await_error, 'a) result option \<times> nat" where
  "await_reply publish on attempts [] = (None, attempts)"
| "await_reply publish on attempts (Reply v # evs) = (Some (Inr v), attempts)"
| "await_reply publish on attempts (Bad_reply e # evs) = (Some (Inl (Undecoded e)), attempts)"
| "await_reply publish on attempts (Ctx_expired # evs) = (Some (Inl Expired), attempts)"
| "await_reply publish on attempts (Tick # evs) =
     (if \<not> on then await_reply publish on attempts evs
      else if attempts \<ge> 8 then await_reply publish False attempts evs
      else case publish (Suc attempts) of
          Some e \<Rightarrow> (Some (Inl (Unrepublished e)), Suc attempts)
        | None \<Rightarrow> await_reply publish on (Suc attempts) evs)"

text \<open>The number returned counts every publishing.\<close>

definition awaitCorrelated :: "(nat \<Rightarrow> string option) \<Rightarrow> 'a aevent list \<Rightarrow> (await_error, 'a) result option \<times> nat" where
  "awaitCorrelated publish evs =
     (case publish 0 of
        Some e \<Rightarrow> (Some (Inl (Unpublished e)), 1)
      | None \<Rightarrow> (case await_reply publish True 0 evs of (r, n) \<Rightarrow> (r, Suc n)))"

subsection \<open>The client and its bus\<close>

record client =
  ownsBus :: bool
  hasBus :: bool

definition NewFromBus :: client where "NewFromBus = \<lparr>ownsBus = False, hasBus = True\<rparr>"

definition New_client :: "string option \<Rightarrow> (string, client) result" where
  "New_client dial = (case dial of Some e \<Rightarrow> Inl (''failed to init transport: '' @ e) | None \<Rightarrow> Inr \<lparr>ownsBus = True, hasBus = True\<rparr>)"

text \<open>Whether the bus is closed.\<close>

definition Close_client :: "client \<Rightarrow> bool" where
  "Close_client c \<longleftrightarrow> \<not> (\<not> ownsBus c \<or> \<not> hasBus c)"

definition ReloadAgents_request :: "string option \<Rightarrow> string option" where
  "ReloadAgents_request publish = map_option (\<lambda>e. ''failed to publish reload: '' @ e) publish"

definition Shutdown_request :: "string option \<Rightarrow> string option" where
  "Shutdown_request publish = map_option (\<lambda>e. ''failed to publish shutdown: '' @ e) publish"

record log_message =
  lm_agent :: string
  lm_time :: string
  lm_level :: string
  lm_text :: string

text \<open>The callback of \<^verbatim>\<open>GetLogs\<close> on the channel's content; the time is already formatted.\<close>

definition on_log :: "string \<Rightarrow> log_message option \<Rightarrow> string list \<Rightarrow> string list" where
  "on_log agent p ch =
     (case p of
        None \<Rightarrow> ch
      | Some lm \<Rightarrow>
        if lm_agent lm \<noteq> agent then ch
        else if length ch < 100
          then ch @ [''['' @ lm_time lm @ ''] '' @ lm_agent lm @ '' ['' @ lm_level lm @ '']: '' @ lm_text lm] else ch)"

subsection \<open>Where to dial\<close>

record control_target =
  controlAddrSource :: string
  controlAddrAmbiguity :: "addr_error option"
  controlAddrExplicit :: bool

text \<open>The address to dial, given the configured one, with the reasons to report.\<close>

definition resolveControlAddr :: "string \<Rightarrow> (addr_error, string \<times> string) result \<Rightarrow> string \<Rightarrow> control_target
    \<Rightarrow> string \<times> control_target" where
  "resolveControlAddr default_addr published_addr configured ct =
     (if configured \<noteq> default_addr then (configured, ct \<lparr>controlAddrExplicit := True, controlAddrSource := []\<rparr>)
      else
        let ct1 = ct \<lparr>controlAddrExplicit := False\<rparr> in
        case published_addr of
          Inl e \<Rightarrow> (configured, ct1 \<lparr>controlAddrAmbiguity := Some e\<rparr>)
        | Inr (addr, from) \<Rightarrow>
            if addr = [] then (configured, ct1) else (addr, ct1 \<lparr>controlAddrSource := from\<rparr>))"

definition candidate_text :: "ControlAddr \<Rightarrow> string" where
  "candidate_text c = ca_Addr c @ '' (pid '' @ Itoa (ca_PID c) @ '', '' @ ca_From c @ '')''"

definition ErrAmbiguous_Error :: "ControlAddr list \<Rightarrow> string" where
  "ErrAmbiguous_Error cs = Itoa (int (length cs)) @ '' daemons have published a control address: '' @
     Join (map candidate_text cs) ''; ''"

text \<open>\<open>why\<close> is the text of an error of \<^verbatim>\<open>ReadControlAddr\<close>.\<close>

definition describeControlTarget :: "(addr_error \<Rightarrow> string) \<Rightarrow> string list \<Rightarrow> string \<Rightarrow> control_target \<Rightarrow> string" where
  "describeControlTarget why searched addr ct =
     (case controlAddrAmbiguity ct of
        Some e \<Rightarrow> ''dialled '' @ addr @ '', the configured default, because '' @ why e @
          '' - pass --control-addr to say which one you mean''
      | None \<Rightarrow>
        if controlAddrExplicit ct then ''dialled '' @ addr @ '', as configured - nothing is listening there '' @
          ''(this address came from a flag, the environment or a config file, '' @ ''not from a running daemon)''
        else if controlAddrSource ct \<noteq> [] then ''dialled '' @ addr @ '', from the daemon's published address at '' @
          controlAddrSource ct @ '' (pass --control-addr to override)''
        else ''dialled '' @ addr @ '', the configured default - no live daemon has '' @ ''published an address in '' @
          Join searched '' or '' @ '' (pass --control-addr if it is listening elsewhere)'')"

definition newControlClient :: "string \<Rightarrow> string option \<Rightarrow> (string, client) result" where
  "newControlClient target dial =
     (case New_client dial of Inl e \<Rightarrow> Inl (e @ '' ('' @ target @ '')'') | Inr c \<Rightarrow> Inr c)"

section \<open>Waiting\<close>

lemma isTerminal_isInFlight: "isTerminal s \<longleftrightarrow> \<not> isInFlight s"
  by (simp add: isTerminal_def isInFlight_def)

text \<open>The statuses announced for an agent.\<close>

definition announced_for :: "string \<Rightarrow> wevent list \<Rightarrow> status_reply list" where
  "announced_for agent evs = concat (map (\<lambda>e. case e of Announced (Some st) \<Rightarrow> if sr_agent st = agent then [st] else [] | _ \<Rightarrow> []) evs)"

lemma announced_for_simps [simp]:
  "announced_for agent [] = []" "announced_for agent (evs @ evs') = announced_for agent evs @ announced_for agent evs'"
  "announced_for agent [Announced None] = []" "announced_for agent [Loop_takes] = []" "announced_for agent [Timer_fires] = []"
  "announced_for agent [Ctx_done] = []" "announced_for agent [Announced (Some st)] = (if sr_agent st = agent then [st] else [])"
  by (simp_all add: announced_for_def)

text \<open>What the outcome tells of the statuses the loop has read; the others are in the channel.\<close>

definition reads_ok :: "status_reply list \<Rightarrow> (wait_error, status_reply) result \<Rightarrow> bool" where
  "reads_ok us r =
     (case r of
        Inr st \<Rightarrow> us \<noteq> [] \<and> last us = st \<and> isTerminal (sr_state st) \<and> (\<forall>u \<in> set (butlast us). \<not> isTerminal (sr_state u))
      | Inl e \<Rightarrow> (\<forall>u \<in> set us. \<not> isTerminal (sr_state u)) \<and>
          (e = NoPending \<longrightarrow> (\<forall>u \<in> set us. sr_state u \<noteq> ''PENDING'')) \<and> (e = NoTerminal \<longrightarrow> (\<exists>u \<in> set us. sr_state u = ''PENDING'')))"

definition watch_inv :: "status_reply list \<Rightarrow> watch \<Rightarrow> bool" where
  "watch_inv sts w \<longleftrightarrow> (\<exists>us. sts = us @ w_queue w \<and>
     (case w_result w of
        Some r \<Rightarrow> reads_ok us r
      | None \<Rightarrow> (\<forall>u \<in> set us. \<not> isTerminal (sr_state u)) \<and> w_pending w = (\<exists>u \<in> set us. sr_state u = ''PENDING'')))"

lemma queue_status_inv:
  assumes "watch_inv sts w" "sr_agent st = agent" "length (sts @ [st]) \<le> 8"
  shows "watch_inv (sts @ [st]) (queue_status agent (Some st) w)"
proof -
  from assms obtain us where us: "sts = us @ w_queue w" by (auto simp: watch_inv_def)
  with assms(3) have "length (w_queue w) < 8" by simp
  with assms(1, 2) show ?thesis by (cases "w_result w") (auto simp: watch_inv_def queue_status_def)
qed

lemma on_take_inv:
  assumes "watch_inv sts w" "w_result w = None"
  shows "watch_inv sts (on_take w)"
proof (cases "w_queue w")
  case (Cons st q)
  from assms Cons obtain us where us: "sts = (us @ [st]) @ q" "\<forall>u \<in> set us. \<not> isTerminal (sr_state u)"
    "w_pending w \<longleftrightarrow> (\<exists>u \<in> set us. sr_state u = ''PENDING'')"
    by (auto simp: watch_inv_def)
  then show ?thesis using assms(2) Cons unfolding watch_inv_def on_take_def
    by (intro exI [of _ "us @ [st]"]) (auto simp: reads_ok_def)
qed (use assms in \<open>simp add: on_take_def\<close>)

lemma watch_step_inv:
  assumes "watch_inv (announced_for agent evs) w" "length (announced_for agent (evs @ [e])) \<le> 8"
  shows "watch_inv (announced_for agent (evs @ [e])) (watch_step agent e w)"
proof (cases e)
  case (Announced p)
  show ?thesis
  proof (cases p)
    case (Some st)
    show ?thesis
    proof (cases "sr_agent st = agent")
      case True
      with Some Announced assms show ?thesis by (simp add: watch_step_def queue_status_inv)
    qed (use Some Announced assms in \<open>simp add: watch_step_def queue_status_def\<close>)
  qed (use Announced assms in \<open>simp add: watch_step_def queue_status_def\<close>)
next
  case Loop_takes
  with assms on_take_inv show ?thesis by (cases "w_result w") (simp_all add: watch_step_def)
next
  case Timer_fires
  with assms show ?thesis by (cases "w_result w") (auto simp: watch_step_def watch_inv_def reads_ok_def)
next
  case Ctx_done
  with assms show ?thesis by (cases "w_result w") (auto simp: watch_step_def watch_inv_def reads_ok_def)
qed

lemma watch_run_inv:
  "length (announced_for agent evs) \<le> 8 \<Longrightarrow> watch_inv (announced_for agent evs) (fold (watch_step agent) evs watch0)"
proof (induction evs rule: rev_induct)
  case Nil
  show ?case by (simp add: watch_inv_def watch0_def)
next
  case (snoc e evs)
  then have "watch_inv (announced_for agent evs) (fold (watch_step agent) evs watch0)" by simp
  from watch_step_inv [OF this snoc.prems] show ?case by simp
qed

text \<open>As long as no more statuses arrive than the channel holds, the wait returns the first terminal
  status announced for the agent: none is skipped, none of another agent is taken. A timeout names
  what did not come: \<^verbatim>\<open>PENDING\<close> if nothing was read that says so, else a terminal state.\<close>

theorem wait_returns_first_terminal:
  assumes "length (announced_for agent evs) \<le> 8" "WaitForPendingThenTerminal None agent evs = Some r"
  shows "\<exists>us. announced_for agent evs = us @ w_queue (fold (watch_step agent) evs watch0) \<and>
    (case r of
       Inr st \<Rightarrow> us \<noteq> [] \<and> last us = st \<and> isTerminal (sr_state st) \<and> (\<forall>u \<in> set (butlast us). \<not> isTerminal (sr_state u))
     | Inl e \<Rightarrow> (\<forall>u \<in> set us. \<not> isTerminal (sr_state u)) \<and>
         (e = NoPending \<longrightarrow> (\<forall>u \<in> set us. sr_state u \<noteq> ''PENDING'')) \<and> (e = NoTerminal \<longrightarrow> (\<exists>u \<in> set us. sr_state u = ''PENDING'')))"
proof -
  have "w_result (fold (watch_step agent) evs watch0) = Some r"
    using assms(2) by (simp add: WaitForPendingThenTerminal_def)
  with watch_run_inv [OF assms(1)] show ?thesis unfolding watch_inv_def reads_ok_def by simp
qed

definition demo_reply :: "string \<Rightarrow> string \<Rightarrow> status_reply" where
  "demo_reply i state = \<lparr>sr_agent = i, sr_state = state, sr_msg = [], sr_host = ''h''\<rparr>"

definition demo_events :: "wevent list" where
  "demo_events = [Announced (Some (demo_reply ''b'' ''RUNNING'')), Announced (Some (demo_reply ''a'' ''PENDING'')), Loop_takes,
     Announced (Some (demo_reply ''a'' ''starting'')), Announced (Some (demo_reply ''a'' ''running'')), Loop_takes, Loop_takes]"

theorem wait_returns_first_terminal_witness:
  "WaitForPendingThenTerminal None ''a'' demo_events = Some (Inr (demo_reply ''a'' ''running'')) \<and>
   (\<exists>us. announced_for ''a'' demo_events = us \<and> us \<noteq> [] \<and> last us = demo_reply ''a'' ''running'' \<and>
     (\<forall>u \<in> set (butlast us). \<not> isTerminal (sr_state u)))"
proof -
  have e: "length (announced_for ''a'' demo_events) \<le> 8"
    "WaitForPendingThenTerminal None ''a'' demo_events = Some (Inr (demo_reply ''a'' ''running''))"
    "w_queue (fold (watch_step ''a'') demo_events watch0) = []"
    by code_simp+
  show ?thesis using wait_returns_first_terminal [OF e(1, 2)] e(2, 3) by simp
qed

section \<open>Repeating a request\<close>

definition decisive :: "'a aevent \<Rightarrow> bool" where
  "decisive e \<longleftrightarrow> e \<noteq> Tick"

lemma await_reply_off: "await_reply publish False n evs =
   (case dropWhile (\<lambda>e. e = Tick) evs of [] \<Rightarrow> None | Reply v # _ \<Rightarrow> Some (Inr v) | Bad_reply e # _ \<Rightarrow> Some (Inl (Undecoded e))
    | _ # _ \<Rightarrow> Some (Inl Expired), n)"
proof (induction evs)
  case (Cons e evs)
  then show ?case by (cases e) auto
qed simp

lemma await_reply_on: "(\<And>k. publish k = None) \<Longrightarrow> n \<le> 8 \<Longrightarrow> await_reply publish True n evs =
   (case dropWhile (\<lambda>e. e = Tick) evs of [] \<Rightarrow> None | Reply v # _ \<Rightarrow> Some (Inr v) | Bad_reply e # _ \<Rightarrow> Some (Inl (Undecoded e))
    | _ # _ \<Rightarrow> Some (Inl Expired), min 8 (n + length (takeWhile (\<lambda>e. e = Tick) evs)))"
proof (induction evs arbitrary: n)
  case (Cons e evs)
  then show ?case by (cases e) (auto simp: await_reply_off)
qed simp

lemma await_reply_bound: "n \<le> 8 \<Longrightarrow> snd (await_reply publish on n evs) \<le> 8"
  by (induction publish on n evs rule: await_reply.induct) (auto split: option.splits)

text \<open>A read is sent at most nine times, whatever happens; and when sending does not fail it is sent
  once more for each tick, up to eight, before the first answer or the end of the context, which
  alone decides the outcome. After the eighth tick nothing more is sent.\<close>

theorem awaitCorrelated_bounded:
  "snd (awaitCorrelated publish evs) \<le> 9 \<and>
   awaitCorrelated (\<lambda>_. None) evs =
     (case dropWhile (\<lambda>e. e = Tick) evs of [] \<Rightarrow> None | Reply v # _ \<Rightarrow> Some (Inr v) | Bad_reply e # _ \<Rightarrow> Some (Inl (Undecoded e))
      | _ # _ \<Rightarrow> Some (Inl Expired),
      Suc (min 8 (length (takeWhile (\<lambda>e. e = Tick) evs))))"
proof
  show "snd (awaitCorrelated publish evs) \<le> 9"
    using await_reply_bound [of 0 publish True evs] by (auto simp: awaitCorrelated_def split: option.splits prod.splits)
  show "awaitCorrelated (\<lambda>_. None) evs =
     (case dropWhile (\<lambda>e. e = Tick) evs of [] \<Rightarrow> None | Reply v # _ \<Rightarrow> Some (Inr v) | Bad_reply e # _ \<Rightarrow> Some (Inl (Undecoded e))
      | _ # _ \<Rightarrow> Some (Inl Expired),
      Suc (min 8 (length (takeWhile (\<lambda>e. e = Tick) evs))))"
    using await_reply_on [of "\<lambda>_. None" 0 evs] by (simp add: awaitCorrelated_def)
qed

section \<open>Exit statuses\<close>

text \<open>The failure of one agent, as the command judges it.\<close>

definition judged_ok :: "int \<Rightarrow> (string \<Rightarrow> string option) \<Rightarrow> (string \<Rightarrow> (wait_error, status_reply) result) \<Rightarrow> string \<Rightarrow> bool" where
  "judged_ok action publish wait i \<longleftrightarrow> publish i = None \<and>
     (case wait i of Inl _ \<Rightarrow> False | Inr st \<Rightarrow> action = 0 \<or> \<not> isFailedState (sr_state st))"

lemma result_line_judged: "fst (result_line (action = 0) (lifecycle_one publish wait i)) \<longleftrightarrow> \<not> judged_ok action publish wait i"
  by (auto simp: result_line_def lifecycle_one_def judged_ok_def lr_state_def split: option.splits sum.splits)

lemma send_results:
  "sendLifecycleCommand None None action (LifecycleWithOpts publish wait finish ids) =
     (map (\<lambda>i. snd (result_line (action = 0) (lifecycle_one publish wait i))) (finish ids),
      let n = length (filter (\<lambda>i. \<not> judged_ok action publish wait i) (finish ids)) in
      if n > 0 then Some (Itoa (int n) @ '' of '' @ Itoa (int (length (finish ids))) @ '' agents failed'') else None)"
  by (simp add: sendLifecycleCommand_def LifecycleWithOpts_def Let_def filter_map comp_def result_line_judged)

text \<open>In whatever order the agents answer, a lifecycle command prints one line for each and fails
  exactly when for some agent the request was not sent, no terminal status came in time, or, for
  an action, the status that came is one of the two spellings of failure. It says how many failed.\<close>

theorem lifecycle_exit_exact:
  assumes "mset (finish ids) = mset ids"
  shows "length (fst (sendLifecycleCommand None None action (LifecycleWithOpts publish wait finish ids))) = length ids \<and>
    snd (sendLifecycleCommand None None action (LifecycleWithOpts publish wait finish ids)) =
      (if \<forall>i \<in> set ids. judged_ok action publish wait i then None
       else Some (Itoa (int (length (filter (\<lambda>i. \<not> judged_ok action publish wait i) ids))) @ '' of '' @
         Itoa (int (length ids)) @ '' agents failed''))"
proof -
  have len: "length (finish ids) = length ids" by (rule mset_eq_length [OF assms])
  have "mset (filter P (finish ids)) = mset (filter P ids)" for P using assms by simp
  then have flt: "length (filter P (finish ids)) = length (filter P ids)" for P by (metis mset_eq_length)
  have "0 < length (filter (\<lambda>i. \<not> judged_ok action publish wait i) ids) \<longleftrightarrow> \<not> (\<forall>i \<in> set ids. judged_ok action publish wait i)"
    by (auto simp: filter_empty_conv)
  then show ?thesis by (simp add: send_results len flt Let_def)
qed

theorem lifecycle_exit_exact_witness:
  "snd (sendLifecycleCommand None None 3 (LifecycleWithOpts (\<lambda>_. None)
      (\<lambda>i. if i = ''b'' then Inr (demo_reply i ''FAILED'') else Inr (demo_reply i ''stopped'')) rev [''a'', ''b'', ''c''])) =
     Some ''1 of 3 agents failed''"
proof -
  let ?wait = "\<lambda>i. if i = ''b'' then Inr (demo_reply i ''FAILED'') else Inr (demo_reply i ''stopped'')"
  have m: "mset (rev [''a'', ''b'', ''c'']) = mset [''a'', ''b'', ''c'']" by simp
  have j: "judged_ok 3 (\<lambda>_. None) ?wait ''a''" "\<not> judged_ok 3 (\<lambda>_. None) ?wait ''b''" "judged_ok 3 (\<lambda>_. None) ?wait ''c''"
    by code_simp+
  have t: "Itoa 1 @ '' of '' @ Itoa 3 @ '' agents failed'' = ''1 of 3 agents failed''" by code_simp
  show ?thesis using lifecycle_exit_exact [of rev "[''a'', ''b'', ''c'']" 3 "\<lambda>_. None" ?wait, OF m] j t by simp
qed

text \<open>The daemon answers a failed action with the state \<open>error\<close>, which is neither spelling.\<close>

lemma error_is_terminal: "isTerminal StateError" "\<not> isFailedState StateError" "\<not> isTerminal ''PENDING''"
  by code_simp+

lemma replies_taken:
  assumes "sr_agent p = i" "sr_agent r = i" "sr_state p = ''PENDING''" "isTerminal (sr_state r)"
  shows "WaitForPendingThenTerminal None i [Announced (Some p), Loop_takes, Announced (Some r), Loop_takes] = Some (Inr r)"
  using assms error_is_terminal(3)
  by (simp add: WaitForPendingThenTerminal_def watch_step_def queue_status_def on_take_def watch0_def)



section \<open>Where to dial\<close>

text \<open>The client dials the configured address unless it is the built-in one and exactly one live daemon
  has published another. The message names the reason: several daemons, an address that was given,
  the file the address was read from, or the directories in which no address was found.\<close>

theorem control_target_exact:
  "resolveControlAddr dflt (ReadControlAddr p h kill0 fs) configured \<lparr>controlAddrSource = [], controlAddrAmbiguity = None, controlAddrExplicit = False\<rparr> =
     (if configured \<noteq> dflt then (configured, \<lparr>controlAddrSource = [], controlAddrAmbiguity = None, controlAddrExplicit = True\<rparr>)
      else case LiveControlAddrs p h kill0 fs of
          Inl e \<Rightarrow> (dflt, \<lparr>controlAddrSource = [], controlAddrAmbiguity = Some e, controlAddrExplicit = False\<rparr>)
        | Inr [] \<Rightarrow> (dflt, \<lparr>controlAddrSource = [], controlAddrAmbiguity = None, controlAddrExplicit = False\<rparr>)
        | Inr [c] \<Rightarrow> (ca_Addr c, \<lparr>controlAddrSource = ca_From c, controlAddrAmbiguity = None, controlAddrExplicit = False\<rparr>)
        | Inr cs \<Rightarrow> (dflt, \<lparr>controlAddrSource = [], controlAddrAmbiguity = Some (ErrAmbiguousControlAddr cs), controlAddrExplicit = False\<rparr>))"
proof (cases "LiveControlAddrs p h kill0 fs")
  case (Inr live)
  have "\<forall>c \<in> set live. ca_Addr c \<noteq> []" using live_addrs_alive [OF Inr] by blast
  with Inr show ?thesis by (auto simp: resolveControlAddr_def ReadControlAddr_def split: list.splits)
qed (simp add: resolveControlAddr_def ReadControlAddr_def)

end
