(* ===== verification/Transport.thy ===== *)
theory Transport
  imports EventBus GoConv "HOL-Library.Word"
begin

text \<open>
  \<^verbatim>\<open>core/transport\<close>: how an event becomes a frame on a stream and a frame an event, how a
  publish waits for its sends, the set of peers, and the choice of the transport. Protocol buffers
  and QUIC are not part of the program: \<open>marshal\<close> and \<open>unmarshal\<close>, and the results of opening,
  writing and closing a stream, are arguments.
\<close>

section \<open>Model\<close>

subsection \<open>Frames\<close>

type_synonym byte = "8 word"

record 'p envelope =
  env_id :: string
  env_scope :: string
  env_namespace :: string
  env_topic :: string
  env_source :: string
  env_type :: string
  env_payload :: "'p option"
  env_tags :: "string list"

definition envelope_of :: "'p option event \<Rightarrow> 'p envelope" where
  "envelope_of e = \<lparr>env_id = e_id e, env_scope = e_scope e, env_namespace = e_ns e, env_topic = e_topic e, env_source = e_source e,
     env_type = ''event'', env_payload = e_payload e, env_tags = e_tags e\<rparr>"

definition event_of :: "'p envelope \<Rightarrow> 'p option event" where
  "event_of env = \<lparr>e_id = env_id env, e_scope = env_scope env, e_ns = env_namespace env, e_topic = env_topic env,
     e_payload = env_payload env, e_source = env_source env, e_tags = env_tags env\<rparr>"

text \<open>\<^verbatim>\<open>binary.BigEndian\<close>.\<close>

definition PutUint32 :: "32 word \<Rightarrow> byte list" where
  "PutUint32 v = [ucast (drop_bit 24 v), ucast (drop_bit 16 v), ucast (drop_bit 8 v), ucast v]"

definition Uint32 :: "byte list \<Rightarrow> 32 word" where
  "Uint32 b = or (or (or (ucast (b ! 3)) (push_bit 8 (ucast (b ! 2)))) (push_bit 16 (ucast (b ! 1)))) (push_bit 24 (ucast (b ! 0)))"

subsection \<open>Sending\<close>

datatype sendStage = StageOpen | StageMarshal | StageFrame | StageWrite | StageClose

record send_error =
  se_stage :: sendStage
  se_peer :: string
  se_err :: string

text \<open>The results of the calls on the stream; a write that fails says how much it wrote.\<close>

record stream =
  open_err :: "string option"
  len_err :: "(nat \<times> string) option"
  data_err :: "(nat \<times> string) option"
  close_err :: "string option"

text \<open>The error, and the bytes that went out.\<close>

definition publishTo :: "('p envelope \<Rightarrow> (string, byte list) result) \<Rightarrow> string \<Rightarrow> stream \<Rightarrow> 'p option event
    \<Rightarrow> send_error option \<times> byte list" where
  "publishTo marshal peer s e =
     (let fail = (\<lambda>st err. Some \<lparr>se_stage = st, se_peer = peer, se_err = err\<rparr>) in
      case open_err s of
        Some err \<Rightarrow> (fail StageOpen err, [])
      | None \<Rightarrow> (case marshal (envelope_of e) of
          Inl err \<Rightarrow> (fail StageMarshal err, [])
        | Inr body \<Rightarrow>
          if int (length body) > 4294967295 then (fail StageFrame ''transport: envelope too large to frame'', [])
          else
            let prefix_bytes = PutUint32 (of_nat (length body)) in
            case len_err s of
              Some (n, err) \<Rightarrow> (fail StageWrite err, take n prefix_bytes)
            | None \<Rightarrow> (case data_err s of
                Some (n, err) \<Rightarrow> (fail StageWrite err, prefix_bytes @ take n body)
              | None \<Rightarrow> (case close_err s of
                  Some err \<Rightarrow> (fail StageClose err, prefix_bytes @ body)
                | None \<Rightarrow> (None, prefix_bytes @ body)))))"

text \<open>What the sends and the window bring, in the order in which the publisher sees it.\<close>

datatype sending = Answered "send_error option" | Window_closes

datatype publish_error = NoPeer | Incomplete nat nat nat "send_error list"

fun collect :: "nat \<Rightarrow> sending list \<Rightarrow> send_error list \<Rightarrow> nat \<Rightarrow> (send_error list \<times> nat) option" where
  "collect 0 evs errs answered = Some (errs, answered)"
| "collect (Suc n) [] errs answered = None"
| "collect (Suc n) (Answered r # evs) errs answered =
     collect n evs (case r of None \<Rightarrow> errs | Some e \<Rightarrow> errs @ [e]) (Suc answered)"
| "collect (Suc n) (Window_closes # evs) errs answered = Some (errs, answered)"

text \<open>\<open>None\<close>: still waiting.\<close>

definition PublishRemote :: "nat \<Rightarrow> sending list \<Rightarrow> publish_error option option" where
  "PublishRemote peers evs =
     (if peers = 0 then Some (Some NoPeer)
      else case collect peers evs [] 0 of
          None \<Rightarrow> None
        | Some (errs, answered) \<Rightarrow> Some (if errs = [] \<and> answered = peers then None
            else Some (Incomplete peers (length errs) (peers - answered) errs)))"

definition publish_error_text :: "publish_error \<Rightarrow> string" where
  "publish_error_text pe = (case pe of
       NoPeer \<Rightarrow> ''eventbus: no peer connected''
     | Incomplete peers failed unconfirmed errs \<Rightarrow>
         ''publish confirmed for '' @ Itoa (int peers - int failed - int unconfirmed) @ '' of '' @ Itoa (int peers) @ '' peers ('' @
         Itoa (int failed) @ '' failed, '' @ Itoa (int unconfirmed) @ '' unconfirmed)'')"

text \<open>The error as the bus sees it.\<close>

definition as_transport_error :: "publish_error option \<Rightarrow> transport_error option" where
  "as_transport_error r = (case r of None \<Rightarrow> None | Some NoPeer \<Rightarrow> Some ErrNoPeer
     | Some pe \<Rightarrow> Some (TransportFailed (publish_error_text pe)))"

subsection \<open>Receiving\<close>

datatype 'p received = ShortPrefix | ShortPayload | Undecodable string | Received "'p option event"

text \<open>One stream, read to its end: how many bytes are allocated for the payload, and what comes of it.\<close>

definition handleStream :: "(byte list \<Rightarrow> (string, 'p envelope) result) \<Rightarrow> byte list \<Rightarrow> nat \<times> 'p received" where
  "handleStream unmarshal bs =
     (if length bs < 4 then (0, ShortPrefix)
      else
        let n = unat (Uint32 (take 4 bs)); rest = drop 4 bs in
        if length rest < n then (n, ShortPayload)
        else case unmarshal (take n rest) of Inl err \<Rightarrow> (n, Undecodable err) | Inr env \<Rightarrow> (n, Received (event_of env)))"

text \<open>The callback is the one installed when the stream has been read, if any.\<close>

definition receive :: "bool \<Rightarrow> 'p received \<Rightarrow> 'p option bus \<Rightarrow> 'p option bus" where
  "receive installed r b = (case r of Received e \<Rightarrow> if installed then on_remote_event e b else b | _ \<Rightarrow> b)"

subsection \<open>Peers\<close>

text \<open>Connections are numbered. \<open>starting\<close> are those whose \<^verbatim>\<open>handleConn\<close> has been started and has
  not registered them yet; \<open>shut\<close> are those closed from this side.\<close>

record quic =
  q_listener :: bool
  q_peers :: "nat set"
  q_starting :: "nat set"
  q_ended :: "nat set"
  q_shut :: "nat set"

datatype qevent = Accepts nat | Registers nat | Ends nat | Closes

definition server0 :: quic where
  "server0 = \<lparr>q_listener = True, q_peers = {}, q_starting = {}, q_ended = {}, q_shut = {}\<rparr>"

definition client0 :: "nat \<Rightarrow> quic" where
  "client0 c = \<lparr>q_listener = False, q_peers = {c}, q_starting = {c}, q_ended = {}, q_shut = {}\<rparr>"

definition PeerCount :: "quic \<Rightarrow> nat" where "PeerCount s = card (q_peers s)"

definition Close_quic :: "quic \<Rightarrow> quic" where
  "Close_quic s = s \<lparr>q_listener := False, q_peers := {}, q_shut := q_shut s \<union> q_peers s\<rparr>"

inductive qstep :: "quic \<Rightarrow> qevent \<Rightarrow> quic \<Rightarrow> bool" where
  accepts: "q_listener s \<Longrightarrow> c \<notin> q_peers s \<union> q_starting s \<union> q_ended s \<union> q_shut s \<Longrightarrow>
    qstep s (Accepts c) (s \<lparr>q_starting := insert c (q_starting s)\<rparr>)"
| registers: "c \<in> q_starting s \<Longrightarrow>
    qstep s (Registers c) (s \<lparr>q_peers := insert c (q_peers s), q_starting := q_starting s - {c}\<rparr>)"
| conn_ends: "c \<in> q_peers s \<union> q_shut s \<Longrightarrow> c \<notin> q_starting s \<Longrightarrow>
    qstep s (Ends c) (s \<lparr>q_peers := q_peers s - {c}, q_ended := insert c (q_ended s)\<rparr>)"
| closes: "qstep s Closes (Close_quic s)"

inductive qsteps :: "quic \<Rightarrow> qevent list \<Rightarrow> quic \<Rightarrow> bool" where
  none: "qsteps s [] s"
| more: "qsteps s evs t \<Longrightarrow> qstep t e u \<Longrightarrow> qsteps s (evs @ [e]) u"

inductive_cases qstepE: "qstep s e t"

text \<open>The delay after each failed accept, a success clearing it; \<open>None\<close> once a fatal error or the end
  of the listener has ended the loop. Times are nanoseconds.\<close>

datatype accept = Accepted_conn | Temporary | Fatal | Listener_closed

fun accept_delay :: "int \<Rightarrow> accept list \<Rightarrow> int list" where
  "accept_delay d [] = []"
| "accept_delay d (Accepted_conn # as) = accept_delay 0 as"
| "accept_delay d (Temporary # as) =
     (let d1 = (if d = 0 then 5000000 else d * 2); d2 = (if d1 > 1000000000 then 1000000000 else d1) in d2 # accept_delay d2 as)"
| "accept_delay d (Fatal # as) = []"
| "accept_delay d (Listener_closed # as) = []"

subsection \<open>The choice of the transport\<close>

datatype chosen = Local_transport | Quic_server bool string | Quic_client bool bool string string

text \<open>A server with a certificate of its own, or of the files; a client with or without a certificate,
  verifying or not, with the file of the authorities.\<close>

record transport_config =
  tc_type :: string
  tc_address :: string
  tc_cert :: string
  tc_key :: string
  tc_ca :: string
  tc_insecure :: bool

definition NewQUICServerTransport :: "(string \<Rightarrow> string \<Rightarrow> string option) \<Rightarrow> string \<Rightarrow> string \<Rightarrow> string \<Rightarrow> (string, chosen) result" where
  "NewQUICServerTransport load_err addr tlsCert tlsKey =
     (if tlsCert = [] \<or> tlsKey = [] then Inr (Quic_server True addr)
      else case load_err tlsCert tlsKey of
          Some e \<Rightarrow> Inl (''load cert: '' @ e) | None \<Rightarrow> Inr (Quic_server False addr))"

definition NewServerFromConfig :: "(string \<Rightarrow> string \<Rightarrow> string option) \<Rightarrow> transport_config \<Rightarrow> (string, chosen) result" where
  "NewServerFromConfig load_err c =
     (if tc_type c = ''local'' then Inr Local_transport
      else if tc_type c = ''quic'' then NewQUICServerTransport load_err (tc_address c) (tc_cert c) (tc_key c)
      else Inl (''unknown transport type: '' @ tc_type c))"

definition NewQUICClientTransport :: "(string \<Rightarrow> string \<Rightarrow> string option) \<Rightarrow> transport_config \<Rightarrow> (string, chosen) result" where
  "NewQUICClientTransport load_err c =
     (if tc_cert c \<noteq> [] \<and> tc_key c \<noteq> [] then
        (case load_err (tc_cert c) (tc_key c) of
           Some e \<Rightarrow> Inl (''load cert: '' @ e)
         | None \<Rightarrow> Inr (Quic_client True (\<not> tc_insecure c) (tc_ca c) (tc_address c)))
      else Inr (Quic_client False (\<not> tc_insecure c) (tc_ca c) (tc_address c)))"

definition NewClientFromConfig :: "(string \<Rightarrow> string \<Rightarrow> string option) \<Rightarrow> transport_config \<Rightarrow> (string, chosen) result" where
  "NewClientFromConfig load_err c =
     (if tc_type c = ''local'' then Inr Local_transport
      else if tc_type c = ''quic'' then NewQUICClientTransport load_err c
      else Inl (''unknown transport type: '' @ tc_type c))"

section \<open>Frames\<close>

lemma Uint32_Put: "Uint32 (PutUint32 v) = v"
proof (rule bit_word_eqI)
  fix n assume "n < LENGTH(32)"
  then consider "n < 8" | "8 \<le> n" "n < 16" | "16 \<le> n" "n < 24" | "24 \<le> n" "n < 32" by fastforce
  then show "bit (Uint32 (PutUint32 v)) n = bit v n"
    by cases (auto simp: Uint32_def PutUint32_def bit_simps)
qed

lemma length_Put [simp]: "length (PutUint32 v) = 4"
  by (simp add: PutUint32_def)

lemma event_envelope [simp]: "event_of (envelope_of e) = e"
  by (simp add: event_of_def envelope_of_def)

text \<open>A stream that holds a frame, or the beginning of one.\<close>

lemma handle_frame:
  assumes "length body \<le> 4294967295" "n \<le> length body"
  shows "handleStream unmarshal (PutUint32 (of_nat (length body)) @ take n body) =
    (length body, if n < length body then ShortPayload
      else case unmarshal body of Inl err \<Rightarrow> Undecodable err | Inr env \<Rightarrow> Received (event_of env))"
proof -
  have "unat (of_nat (length body) :: 32 word) = length body"
    using assms(1) by (simp add: unat_of_nat)
  with assms(2) show ?thesis by (auto simp: handleStream_def Uint32_Put Let_def split: sum.splits)
qed

lemma handle_short: "length bs < 4 \<Longrightarrow> handleStream unmarshal bs = (0, ShortPrefix)"
  by (simp add: handleStream_def)

text \<open>C26: What a send puts on a stream is received as the very event that was sent, in all its fields, or not at
  all: a frame that was cut anywhere gives nothing. When the send reports no error the event is
  received. The only assumption on protocol buffers is that they decode what they encode.\<close>

theorem frame_received_whole_or_not:
  assumes "\<forall>env body. marshal env = Inr body \<longrightarrow> unmarshal body = Inr env"
    and "publishTo marshal peer s e = (r, bs)"
  shows "snd (handleStream unmarshal bs) \<in> {Received e, ShortPrefix, ShortPayload} \<and>
    (r = None \<longrightarrow> snd (handleStream unmarshal bs) = Received e)"
proof (cases "open_err s")
  case None
  show ?thesis
  proof (cases "marshal (envelope_of e)")
    case (Inl err)
    with assms(2) None show ?thesis by (auto simp: publishTo_def Let_def handle_short)
  next
    case (Inr body)
    show ?thesis
    proof (cases "int (length body) > 4294967295")
      case True
      with assms(2) None Inr show ?thesis by (auto simp: publishTo_def Let_def handle_short)
    next
      case False
      then have len: "length body \<le> 4294967295" by linarith
      have u: "unmarshal body = Inr (envelope_of e)" using assms(1) Inr by blast
      note h = handle_frame [OF len, of _ unmarshal, unfolded u]
      show ?thesis
      proof (cases "len_err s")
        case (Some p)
        then obtain n err where p: "len_err s = Some (n, err)" by (cases p) auto
        with assms(2) None Inr False have r: "r \<noteq> None" "bs = take n (PutUint32 (of_nat (length body)))"
          by (auto simp: publishTo_def Let_def)
        show ?thesis
        proof (cases "n < 4")
          case True
          with r show ?thesis by (simp add: handle_short)
        next
          case False
          with r h [of 0] show ?thesis by auto
        qed
      next
        case nl: None
        show ?thesis
        proof (cases "data_err s")
          case (Some p)
          then obtain n err where p: "data_err s = Some (n, err)" by (cases p) auto
          with assms(2) None Inr False nl have r: "r \<noteq> None" "bs = PutUint32 (of_nat (length body)) @ take n body"
            by (auto simp: publishTo_def Let_def)
          have "take n body = take (min n (length body)) body" by (simp add: min_def)
          with r h [of "min n (length body)"] show ?thesis by auto
        next
          case nd: None
          with assms(2) None Inr False nl have "bs = PutUint32 (of_nat (length body)) @ body"
            by (auto simp: publishTo_def Let_def split: option.splits)
          with h [of "length body"] show ?thesis by simp
        qed
      qed
    qed
  qed
qed (use assms(2) in \<open>auto simp: publishTo_def Let_def handle_short\<close>)

definition demo_env :: "nat envelope" where
  "demo_env = \<lparr>env_id = ''1'', env_scope = ''system'', env_namespace = [], env_topic = ''ping'', env_source = ''client'',
     env_type = ''event'', env_payload = Some 7, env_tags = [''t'']\<rparr>"

theorem frame_received_whole_or_not_witness:
  "snd (handleStream (\<lambda>_. Inr demo_env) [0, 0, 0, 3, 9, 8, 7]) = Received (event_of demo_env) \<and>
   publishTo (\<lambda>env. if env = demo_env then Inr [9, 8, 7] else Inl ''other'') ''peer''
     \<lparr>open_err = None, len_err = None, data_err = None, close_err = None\<rparr> (event_of demo_env) = (None, [0, 0, 0, 3, 9, 8, 7])"
proof -
  let ?m = "\<lambda>env. if env = demo_env then Inr [9, 8, 7] else Inl ''other''"
  let ?s = "\<lparr>open_err = None, len_err = None, data_err = None, close_err = None\<rparr>"
  have c: "envelope_of (event_of demo_env) = demo_env" by (simp add: envelope_of_def event_of_def demo_env_def)
  have p: "PutUint32 3 = [0, 0, 0, 3]" by code_simp
  have r: "publishTo ?m ''peer'' ?s (event_of demo_env) = (None, [0, 0, 0, 3, 9, 8, 7])"
    by (simp add: publishTo_def c p Let_def)
  have h: "\<forall>env body. ?m env = Inr body \<longrightarrow> (\<lambda>_. Inr demo_env) body = Inr env" by (auto split: if_splits)
  show ?thesis using frame_received_whole_or_not [OF h r] r by simp
qed

text \<open>The receiver allocates what the first four bytes say, whatever follows.\<close>

lemma receiver_has_no_cap: "handleStream unmarshal [255, 255, 255, 255] = (4294967295, ShortPayload)"
proof -
  have "PutUint32 4294967295 = [255, 255, 255, 255]" by code_simp
  then have "Uint32 [255, 255, 255, 255] = 4294967295" using Uint32_Put [of 4294967295] by simp
  then show ?thesis by (simp add: handleStream_def Let_def)
qed

section \<open>Publishing to peers\<close>

definition failures :: "sending list \<Rightarrow> send_error list" where
  "failures evs = concat (map (\<lambda>e. case e of Answered (Some err) \<Rightarrow> [err] | _ \<Rightarrow> []) evs)"

text \<open>The answers that come before the window closes, no more than there are peers.\<close>

definition in_window :: "nat \<Rightarrow> sending list \<Rightarrow> sending list" where
  "in_window peers evs = takeWhile (\<lambda>e. e \<noteq> Window_closes) (take peers evs)"

lemma collect_spec:
  "collect n evs errs answered =
     (if length (in_window n evs) < n \<and> in_window n evs = evs then None
      else Some (errs @ failures (in_window n evs), answered + length (in_window n evs)))"
proof (induction n evs errs answered rule: collect.induct)
  case (3 n r evs errs answered)
  then show ?case by (cases r) (auto simp: in_window_def failures_def)
qed (auto simp: in_window_def failures_def)

lemma failures_none: "failures evs = [] \<and> Window_closes \<notin> set evs \<longleftrightarrow> (\<forall>e \<in> set evs. e = Answered None)"
  by (induction evs) (auto simp: failures_def split: sending.splits option.splits)

lemma failures_le: "length (failures evs) \<le> length evs"
  by (induction evs) (auto simp: failures_def split: sending.splits option.splits)

text \<open>A publish to peers ends when every peer has answered or the window closes, and never later. It
  reports nothing exactly when there are peers and all of them confirmed before the window closed;
  otherwise it reports that there is no peer, or how many failed, each with its error, and how
  many had not answered.\<close>

theorem publish_accounts_for_every_peer:
  "case PublishRemote peers evs of
     None \<Rightarrow> peers > length evs \<and> Window_closes \<notin> set evs
   | Some None \<Rightarrow> peers > 0 \<and> take peers evs = replicate peers (Answered None)
   | Some (Some NoPeer) \<Rightarrow> peers = 0
   | Some (Some (Incomplete n failed unconfirmed errs)) \<Rightarrow>
       n = peers \<and> errs = failures (in_window peers evs) \<and> failed = length errs \<and>
       unconfirmed = peers - length (in_window peers evs) \<and> 0 < failed + unconfirmed \<and> failed + unconfirmed \<le> peers"
proof (cases "peers = 0")
  case False
  let ?w = "in_window peers evs"
  have le: "length ?w \<le> peers" by (simp add: in_window_def) (metis length_take length_takeWhile_le min.bounded_iff)
  show ?thesis
  proof (cases "length ?w < peers \<and> ?w = evs")
    case True
    then have "Window_closes \<notin> set evs" by (metis (mono_tags, lifting) in_window_def set_takeWhileD)
    moreover have "PublishRemote peers evs = None" "length evs < peers" using True False by (auto simp: PublishRemote_def collect_spec)
    ultimately show ?thesis by simp
  next
    case nt: False
    show ?thesis
    proof (cases "failures ?w = [] \<and> length ?w = peers")
      case True
      then have l: "length ?w = peers" by simp
      have w: "?w = take peers evs"
      proof -
        have "length (take peers evs) \<le> length ?w" using l by simp
        then show ?thesis unfolding in_window_def by (metis takeWhile_eq_take take_all)
      qed
      have "Window_closes \<notin> set ?w" by (auto simp: in_window_def dest: set_takeWhileD)
      then have "\<forall>e \<in> set ?w. e = Answered None" using failures_none True by blast
      then have "?w = replicate peers (Answered None)" using l by (metis replicate_eqI)
      with w True False nt show ?thesis by (simp add: PublishRemote_def collect_spec)
    next
      case nf: False
      have "length (failures ?w) + (peers - length ?w) \<le> peers" using failures_le [of ?w] le by simp
      moreover have "0 < length (failures ?w) + (peers - length ?w)"
        using nf le by (cases "failures ?w") auto
      moreover have "PublishRemote peers evs = Some (Some (Incomplete peers (length (failures ?w)) (peers - length ?w) (failures ?w)))"
        using False nt nf by (auto simp: PublishRemote_def collect_spec)
      ultimately show ?thesis by simp
    qed
  qed
qed (simp add: PublishRemote_def)

section \<open>Peers\<close>

text \<open>Whether a connection has been registered since it last ended or everything was closed.\<close>

definition attached :: "nat \<Rightarrow> qevent list \<Rightarrow> bool" where
  "attached c evs = fold (\<lambda>e b. case e of Registers d \<Rightarrow> b \<or> d = c | Ends d \<Rightarrow> b \<and> d \<noteq> c | Closes \<Rightarrow> False | Accepts _ \<Rightarrow> b) evs False"

lemma attached_snoc [simp]:
  "attached c [] = False"
  "attached c (evs @ [e]) = (case e of Registers d \<Rightarrow> attached c evs \<or> d = c | Ends d \<Rightarrow> attached c evs \<and> d \<noteq> c
     | Closes \<Rightarrow> False | Accepts _ \<Rightarrow> attached c evs)"
  by (simp add: attached_def) (cases e; simp add: attached_def)

lemma qstep_peers:
  "qstep s e t \<Longrightarrow> q_peers t = (case e of Registers d \<Rightarrow> insert d (q_peers s) | Ends d \<Rightarrow> q_peers s - {d}
     | Closes \<Rightarrow> {} | Accepts _ \<Rightarrow> q_peers s)"
  by (elim qstepE) (simp_all add: Close_quic_def)

lemma qsteps_peers: "qsteps s evs t \<Longrightarrow> q_peers s = {} \<Longrightarrow> c \<in> q_peers t \<longleftrightarrow> attached c evs"
proof (induction rule: qsteps.induct)
  case (more s evs t e u)
  then show ?case using qstep_peers [OF more.hyps(2)] by (cases e) auto
qed simp

text \<open>A connection is never registered twice, and an ended one never again.\<close>

definition quic_ok :: "quic \<Rightarrow> bool" where
  "quic_ok s \<longleftrightarrow> q_starting s \<inter> (q_peers s \<union> q_ended s \<union> q_shut s) = {} \<and> q_peers s \<inter> (q_ended s \<union> q_shut s) = {} \<and> finite (q_peers s)"

lemma quic_ok_step: "quic_ok s \<Longrightarrow> qstep s e t \<Longrightarrow> quic_ok t"
  by (elim qstepE) (auto simp: quic_ok_def Close_quic_def)

lemma quic_ok_steps: "qsteps s evs t \<Longrightarrow> quic_ok s \<Longrightarrow> quic_ok t"
  by (induction rule: qsteps.induct) (auto intro: quic_ok_step)

text \<open>In every interleaving of a server's accept loop, its connections and its closing, a publish is
  addressed to exactly the connections registered since they last ended or the server was closed;
  none of them has ended or has been shut, so no peer is counted that is known to be dead.\<close>

theorem peers_are_the_attached:
  assumes "qsteps server0 evs s"
  shows "q_peers s = {c. attached c evs} \<and> q_peers s \<inter> (q_ended s \<union> q_shut s) = {} \<and> finite (q_peers s)"
proof -
  have "quic_ok s" using quic_ok_steps [OF assms] by (simp add: quic_ok_def server0_def)
  moreover have "c \<in> q_peers s \<longleftrightarrow> attached c evs" for c using qsteps_peers [OF assms] by (simp add: server0_def)
  ultimately show ?thesis by (auto simp: quic_ok_def)
qed

text \<open>A connection accepted before the server is closed and registered after it is left open.\<close>

lemma late_registration_run:
  "qsteps server0 [Accepts 1, Closes, Registers 1] \<lparr>q_listener = False, q_peers = {1}, q_starting = {}, q_ended = {}, q_shut = {}\<rparr>"
proof -
  have a: "qsteps server0 ([] @ [Accepts 1]) (server0 \<lparr>q_starting := insert 1 (q_starting server0)\<rparr>)"
    by (rule qsteps.more [OF qsteps.none accepts]) (simp_all add: server0_def)
  have b: "qsteps server0 (([] @ [Accepts 1]) @ [Closes]) (Close_quic (server0 \<lparr>q_starting := insert 1 (q_starting server0)\<rparr>))"
    by (rule qsteps.more [OF a closes])
  have "qsteps server0 ((([] @ [Accepts 1]) @ [Closes]) @ [Registers 1])
      ((Close_quic (server0 \<lparr>q_starting := insert 1 (q_starting server0)\<rparr>))
        \<lparr>q_peers := insert 1 (q_peers (Close_quic (server0 \<lparr>q_starting := insert 1 (q_starting server0)\<rparr>))),
         q_starting := q_starting (Close_quic (server0 \<lparr>q_starting := insert 1 (q_starting server0)\<rparr>)) - {1}\<rparr>)"
    by (rule qsteps.more [OF b registers]) (simp add: Close_quic_def server0_def)
  then show ?thesis by (simp add: Close_quic_def server0_def)
qed

theorem peers_are_the_attached_witness:
  "q_peers \<lparr>q_listener = False, q_peers = {1}, q_starting = {}, q_ended = {}, q_shut = {}\<rparr> =
     {c. attached c [Accepts 1, Closes, Registers 1]}"
  using peers_are_the_attached [OF late_registration_run] by simp

lemma accept_delay_bounds: "0 \<le> d \<Longrightarrow> d \<le> 1000000000 \<Longrightarrow> x \<in> set (accept_delay d as) \<Longrightarrow> 0 < x \<and> x \<le> 1000000000"
  by (induction d "as" arbitrary: x rule: accept_delay.induct) (auto simp: Let_def split: if_splits)

end
