(* ===== verification/StatusView.thy ===== *)
theory StatusView
  imports Handlers GoConv
begin

text \<open>
  What \<^verbatim>\<open>gapictl agent status\<close> prints (\<^verbatim>\<open>pkg/cli/gapictl.go\<close>): the agents that match the
  patterns, as a list or as a tree of dependencies, and the figures the terminal view shows.
\<close>

section \<open>Model\<close>

definition toProtoState :: "AgentState \<Rightarrow> string" where
  "toProtoState s = (case s of
       AS_INITIALIZING \<Rightarrow> ''initializing'' | AS_INITIALIZED \<Rightarrow> ''initialized'' | AS_STARTING \<Rightarrow> ''starting''
     | AS_RUNNING \<Rightarrow> ''running'' | AS_STOPPING \<Rightarrow> ''stopping'' | AS_STOPPED \<Rightarrow> ''stopped'' | AS_FAILED \<Rightarrow> ''failed''
     | AS_RELOADING \<Rightarrow> ''reloading'' | _ \<Rightarrow> ''unknown'')"

definition matching_agents :: "string list \<Rightarrow> agent_status list \<Rightarrow> agent_status list" where
  "matching_agents args agents =
     (if args = [] then agents else filter (\<lambda>a. list_ex (\<lambda>pat. sublist pat (as_id a)) args) agents)"

definition flat_line :: "agent_status \<Rightarrow> string" where
  "flat_line a =
     '' - '' @ as_id a @ '' ('' @ as_type a @ '') ['' @ toProtoState (as_state a) @ '']'' @
     (if as_deps a \<noteq> [] then '' (deps: '' @ Join (as_deps a) '', '' @ '')'' else []) @
     (if as_caps a \<noteq> [] then '' [caps: '' @ Join (as_caps a) '', '' @ '']'' else [])"

subsection \<open>The tree\<close>

definition byId :: "agent_status list \<Rightarrow> string \<Rightarrow> agent_status option" where
  "byId agents = map_of (rev (map (\<lambda>a. (as_id a, a)) agents))"

definition inDegree :: "agent_status list \<Rightarrow> string \<Rightarrow> nat" where
  "inDegree agents i = sum_list (map (\<lambda>a. length (filter (\<lambda>d. d = i) (as_deps a))) agents)"

definition tree_roots :: "agent_status list \<Rightarrow> agent_status list" where
  "tree_roots agents =
     (let roots = filter (\<lambda>a. inDegree agents (as_id a) = 0) agents in
      if roots = [] \<and> agents \<noteq> [] then agents else roots)"

definition marker :: "bool \<Rightarrow> string" where
  "marker isLast = (if isLast then ''`-- '' else ''|-- '')"

text \<open>The identifiers printed, each with its line; \<open>visited\<close> are the nodes on the way from the root.\<close>

definition tree_ids :: "agent_status list \<Rightarrow> string set" where
  "tree_ids agents = as_id ` set agents"

lemma byId_in: "byId agents i = Some a \<Longrightarrow> a \<in> set agents \<and> as_id a = i"
  by (auto simp: byId_def dest!: map_of_SomeD)

function (sequential) print_node :: "agent_status list \<Rightarrow> string \<Rightarrow> bool \<Rightarrow> string list \<Rightarrow> string \<Rightarrow> (string \<times> string) list"
  and print_deps :: "agent_status list \<Rightarrow> string \<Rightarrow> string list \<Rightarrow> string list \<Rightarrow> (string \<times> string) list" where
  "print_node agents pre isLast visited i =
     (case byId agents i of
        None \<Rightarrow> [(i, pre @ marker isLast @ i @ '' [missing]'')]
      | Some a \<Rightarrow>
        (i, pre @ marker isLast @ as_id a @ '' ('' @ as_type a @ '') ['' @ toProtoState (as_state a) @ '']'') #
        (if i \<in> set visited then []
         else print_deps agents (if isLast then pre @ ''    '' else pre @ ''|   '') (i # visited) (as_deps a)))"
| "print_deps agents pre visited [] = []"
| "print_deps agents pre visited (d # ds) = print_node agents pre (ds = []) visited d @ print_deps agents pre visited ds"
  by pat_completeness auto
termination
proof (relation "inv_image (less_than <*lex*> less_than <*lex*> less_than)
    (\<lambda>x. case x of Inl (agents, pre, isLast, visited, i) \<Rightarrow> (card (tree_ids agents - set visited), 0, 0)
      | Inr (agents, pre, visited, ds) \<Rightarrow> (card (tree_ids agents - set visited), Suc 0, length ds))")
  fix agents pre isLast visited i a
  assume a: "byId agents i = Some a" "i \<notin> set visited"
  from byId_in [OF a(1)] have "i \<in> tree_ids agents" by (auto simp: tree_ids_def)
  with a(2) have "card (tree_ids agents - set (i # visited)) < card (tree_ids agents - set visited)"
    by (intro psubset_card_mono) (auto simp: tree_ids_def)
  then show "(Inr (agents, if isLast then pre @ ''    '' else pre @ ''|   '', i # visited, as_deps a), Inl (agents, pre, isLast, visited, i))
      \<in> inv_image (less_than <*lex*> less_than <*lex*> less_than)
    (\<lambda>x. case x of Inl (agents, pre, isLast, visited, i) \<Rightarrow> (card (tree_ids agents - set visited), 0, 0)
      | Inr (agents, pre, visited, ds) \<Rightarrow> (card (tree_ids agents - set visited), Suc 0, length ds))"
    by simp
qed auto

declare print_node.simps [simp del]

definition printTree :: "agent_status list \<Rightarrow> (string \<times> string) list" where
  "printTree agents = concat (map (\<lambda>r. print_node agents [] True [] (as_id r)) (tree_roots agents))"

definition agent_status_command :: "bool \<Rightarrow> string list \<Rightarrow> agent_status list \<Rightarrow> string list" where
  "agent_status_command tree args agents =
     (if \<not> tree then map flat_line (matching_agents args agents) else map snd (printTree (matching_agents args agents)))"

subsection \<open>Sizes\<close>

text \<open>On unsigned integers of 64 bits.\<close>

function fb_loop :: "int \<Rightarrow> int \<Rightarrow> nat \<Rightarrow> int \<times> nat" where
  "fb_loop n d e = (if n \<ge> 1024 then fb_loop (n div 1024) (d * 1024 mod 2 ^ 64) (Suc e) else (d, e))"
  by pat_completeness auto

termination by (relation "measure (\<lambda>(n, d, e). nat n)") auto

declare fb_loop.simps [simp del]

text \<open>\<^verbatim>\<open>%.1f\<close> of a finite number that is not negative.\<close>

definition one_decimal :: "f64 \<Rightarrow> string" where
  "one_decimal v = (case f64_frac v of (n, d) \<Rightarrow> let t = div_even (10 * n, d) in Utoa (t div 10) @ ''.'' @ Utoa (t mod 10))"

text \<open>A panic, the index being out of range, is \<open>None\<close>.\<close>

definition formatBytes :: "int \<Rightarrow> string option" where
  "formatBytes bytes =
     (if bytes < 1024 then Some (Utoa bytes @ ''B'')
      else case fb_loop (bytes div 1024) 1024 0 of (d, e) \<Rightarrow>
        if e < 6 then Some (one_decimal (f64_div (f64_of_int bytes) (f64_of_int d)) @ [''KMGTPE'' ! e] @ ''B'') else None)"

section \<open>What the tree shows\<close>

text \<open>An agent and each identifier it depends on.\<close>

definition dep_rel :: "agent_status list \<Rightarrow> (string \<times> string) set" where
  "dep_rel agents = {(i, d). \<exists>a. byId agents i = Some a \<and> d \<in> set (as_deps a)}"

definition avoiding :: "(string \<times> string) set \<Rightarrow> string set \<Rightarrow> (string \<times> string) set" where
  "avoiding r v = {(i, d) \<in> r. i \<notin> v}"

text \<open>A path that may not leave certain nodes need not come back to its first node.\<close>

lemma first_step:
  assumes "(i, d) \<in> (avoiding r v)\<^sup>*" "d \<noteq> i"
  shows "\<exists>b. (i, b) \<in> r \<and> i \<notin> v \<and> (b, d) \<in> (avoiding r (insert i v))\<^sup>*"
  using assms
proof (induction rule: rtrancl_induct)
  case (step y z)
  show ?case
  proof (cases "y = i")
    case True
    with step.hyps(2) show ?thesis by (auto simp: avoiding_def)
  next
    case False
    with step.IH obtain b where b: "(i, b) \<in> r" "i \<notin> v" "(b, y) \<in> (avoiding r (insert i v))\<^sup>*" by blast
    from step.hyps(2) False have "(y, z) \<in> avoiding r (insert i v)" by (auto simp: avoiding_def)
    with b show ?thesis by (meson rtrancl.rtrancl_into_rtrancl)
  qed
qed simp

lemma reach_unfold:
  "{d. (i, d) \<in> (avoiding r v)\<^sup>*} =
     insert i (if i \<in> v then {} else (\<Union>b \<in> {b. (i, b) \<in> r}. {d. (b, d) \<in> (avoiding r (insert i v))\<^sup>*}))"
  (is "?L = ?R")
proof
  show "?L \<subseteq> ?R" using first_step [of i _ r v] by (auto split: if_splits)
  have mono: "(avoiding r (insert i v))\<^sup>* \<subseteq> (avoiding r v)\<^sup>*" by (rule rtrancl_mono) (auto simp: avoiding_def)
  show "?R \<subseteq> ?L"
  proof
    fix d assume "d \<in> ?R"
    then consider "d = i" | b where "i \<notin> v" "(i, b) \<in> r" "(b, d) \<in> (avoiding r (insert i v))\<^sup>*" by (auto split: if_splits)
    then show "d \<in> ?L"
    proof cases
      case 2
      then have "(i, b) \<in> avoiding r v" by (simp add: avoiding_def)
      with 2 mono show ?thesis by (auto intro: converse_rtrancl_into_rtrancl)
    qed simp
  qed
qed

lemma print_shows:
  "fst ` set (print_node agents pre isLast visited i) = {d. (i, d) \<in> (avoiding (dep_rel agents) (set visited))\<^sup>*}"
  "fst ` set (print_deps agents pre' visited' ds) = (\<Union>b \<in> set ds. {d. (b, d) \<in> (avoiding (dep_rel agents) (set visited'))\<^sup>*})"
proof (induction agents pre isLast visited i and agents pre' visited' ds rule: print_node_print_deps.induct)
  case (1 agents pre isLast visited i)
  show ?case
  proof (cases "byId agents i")
    case None
    then have "{b. (i, b) \<in> dep_rel agents} = {}" by (simp add: dep_rel_def)
    with None show ?thesis by (subst reach_unfold) (simp add: print_node.simps)
  next
    case (Some a)
    then have "{b. (i, b) \<in> dep_rel agents} = set (as_deps a)" by (simp add: dep_rel_def)
    with 1 Some show ?thesis by (subst reach_unfold) (simp add: print_node.simps)
  qed
qed (simp_all add: image_Un)

lemma avoiding_none [simp]: "avoiding r {} = r"
  by (auto simp: avoiding_def)

lemma tree_shows: "fst ` set (printTree agents) = (dep_rel agents)\<^sup>* `` (as_id ` set (tree_roots agents))"
proof -
  have "fst ` set (printTree agents) = (\<Union>r \<in> set (tree_roots agents). fst ` set (print_node agents [] True [] (as_id r)))"
    by (auto simp: printTree_def)
  then show ?thesis by (auto simp: print_shows)
qed

lemma byId_distinct: "distinct (map as_id agents) \<Longrightarrow> a \<in> set agents \<Longrightarrow> byId agents (as_id a) = Some a"
proof -
  assume d: "distinct (map as_id agents)" "a \<in> set agents"
  have "distinct (map fst (rev (map (\<lambda>a. (as_id a, a)) agents)))" using d(1) by (simp add: rev_map [symmetric] comp_def)
  moreover have "(as_id a, a) \<in> set (rev (map (\<lambda>a. (as_id a, a)) agents))" using d(2) by simp
  ultimately show ?thesis unfolding byId_def by (rule map_of_is_SomeI)
qed

lemma inDegree_0: "inDegree agents i = 0 \<longleftrightarrow> (\<forall>a \<in> set agents. i \<notin> set (as_deps a))"
  by (auto simp: inDegree_def filter_empty_conv)

lemma finite_dep_rel: "finite (dep_rel agents)"
proof -
  have "dep_rel agents \<subseteq> (\<Union>a \<in> set agents. {as_id a} \<times> set (as_deps a))"
    using byId_in by (fastforce simp: dep_rel_def)
  then show ?thesis by (rule finite_subset) simp
qed

lemma from_a_root:
  assumes "acyclic (dep_rel agents)" "distinct (map as_id agents)" "a \<in> set agents"
  shows "\<exists>r \<in> set agents. inDegree agents (as_id r) = 0 \<and> (as_id r, as_id a) \<in> (dep_rel agents)\<^sup>*"
proof -
  have "wf (dep_rel agents)" by (rule finite_acyclic_wf [OF finite_dep_rel assms(1)])
  then show ?thesis using assms(3)
  proof (induction "as_id a" arbitrary: a rule: wf_induct_rule)
    case less
    show ?case
    proof (cases "inDegree agents (as_id a) = 0")
      case False
      then obtain p where p: "p \<in> set agents" "as_id a \<in> set (as_deps p)" by (auto simp: inDegree_0)
      with byId_distinct [OF assms(2)] have e: "(as_id p, as_id a) \<in> dep_rel agents" by (auto simp: dep_rel_def)
      from less.hyps [OF e p(1)] e show ?thesis by (meson rtrancl.rtrancl_into_rtrancl)
    qed (use less.prems in blast)
  qed
qed

text \<open>The tree shows exactly what can be reached from its roots, and printing it ends even on cyclic
  dependencies. When the dependencies have no cycle every agent is shown; agents on a cycle may
  not be, as the roots are the agents nothing depends on, if there are any.\<close>

theorem tree_shows_every_agent:
  assumes "acyclic (dep_rel agents)" "distinct (map as_id agents)"
  shows "as_id ` set agents \<subseteq> fst ` set (printTree agents) \<and>
    fst ` set (printTree agents) = (dep_rel agents)\<^sup>* `` (as_id ` set (tree_roots agents))"
proof
  show "as_id ` set agents \<subseteq> fst ` set (printTree agents)"
  proof
    fix i assume "i \<in> as_id ` set agents"
    then obtain a where a: "a \<in> set agents" "as_id a = i" by blast
    from from_a_root [OF assms a(1)] obtain r where r: "r \<in> set agents" "inDegree agents (as_id r) = 0"
      "(as_id r, i) \<in> (dep_rel agents)\<^sup>*" using a(2) by blast
    then have "r \<in> set (tree_roots agents)" by (auto simp: tree_roots_def Let_def filter_empty_conv)
    with r(3) show "i \<in> fst ` set (printTree agents)" by (auto simp: tree_shows)
  qed
qed (rule tree_shows)

definition demo_status :: "string \<Rightarrow> string list \<Rightarrow> agent_status" where
  "demo_status i deps = \<lparr>as_id = i, as_type = ''service'', as_state = AS_RUNNING, as_deps = deps, as_caps = [], as_memory = 0, as_uptime = 0\<rparr>"

text \<open>Two agents that need each other are not shown beside one that needs nothing.\<close>

lemma cycle_hidden:
  "map snd (printTree [demo_status ''a'' [], demo_status ''b'' [''c''], demo_status ''c'' [''b'']]) = [''`-- a (service) [running]'']"
  by (simp add: printTree_def tree_roots_def inDegree_def demo_status_def byId_def marker_def toProtoState_def print_node.simps)

theorem tree_shows_every_agent_witness:
  "{''a'', ''b'', ''c''} \<subseteq> fst ` set (printTree [demo_status ''a'' [''b'', ''c''], demo_status ''b'' [''c''], demo_status ''c'' []])"
proof -
  let ?as = "[demo_status ''a'' [''b'', ''c''], demo_status ''b'' [''c''], demo_status ''c'' []]"
  have "(dep_rel ?as)\<inverse> \<subseteq> measure (\<lambda>i. if i = ''a'' then 2 else if i = ''b'' then 1 else (0::nat))"
    by (auto simp: dep_rel_def byId_def demo_status_def split: if_splits)
  then have "wf ((dep_rel ?as)\<inverse>)" by (rule wf_subset [OF wf_measure])
  then have "acyclic (dep_rel ?as)" using wf_acyclic acyclic_converse by blast
  moreover have "distinct (map as_id ?as)" "as_id ` set ?as = {''a'', ''b'', ''c''}" by (simp_all add: demo_status_def)
  ultimately show ?thesis using tree_shows_every_agent [of ?as] by metis
qed

section \<open>Sizes\<close>

lemma fb_loop_spec:
  assumes "0 \<le> n" "n < 2 ^ (64 - 10 * (e + 1))" "d = 1024 ^ (e + 1)" "e \<le> 5" "d * n \<le> bytes" "bytes < d * (n + 1)" "1 \<le> n"
  shows "case fb_loop n d e of (d', e') \<Rightarrow> e' \<le> 5 \<and> d' = 1024 ^ (e' + 1) \<and> d' \<le> bytes \<and> bytes < 1024 * d'"
  using assms
proof (induction n d e rule: fb_loop.induct)
  case (1 n d e)
  show ?case
  proof (cases "n \<ge> 1024")
    case False
    have "0 < d" using "1.prems"(3) by simp
    have "d * 1 \<le> d * n" "d * (n + 1) \<le> d * 1024"
      by (rule mult_left_mono; use False "1.prems"(7) \<open>0 < d\<close> in simp)+
    with "1.prems"(5, 6) have "d \<le> bytes" "bytes < 1024 * d" by linarith+
    moreover have "fb_loop n d e = (d, e)" using False by (subst fb_loop.simps) simp
    ultimately show ?thesis using "1.prems"(3, 4) by simp
  next
    case True
    have e: "e < 5"
    proof (rule ccontr)
      assume "\<not> e < 5"
      with "1.prems"(4) have "e = 5" by simp
      with "1.prems"(2) True show False by simp
    qed
    have dd: "d * 1024 mod 2 ^ 64 = 1024 ^ (Suc e + 1)"
    proof -
      have "(1024::int) ^ (Suc e + 1) \<le> 1024 ^ 6" using e by (intro power_increasing) auto
      then have "(1024::int) ^ (Suc e + 1) < 2 ^ 64" by simp
      with "1.prems"(3) show ?thesis by (simp add: mult.commute)
    qed
    have n: "n div 1024 < 2 ^ (64 - 10 * (Suc e + 1))"
    proof -
      have "(2::int) ^ (64 - 10 * (e + 1)) = 2 ^ (64 - 10 * (Suc e + 1)) * 1024"
      proof -
        have "64 - 10 * (e + 1) = 64 - 10 * (Suc e + 1) + 10" using e by simp
        then show ?thesis by (simp only: power_add) simp
      qed
      with "1.prems"(2) show ?thesis by (simp add: div_less_iff_less_mult)
    qed
    have b: "(d * 1024) * (n div 1024) \<le> bytes" "bytes < (d * 1024) * (n div 1024 + 1)"
    proof -
      have "1024 * (n div 1024) \<le> n" "n + 1 \<le> 1024 * (n div 1024 + 1)" by presburger+
      moreover have "0 < d" using "1.prems"(3) by simp
      ultimately have "d * (1024 * (n div 1024)) \<le> d * n" "d * (n + 1) \<le> d * (1024 * (n div 1024 + 1))" by simp_all
      with "1.prems"(5, 6) show "(d * 1024) * (n div 1024) \<le> bytes" "bytes < (d * 1024) * (n div 1024 + 1)"
        by (simp_all add: mult.assoc)
    qed
    have d1: "d * 1024 = 1024 ^ (Suc e + 1)" using "1.prems"(3) by simp
    have "case fb_loop (n div 1024) (d * 1024 mod 2 ^ 64) (Suc e) of (d', e') \<Rightarrow> e' \<le> 5 \<and> d' = 1024 ^ (e' + 1) \<and> d' \<le> bytes \<and> bytes < 1024 * d'"
      by (rule "1.IH" [OF True _ n dd]) (use e b True dd d1 in auto)
    with True show ?thesis by (subst fb_loop.simps) simp
  qed
qed

text \<open>A size of at most 64 bits is shown in the largest unit that does not exceed it, and the table of
  units is never read past its end.\<close>

theorem formatBytes_unit:
  assumes "1024 \<le> bytes" "bytes < 2 ^ 64"
  shows "\<exists>e \<le> 5. 1024 ^ (e + 1) \<le> bytes \<and> bytes < 1024 ^ (e + 2) \<and>
    formatBytes bytes = Some (one_decimal (f64_div (f64_of_int bytes) (f64_of_int (1024 ^ (e + 1)))) @ [''KMGTPE'' ! e] @ ''B'')"
proof -
  obtain d e where r: "fb_loop (bytes div 1024) 1024 0 = (d, e)" by fastforce
  have "1024 * (bytes div 1024) \<le> bytes" "bytes < 1024 * (bytes div 1024 + 1)" by presburger+
  moreover have "1 \<le> bytes div 1024" using assms(1) by linarith
  moreover have "bytes div 1024 < 2 ^ (64 - 10 * (0 + 1))" using assms(2) by simp
  ultimately have "case fb_loop (bytes div 1024) 1024 0 of (d', e') \<Rightarrow> e' \<le> 5 \<and> d' = 1024 ^ (e' + 1) \<and> d' \<le> bytes \<and> bytes < 1024 * d'"
    by (intro fb_loop_spec) simp_all
  with r have "e \<le> 5" "d = 1024 ^ (e + 1)" "d \<le> bytes" "bytes < 1024 ^ (e + 2)" by simp_all
  with r assms(1) show ?thesis by (intro exI [of _ e]) (simp add: formatBytes_def)
qed

theorem formatBytes_unit_witness: "formatBytes 1572864 = Some ''1.5MB''"
proof -
  from formatBytes_unit [of 1572864] obtain e where e: "e \<le> 5" "1024 ^ (e + 1) \<le> (1572864::int)" "1572864 < (1024::int) ^ (e + 2)"
    "formatBytes 1572864 = Some (one_decimal (f64_div (f64_of_int 1572864) (f64_of_int (1024 ^ (e + 1)))) @ [''KMGTPE'' ! e] @ ''B'')"
    by auto
  have "e = 1"
  proof -
    consider "e = 0" | "e = 1" | "e = 2" | "e = 3" | "e = 4" | "e = 5" using e(1) by fastforce
    then show ?thesis by cases (use e(2, 3) in auto)
  qed
  moreover have "one_decimal (f64_div (f64_of_int 1572864) (f64_of_int 1048576)) = ''1.5''" by code_simp
  ultimately show ?thesis using e(4) by simp
qed

end
