(* ===== verification/Tui.thy ===== *)
theory Tui
  imports StatusView EventBus
begin

text \<open>
  The terminal view, \<^verbatim>\<open>core/tui\<close>, and what feeds it in \<^verbatim>\<open>pkg/cli/gapictl.go\<close>: the model and
  its reaction to each message, the filter, the rows shown, and the command that sends a lifecycle
  action. Colours, borders and the layout are left out.
\<close>

section \<open>Model\<close>

subsection \<open>Agents and filters\<close>

record tui_agent =
  t_id :: string
  t_state :: string
  t_type :: string
  t_cpu :: string
  t_memory :: string
  t_uptime :: int

text \<open>The usage of the CPU in a status is always 0, so the column holds a dash. \<open>None\<close> is a panic.\<close>

definition fetch_row :: "agent_status \<Rightarrow> tui_agent option" where
  "fetch_row a =
     (case (if as_memory a > 0 then formatBytes (as_memory a) else Some ''-'') of
        None \<Rightarrow> None
      | Some mem \<Rightarrow> Some \<lparr>t_id = as_id a, t_state = toProtoState (as_state a), t_type = as_type a, t_cpu = ''-'', t_memory = mem,
          t_uptime = (if as_uptime a > 0 then as_uptime a else 0)\<rparr>)"

datatype FilterMode = FilterNone | FilterByState | FilterByType | FilterByName

record tui_filter =
  f_mode :: FilterMode
  f_query :: string
  f_active :: bool
  f_input :: string

definition NewFilter :: tui_filter where
  "NewFilter = \<lparr>f_mode = FilterNone, f_query = [], f_active = False, f_input = []\<rparr>"

definition Activate :: "FilterMode \<Rightarrow> tui_filter \<Rightarrow> tui_filter" where
  "Activate mode f = f \<lparr>f_mode := mode, f_active := True, f_input := []\<rparr>"

definition Deactivate :: "tui_filter \<Rightarrow> tui_filter" where
  "Deactivate f =
     (let f1 = f \<lparr>f_active := False, f_input := []\<rparr> in
      if f_mode f1 = FilterByName then f1 \<lparr>f_mode := FilterNone, f_query := []\<rparr> else f1)"

definition SetQuery :: "string \<Rightarrow> tui_filter \<Rightarrow> tui_filter" where
  "SetQuery query f = f \<lparr>f_query := query\<rparr>"

text \<open>A key is the string the terminal library gives it.\<close>

definition Update_filter :: "string \<Rightarrow> tui_filter \<Rightarrow> tui_filter" where
  "Update_filter key f =
     (if \<not> f_active f then f
      else if key = ''enter'' then f \<lparr>f_query := f_input f, f_active := False\<rparr>
      else if key = ''esc'' then Deactivate f
      else if key = ''backspace'' then (if f_input f \<noteq> [] then f \<lparr>f_input := butlast (f_input f)\<rparr> else f)
      else if length key = 1 then f \<lparr>f_input := f_input f @ key\<rparr> else f)"

definition Matches :: "tui_filter \<Rightarrow> tui_agent \<Rightarrow> bool" where
  "Matches f a =
     (if f_mode f = FilterNone \<or> f_query f = [] then True
      else case f_mode f of
          FilterByState \<Rightarrow> EqualFold (t_state a) (f_query f)
        | FilterByType \<Rightarrow> EqualFold (t_type a) (f_query f)
        | FilterByName \<Rightarrow> sublist (ToLower (f_query f)) (ToLower (t_id a))
        | FilterNone \<Rightarrow> True)"

definition StatusLine :: "tui_filter \<Rightarrow> string" where
  "StatusLine f =
     (let modeStr = (case f_mode f of FilterByState \<Rightarrow> ''state'' | FilterByType \<Rightarrow> ''type'' | FilterByName \<Rightarrow> ''name'' | FilterNone \<Rightarrow> []) in
      if f_mode f = FilterNone then []
      else if f_active f then ''Filter ('' @ modeStr @ ''): '' @ f_input f @ ''_''
      else if f_query f \<noteq> [] then ''Filter: '' @ modeStr @ ''='' @ f_query f else [])"

subsection \<open>The model and its messages\<close>

datatype ViewMode = ViewOverview | ViewGlobal | ViewLogs | ViewDetail

record log_entry =
  le_source :: string
  le_level :: string
  le_message :: string

text \<open>\<open>m_cancel\<close>: a function to cancel the log subscription is held; \<open>m_live\<close> counts the log
  subscriptions not cancelled.\<close>

record model =
  m_view :: ViewMode
  m_tab :: nat
  m_agents :: "tui_agent list"
  m_selected :: nat
  m_logs_of :: string
  m_logs :: "log_entry list"
  m_filter :: tui_filter
  m_err :: "string option"
  m_quitting :: bool
  m_cancel :: bool
  m_live :: nat

definition NewModel :: model where
  "NewModel = \<lparr>m_view = ViewOverview, m_tab = 0, m_agents = [], m_selected = 0, m_logs_of = [], m_logs = [], m_filter = NewFilter,
     m_err = None, m_quitting = False, m_cancel = False, m_live = 0\<rparr>"

datatype tcmd = NoCmd | Quit | WaitForLog | FetchStatus | FetchAndTick | SendAction string string

text \<open>Opening the logs of an agent; \<open>err\<close> is what subscribing answers.\<close>

definition open_logs :: "string option \<Rightarrow> string \<Rightarrow> model \<Rightarrow> model \<times> tcmd" where
  "open_logs err i m =
     (let m1 = m \<lparr>m_logs_of := i, m_logs := [], m_cancel := True, m_live := Suc (m_live m)\<rparr> in
      case err of
        Some e \<Rightarrow> (m1 \<lparr>m_err := Some e, m_cancel := False, m_live := m_live m1 - 1\<rparr>, NoCmd)
      | None \<Rightarrow> (m1, WaitForLog))"

definition cancel_logs :: "model \<Rightarrow> model" where
  "cancel_logs m = (if m_cancel m then m \<lparr>m_cancel := False, m_live := m_live m - 1\<rparr> else m)"

definition next_tab :: "(string \<Rightarrow> string option) \<Rightarrow> model \<Rightarrow> model \<times> tcmd" where
  "next_tab sub m =
     (case m_view m of
        ViewOverview \<Rightarrow> (m \<lparr>m_view := ViewGlobal, m_tab := 1\<rparr>, NoCmd)
      | ViewGlobal \<Rightarrow> open_logs (sub ''cluster'') ''cluster'' (m \<lparr>m_view := ViewLogs, m_tab := 2\<rparr>)
      | ViewLogs \<Rightarrow> (cancel_logs (m \<lparr>m_view := ViewOverview, m_tab := 0\<rparr>), NoCmd)
      | ViewDetail \<Rightarrow> (m, NoCmd))"

definition cycle_state :: "tui_filter \<Rightarrow> tui_filter" where
  "cycle_state f =
     (if f_mode f = FilterByState \<and> f_query f = ''running'' then SetQuery ''stopped'' f
      else if f_mode f = FilterByState \<and> f_query f = ''stopped'' then SetQuery [] (f \<lparr>f_mode := FilterNone\<rparr>)
      else Deactivate (SetQuery ''running'' (Activate FilterByState f)))"

definition cycle_type :: "tui_filter \<Rightarrow> tui_filter" where
  "cycle_type f =
     (if f_mode f = FilterByType \<and> f_query f = ''service'' then SetQuery ''timer'' f
      else if f_mode f = FilterByType \<and> f_query f = ''timer'' then SetQuery ''socket'' f
      else if f_mode f = FilterByType \<and> f_query f = ''socket'' then SetQuery [] (f \<lparr>f_mode := FilterNone\<rparr>)
      else Deactivate (SetQuery ''service'' (Activate FilterByType f)))"

definition act_on_selected :: "string \<Rightarrow> model \<Rightarrow> model \<times> tcmd" where
  "act_on_selected action m =
     (if m_selected m < length (m_agents m) then (m, SendAction (t_id (m_agents m ! m_selected m)) action) else (m, NoCmd))"

definition handleListKeys :: "(string \<Rightarrow> string option) \<Rightarrow> string \<Rightarrow> model \<Rightarrow> model \<times> tcmd" where
  "handleListKeys sub key m =
     (if f_active (m_filter m) then (m \<lparr>m_filter := Update_filter key (m_filter m)\<rparr>, NoCmd)
      else if key = ''q'' \<or> key = ''ctrl+c'' then (m \<lparr>m_quitting := True\<rparr>, Quit)
      else if key = ''tab'' then next_tab sub m
      else if key = ''/'' then (m \<lparr>m_filter := Activate FilterByName (m_filter m)\<rparr>, NoCmd)
      else if key = ''f'' then (m \<lparr>m_filter := cycle_state (m_filter m)\<rparr>, NoCmd)
      else if key = ''t'' then (m \<lparr>m_filter := cycle_type (m_filter m)\<rparr>, NoCmd)
      else if key = ''esc'' then (m \<lparr>m_filter := SetQuery [] ((m_filter m) \<lparr>f_mode := FilterNone\<rparr>)\<rparr>, NoCmd)
      else if key = ''up'' \<or> key = ''k'' then ((if m_selected m > 0 then m \<lparr>m_selected := m_selected m - 1\<rparr> else m), NoCmd)
      else if key = ''down'' \<or> key = ''j'' then
        ((if int (m_selected m) < int (length (filter (Matches (m_filter m)) (m_agents m))) - 1
          then m \<lparr>m_selected := Suc (m_selected m)\<rparr> else m), NoCmd)
      else if key = ''enter'' then (m \<lparr>m_view := ViewDetail\<rparr>, NoCmd)
      else if key = ''l'' then
        (if m_selected m < length (m_agents m)
         then let i = t_id (m_agents m ! m_selected m) in open_logs (sub i) i (m \<lparr>m_view := ViewLogs\<rparr>)
         else (m \<lparr>m_view := ViewLogs\<rparr>, NoCmd))
      else if key = ''s'' then act_on_selected ''start'' m
      else if key = ''x'' then act_on_selected ''stop'' m
      else if key = ''r'' then act_on_selected ''reload'' m
      else (m, NoCmd))"

definition handleLogsKeys :: "string \<Rightarrow> model \<Rightarrow> model \<times> tcmd" where
  "handleLogsKeys key m =
     (if key = ''q'' \<or> key = ''ctrl+c'' then (m \<lparr>m_quitting := True\<rparr>, Quit)
      else if key = ''tab'' then (cancel_logs (m \<lparr>m_view := ViewOverview, m_tab := 0\<rparr>), NoCmd)
      else if key = ''esc'' then (cancel_logs (m \<lparr>m_view := ViewOverview\<rparr>), NoCmd)
      else (m, NoCmd))"

definition handleDetailKeys :: "string \<Rightarrow> model \<Rightarrow> model \<times> tcmd" where
  "handleDetailKeys key m =
     (if key = ''q'' \<or> key = ''ctrl+c'' then (m \<lparr>m_quitting := True\<rparr>, Quit)
      else if key = ''esc'' then (m \<lparr>m_view := ViewOverview\<rparr>, NoCmd)
      else (m, NoCmd))"

definition handleKeyPress :: "(string \<Rightarrow> string option) \<Rightarrow> string \<Rightarrow> model \<Rightarrow> model \<times> tcmd" where
  "handleKeyPress sub key m =
     (case m_view m of
        ViewOverview \<Rightarrow> handleListKeys sub key m
      | ViewGlobal \<Rightarrow> handleListKeys sub key m
      | ViewLogs \<Rightarrow> handleLogsKeys key m
      | ViewDetail \<Rightarrow> handleDetailKeys key m)"

definition log_line_entry :: "string \<Rightarrow> log_entry" where
  "log_line_entry line =
     (if HasPrefix line ''[CLUSTER]'' then \<lparr>le_source = ''cluster'', le_level = ''INFO'', le_message = TrimPrefix line ''[CLUSTER] ''\<rparr>
      else if HasPrefix line ''[AGENT]'' then \<lparr>le_source = ''agent'', le_level = ''INFO'', le_message = TrimPrefix line ''[AGENT] ''\<rparr>
      else if HasPrefix line ''[ERROR]'' then \<lparr>le_source = ''cluster'', le_level = ''ERROR'', le_message = TrimPrefix line ''[ERROR] ''\<rparr>
      else \<lparr>le_source = ''cluster'', le_level = ''INFO'', le_message = line\<rparr>)"

text \<open>\<open>Fetch_failed\<close> is the message of type \<^verbatim>\<open>errMsg\<close>.\<close>

datatype tmsg = Key string | WindowSize | StatusArrived "tui_agent list" | Ticked | ActionDone bool "string option" | LogLine string | Fetch_failed string

definition Update :: "(string \<Rightarrow> string option) \<Rightarrow> tmsg \<Rightarrow> model \<Rightarrow> model \<times> tcmd" where
  "Update sub msg m =
     (case msg of
        Key key \<Rightarrow> handleKeyPress sub key m
      | WindowSize \<Rightarrow> (m, NoCmd)
      | StatusArrived agents \<Rightarrow> (m \<lparr>m_agents := agents\<rparr>, NoCmd)
      | Ticked \<Rightarrow> (m, FetchAndTick)
      | ActionDone success err \<Rightarrow>
          if success then (m, FetchStatus)
          else (case err of Some e \<Rightarrow> (m \<lparr>m_err := Some e\<rparr>, NoCmd) | None \<Rightarrow> (m, NoCmd))
      | LogLine line \<Rightarrow> (m \<lparr>m_logs := m_logs m @ [log_line_entry line]\<rparr>, WaitForLog)
      | Fetch_failed e \<Rightarrow> (m, NoCmd))"

subsection \<open>What is shown\<close>

definition visible :: "model \<Rightarrow> tui_agent \<Rightarrow> bool" where
  "visible m a \<longleftrightarrow> \<not> (m_view m = ViewOverview \<and> t_type a = ''global-spec'') \<and>
     \<not> (m_view m = ViewGlobal \<and> t_type a \<noteq> ''global-spec'') \<and> Matches (m_filter m) a"

text \<open>The rows of the list, each with whether it is highlighted.\<close>

definition list_rows :: "model \<Rightarrow> (tui_agent \<times> bool) list" where
  "list_rows m = (let shown = filter (visible m) (m_agents m) in zip shown (map (\<lambda>k. k = m_selected m) [0..<length shown]))"

definition renderList_header :: "model \<Rightarrow> string" where
  "renderList_header m =
     (let running = length (filter (\<lambda>a. t_state a = ''RUNNING'' \<or> t_state a = ''running'') (m_agents m));
          filtered = length (filter (Matches (m_filter m)) (m_agents m)) in
      ''Runtime Monitor - Agents: '' @ Itoa (int running) @ '' running, '' @ Itoa (int (length (m_agents m) - running)) @ '' stopped'' @
      (if f_mode (m_filter m) \<noteq> FilterNone
       then '' ['' @ Itoa (int filtered) @ ''/'' @ Itoa (int (length (m_agents m))) @ '' filtered]'' else []))"

definition detail_agent :: "model \<Rightarrow> tui_agent option" where
  "detail_agent m = (if m_selected m \<ge> length (m_agents m) then None else Some (m_agents m ! m_selected m))"

subsection \<open>Sending an action\<close>

definition actionToEnum :: "string \<Rightarrow> int" where
  "actionToEnum action =
     (if action = ''start'' then 2 else if action = ''stop'' then 3 else if action = ''restart'' then 4
      else if action = ''reload'' then 5 else 0)"

text \<open>The payloads on the lifecycle topics: a transition of an agent, or another message, on which
  \<^verbatim>\<open>UnmarshalTo\<close> fails.\<close>

datatype lc_payload = TransitionOf string | ControlOf string int | Other_payload

text \<open>The subscription's handler on the events it is given, until the command has its answer.\<close>

fun action_outcome :: "string \<Rightarrow> lc_payload event list \<Rightarrow> bool option" where
  "action_outcome agent [] = None"
| "action_outcome agent (e # es) =
     (case e_payload e of
        TransitionOf i \<Rightarrow> if i = agent then Some True else action_outcome agent es
      | _ \<Rightarrow> Some False)"

text \<open>The request the command publishes, and the bus after subscribing and publishing, with the number of
  the subscription.\<close>

definition action_request :: "string \<Rightarrow> string \<Rightarrow> string \<Rightarrow> lc_payload event" where
  "action_request fresh agent action =
     NewEvent fresh ''system'' [] ''agent/lifecycle.action'' ''gapictl-tui'' (ControlOf agent (actionToEnum action)) []"

definition sendLifecycleAction :: "string \<Rightarrow> string \<Rightarrow> string \<Rightarrow> transport_error option \<Rightarrow> (bus_error, nat \<times> lc_payload bus) result" where
  "sendLifecycleAction fresh agent action sent =
     bind_res (SubscribePrefix ''system'' [] ''agent/lifecycle'' 1 NewEventBus) (\<lambda>(i, b).
       case Publish sent (action_request fresh agent action) b of (Some err, b') \<Rightarrow> Inl err | (None, b') \<Rightarrow> Inr (i, b'))"

text \<open>\<open>LocalController\<close>: the operations the view is given; \<open>run\<close> is the error of the request.\<close>

definition LocalController_Lifecycle :: "(int \<Rightarrow> string option) \<Rightarrow> string \<Rightarrow> bool \<times> string option" where
  "LocalController_Lifecycle run action =
     (if action = ''start'' then (case run 2 of Some e \<Rightarrow> (False, Some e) | None \<Rightarrow> (True, None))
      else if action = ''stop'' then (case run 3 of Some e \<Rightarrow> (False, Some e) | None \<Rightarrow> (True, None))
      else if action = ''reload'' then (False, Some ''reload single agent not supported yet'')
      else (False, Some (''unknown action: '' @ action)))"

section \<open>Log subscriptions\<close>

definition logs_ok :: "model \<Rightarrow> bool" where
  "logs_ok m \<longleftrightarrow> m_live m = (if m_cancel m then 1 else 0) \<and> (m_cancel m \<longrightarrow> m_view m = ViewLogs)"

lemma open_logs_ok: "m_live m = 0 \<Longrightarrow> m_view m = ViewLogs \<Longrightarrow> logs_ok (fst (open_logs err i m))"
  by (simp add: open_logs_def logs_ok_def Let_def split: option.splits)

lemma cancel_logs_ok: "m_live m = (if m_cancel m then 1 else 0) \<Longrightarrow> logs_ok (cancel_logs m)"
  by (simp add: cancel_logs_def logs_ok_def)

lemma list_keys_ok:
  assumes "logs_ok m" "m_view m = ViewOverview \<or> m_view m = ViewGlobal"
  shows "logs_ok (fst (handleListKeys sub key m))"
proof -
  have z: "m_live m = 0" "\<not> m_cancel m" using assms by (auto simp: logs_ok_def)
  have "logs_ok (fst (next_tab sub m))"
    using assms(2) z by (auto simp: next_tab_def logs_ok_def [of "m \<lparr>m_view := v, m_tab := t\<rparr>" for v t] open_logs_ok)
  moreover have "logs_ok (fst (open_logs (sub i) i (m \<lparr>m_view := ViewLogs\<rparr>)))" for i using z by (simp add: open_logs_ok)
  moreover have "logs_ok (fst (act_on_selected a m))" for a using assms(1) by (simp add: act_on_selected_def)
  ultimately show ?thesis using z by (simp add: handleListKeys_def Let_def logs_ok_def)
qed

lemma Update_ok:
  assumes "logs_ok m"
  shows "logs_ok (fst (Update sub msg m))"
proof (cases msg)
  case (Key key)
  show ?thesis
  proof (cases "m_view m")
    case ViewLogs
    have "m_live m = (if m_cancel m then 1 else 0)" using assms by (simp add: logs_ok_def)
    then show ?thesis using Key ViewLogs assms
      by (simp add: Update_def handleKeyPress_def handleLogsKeys_def cancel_logs_ok) (simp add: logs_ok_def)
  next
    case ViewDetail
    with Key assms show ?thesis by (simp add: Update_def handleKeyPress_def handleDetailKeys_def logs_ok_def)
  qed (use Key assms list_keys_ok in \<open>simp_all add: Update_def handleKeyPress_def\<close>)
qed (use assms in \<open>simp_all add: Update_def logs_ok_def split: option.splits\<close>)

text \<open>However the view is used, and whether or not subscribing to logs works, at most one subscription is
  open at a time, it can always be cancelled, and only while logs are shown: leaving the logs by any
  key cancels it.\<close>

theorem log_subscription_never_leaks:
  "case fold (\<lambda>(sub, msg) m. fst (Update sub msg m)) msgs NewModel of m \<Rightarrow>
     m_live m \<le> 1 \<and> (m_live m = 1) = m_cancel m \<and> (m_live m = 0 \<or> m_view m = ViewLogs)"
proof -
  have "logs_ok (fold (\<lambda>(sub, msg) m. fst (Update sub msg m)) msgs m)" if "logs_ok m" for m
    using that by (induction msgs arbitrary: m) (auto simp: Update_ok)
  from this [of NewModel] show ?thesis by (auto simp: logs_ok_def NewModel_def)
qed

text \<open>The lines of the log view are never dropped.\<close>

lemma log_lines_grow: "length (m_logs (fst (Update sub (LogLine line) m))) = Suc (length (m_logs m))"
  by (simp add: Update_def)

text \<open>A failure to fetch the status changes nothing.\<close>

lemma fetch_failure_lost: "Update sub (Fetch_failed e) m = (m, NoCmd)"
  by (simp add: Update_def)

section \<open>The row and the agent\<close>

lemma filter_nth_later: "k < length (filter P xs) \<Longrightarrow> \<exists>i \<ge> k. i < length xs \<and> filter P xs ! k = xs ! i"
proof (induction xs arbitrary: k)
  case (Cons x xs)
  show ?case
  proof (cases "P x \<and> k = 0")
    case False
    obtain j where j: "j < length (filter P xs)" "filter P (x # xs) ! k = filter P xs ! j" "k \<le> Suc j"
      using Cons.prems False by (cases k) (auto split: if_splits)
    from Cons.IH [OF j(1)] obtain i where "i \<ge> j" "i < length xs" "filter P xs ! j = xs ! i" by blast
    with j show ?thesis by (intro exI [of _ "Suc i"]) simp
  qed auto
qed simp

lemma filter_nth_iff:
  assumes "distinct xs" "k < length (filter P xs)"
  shows "filter P xs ! k = xs ! k \<longleftrightarrow> (\<forall>x \<in> set (take (Suc k) xs). P x)"
  using assms
proof (induction xs arbitrary: k)
  case (Cons x xs)
  show ?case
  proof (cases "P x")
    case True
    with Cons show ?thesis by (cases k) auto
  next
    case False
    with Cons.prems have k: "k < length (filter P xs)" by simp
    from filter_nth_later [OF this] obtain i where i: "i \<ge> k" "i < length xs" "filter P xs ! k = xs ! i" by blast
    have "xs ! i \<noteq> (x # xs) ! k"
    proof (cases k)
      case 0
      with i Cons.prems(1) show ?thesis by auto
    next
      case (Suc j)
      with i Cons.prems(1) show ?thesis by (auto simp: nth_eq_iff_index_eq)
    qed
    with i False show ?thesis by auto
  qed
qed simp

text \<open>C40: A key that acts on an agent acts on the one whose row is highlighted exactly when no agent up to that
  place in the unfiltered list is hidden. With a filter on, or agents of the other tab before it,
  the action goes to another agent than the one shown as selected.\<close>

theorem action_hits_highlighted_iff:
  assumes "distinct (map t_id (m_agents m))" "(a, True) \<in> set (list_rows m)"
  shows "act_on_selected action m = (m, SendAction (t_id a) action) \<longleftrightarrow>
    (\<forall>b \<in> set (take (Suc (m_selected m)) (m_agents m)). visible m b)"
proof -
  let ?shown = "filter (visible m) (m_agents m)"
  have s: "m_selected m < length ?shown" "a = ?shown ! m_selected m"
    using assms(2) by (auto simp: list_rows_def Let_def set_zip)
  have l: "m_selected m < length (m_agents m)" using s(1) length_filter_le [of "visible m" "m_agents m"] by linarith
  have "distinct (m_agents m)" using assms(1) by (simp add: distinct_map)
  note f = filter_nth_iff [OF this s(1)]
  have "a \<in> set (m_agents m)" using s nth_mem [of "m_selected m" ?shown] by auto
  then have "t_id (m_agents m ! m_selected m) = t_id a \<longleftrightarrow> a = m_agents m ! m_selected m"
    using assms(1) l by (auto simp: distinct_map inj_on_def)
  with f s(2) l show ?thesis by (auto simp: act_on_selected_def)
qed

definition demo_row :: "string \<Rightarrow> string \<Rightarrow> tui_agent" where
  "demo_row i state = \<lparr>t_id = i, t_state = state, t_type = ''service'', t_cpu = ''-'', t_memory = ''-'', t_uptime = 0\<rparr>"

definition demo_model :: model where
  "demo_model = NewModel \<lparr>m_agents := [demo_row ''db'' ''stopped'', demo_row ''web'' ''running''],
     m_filter := cycle_state NewFilter\<rparr>"

theorem action_hits_highlighted_iff_witness:
  "list_rows demo_model = [(demo_row ''web'' ''running'', True)] \<and>
   act_on_selected ''stop'' demo_model \<noteq> (demo_model, SendAction ''web'' ''stop'') \<and>
   act_on_selected ''stop'' demo_model = (demo_model, SendAction ''db'' ''stop'')"
proof -
  have r: "list_rows demo_model = [(demo_row ''web'' ''running'', True)]" by code_simp
  have d: "distinct (map t_id (m_agents demo_model))" by code_simp
  have s: "take (Suc (m_selected demo_model)) (m_agents demo_model) = [demo_row ''db'' ''stopped'']"
    by (simp add: demo_model_def NewModel_def)
  have v: "\<not> visible demo_model (demo_row ''db'' ''stopped'')" "t_id (demo_row ''web'' ''running'') = ''web''" by code_simp+
  from action_hits_highlighted_iff [OF d, of "demo_row ''web'' ''running''" "''stop''"] r s v
  have "act_on_selected ''stop'' demo_model \<noteq> (demo_model, SendAction ''web'' ''stop'')" by simp
  moreover have "act_on_selected ''stop'' demo_model = (demo_model, SendAction ''db'' ''stop'')"
    by (simp add: act_on_selected_def demo_model_def NewModel_def demo_row_def)
  ultimately show ?thesis using r by simp
qed

section \<open>Sending an action\<close>

lemma send_head: "q d = x # r \<Longrightarrow> \<exists>r'. q (send e d) = x # r'"
  by (simp add: send_def)

lemma dispatch_head:
  assumes "q (dels b i) = x # r"
  shows "\<exists>r'. q (dels (dispatch e b) i) = x # r'"
proof -
  have "\<exists>r'. q (dels (fold (\<lambda>j b. upd_del j (send e) b) js b) i) = x # r'" for js
    using assms
  proof (induction js arbitrary: b r)
    case (Cons j js)
    have "\<exists>r'. q (dels (upd_del j (send e) b) i) = x # r'"
      using Cons.prems send_head [of "dels b i" x r e] by (cases "i = j") (auto simp: upd_del_def)
    with Cons.IH show ?case by auto
  qed simp
  then show ?thesis by (simp add: dispatch_def)
qed

lemma remote_head: "q (dels b i) = x # r \<Longrightarrow> \<exists>r'. q (dels (fold on_remote_event es b) i) = x # r'"
proof (induction es arbitrary: b r)
  case (Cons e es)
  have "\<exists>r'. q (dels (on_remote_event e b) i) = x # r'"
    using Cons.prems dispatch_head by (auto simp: on_remote_event_def split: sum.splits)
  with Cons.IH show ?case by auto
qed simp

lemma own_request_first:
  "\<exists>b. sendLifecycleAction fresh agent action sent = Inr (1, b) \<and> q (dels b 1) = [action_request fresh agent action]"
proof -
  let ?req = "action_request fresh agent action" let ?k = "match_key (fullKey ''system'' [] ''agent/lifecycle'')"
  obtain b :: "lc_payload bus" where b: "SubscribePrefix ''system'' [] ''agent/lifecycle'' 1 NewEventBus = Inr (1, b)"
    "subs b = []" "prefixSubs b = [(?k, [1])]" "dels b 1 = newDelivery 1 Plain"
    by (simp add: SubscribePrefix_def guarded_def validScopes_def NewEventBus_def add_prefix_def Let_def ids_at_def)
  have v: "ValidateEvent ?req = Inr ()"
  proof -
    have "TrimSpace ''agent/lifecycle.action'' \<noteq> []" by code_simp
    then show ?thesis by (simp add: ValidateEvent_def action_request_def NewEvent_def validScopes_def)
  qed
  have "HasPrefix (fullKey ''system'' [] ''agent/lifecycle.action'') (TrimPrefix ?k ''__MATCH:'')" by code_simp
  then have t: "targets ?req b = [1]"
    by (simp add: targets_def b ids_at_def action_request_def NewEvent_def)
  have "q (dels (dispatch ?req b) 1) = [?req]"
    by (simp add: dispatch_def t upd_del_def b send_def newDelivery_def deliveryQueueDepth_def del: One_nat_def)
  then show ?thesis by (simp add: sendLifecycleAction_def b(1) Publish_def publish_def v del: One_nat_def)
qed

text \<open>The lifecycle command of the terminal view subscribes to every lifecycle topic on its own bus and then
  publishes its request on one of them; so the first event its handler gets is its own request,
  which is not a transition, and whatever the daemon answers the command reports a failure. (Only a
  transition that another peer sends in the moment between the two could come first.)\<close>

theorem tui_action_always_reports_failure:
  "\<exists>b. sendLifecycleAction fresh agent action sent = Inr (1, b) \<and>
     (\<forall>answers. action_outcome agent (q (dels (fold on_remote_event answers b) 1)) = Some False)"
proof -
  obtain b where b: "sendLifecycleAction fresh agent action sent = Inr (1, b)" "q (dels b 1) = [action_request fresh agent action]"
    using own_request_first by blast
  have "action_outcome agent (q (dels (fold on_remote_event answers b) 1)) = Some False" for answers
    using remote_head [OF b(2), of answers] by (auto simp: action_request_def NewEvent_def)
  with b(1) show ?thesis by blast
qed

end
