(* ===== verification/Version.thy ===== *)
theory Version
  imports GoStrings
begin

text \<open>
  \<^verbatim>\<open>core/version\<close>: what a binary reports about itself. The values stamped by the linker and the
  build information of the Go runtime are arguments; the state is what the binary has declared.
\<close>

section \<open>Model\<close>

record stamps =
  GAPIVersion :: string
  GoADKVersion :: string
  PythonADKVersion :: string
  BuildTag :: string
  SchemaHash :: string
  CommitStamp :: string
  SourceDate :: string
  BuiltByStamp :: string

text \<open>A module: its path, its version and the version of what replaces it.\<close>

record module_info =
  mi_path :: string
  mi_version :: string
  mi_replace :: "string option"

record build_info =
  bi_main :: "string \<times> string"
  bi_deps :: "module_info option list"
  bi_settings :: "(string \<times> string) list"

record version_info =
  vi_name :: string
  vi_version :: string
  vi_commit :: string
  vi_date :: string
  vi_builtby :: string
  vi_go :: string
  vi_platform :: string

definition isConcreteVersion :: "string \<Rightarrow> bool" where
  "isConcreteVersion v \<longleftrightarrow> v \<noteq> [] \<and> v \<noteq> ''dev'' \<and> v \<noteq> ''(devel)''"

definition moduleContains :: "string \<Rightarrow> string \<Rightarrow> bool" where
  "moduleContains modulePath pkgPath \<longleftrightarrow>
     (if modulePath = [] then False else pkgPath = modulePath \<or> HasPrefix pkgPath (modulePath @ ''/''))"

text \<open>One candidate considered: the best path and its version so far.\<close>

definition consider_module :: "string \<Rightarrow> string \<times> string \<Rightarrow> string \<times> string \<Rightarrow> string \<times> string" where
  "consider_module self c best =
     (if \<not> moduleContains (fst c) self \<or> length (fst c) \<le> length (fst best) then best else c)"

definition dep_candidate :: "module_info \<Rightarrow> string \<times> string" where
  "dep_candidate d =
     (mi_path d, case mi_replace d of None \<Rightarrow> mi_version d | Some v \<Rightarrow> if isConcreteVersion v then v else mi_version d)"

definition candidates :: "build_info \<Rightarrow> (string \<times> string) list" where
  "candidates bi = bi_main bi # map dep_candidate (map the (filter (\<lambda>d. d \<noteq> None) (bi_deps bi)))"

definition gapiVersionFrom :: "string \<Rightarrow> build_info \<Rightarrow> string" where
  "gapiVersionFrom self bi =
     (let best = fold (consider_module self) (candidates bi) ([], []) in
      if isConcreteVersion (snd best) then TrimPrefix (snd best) ''v'' else [])"

definition KernelVersion :: "string \<Rightarrow> build_info option \<Rightarrow> stamps \<Rightarrow> string" where
  "KernelVersion self info s =
     (if isConcreteVersion (GAPIVersion s) then GAPIVersion s
      else case info of
          None \<Rightarrow> ''dev''
        | Some bi \<Rightarrow> let v = gapiVersionFrom self bi in if v \<noteq> [] then v else ''dev'')"

definition adkVersion :: "string \<Rightarrow> build_info option \<Rightarrow> stamps \<Rightarrow> string \<Rightarrow> string" where
  "adkVersion self info s stamped = (if isConcreteVersion stamped then stamped else KernelVersion self info s)"

definition vcsSetting :: "build_info option \<Rightarrow> string \<Rightarrow> string" where
  "vcsSetting info k =
     (case info of None \<Rightarrow> [] | Some bi \<Rightarrow> (case map_of (bi_settings bi) k of None \<Rightarrow> [] | Some v \<Rightarrow> v))"

definition isConcreteValue :: "string \<Rightarrow> bool" where
  "isConcreteValue v \<longleftrightarrow> (let t = TrimSpace v in t \<noteq> [] \<and> t \<noteq> ''dev'' \<and> t \<noteq> ''unknown'')"

definition resolve_stamp :: "build_info option \<Rightarrow> string \<Rightarrow> string \<Rightarrow> string" where
  "resolve_stamp info stamp key =
     (if isConcreteValue stamp then stamp else if vcsSetting info key \<noteq> [] then vcsSetting info key else ''unknown'')"

definition resolveCommit :: "build_info option \<Rightarrow> stamps \<Rightarrow> string" where
  "resolveCommit info s = resolve_stamp info (CommitStamp s) ''vcs.revision''"

definition resolveSourceDate :: "build_info option \<Rightarrow> stamps \<Rightarrow> string" where
  "resolveSourceDate info s = resolve_stamp info (SourceDate s) ''vcs.time''"

definition initial_info :: "build_info option \<Rightarrow> stamps \<Rightarrow> string \<Rightarrow> string \<Rightarrow> version_info" where
  "initial_info info s go platform =
     \<lparr>vi_name = [], vi_version = [], vi_commit = resolveCommit info s, vi_date = resolveSourceDate info s,
      vi_builtby = BuiltByStamp s, vi_go = go, vi_platform = platform\<rparr>"

definition BinaryVersion :: "stamps \<Rightarrow> version_info \<Rightarrow> string" where
  "BinaryVersion s a = (if vi_version a \<noteq> [] then vi_version a else GAPIVersion s)"

definition SetBinaryNameAndVersion :: "string \<Rightarrow> string \<Rightarrow> version_info \<Rightarrow> version_info" where
  "SetBinaryNameAndVersion n v a = a \<lparr>vi_name := n, vi_version := v\<rparr>"

definition or_keep :: "string \<Rightarrow> string \<Rightarrow> string" where
  "or_keep v old = (if v \<noteq> [] then v else old)"

definition SetBuildMetadata :: "version_info \<Rightarrow> version_info \<Rightarrow> version_info" where
  "SetBuildMetadata ov a =
     a \<lparr>vi_commit := or_keep (vi_commit ov) (vi_commit a), vi_date := or_keep (vi_date ov) (vi_date a),
        vi_builtby := or_keep (vi_builtby ov) (vi_builtby a), vi_go := or_keep (vi_go ov) (vi_go a),
        vi_platform := or_keep (vi_platform ov) (vi_platform a)\<rparr>"

definition truncate16 :: "string \<Rightarrow> string" where
  "truncate16 s = (if length s > 16 then take 16 s else s)"

definition summary_groups :: "string \<Rightarrow> build_info option \<Rightarrow> stamps \<Rightarrow> bool \<Rightarrow> version_info \<Rightarrow> (string \<times> string) list list" where
  "summary_groups self info s shipsKernel a =
     (let name = (if vi_name a \<noteq> [] then vi_name a else ''Runtime Core'');
          version = (if vi_version a = [] then KernelVersion self info s else vi_version a) in
      [[(name, version)],
       (if vi_name a \<noteq> [] \<and> \<not> shipsKernel then [(''Runtime Core'', KernelVersion self info s)] else []) @
         [(''Go ADK'', adkVersion self info s (GoADKVersion s)), (''Python ADK'', adkVersion self info s (PythonADKVersion s)),
          (''Protobuf Schema Hash'', truncate16 (SchemaHash s))],
       [(''Commit'', truncate16 (vi_commit a)), (''Build Tag'', BuildTag s), (''Source Date'', vi_date a), (''Built By'', vi_builtby a)],
       [(''Built With Go'', vi_go a), (''Platform'', vi_platform a)]])"

definition summary_width :: "(string \<times> string) list list \<Rightarrow> nat" where
  "summary_width gs = foldl max 0 (map (\<lambda>r. length (fst r) + 1) (concat gs))"

definition summary_row :: "nat \<Rightarrow> string \<times> string \<Rightarrow> string" where
  "summary_row width r =
     (let label = fst r @ '':'' in label @ replicate (width - length label) (CHR '' '') @ '' '' @ snd r @ [CHR 0x0A])"

definition Summary :: "string \<Rightarrow> build_info option \<Rightarrow> stamps \<Rightarrow> bool \<Rightarrow> version_info \<Rightarrow> string" where
  "Summary self info s shipsKernel a =
     (let gs = summary_groups self info s shipsKernel a in
      Join (map (\<lambda>g. concat (map (summary_row (summary_width gs)) g)) gs) [CHR 0x0A])"

section \<open>The module that holds the kernel\<close>

lemma moduleContains_prefix: "moduleContains p self \<Longrightarrow> p \<noteq> [] \<and> (\<exists>r. self = p @ r)"
  by (auto simp: moduleContains_def HasPrefix_iff split: if_splits)

text \<open>The best candidate is one of those that contain the package, the longest, and the first of them.\<close>

lemma consider_best:
  "fold (consider_module self) cs best = b \<Longrightarrow>
   (b = best \<and> (\<forall>c \<in> set cs. moduleContains (fst c) self \<longrightarrow> length (fst c) \<le> length (fst best))) \<or>
   (b \<in> set cs \<and> moduleContains (fst b) self \<and> length (fst best) < length (fst b) \<and>
    (\<forall>c \<in> set cs. moduleContains (fst c) self \<longrightarrow> length (fst c) \<le> length (fst b)))"
proof (induction cs arbitrary: best)
  case (Cons c cs)
  from Cons.prems have "fold (consider_module self) cs (consider_module self c best) = b" by simp
  from Cons.IH [OF this] show ?case
    by (cases "\<not> moduleContains (fst c) self \<or> length (fst c) \<le> length (fst best)") (fastforce simp: consider_module_def)+
qed simp

text \<open>The version is that of the innermost module that contains the kernel's package, whatever the order of
  the modules: with no such module, or if that module's own version says nothing, there is none, and
  an enclosing module is never asked instead.\<close>

theorem gapiVersionFrom_innermost:
  "(\<exists>c \<in> set (candidates bi). moduleContains (fst c) self \<and>
      (\<forall>d \<in> set (candidates bi). moduleContains (fst d) self \<longrightarrow> length (fst d) \<le> length (fst c)) \<and>
      gapiVersionFrom self bi = (if isConcreteVersion (snd c) then TrimPrefix (snd c) ''v'' else [])) \<or>
   ((\<forall>c \<in> set (candidates bi). \<not> moduleContains (fst c) self) \<and> gapiVersionFrom self bi = [])"
proof -
  obtain b where b: "fold (consider_module self) (candidates bi) ([], []) = b" by blast
  have g: "gapiVersionFrom self bi = (if isConcreteVersion (snd b) then TrimPrefix (snd b) ''v'' else [])"
    by (simp add: gapiVersionFrom_def b)
  from consider_best [OF b] show ?thesis
  proof
    assume "b = ([], []) \<and> (\<forall>c \<in> set (candidates bi). moduleContains (fst c) self \<longrightarrow> length (fst c) \<le> length (fst ([], [])))"
    then have "\<forall>c \<in> set (candidates bi). \<not> moduleContains (fst c) self" "b = ([], [])"
      using moduleContains_prefix by fastforce+
    then show ?thesis by (simp add: g isConcreteVersion_def)
  qed (use g in blast)
qed

section \<open>The summary\<close>

lemma foldl_max: "foldl max (n::nat) xs \<ge> n \<and> (\<forall>x \<in> set xs. x \<le> foldl max n xs)"
proof (induction xs arbitrary: n)
  case (Cons x xs)
  from Cons.IH [of "max n x"] show ?case by auto
qed simp

text \<open>Every value begins in the same column, one after the longest label.\<close>

lemma summary_aligned:
  assumes "r \<in> set (concat gs)"
  shows "\<exists>pad. summary_row (summary_width gs) r = pad @ snd r @ [CHR 0x0A] \<and> length pad = Suc (summary_width gs)"
proof -
  have "length (fst r) + 1 \<le> summary_width gs"
    using foldl_max [of 0 "map (\<lambda>r. length (fst r) + 1) (concat gs)"] assms by (auto simp: summary_width_def)
  then show ?thesis by (simp add: summary_row_def Let_def)
qed

text \<open>A root command that declares its version as \<open>BinaryVersion\<close> shows the stamp even when the stamp says
  nothing, and the build information is never asked.\<close>

definition declared :: "string \<Rightarrow> stamps \<Rightarrow> version_info \<Rightarrow> version_info" where
  "declared n s a = SetBinaryNameAndVersion n (BinaryVersion s a) a"

lemma declared_version_unresolved:
  "n \<noteq> [] \<Longrightarrow> vi_version a = [] \<Longrightarrow> GAPIVersion s \<noteq> [] \<Longrightarrow>
   hd (hd (summary_groups self info s True (declared n s a))) = (n, GAPIVersion s)"
  by (simp add: summary_groups_def declared_def SetBinaryNameAndVersion_def BinaryVersion_def Let_def)

end
