(* ===== verification/Signing.thy ===== *)
theory Signing
  imports Crypto
begin

text \<open>
  The signing and verifying commands (\<^verbatim>\<open>pkg/cli/security.go\<close>, \<^verbatim>\<open>pkg/cli/agent_verify.go\<close>),
  against the check the daemon makes. Reading a private key and the signature scheme are arguments;
  \<open>missing\<close> tells for which paths \<^verbatim>\<open>os.Stat\<close> answers that there is no such file.
\<close>

section \<open>Model\<close>

text \<open>\<^verbatim>\<open>os.WriteFile\<close>; a write that fails leaves everything as it was.\<close>

definition put_file :: "string \<Rightarrow> string \<Rightarrow> host_files \<Rightarrow> host_files" where
  "put_file path c h = (case ResolvePath (cwd h) path of Inl _ \<Rightarrow> h | Inr p \<Rightarrow> h \<lparr>file_content := (file_content h) (p \<mapsto> c)\<rparr>)"

datatype sign_error = KeyRequired | KeyNotLoaded string | FileNotHashed safeio_error | NotWritten string

definition signCmd :: "(string \<Rightarrow> (string, string) result) \<Rightarrow> (string \<Rightarrow> string \<Rightarrow> string) \<Rightarrow> (string \<Rightarrow> string) \<Rightarrow> (string \<Rightarrow> bool)
    \<Rightarrow> string \<Rightarrow> string \<Rightarrow> host_files \<Rightarrow> sign_error option \<times> host_files" where
  "signCmd load_private sign digest writable file_name keyPath h =
     (if keyPath = [] then (Some KeyRequired, h)
      else case load_private keyPath of
        Inl e \<Rightarrow> (Some (KeyNotLoaded e), h)
      | Inr priv \<Rightarrow> (case HashFile digest h file_name of
          Inl e \<Rightarrow> (Some (FileNotHashed e), h)
        | Inr hash \<Rightarrow>
          if \<not> writable (file_name @ ''.b3'') then (Some (NotWritten (file_name @ ''.b3'')), h)
          else
            let h1 = put_file (file_name @ ''.b3'') (hash @ [CHR 0x0A]) h in
            if \<not> writable (file_name @ ''.sig'') then (Some (NotWritten (file_name @ ''.sig'')), h1)
            else (None, put_file (file_name @ ''.sig'') (EncodeToString (sign priv hash)) h1)))"

text \<open>The scheme panics on a public key of another length.\<close>

datatype check = Check_no_key | Check_ok | Check_failed | Check_error verify_error | Check_panic

definition verifyCmd :: "(string \<Rightarrow> string \<Rightarrow> string \<Rightarrow> bool) \<Rightarrow> (string \<Rightarrow> string) \<Rightarrow> host_files \<Rightarrow> string \<Rightarrow> string \<Rightarrow> check" where
  "verifyCmd verify digest h file_name keyPath =
     (if keyPath = [] then Check_no_key
      else case LoadPublic h keyPath of
        Inl e \<Rightarrow> Check_error e
      | Inr pub \<Rightarrow> (case ReadFile (cwd h) (file_content h) (file_name @ ''.sig'') of
          Inl e \<Rightarrow> Check_error (NoSignature e)
        | Inr sigHex \<Rightarrow> (case DecodeString (TrimSpace sigHex) of
            None \<Rightarrow> Check_error BadSignatureHex
          | Some sig \<Rightarrow> (case HashFile digest h file_name of
              Inl e \<Rightarrow> Check_error (NoBinary e)
            | Inr hash \<Rightarrow>
              if int (length pub) \<noteq> PublicKeySize then Check_panic
              else if verify pub hash sig then Check_ok else Check_failed))))"

text \<open>A step of \<^verbatim>\<open>agent verify\<close> warns, passes or fails, or ends the command.\<close>

datatype av_step = Warned | Passed | Failed_step | Step_error verify_error | Step_panic

definition hash_step :: "(string \<Rightarrow> bool) \<Rightarrow> (string \<Rightarrow> string) \<Rightarrow> host_files \<Rightarrow> string \<Rightarrow> av_step" where
  "hash_step missing digest h bin =
     (if missing (bin @ ''.b3'') then Warned
      else case ReadFile (cwd h) (file_content h) (bin @ ''.b3'') of
        Inl e \<Rightarrow> Step_error (NoDigest e)
      | Inr hashData \<Rightarrow>
        let expected = TrimSpace hashData in
        (case HashFile digest h bin of
           Inl e \<Rightarrow> Step_error (NoBinary e)
         | Inr actual \<Rightarrow>
           if actual = expected then (if length actual < 16 then Step_panic else Passed)
           else if length expected < 16 \<or> length actual < 16 then Step_panic else Failed_step))"

definition signature_step :: "(string \<Rightarrow> bool) \<Rightarrow> (string \<Rightarrow> string \<Rightarrow> string \<Rightarrow> bool) \<Rightarrow> host_files \<Rightarrow> string \<Rightarrow> string \<Rightarrow> av_step" where
  "signature_step missing verify h bin pubkey =
     (if missing (bin @ ''.sig'') then Warned
      else if pubkey = [] then Warned
      else case ReadFile (cwd h) (file_content h) (bin @ ''.sig'') of
        Inl e \<Rightarrow> Step_error (NoSignature e)
      | Inr sigData \<Rightarrow> (case ReadFile (cwd h) (file_content h) (bin @ ''.b3'') of
          Inl e \<Rightarrow> Step_error (NoDigest e)
        | Inr hashData \<Rightarrow> (case LoadPublic h pubkey of
            Inl e \<Rightarrow> Step_error e
          | Inr pub \<Rightarrow> (case Sscanf_hex sigData of
              None \<Rightarrow> Step_error BadSignatureHex
            | Some sigBytes \<Rightarrow>
              if int (length pub) \<noteq> PublicKeySize then Step_panic
              else if verify pub (TrimSpace hashData) sigBytes then Passed else Failed_step))))"

text \<open>\<open>embedded\<close> is the source hash in what the binary describes, if there is one; \<open>current\<close> the
  hash of the source directory, if it was given and can be computed.\<close>

definition source_step :: "string option \<Rightarrow> string option \<Rightarrow> av_step" where
  "source_step embedded current =
     (case embedded of
        None \<Rightarrow> Warned
      | Some e \<Rightarrow>
        if e = [] then Warned
        else case current of
          None \<Rightarrow> Warned
        | Some c \<Rightarrow>
          if c = e then (if length c < 16 then Step_panic else Passed)
          else if length e < 16 \<or> length c < 16 then Step_panic else Failed_step)"

text \<open>The steps run in order, one that ends the command being the last.\<close>

datatype verdict = Verified | Not_verified | Ended verify_error | Panicked

fun conclude :: "av_step list \<Rightarrow> bool \<Rightarrow> verdict" where
  "conclude [] allPassed = (if allPassed then Verified else Not_verified)"
| "conclude (Step_error e # ss) allPassed = Ended e"
| "conclude (Step_panic # ss) allPassed = Panicked"
| "conclude (Failed_step # ss) allPassed = conclude ss False"
| "conclude (Warned # ss) allPassed = conclude ss allPassed"
| "conclude (Passed # ss) allPassed = conclude ss allPassed"

definition runAgentVerify :: "(string \<Rightarrow> bool) \<Rightarrow> (string \<Rightarrow> string \<Rightarrow> string \<Rightarrow> bool) \<Rightarrow> (string \<Rightarrow> string) \<Rightarrow> host_files \<Rightarrow> string
    \<Rightarrow> string \<Rightarrow> (string option \<times> string option) option \<Rightarrow> verdict" where
  "runAgentVerify missing verify digest h bin pubkey source_check =
     conclude ([hash_step missing digest h bin, signature_step missing verify h bin pubkey] @
       (case source_check of None \<Rightarrow> [] | Some (embedded, current) \<Rightarrow> [source_step embedded current])) True"

section \<open>Signing and verifying\<close>

definition plain_name :: "host_files \<Rightarrow> string \<Rightarrow> bool" where
  "plain_name h f \<longleftrightarrow> (\<forall>x \<in> {[], ''.b3'', ''.sig''}. ResolvePath (cwd h) (f @ x) = Inr (f @ x))"

lemma cwd_put [simp]: "cwd (put_file path c h) = cwd h"
  by (simp add: put_file_def split: sum.splits)

lemma read_put:
  assumes "plain_name h f" "x \<in> {[], ''.b3'', ''.sig''}" "y \<in> {[], ''.b3'', ''.sig''}"
  shows "ReadFile (cwd h) (file_content (put_file (f @ x) c h)) (f @ y) =
    (if x = y then Inr c else ReadFile (cwd h) (file_content h) (f @ y))"
proof -
  have "ResolvePath (cwd h) (f @ x) = Inr (f @ x)" "ResolvePath (cwd h) (f @ y) = Inr (f @ y)"
    using assms unfolding plain_name_def by blast+
  then show ?thesis by (simp add: ReadFile_def put_file_def)
qed

lemma plain_put [simp]: "plain_name (put_file path c h) f = plain_name h f"
  by (simp add: plain_name_def)

lemma length_Encode: "length (EncodeToString s) = 2 * length s"
  by (induction s) (simp_all add: EncodeToString_def hex_byte_def)

text \<open>What is on disk after signing and then writing other content into the file.\<close>

lemma signed_files:
  assumes "signCmd load_private sign digest writable f keyPath h = (None, h1)" "plain_name h f"
    and "ReadFile (cwd h) (file_content h) f = Inr original" "load_private keyPath = Inr priv"
  shows "ReadFile (cwd h) (file_content (put_file f c h1)) f = Inr c"
    "ReadFile (cwd h) (file_content (put_file f c h1)) (f @ ''.b3'') = Inr (EncodeToString (digest original) @ [CHR 0x0A])"
    "ReadFile (cwd h) (file_content (put_file f c h1)) (f @ ''.sig'') = Inr (EncodeToString (sign priv (EncodeToString (digest original))))"
    "cwd h1 = cwd h"
proof -
  let ?h2 = "put_file (f @ ''.b3'') (EncodeToString (digest original) @ [CHR 0x0A]) h"
  have h1: "h1 = put_file (f @ ''.sig'') (EncodeToString (sign priv (EncodeToString (digest original)))) ?h2"
    using assms(1, 3, 4) by (auto simp: signCmd_def HashFile_def Let_def split: if_splits)
  then show w: "cwd h1 = cwd h" by simp
  have p: "plain_name h1 f" "plain_name ?h2 f" using assms(2) h1 by simp_all
  note r = read_put [OF p(1), where x = "[]", unfolded w] read_put [OF p(2), where x = "''.sig''"] read_put [OF assms(2), where x = "''.b3''"]
  show "ReadFile (cwd h) (file_content (put_file f c h1)) f = Inr c" using r(1) [where y = "[]"] by simp
  show "ReadFile (cwd h) (file_content (put_file f c h1)) (f @ ''.b3'') = Inr (EncodeToString (digest original) @ [CHR 0x0A])"
    using r(1) [where y = "''.b3''"] r(2) [where y = "''.b3''"] r(3) [where y = "''.b3''"] h1 by simp
  show "ReadFile (cwd h) (file_content (put_file f c h1)) (f @ ''.sig'') = Inr (EncodeToString (sign priv (EncodeToString (digest original))))"
    using r(1) [where y = "''.sig''"] r(2) [where y = "''.sig''"] h1 by simp
qed

text \<open>C33: What \<^verbatim>\<open>crypto sign\<close> leaves beside a file is accepted by the daemon's check and by \<^verbatim>\<open>agent verify\<close>
  as long as the file keeps the digest it was signed with, and by \<^verbatim>\<open>crypto verify\<close> too; once the digest
  is another, the daemon reports the mismatch and \<^verbatim>\<open>agent verify\<close> that it is not verified.\<close>

theorem signed_file_accepted_everywhere:
  assumes scheme: "\<forall>m. verify pub m (sign priv m)" "\<forall>m. int (length (sign priv m)) = SignatureSize" "\<forall>m. length (digest m) = 32"
    and pub: "int (length pub) = PublicKeySize" "pubPath \<noteq> []" "LoadPublic (put_file f c h1) pubPath = Inr pub"
    and signed: "signCmd load_private sign digest writable f keyPath h = (None, h1)" "load_private keyPath = Inr priv"
    and names: "plain_name h f" "ReadFile (cwd h) (file_content h) f = Inr original" "\<not> missing (f @ ''.b3'')" "\<not> missing (f @ ''.sig'')"
  shows "VerifySignedBinary verify digest (put_file f c h1) f pub = (if digest c = digest original then Inr () else Inl DigestMismatch) \<and>
    runAgentVerify missing verify digest (put_file f c h1) f pubPath None = (if digest c = digest original then Verified else Not_verified) \<and>
    (digest c = digest original \<longrightarrow> verifyCmd verify digest (put_file f c h1) f pubPath = Check_ok)"
proof -
  let ?h = "put_file f c h1" let ?hash = "EncodeToString (digest original)" let ?sig = "sign priv ?hash"
  note s = signed_files [OF signed(1) names(1, 2) signed(2)]
  have w: "cwd ?h = cwd h" using s(4) by simp
  have "int (length ?sig) = SignatureSize" using scheme(2) by blast
  then have ne: "?sig \<noteq> []" by (auto simp: SignatureSize_def)
  have hf: "HashFile digest ?h f = Inr (EncodeToString (digest c))" by (simp add: HashFile_def s)
  have long: "length (EncodeToString (digest x)) = 64" for x using scheme(3) by (simp add: length_Encode)
  have t: "TrimSpace (EncodeToString x) = EncodeToString x" "TrimSpace (EncodeToString x @ [CHR 0x0A]) = EncodeToString x" for x
    using Trim_Encode [of "[]" x] Trim_Encode [of "[CHR 0x0A]" x] by simp_all
  have a: "VerifySignedBinary verify digest ?h f pub = (if digest c = digest original then Inr () else Inl DigestMismatch)"
    using scheme(1) pub(1) ne by (simp add: VerifySignedBinary_def w s hf t Sscanf_Encode Encode_inj)
  have b: "hash_step missing digest ?h f = (if digest c = digest original then Passed else Failed_step)"
    using names(3) by (simp add: hash_step_def w s hf t Encode_inj long Let_def)
  have d: "signature_step missing verify ?h f pubPath = Passed"
    using names(4) pub scheme(1) ne by (simp add: signature_step_def w s t Sscanf_Encode)
  have e: "digest c = digest original \<Longrightarrow> verifyCmd verify digest ?h f pubPath = Check_ok"
    using pub scheme(1) by (simp add: verifyCmd_def w s hf t Decode_Encode)
  from a b d e show ?thesis by (simp add: runAgentVerify_def)
qed

definition demo_disk :: host_files where
  "demo_disk = \<lparr>cwd = Some ''/'', file_content = (\<lambda>p. if p = ''/b'' then Some ''v1'' else if p = ''/k'' then Some (EncodeToString (replicate 32 (CHR 0x01))) else None)\<rparr>"

theorem signed_file_accepted_everywhere_witness:
  "case signCmd (\<lambda>_. Inr ''key'') (\<lambda>k m. replicate 64 (CHR 0x07)) (\<lambda>c. take 32 (c @ replicate 32 (CHR ''.''))) (\<lambda>_. True) ''/b'' ''key.pem'' demo_disk of
     (e, h1) \<Rightarrow> runAgentVerify (\<lambda>_. False) (\<lambda>k m s. s = replicate 64 (CHR 0x07)) (\<lambda>c. take 32 (c @ replicate 32 (CHR ''.'')))
       (put_file ''/b'' ''v2'' h1) ''/b'' ''/k'' None = Not_verified"
proof -
  let ?digest = "\<lambda>c. take 32 (c @ replicate 32 (CHR ''.''))"
  let ?sign = "\<lambda>k m. replicate 64 (CHR 0x07)" let ?verify = "\<lambda>k m s. s = replicate 64 (CHR 0x07)"
  obtain h1 where s: "signCmd (\<lambda>_. Inr ''key'') ?sign ?digest (\<lambda>_. True) ''/b'' ''key.pem'' demo_disk = (None, h1)"
    "h1 = put_file ''/b.sig'' (EncodeToString (replicate 64 (CHR 0x07))) (put_file ''/b.b3'' (EncodeToString (?digest ''v1'') @ [CHR 0x0A]) demo_disk)"
    by (simp add: signCmd_def HashFile_def ReadFile_def ResolvePath_def Abs_def Clean_def IsAbs_def HasPrefix_def comps_def
        clean_comps_def of_comps_def demo_disk_def Let_def)
  have n: "plain_name demo_disk ''/b''"
    by (simp add: plain_name_def ResolvePath_def Abs_def Clean_def IsAbs_def HasPrefix_def comps_def clean_comps_def of_comps_def)
  have r: "ReadFile (cwd demo_disk) (file_content demo_disk) ''/b'' = Inr ''v1''"
    by (simp add: ReadFile_def ResolvePath_def Abs_def Clean_def IsAbs_def HasPrefix_def comps_def clean_comps_def of_comps_def demo_disk_def)
  have k: "LoadPublic (put_file ''/b'' ''v2'' h1) ''/k'' = Inr (replicate 32 (CHR 0x01))"
    unfolding s(2) by (simp add: LoadPublic_def put_file_def ReadFile_def ResolvePath_def Abs_def Clean_def IsAbs_def HasPrefix_def comps_def
        clean_comps_def of_comps_def demo_disk_def Decode_Encode)
  have l: "\<forall>m. length (?digest m) = 32" by auto
  have ne: "?digest ''v2'' \<noteq> ?digest ''v1''" by (simp add: numeral_eq_Suc)
  from signed_file_accepted_everywhere [where verify = ?verify and sign = ?sign and digest = ?digest and pub = "replicate 32 (CHR 0x01)"
      and priv = "''key''" and c = "''v2''" and pubPath = "''/k''" and missing = "\<lambda>_. False", OF _ _ l _ _ k s(1) _ n r] ne s(1)
  show ?thesis by (simp add: SignatureSize_def PublicKeySize_def)
qed

text \<open>A binary that was never signed passes \<^verbatim>\<open>agent verify\<close>: what is not there only warns.\<close>

lemma unsigned_is_verified:
  "missing (bin @ ''.b3'') \<Longrightarrow> missing (bin @ ''.sig'') \<Longrightarrow> runAgentVerify missing verify digest h bin pubkey None = Verified"
  by (simp add: runAgentVerify_def hash_step_def signature_step_def)

text \<open>A digest file with less than 16 characters that does not match makes it panic.\<close>

lemma short_digest_panics:
  assumes "\<not> missing (bin @ ''.b3'')" "ReadFile (cwd h) (file_content h) (bin @ ''.b3'') = Inr e" "length (TrimSpace e) < 16"
    and "HashFile digest h bin = Inr a" "a \<noteq> TrimSpace e"
  shows "runAgentVerify missing verify digest h bin pubkey source_check = Panicked"
  using assms by (simp add: runAgentVerify_def hash_step_def Let_def)

end
