(* ===== verification/AdkPath.thy ===== *)
theory AdkPath
  imports Config Manager
begin

text \<open>
  Where the agent development kits are found: \<^verbatim>\<open>core/adkpath\<close> for Python and
  \<^verbatim>\<open>pkg/cli/agent_go_adk.go\<close> for Go. Both try an override, the tree installed beside the binary and
  every directory from the working directory upwards. Which texts exist and what they hold is an
  argument; \<open>proc_wd\<close> is the working directory of the process, \<open>None\<close> when it cannot be read.
\<close>

section \<open>Going up\<close>

text \<open>The piece of a path up to its last slash is longer than the directory it names, unless it is the
  root; so a walk upwards ends.\<close>

definition pieces_size :: "string list \<Rightarrow> nat" where
  "pieces_size cs = sum_list (map (\<lambda>c. Suc (length c)) cs)"

lemma pieces_size_simps [simp]:
  "pieces_size [] = 0" "pieces_size (c # cs) = Suc (length c) + pieces_size cs"
  "pieces_size (cs @ ds) = pieces_size cs + pieces_size ds" "pieces_size (rev cs) = pieces_size cs"
  by (simp_all add: pieces_size_def rev_map [symmetric])

lemma pieces_size_split: "pieces_size (split_on sep s) = Suc (length s)"
  by (induction s) (auto split: list.splits)

lemma pieces_size_filter: "pieces_size (filter P cs) \<le> pieces_size cs"
  by (induction cs) auto

lemma split_on_trailing: "split_on sep (s @ [sep]) = split_on sep s @ [[]]"
  by (induction s) (auto split: list.splits)

lemma pieces_size_comps: "pieces_size (comps p) \<le> Suc (length p)"
  unfolding comps_def using pieces_size_filter pieces_size_split by metis

lemma pieces_size_comps_trailing: "pieces_size (comps (p @ ''/'')) \<le> Suc (length p)"
proof -
  have "comps (p @ ''/'') = comps p" by (simp add: comps_def split_on_trailing)
  with pieces_size_comps [of p] show ?thesis by simp
qed

lemma clean_step_size: "pieces_size (clean_step r c st) \<le> pieces_size (c # st)"
  by (auto split: list.splits)

lemma clean_size: "pieces_size (clean_comps r cs) \<le> pieces_size cs"
proof -
  have "pieces_size (fold (clean_step r) cs st) \<le> pieces_size cs + pieces_size st" for st
  proof (induction cs arbitrary: st)
    case (Cons c cs)
    from Cons.IH [of "clean_step r c st"] clean_step_size [of r c st] show ?case by (simp del: clean_step.simps)
  qed simp
  from this [of "[]"] show ?thesis by (simp add: clean_comps_def)
qed

lemma length_Join_slash: "cs \<noteq> [] \<Longrightarrow> Suc (length (Join cs ''/'')) = pieces_size cs"
  by (induction cs "''/''" rule: Join.induct) auto

lemma length_Clean_dir: "Clean (q @ ''/'') = ''/'' \<or> Clean (q @ ''/'') = ''.'' \<or> length (Clean (q @ ''/'')) \<le> length q"
proof (cases "IsAbs (q @ ''/'')")
  case False
  let ?cs = "clean_comps False (comps (q @ ''/''))"
  have "pieces_size ?cs \<le> Suc (length q)"
    using clean_size [of False "comps (q @ ''/'')"] pieces_size_comps_trailing [of q] by simp
  then show ?thesis using False length_Join_slash [of ?cs] by (cases "?cs = []") (auto simp: Clean_def of_comps_def)
next
  case True
  let ?cs = "clean_comps True (comps (q @ ''/''))"
  show ?thesis
  proof (cases q)
    case Nil
    then show ?thesis by (simp add: Clean_def IsAbs_iff comps_def clean_comps_def of_comps_def)
  next
    case (Cons c s)
    with True have c: "q = CHR ''/'' # s" by (simp add: IsAbs_iff)
    have "pieces_size ?cs \<le> Suc (length s)"
      using clean_size [of True "comps (q @ ''/'')"] pieces_size_comps_trailing [of s] c
      by (simp add: comps_rooted)
    then show ?thesis using True c length_Join_slash [of ?cs] by (cases "?cs = []") (auto simp: Clean_def of_comps_def)
  qed
qed

definition path_weight :: "string \<Rightarrow> nat" where
  "path_weight d = (if d = ''.'' then 0 else Suc (length d))"

lemma Dir_smaller: "Dir d \<noteq> d \<Longrightarrow> path_weight (Dir d) < path_weight d"
proof -
  assume ne: "Dir d \<noteq> d"
  let ?p = "rev (dropWhile (\<lambda>c. c \<noteq> CHR ''/'') (rev d))"
  have le: "length ?p \<le> length d" using length_dropWhile_le [of "\<lambda>c. c \<noteq> CHR ''/''" "rev d"] by simp
  show ?thesis
  proof (cases "dropWhile (\<lambda>c. c \<noteq> CHR ''/'') (rev d)")
    case Nil
    then have "Dir d = Clean []" by (simp only: Dir_def rev.simps)
    then have "Dir d = ''.''" by (simp add: Clean_def IsAbs_def HasPrefix_def comps_def clean_comps_def of_comps_def)
    with ne show ?thesis by (auto simp: path_weight_def)
  next
    case (Cons c t)
    have "c = CHR ''/''" using hd_dropWhile [of "\<lambda>c. c \<noteq> CHR ''/''" "rev d"] Cons by simp
    then have p: "?p = rev t @ ''/''" using Cons by simp
    then have D: "Dir d = Clean (rev t @ ''/'')" by (simp add: Dir_def)
    have l: "Suc (length t) \<le> length d" using le p by simp
    have "''/'' = d" if "length d = Suc 0"
    proof -
      from l that have t: "t = []" by simp
      from that obtain x where x: "d = [x]" by (cases d) auto
      with Cons \<open>c = CHR ''/''\<close> show ?thesis by (cases "x = CHR ''/''") auto
    qed
    moreover have "d \<noteq> ''.''" using p by (cases "d = ''.''") auto
    ultimately show ?thesis
      using ne length_Clean_dir [of "rev t"] l unfolding D path_weight_def by (cases "length d = Suc 0") auto
  qed
qed

text \<open>Both loops, and the search for the module file, have this form.\<close>

function walk_up :: "(string \<Rightarrow> 'a option) \<Rightarrow> string \<Rightarrow> 'a option" where
  "walk_up at_dir d =
     (case at_dir d of
        Some x \<Rightarrow> Some x
      | None \<Rightarrow> if Dir d = d then None else walk_up at_dir (Dir d))"
  by pat_completeness auto
termination
  by (relation "measure (path_weight \<circ> snd)") (auto simp: Dir_smaller)

declare walk_up.simps [simp del]

section \<open>The kit for Python\<close>

record PyADK =
  adk_Root :: string
  adk_Runner :: string
  adk_Source :: string

definition runnerRel :: string where "runnerRel = JoinPath [''agent'', ''runner.py'']"

datatype adk_error = CannotResolve string string | NoADKAt string string | NoADK string "string list"

definition load :: "string option \<Rightarrow> (string \<Rightarrow> bool) \<Rightarrow> string \<Rightarrow> string \<Rightarrow> (adk_error, PyADK) result" where
  "load proc_wd stat_ok dir source =
     (case Abs proc_wd dir of
        None \<Rightarrow> Inl (CannotResolve source dir)
      | Some root \<Rightarrow>
        let runner = JoinPath [root, runnerRel] in
        if \<not> stat_ok runner then Inl (NoADKAt source root)
        else Inr \<lparr>adk_Root = root, adk_Runner = runner, adk_Source = source\<rparr>)"

definition ok_of :: "('e, 'a) result \<Rightarrow> 'a option" where
  "ok_of r = (case r of Inl _ \<Rightarrow> None | Inr x \<Rightarrow> Some x)"

text \<open>The product's name and the name of the variable are arguments, as \<^verbatim>\<open>EnvKey\<close> panics before any of
  this when the name is not set.\<close>

definition resolve :: "string \<Rightarrow> string \<Rightarrow> string option \<Rightarrow> (string \<Rightarrow> bool) \<Rightarrow> string \<Rightarrow> string \<Rightarrow> string
    \<Rightarrow> (adk_error, PyADK) result" where
  "resolve name key proc_wd stat_ok override exe wd =
     (if override \<noteq> [] then load proc_wd stat_ok override key
      else
        let cand = JoinPath [Dir exe, ''..'', ''share'', name, ''python''];
            tier2 = (if exe \<noteq> [] then ok_of (load proc_wd stat_ok cand ''install tree'') else None);
            tried = (if exe \<noteq> [] then [cand] else []) in
        case tier2 of
          Some adk \<Rightarrow> Inr adk
        | None \<Rightarrow>
          if wd = [] then Inl (NoADK key tried)
          else case walk_up (\<lambda>d. ok_of (load proc_wd stat_ok (JoinPath [d, ''adk'', ''python'']) ''checkout'')) wd of
            Some adk \<Rightarrow> Inr adk
          | None \<Rightarrow> Inl (NoADK key (tried @ [JoinPath [wd, ''adk'', ''python''] @ '' (and every parent)''])))"

definition ResolvePyADK :: "string \<Rightarrow> (string \<Rightarrow> string) \<Rightarrow> string option \<Rightarrow> (string \<Rightarrow> bool) \<Rightarrow> string option
    \<Rightarrow> (product_panic, (adk_error, PyADK) result) result" where
  "ResolvePyADK st env_of proc_wd stat_ok exe =
     bind_res (EnvKey st ''PY_ADK'') (\<lambda>key.
       Inr (resolve st key proc_wd stat_ok (env_of key) (case exe of None \<Rightarrow> [] | Some e \<Rightarrow> e)
         (case proc_wd of None \<Rightarrow> [] | Some w \<Rightarrow> w)))"

section \<open>The kit for Go\<close>

definition adkRelDir :: string where "adkRelDir = JoinPath [''adk'', ''go'', ''agent'']"
definition protoRelDir :: string where "protoRelDir = JoinPath [''pkg'', ''proto'']"
definition protobufRelDir :: string where
  "protobufRelDir = JoinPath [''vendor'', ''google.golang.org'', ''protobuf'']"

record goADK =
  go_Dir :: string
  go_Directive :: string
  go_Origin :: string

datatype go_adk_error = GoCannotResolve string | NotSourceTree string string | NoProtobuf string string
  | NoDirective string | NoGoMod string | NoGoADK "string list" string

fun directive_of :: "string list \<Rightarrow> string option" where
  "directive_of [] = None"
| "directive_of (line # ls) =
     (if HasPrefix (TrimSpace line) ''go '' then Some (TrimSpace (TrimPrefix (TrimSpace line) ''go ''))
      else directive_of ls)"

text \<open>The nearest \<^verbatim>\<open>go.mod\<close> that can be read decides, even when it declares nothing.\<close>

definition directive_at :: "(string \<Rightarrow> string option) \<Rightarrow> string \<Rightarrow> (go_adk_error, string) result option" where
  "directive_at texts d =
     (case texts (JoinPath [d, ''go.mod'']) of
        None \<Rightarrow> None
      | Some content \<Rightarrow> Some (case directive_of (split_on (CHR 0x0A) content) of
            Some v \<Rightarrow> Inr v | None \<Rightarrow> Inl (NoDirective (JoinPath [d, ''go.mod'']))))"

definition goDirectiveFrom :: "(string \<Rightarrow> string option) \<Rightarrow> string \<Rightarrow> (go_adk_error, string) result" where
  "goDirectiveFrom texts dir =
     (case walk_up (directive_at texts) dir of Some r \<Rightarrow> r | None \<Rightarrow> Inl (NoGoMod dir))"

definition loadGoADK :: "string option \<Rightarrow> (string \<Rightarrow> bool) \<Rightarrow> (string \<Rightarrow> string option) \<Rightarrow> string \<Rightarrow> string
    \<Rightarrow> (go_adk_error, goADK) result" where
  "loadGoADK proc_wd stat_ok texts dir origin =
     (case Abs proc_wd dir of
        None \<Rightarrow> Inl (GoCannotResolve dir)
      | Some root \<Rightarrow>
        if \<not> stat_ok (JoinPath [root, adkRelDir, ''run.go'']) then Inl (NotSourceTree root origin)
        else if \<not> stat_ok (JoinPath [root, protobufRelDir, ''proto'', ''proto.go'']) then Inl (NoProtobuf root origin)
        else bind_res (goDirectiveFrom texts root) (\<lambda>directive.
          Inr \<lparr>go_Dir = root, go_Directive = directive, go_Origin = origin\<rparr>))"

definition resolveGoADK :: "string \<Rightarrow> string \<Rightarrow> string option \<Rightarrow> (string \<Rightarrow> bool) \<Rightarrow> (string \<Rightarrow> string option) \<Rightarrow> string
    \<Rightarrow> string option \<Rightarrow> (go_adk_error, goADK) result" where
  "resolveGoADK name key proc_wd stat_ok texts override exe =
     (if override \<noteq> [] then loadGoADK proc_wd stat_ok texts override key
      else
        let cand = (\<lambda>e. JoinPath [Dir e, ''..'', ''share'', name, ''go'']);
            tier2 = Option.bind exe (\<lambda>e. ok_of (loadGoADK proc_wd stat_ok texts (cand e) ''install tree''));
            tried = (case exe of None \<Rightarrow> [] | Some e \<Rightarrow> [cand e]) in
        case tier2 of
          Some adk \<Rightarrow> Inr adk
        | None \<Rightarrow>
          (case proc_wd of
             None \<Rightarrow> Inl (NoGoADK tried key)
           | Some wd \<Rightarrow>
             (case walk_up (\<lambda>d. ok_of (loadGoADK proc_wd stat_ok texts d ''checkout'')) wd of
                Some adk \<Rightarrow> Inr adk
              | None \<Rightarrow> Inl (NoGoADK (tried @ [JoinPath [wd, adkRelDir] @ '' (and every parent)'']) key))))"

section \<open>Which directory is taken\<close>

lemma Dir_last: "CHR ''/'' \<notin> set c \<Longrightarrow> Dir (p @ ''/'' @ c) = Clean (p @ ''/'')"
proof -
  assume "CHR ''/'' \<notin> set c"
  then have "dropWhile (\<lambda>d. d \<noteq> CHR ''/'') (rev c @ CHR ''/'' # rev p) = CHR ''/'' # rev p"
    by (subst dropWhile_append2) auto
  then show ?thesis by (simp add: Dir_def)
qed

lemma Join_snoc: "cs \<noteq> [] \<Longrightarrow> Join (cs @ [c]) sep = Join cs sep @ sep @ c"
  by (induction cs sep rule: Join.induct) auto

lemma Clean_slash: "\<forall>c \<in> set cs. name_ok c \<Longrightarrow> Clean (abs_path cs @ ''/'') = abs_path cs"
proof -
  assume n: "\<forall>c \<in> set cs. name_ok c"
  have "comps (abs_path cs @ ''/'') = comps (abs_path cs)" by (simp add: comps_def split_on_trailing)
  with abs_path_facts(2) [OF n] have "comps (abs_path cs @ ''/'') = cs" by simp
  moreover have "IsAbs (abs_path cs @ ''/'')" by (simp add: abs_path_def IsAbs_iff)
  ultimately show ?thesis using clean_names [OF n] by (simp add: Clean_def of_comps_def abs_path_def)
qed

lemma Dir_abs: "\<forall>x \<in> set (cs @ [c]). name_ok x \<Longrightarrow> Dir (abs_path (cs @ [c])) = abs_path cs"
proof -
  assume n: "\<forall>x \<in> set (cs @ [c]). name_ok x"
  then have c: "CHR ''/'' \<notin> set c" by (simp add: name_ok_def comp_ok_def)
  show ?thesis
  proof (cases "cs = []")
    case True
    then show ?thesis using Dir_last [OF c, of "[]"]
      by (simp add: abs_path_def Clean_def IsAbs_iff comps_def clean_comps_def of_comps_def)
  next
    case False
    then have "abs_path (cs @ [c]) = abs_path cs @ ''/'' @ c" by (simp add: abs_path_def Join_snoc)
    with Dir_last [OF c, of "abs_path cs"] Clean_slash [of cs] n show ?thesis by simp
  qed
qed

lemma Dir_root: "Dir (abs_path []) = abs_path []"
  by (simp add: abs_path_def Dir_def Clean_def IsAbs_iff comps_def clean_comps_def of_comps_def)

lemma abs_path_longer: "\<forall>x \<in> set (cs @ [c]). name_ok x \<Longrightarrow> abs_path cs \<noteq> abs_path (cs @ [c])"
proof
  assume n: "\<forall>x \<in> set (cs @ [c]). name_ok x" and e: "abs_path cs = abs_path (cs @ [c])"
  then have "\<forall>x \<in> set cs. name_ok x" by simp
  from abs_path_facts(2) [OF this] abs_path_facts(2) [OF n] e show False by simp
qed

text \<open>\<open>nearest f cs r\<close>: \<open>r\<close> is what \<open>f\<close> finds in the deepest directory on the way to \<open>cs\<close> where it
  finds something.\<close>

definition nearest :: "(string \<Rightarrow> 'a option) \<Rightarrow> string list \<Rightarrow> 'a option \<Rightarrow> bool" where
  "nearest f cs r \<longleftrightarrow>
     (case r of
        None \<Rightarrow> \<forall>n \<le> length cs. f (abs_path (take n cs)) = None
      | Some x \<Rightarrow> \<exists>n \<le> length cs. f (abs_path (take n cs)) = Some x \<and>
          (\<forall>m. n < m \<and> m \<le> length cs \<longrightarrow> f (abs_path (take m cs)) = None))"

lemma nearest_here: "f (abs_path cs) = Some x \<Longrightarrow> nearest f cs (Some x)"
  by (auto simp: nearest_def intro!: exI [of _ "length cs"])

lemma nearest_above: "f (abs_path (cs @ [c])) = None \<Longrightarrow> nearest f cs r \<Longrightarrow> nearest f (cs @ [c]) r"
proof (cases r)
  case (Some x)
  assume f: "f (abs_path (cs @ [c])) = None" and "nearest f cs r"
  then obtain n where n: "n \<le> length cs" "f (abs_path (take n cs)) = Some x"
    "\<forall>m. n < m \<and> m \<le> length cs \<longrightarrow> f (abs_path (take m cs)) = None"
    by (auto simp: nearest_def Some)
  have "f (abs_path (take m (cs @ [c]))) = None" if "n < m" "m \<le> Suc (length cs)" for m
    using that n(3) f by (cases "m \<le> length cs") (auto simp: le_Suc_eq)
  with n(1, 2) show ?thesis by (auto simp: nearest_def Some intro!: exI [of _ n])
next
  case None
  assume "f (abs_path (cs @ [c])) = None" "nearest f cs r"
  then show ?thesis by (auto simp: nearest_def None le_Suc_eq)
qed

lemma walk_up_nearest: "\<forall>c \<in> set cs. name_ok c \<Longrightarrow> nearest f cs (walk_up f (abs_path cs))"
proof (induction cs rule: rev_induct)
  case Nil
  show ?case
    by (subst walk_up.simps) (auto simp: Dir_root nearest_here nearest_def split: option.split)
next
  case (snoc c cs)
  show ?case
  proof (cases "f (abs_path (cs @ [c]))")
    case (Some x)
    then show ?thesis by (subst walk_up.simps) (simp add: nearest_here)
  next
    case None
    have "walk_up f (abs_path (cs @ [c])) = walk_up f (abs_path cs)"
      using None Dir_abs [OF snoc.prems] abs_path_longer [OF snoc.prems] by (subst walk_up.simps) simp
    with nearest_above [of f cs c] None snoc show ?thesis by simp
  qed
qed

text \<open>The tree found for Python holds the runner, is absolute, and comes from the first of the three
  places that has one: the override alone when there is one, the tree beside the binary, and then the
  nearest directory at or above the working directory.\<close>

theorem python_adk_exact:
  assumes "\<forall>c \<in> set cs. name_ok c"
  shows "case resolve name key (Some (abs_path cs)) stat_ok override exe (abs_path cs) of
      Inr adk \<Rightarrow>
        stat_ok (adk_Runner adk) \<and> adk_Runner adk = JoinPath [adk_Root adk, ''agent/runner.py''] \<and>
        (if override \<noteq> [] then load (Some (abs_path cs)) stat_ok override key = Inr adk
         else (let beside = load (Some (abs_path cs)) stat_ok (JoinPath [Dir exe, ''..'', ''share'', name, ''python'']) ''install tree'' in
           (exe \<noteq> [] \<and> beside = Inr adk) \<or>
           ((exe = [] \<or> \<not> is_ok beside) \<and>
            nearest (\<lambda>d. ok_of (load (Some (abs_path cs)) stat_ok (JoinPath [d, ''adk'', ''python'']) ''checkout'')) cs (Some adk))))
    | Inl e \<Rightarrow>
        (if override \<noteq> [] then load (Some (abs_path cs)) stat_ok override key = Inl e
         else nearest (\<lambda>d. ok_of (load (Some (abs_path cs)) stat_ok (JoinPath [d, ''adk'', ''python'']) ''checkout'')) cs None)"
proof -
  let ?wd = "Some (abs_path cs)"
  have r: "runnerRel = ''agent/runner.py''"
    by (simp add: runnerRel_def JoinPath_def Clean_def IsAbs_def HasPrefix_def comps_def clean_comps_def of_comps_def)
  have l: "load ?wd stat_ok d src = Inr adk \<Longrightarrow>
      stat_ok (adk_Runner adk) \<and> adk_Runner adk = JoinPath [adk_Root adk, ''agent/runner.py'']" for d src adk
    by (auto simp: load_def r Let_def split: option.splits if_splits)
  have o: "ok_of x = Some y \<longleftrightarrow> x = Inr y" "ok_of x = None \<longleftrightarrow> \<not> is_ok x" for x :: "(adk_error, PyADK) result" and y
    by (auto simp: ok_of_def split: sum.splits)
  have w: "abs_path cs \<noteq> []" by (simp add: abs_path_def)
  let ?f = "\<lambda>d. ok_of (load ?wd stat_ok (JoinPath [d, ''adk'', ''python'']) ''checkout'')"
  have n: "nearest ?f cs (walk_up ?f (abs_path cs))" by (rule walk_up_nearest [OF assms])
  have m: "nearest ?f cs (Some adk) \<Longrightarrow>
      stat_ok (adk_Runner adk) \<and> adk_Runner adk = JoinPath [adk_Root adk, ''agent/runner.py'']" for adk
    by (auto simp: nearest_def o dest: l)
  show ?thesis
  proof (cases "override = []")
    case False
    then show ?thesis by (auto simp: resolve_def dest: l split: sum.splits)
  next
    case True
    let ?b = "load ?wd stat_ok (JoinPath [Dir exe, ''..'', ''share'', name, ''python'']) ''install tree''"
    show ?thesis
    proof (cases "exe \<noteq> [] \<and> is_ok ?b")
      case b: True
      then obtain adk where a: "?b = Inr adk" by (auto simp: is_ok_iff)
      from l [OF a] a b True show ?thesis by (elim conjE) (simp add: resolve_def ok_of_def Let_def)
    next
      case False
      then have "resolve name key ?wd stat_ok override exe (abs_path cs) =
          (case walk_up ?f (abs_path cs) of Some adk \<Rightarrow> Inr adk
           | None \<Rightarrow> Inl (NoADK key ((if exe \<noteq> [] then [JoinPath [Dir exe, ''..'', ''share'', name, ''python'']] else [])
               @ [JoinPath [abs_path cs, ''adk'', ''python''] @ '' (and every parent)''])))"
        using True w by (auto simp: resolve_def o Let_def ok_of_def split: sum.splits option.splits)
      note r = this
      show ?thesis
      proof (cases "walk_up ?f (abs_path cs)")
        case None
        with n r True show ?thesis by simp
      next
        case (Some adk)
        with n have "nearest ?f cs (Some adk)" by simp
        with m [OF this] Some r False True show ?thesis by (elim conjE) (auto simp: Let_def)
      qed
    qed
  qed
qed

lemma python_adk_example:
  "resolve ''gapi'' ''GAPI_PY_ADK'' (Some ''/home/u'') (\<lambda>p. p = ''/home/adk/python/agent/runner.py'') [] [] ''/home/u'' =
     Inr \<lparr>adk_Root = ''/home/adk/python'', adk_Runner = ''/home/adk/python/agent/runner.py'', adk_Source = ''checkout''\<rparr>"
  by code_simp

text \<open>A tree found for Go has the runtime and the protobuf runtime, and its language version is that of
  the nearest module file.\<close>

theorem go_adk_complete:
  assumes "\<forall>c \<in> set cs. name_ok c"
    and "loadGoADK proc_wd stat_ok texts dir origin = Inr adk" "Abs proc_wd dir = Some (abs_path cs)"
  shows "go_Dir adk = abs_path cs \<and> stat_ok (JoinPath [go_Dir adk, adkRelDir, ''run.go'']) \<and>
    stat_ok (JoinPath [go_Dir adk, protobufRelDir, ''proto'', ''proto.go'']) \<and>
    nearest (directive_at texts) cs (Some (Inr (go_Directive adk)))"
  using assms(2, 3) walk_up_nearest [OF assms(1), of "directive_at texts"]
  by (auto simp: loadGoADK_def goDirectiveFrom_def result_simps split: if_splits option.splits)

text \<open>The message of a search that failed asks for the directory that holds \<^verbatim>\<open>agent/*.go\<close>; what is accepted
  is the root of the module, under which the runtime lies at \<^verbatim>\<open>adk/go/agent\<close>.\<close>

lemma advice_is_refused:
  "loadGoADK (Some ''/'') (\<lambda>p. p = ''/src/adk/go/agent/run.go'') texts ''/src/adk/go'' ''GAPI_GO_ADK'' =
     Inl (NotSourceTree ''/src/adk/go'' ''GAPI_GO_ADK'')"
  by (simp add: loadGoADK_def Abs_def adkRelDir_def JoinPath_def Clean_def IsAbs_def HasPrefix_def comps_def clean_comps_def of_comps_def)

end
