(* ===== verification/AgentSource.thy ===== *)
theory AgentSource
  imports Manager
begin

text \<open>
  The files agents are written in: \<^verbatim>\<open>pkg/cli/agent_go_source.go\<close>, which reads the declarations of a
  Go agent and generates the main program around them, and \<^verbatim>\<open>pkg/cli/agent_new.go\<close>, which creates
  a file from a template. The syntax tree of Go's parser and the rendering of a template are
  arguments.
\<close>

section \<open>The declarations of an agent\<close>

text \<open>Of a source file: each \<^verbatim>\<open>const\<close>, \<^verbatim>\<open>var\<close> or other declaration with the names of its specifications,
  and each function with whether it has a receiver and how many parameter groups; and where the package clause stands.\<close>

datatype decl_tok = Tok_const | Tok_var | Tok_other

datatype go_decl = GenDecl decl_tok "string list list" | FuncDecl bool string nat

record go_file =
  gf_package :: nat
  gf_name_end :: nat
  gf_decls :: "go_decl list"

record goAgentDecls =
  ga_declared :: "(string, string) gomap"
  ga_startTakesContext :: bool
  ga_pkgStart :: nat
  ga_pkgEnd :: nat
  ga_src :: string

definition specFields :: "(string, string list) gomap" where
  "specFields =
     [(''ID'', [''ID'', ''Id'', ''AgentID'']), (''Name'', [''Name'', ''NAME'']), (''Type'', [''Type'', ''TYPE'', ''UnitType'', ''Kind'']),
      (''Version'', [''Version'', ''VERSION'']), (''Description'', [''Description'', ''DESCRIPTION'', ''Desc'']),
      (''Enabled'', [''Enabled'', ''ENABLED'']), (''Requires'', [''Requires'', ''REQUIRES'', ''Deps'', ''DEPS'', ''Dependencies'']),
      (''Wants'', [''Wants'', ''WANTS'']), (''WantedBy'', [''WantedBy'', ''WANTED_BY'']), (''RequiredBy'', [''RequiredBy'', ''REQUIRED_BY'']),
      (''Schedule'', [''Schedule'', ''SCHEDULE'']), (''ListenStream'', [''ListenStream'', ''LISTEN_STREAM'', ''Socket'', ''SOCKET'']),
      (''CPULimit'', [''CPULimit'', ''CPU_LIMIT'', ''CPU'']), (''MemoryLimit'', [''MemoryLimit'', ''MEMORY_LIMIT'', ''Memory'', ''MEMORY'']),
      (''Capabilities'', [''Capabilities'', ''CAPABILITIES''])]"

definition lifecycleFields :: "string list" where
  "lifecycleFields = [''Initialize'', ''Stop'', ''Reload'', ''Restart'']"

text \<open>No alias belongs to two fields, so the order in which the table is reversed does not matter.\<close>

definition byIdent :: "(string, string) gomap" where
  "byIdent = concat (map (\<lambda>(field, aliases). map (\<lambda>a. (a, field)) aliases) specFields)"

definition declare_field :: "string \<Rightarrow> string \<Rightarrow> goAgentDecls \<Rightarrow> goAgentDecls" where
  "declare_field field ident d = d \<lparr>ga_declared := AList.update field ident (ga_declared d)\<rparr>"

definition scan_name :: "string \<Rightarrow> goAgentDecls \<Rightarrow> goAgentDecls" where
  "scan_name n d = (case map_of byIdent n of None \<Rightarrow> d | Some field \<Rightarrow> declare_field field n d)"

definition scanValues :: "decl_tok \<Rightarrow> string list list \<Rightarrow> goAgentDecls \<Rightarrow> goAgentDecls" where
  "scanValues tok specs d = (if tok \<noteq> Tok_const \<and> tok \<noteq> Tok_var then d else fold (fold scan_name) specs d)"

definition scanFunc :: "bool \<Rightarrow> string \<Rightarrow> nat \<Rightarrow> goAgentDecls \<Rightarrow> goAgentDecls" where
  "scanFunc recv n params d =
     (if recv then d
      else if n = ''Start'' then (declare_field ''Start'' ''Start'' d) \<lparr>ga_startTakesContext := 0 < params\<rparr>
      else if n \<in> set lifecycleFields then declare_field n n d else d)"

fun scan_decl :: "go_decl \<Rightarrow> goAgentDecls \<Rightarrow> goAgentDecls" where
  "scan_decl (GenDecl tok specs) d = scanValues tok specs d"
| "scan_decl (FuncDecl recv n params) d = scanFunc recv n params d"

datatype source_error = SourceUnread safeio_error | SourceNotParsed string | DeclaresNo string "string list"

definition declares :: "goAgentDecls \<Rightarrow> string \<Rightarrow> bool" where
  "declares d f \<longleftrightarrow> map_of (ga_declared d) f \<noteq> None"

definition validate_decls :: "string \<Rightarrow> goAgentDecls \<Rightarrow> (source_error, unit) result" where
  "validate_decls path d =
     (let missing = filter (\<lambda>f. \<not> declares d f) [''ID'', ''Start''] in
      if missing \<noteq> [] then Inl (DeclaresNo path missing) else Inr ())"

definition scanGoAgent :: "host_files \<Rightarrow> (string \<Rightarrow> (string, go_file) result) \<Rightarrow> string \<Rightarrow> (source_error, goAgentDecls) result" where
  "scanGoAgent h parse path =
     (case ReadFile (cwd h) (file_content h) path of
        Inl e \<Rightarrow> Inl (SourceUnread e)
      | Inr src \<Rightarrow>
        (case parse src of
           Inl e \<Rightarrow> Inl (SourceNotParsed e)
         | Inr f \<Rightarrow>
           let d = fold scan_decl (gf_decls f) \<lparr>ga_declared = [], ga_startTakesContext = False, ga_pkgStart = gf_package f,
                 ga_pkgEnd = gf_name_end f, ga_src = src\<rparr>
           in bind_res (validate_decls path d) (\<lambda>_. Inr d)))"

section \<open>The program around them\<close>

definition sourceAsMain :: "goAgentDecls \<Rightarrow> string" where
  "sourceAsMain d = take (ga_pkgStart d) (ga_src d) @ ''package main'' @ drop (ga_pkgEnd d) (ga_src d)"

definition tab :: string where "tab = [CHR 0x09]"
definition newline :: string where "newline = [CHR 0x0A]"

text \<open>\<^verbatim>\<open>%q\<close> of a text without characters that need escaping.\<close>

definition quoted :: "string \<Rightarrow> string" where
  "quoted s = [CHR 0x22] @ s @ [CHR 0x22]"

definition sortedFields :: "(string, string) gomap \<Rightarrow> string list" where
  "sortedFields m = sort (keys m)"

definition field_text :: "bool \<Rightarrow> string \<Rightarrow> string \<Rightarrow> string" where
  "field_text takesContext field ident =
     (if field = ''Start'' then
        (if takesContext then tab @ tab @ ''Start: Start,'' @ newline
         else tab @ tab @ ''Start: func(context.Context) error { return Start() },'' @ newline)
      else if field \<in> {''Initialize'', ''Stop'', ''Reload'', ''Restart''} then tab @ tab @ field @ '': '' @ ident @ '','' @ newline
      else if field = ''Enabled'' then
        tab @ tab @ ''Enabled: func() *bool { v := bool('' @ ident @ ''); return &v }(),'' @ newline
      else if field \<in> {''CPULimit'', ''MemoryLimit''} then tab @ tab @ field @ '': fmt.Sprint('' @ ident @ ''),'' @ newline
      else tab @ tab @ field @ '': '' @ ident @ '','' @ newline)"

definition fieldLine :: "goAgentDecls \<Rightarrow> string \<Rightarrow> string" where
  "fieldLine d field =
     field_text (ga_startTakesContext d) field (case map_of (ga_declared d) field of None \<Rightarrow> [] | Some i \<Rightarrow> i)"

definition needsContextImport :: "goAgentDecls \<Rightarrow> bool" where
  "needsContextImport d \<longleftrightarrow> declares d ''Start'' \<and> \<not> ga_startTakesContext d"

definition needsFmtImport :: "goAgentDecls \<Rightarrow> bool" where
  "needsFmtImport d \<longleftrightarrow> (\<exists>f \<in> set [''CPULimit'', ''MemoryLimit'']. declares d f)"

definition main_imports :: "string \<Rightarrow> goAgentDecls \<Rightarrow> string list" where
  "main_imports adkImportPath d =
     sort ([''adk '' @ quoted adkImportPath] @ (if needsContextImport d then [quoted ''context''] else [])
       @ (if needsFmtImport d then [quoted ''fmt''] else []))"

definition generateMain :: "string \<Rightarrow> string \<Rightarrow> goAgentDecls \<Rightarrow> string" where
  "generateMain name adkImportPath d =
     ''// Code generated by '' @ [CHR 0x27] @ name @ ''ctl agent build'' @ [CHR 0x27] @ ''. DO NOT EDIT.'' @ newline @
     ''//'' @ newline @
     ''// It is assembled beside the author'' @ [CHR 0x27] @ ''s agent file, which is rewritten'' @ newline @
     ''// into this package, and exists only for the duration of the build.'' @ newline @ newline @
     ''package main'' @ newline @ newline @
     ''import ('' @ newline @ concat (map (\<lambda>im. tab @ im @ newline) (main_imports adkImportPath d)) @ '')'' @ newline @ newline @
     ''func init() {'' @ newline @ tab @ ''adk.Register(adk.Spec{'' @ newline @
     concat (map (fieldLine d) (sortedFields (ga_declared d))) @
     tab @ ''})'' @ newline @ ''}'' @ newline @ newline @
     ''func main() { adk.Run() }'' @ newline"

section \<open>Names of files\<close>

definition goAgentTypes :: "string list" where "goAgentTypes = [''service'', ''timer'', ''socket'']"

definition isGoAgentFile :: "string \<Rightarrow> bool" where
  "isGoAgentFile n \<longleftrightarrow> Contains n ''.go.'' \<and> (\<exists>t \<in> set goAgentTypes. HasSuffix n (''.'' @ t))"

fun Index :: "string \<Rightarrow> string \<Rightarrow> nat option" where
  "Index [] p = (if p = [] then Some 0 else None)"
| "Index (c # s) p = (if HasPrefix (c # s) p then Some 0 else map_option Suc (Index s p))"

definition goAgentName :: "string \<Rightarrow> string" where
  "goAgentName path = (case Index (Base path) ''.go.'' of Some (Suc i) \<Rightarrow> take (Suc i) (Base path) | _ \<Rightarrow> Base path)"

definition goAgentArtifact :: "string \<Rightarrow> string" where "goAgentArtifact srcPath = Base srcPath"

text \<open>The walk gives the entries of a tree in order, those below a directory right after it.\<close>

function find_walk :: "walk_entry list \<Rightarrow> string list \<Rightarrow> string list option" where
  "find_walk [] acc = Some acc"
| "find_walk (e # es) acc =
     (if w_failed e then None
      else if w_isDir e then
        (if HasPrefix (Base (w_path e)) ''.agent-build-''
         then find_walk (dropWhile (\<lambda>x. HasPrefix (w_path x) (w_path e @ ''/'')) es) acc else find_walk es acc)
      else if isGoAgentFile (w_name e) then find_walk es (acc @ [w_path e]) else find_walk es acc)"
  by pat_completeness auto
termination
  by (relation "measure (length \<circ> fst)") (auto simp: le_imp_less_Suc [OF length_dropWhile_le])

definition findGoAgents :: "walk_entry list \<Rightarrow> string list option" where
  "findGoAgents walk = map_option sort (find_walk walk [])"

section \<open>New agents\<close>

definition langFile :: "string \<Rightarrow> string \<Rightarrow> string \<Rightarrow> string" where
  "langFile lang typ agentName = agentName @ ''.'' @ lang @ ''.'' @ typ"

definition agentScaffolds :: "((string \<times> string), (string \<times> (string \<Rightarrow> string))) gomap" where
  "agentScaffolds =
     [((''go'', ''service''), (''templates/go_service.tmpl'', langFile ''go'' ''service'')),
      ((''go'', ''timer''), (''templates/go_timer.tmpl'', langFile ''go'' ''timer'')),
      ((''go'', ''socket''), (''templates/go_socket.tmpl'', langFile ''go'' ''socket'')),
      ((''python'', ''service''), (''templates/python_service.tmpl'', langFile ''py'' ''service'')),
      ((''python'', ''timer''), (''templates/python_timer.tmpl'', langFile ''py'' ''timer'')),
      ((''python'', ''socket''), (''templates/python_socket.tmpl'', langFile ''py'' ''socket''))]"

definition scaffoldAxis :: "(string \<times> string \<Rightarrow> string) \<Rightarrow> string list" where
  "scaffoldAxis pick = sort (remdups (map pick (keys agentScaffolds)))"

definition scaffoldLangs :: "string list" where "scaffoldLangs = scaffoldAxis fst"
definition scaffoldTypes :: "string list" where "scaffoldTypes = scaffoldAxis snd"

text \<open>The first byte of a word is taken on its own: one of \<^verbatim>\<open>0x80\<close> or above is no character then, and
  \<^verbatim>\<open>strings.ToUpper\<close> puts the replacement character in its place.\<close>

definition upper_first :: "string \<Rightarrow> string" where
  "upper_first w = (case w of [] \<Rightarrow> []
     | c # cs \<Rightarrow> (if of_char c \<ge> (128 :: nat) then [CHR 0xEF, CHR 0xBF, CHR 0xBD] else ToUpper [c]) @ cs)"

definition titleCase :: "string \<Rightarrow> string" where
  "titleCase s = Join (map upper_first (Fields s)) '' ''"

record scaffold_data =
  sd_Name :: string
  sd_ID :: string
  sd_Description :: string

datatype scaffold_error = UnsupportedLanguage string "string list" | UnsupportedType string "string list"
  | UnsupportedCombination string string | DirNotMade string | TemplateFailed | FileNotMade string | RenderFailed

definition new_output_dir :: "string \<Rightarrow> string \<Rightarrow> string \<Rightarrow> string" where
  "new_output_dir agentOutput lang typ =
     (if agentOutput \<noteq> [] then agentOutput
      else if lang = ''go'' then JoinPath [''src'', ''agents''] else JoinPath [''agents'', ''python'', typ @ ''s''])"

text \<open>The file written and what is in it. \<open>render\<close> gives a template's text for the data, \<open>None\<close> when it cannot be read or parsed.\<close>

definition runAgentNew :: "(string \<Rightarrow> bool) \<Rightarrow> (string \<Rightarrow> bool) \<Rightarrow> (string \<Rightarrow> (scaffold_data \<Rightarrow> string option) option) \<Rightarrow> string
    \<Rightarrow> string \<Rightarrow> string \<Rightarrow> string \<Rightarrow> (scaffold_error, string \<times> string) result" where
  "runAgentNew mkdir create render agentOutput lang typ agentName =
     (case map_of agentScaffolds (lang, typ) of
        None \<Rightarrow>
          if lang \<notin> set scaffoldLangs then Inl (UnsupportedLanguage lang scaffoldLangs)
          else if typ \<notin> set scaffoldTypes then Inl (UnsupportedType typ scaffoldTypes)
          else Inl (UnsupportedCombination lang typ)
      | Some (template, fileName) \<Rightarrow>
        let dir = new_output_dir agentOutput lang typ;
            out = JoinPath [dir, fileName agentName];
            title = titleCase (map (\<lambda>c. if c = CHR ''_'' then CHR '' '' else c) agentName) in
        if \<not> mkdir dir then Inl (DirNotMade dir)
        else case render template of
          None \<Rightarrow> Inl TemplateFailed
        | Some t \<Rightarrow>
          if \<not> create out then Inl (FileNotMade out)
          else case t \<lparr>sd_Name = title, sd_ID = agentName, sd_Description = title @ '' agent''\<rparr> of
            None \<Rightarrow> Inl RenderFailed | Some text \<Rightarrow> Inr (out, text))"

section \<open>What is declared\<close>

lemma byIdent_distinct: "distinct (keys byIdent)" by code_simp

definition declared_by :: "go_decl \<Rightarrow> string \<Rightarrow> bool" where
  "declared_by x f \<longleftrightarrow>
     (case x of
        GenDecl tok specs \<Rightarrow> tok \<noteq> Tok_other \<and> (\<exists>n \<in> set (concat specs). map_of byIdent n = Some f)
      | FuncDecl recv n params \<Rightarrow> \<not> recv \<and> n = f \<and> f \<in> set (''Start'' # lifecycleFields))"

lemma declares_field [simp]: "declares (declare_field g i d) f \<longleftrightarrow> f = g \<or> declares d f"
  by (simp add: declares_def declare_field_def update_conv')

lemma declares_context [simp]: "declares (d \<lparr>ga_startTakesContext := b\<rparr>) f = declares d f"
  by (simp add: declares_def)

lemma declares_names: "declares (fold scan_name ns d) f \<longleftrightarrow> declares d f \<or> (\<exists>n \<in> set ns. map_of byIdent n = Some f)"
  by (induction ns arbitrary: d) (auto simp: scan_name_def split: option.splits)

lemma declares_specs:
  "declares (fold (fold scan_name) specs d) f \<longleftrightarrow> declares d f \<or> (\<exists>n \<in> set (concat specs). map_of byIdent n = Some f)"
  by (induction specs arbitrary: d) (auto simp: declares_names)

lemma declares_decl: "declares (scan_decl x d) f \<longleftrightarrow> declares d f \<or> declared_by x f"
proof (cases x)
  case (GenDecl tok specs)
  then show ?thesis by (cases tok) (auto simp: scanValues_def declared_by_def declares_specs)
next
  case (FuncDecl recv n params)
  then show ?thesis by (auto simp: scanFunc_def declared_by_def)
qed

lemma declares_decls: "declares (fold scan_decl ds d) f \<longleftrightarrow> declares d f \<or> (\<exists>x \<in> set ds. declared_by x f)"
  by (induction ds arbitrary: d) (auto simp: declares_decl)

text \<open>Every identifier recorded is one the field accepts, and a field is recorded once.\<close>

definition takes_name :: "string \<Rightarrow> string \<Rightarrow> bool" where
  "takes_name f i \<longleftrightarrow> (i, f) \<in> set byIdent \<or> (f \<in> set (''Start'' # lifecycleFields) \<and> i = f)"

definition decls_ok :: "goAgentDecls \<Rightarrow> bool" where
  "decls_ok d \<longleftrightarrow> gomap_ok (ga_declared d) \<and> (\<forall>f i. map_of (ga_declared d) f = Some i \<longrightarrow> takes_name f i)"

lemma decls_ok_field: "takes_name f i \<Longrightarrow> decls_ok d \<Longrightarrow> decls_ok (declare_field f i d)"
  by (auto simp: decls_ok_def declare_field_def update_conv' gomap_ok_update)

lemma decls_ok_names: "decls_ok d \<Longrightarrow> decls_ok (fold scan_name ns d)"
proof (induction ns arbitrary: d)
  case (Cons n ns)
  have "decls_ok (scan_name n d)"
    using Cons.prems
    by (cases "map_of byIdent n") (auto simp: scan_name_def takes_name_def intro!: decls_ok_field dest: map_of_SomeD)
  then show ?case by (simp add: Cons.IH)
qed simp

lemma decls_ok_specs: "decls_ok d \<Longrightarrow> decls_ok (fold (fold scan_name) specs d)"
  by (induction specs arbitrary: d) (auto simp: decls_ok_names)

lemma decls_ok_decl: "decls_ok d \<Longrightarrow> decls_ok (scan_decl x d)"
proof (cases x)
  case (FuncDecl recv n params)
  have c: "decls_ok (d \<lparr>ga_startTakesContext := b\<rparr>) = decls_ok d" for b d by (simp add: decls_ok_def)
  assume "decls_ok d"
  then show ?thesis using FuncDecl by (auto simp: scanFunc_def c takes_name_def intro!: decls_ok_field)
qed (auto simp: scanValues_def decls_ok_specs)

lemma decls_ok_decls: "decls_ok d \<Longrightarrow> decls_ok (fold scan_decl ds d)"
  by (induction ds arbitrary: d) (auto simp: decls_ok_decl)

lemma scan_result:
  assumes "scanGoAgent h parse path = Inr d"
  obtains src f where "ReadFile (cwd h) (file_content h) path = Inr src" "parse src = Inr f"
    "\<And>g. declares d g \<longleftrightarrow> (\<exists>x \<in> set (gf_decls f). declared_by x g)" "decls_ok d"
    "declares d ''ID''" "declares d ''Start''"
proof -
  let ?d = "\<lambda>f src. \<lparr>ga_declared = [], ga_startTakesContext = False, ga_pkgStart = gf_package f, ga_pkgEnd = gf_name_end f, ga_src = src\<rparr>"
  from assms obtain src f where r: "ReadFile (cwd h) (file_content h) path = Inr src" "parse src = Inr f"
    "d = fold scan_decl (gf_decls f) (?d f src)" "validate_decls path d = Inr ()"
    by (auto simp: scanGoAgent_def Let_def result_simps split: sum.splits)
  have "declares d g \<longleftrightarrow> (\<exists>x \<in> set (gf_decls f). declared_by x g)" for g
    unfolding r(3) declares_decls by (simp add: declares_def)
  moreover have "decls_ok d" unfolding r(3) by (rule decls_ok_decls) (simp add: decls_ok_def gomap_ok_def)
  moreover have "declares d ''ID''" "declares d ''Start''"
    using r(4) by (auto simp: validate_decls_def Let_def split: if_splits)
  ultimately show ?thesis using that r(1, 2) by blast
qed

section \<open>The generated program\<close>

text \<open>Which of the lines use a package, decided over the table of names.\<close>

definition accepted_pairs :: "(string \<times> string) list" where
  "accepted_pairs = map (\<lambda>(i, f). (f, i)) byIdent @ map (\<lambda>f. (f, f)) (''Start'' # lifecycleFields)"

lemma takes_name_iff: "takes_name f i \<longleftrightarrow> (f, i) \<in> set accepted_pairs"
  by (auto simp: takes_name_def accepted_pairs_def)

lemma accepted_plain: "list_all (\<lambda>(f, i). CHR ''.'' \<notin> set f \<and> CHR ''.'' \<notin> set i) accepted_pairs"
  by code_simp

lemma limit_lines:
  "list_all (\<lambda>(f, i). \<not> Contains (field_text c f i) ''context.'')
     (filter (\<lambda>(f, i). f = ''CPULimit'' \<or> f = ''MemoryLimit'') accepted_pairs)"
  "list_all (\<lambda>(f, i). Contains (field_text c f i) ''fmt.'')
     (filter (\<lambda>(f, i). f = ''CPULimit'' \<or> f = ''MemoryLimit'') accepted_pairs)"
  by code_simp+

lemma start_lines:
  "\<not> Contains (field_text True ''Start'' i) ''context.''" "\<not> Contains (field_text True ''Start'' i) ''fmt.''"
  "Contains (field_text False ''Start'' i) ''context.''" "\<not> Contains (field_text False ''Start'' i) ''fmt.''"
  by code_simp+

lemma Contains_set: "Contains s p \<Longrightarrow> set p \<subseteq> set s"
  by (auto simp: Contains_iff)

lemma other_lines:
  assumes "CHR ''.'' \<notin> set f" "CHR ''.'' \<notin> set i" "f \<notin> {''Start'', ''CPULimit'', ''MemoryLimit''}"
  shows "CHR ''.'' \<notin> set (field_text c f i)"
  using assms by (simp add: field_text_def tab_def newline_def)

lemma text_uses:
  assumes "takes_name f i"
  shows "Contains (field_text c f i) ''context.'' \<longleftrightarrow> f = ''Start'' \<and> \<not> c"
    "Contains (field_text c f i) ''fmt.'' \<longleftrightarrow> f = ''CPULimit'' \<or> f = ''MemoryLimit''"
proof -
  from assms have p: "(f, i) \<in> set accepted_pairs" by (simp add: takes_name_iff)
  then have d: "CHR ''.'' \<notin> set f" "CHR ''.'' \<notin> set i" using accepted_plain by (auto simp only: list_all_iff)
  consider "f = ''Start''" | "f = ''CPULimit'' \<or> f = ''MemoryLimit''" | "f \<notin> {''Start'', ''CPULimit'', ''MemoryLimit''}"
    by blast
  then have "(Contains (field_text c f i) ''context.'' \<longleftrightarrow> f = ''Start'' \<and> \<not> c) \<and>
    (Contains (field_text c f i) ''fmt.'' \<longleftrightarrow> f = ''CPULimit'' \<or> f = ''MemoryLimit'')"
  proof cases
    case 1
    then show ?thesis using start_lines [of i] by (cases c) simp_all
  next
    case 2
    with p limit_lines [of c] have "\<not> Contains (field_text c f i) ''context.''" "Contains (field_text c f i) ''fmt.''"
      unfolding list_all_iff by fastforce+
    with 2 show ?thesis by auto
  next
    case 3
    from other_lines [OF d 3, of c] Contains_set [of "field_text c f i"] have
      "\<not> Contains (field_text c f i) ''context.''" "\<not> Contains (field_text c f i) ''fmt.''" by force+
    with 3 show ?thesis by auto
  qed
  then show "Contains (field_text c f i) ''context.'' \<longleftrightarrow> f = ''Start'' \<and> \<not> c"
    "Contains (field_text c f i) ''fmt.'' \<longleftrightarrow> f = ''CPULimit'' \<or> f = ''MemoryLimit''" by blast+
qed

lemma line_uses:
  assumes "decls_ok d" "declares d f"
  shows "Contains (fieldLine d f) ''context.'' \<longleftrightarrow> f = ''Start'' \<and> \<not> ga_startTakesContext d"
    "Contains (fieldLine d f) ''fmt.'' \<longleftrightarrow> f = ''CPULimit'' \<or> f = ''MemoryLimit''"
proof -
  from assms(2) obtain i where i: "map_of (ga_declared d) f = Some i" by (auto simp: declares_def)
  with assms(1) have "takes_name f i" by (auto simp: decls_ok_def)
  from text_uses [OF this] show "Contains (fieldLine d f) ''context.'' \<longleftrightarrow> f = ''Start'' \<and> \<not> ga_startTakesContext d"
    "Contains (fieldLine d f) ''fmt.'' \<longleftrightarrow> f = ''CPULimit'' \<or> f = ''MemoryLimit''"
    by (simp_all add: fieldLine_def i)
qed

lemma fields_sorted: "decls_ok d \<Longrightarrow> set (sortedFields (ga_declared d)) = {f. declares d f} \<and>
    distinct (sortedFields (ga_declared d)) \<and> sorted (sortedFields (ga_declared d))"
  by (auto simp: sortedFields_def declares_def decls_ok_def gomap_ok_def set_keys)

text \<open>A scanned agent has an \<^verbatim>\<open>ID\<close> and a \<^verbatim>\<open>Start\<close>. The program generated around it registers every
  field some declaration makes once, in the order of the names; it imports \<^verbatim>\<open>context\<close> and \<^verbatim>\<open>fmt\<close> exactly
  when a line uses them, as Go refuses both an import that is not used and a package that is not
  imported; and its text does not depend on the order in which the map of declarations is ranged over.\<close>

theorem generated_main_exact:
  assumes "scanGoAgent h parse path = Inr d"
  shows "declares d ''ID'' \<and> declares d ''Start'' \<and>
    set (sortedFields (ga_declared d)) = {f. declares d f} \<and>
    distinct (sortedFields (ga_declared d)) \<and> sorted (sortedFields (ga_declared d)) \<and>
    (quoted ''context'' \<in> set (main_imports adk d) \<longleftrightarrow>
      (\<exists>f \<in> set (sortedFields (ga_declared d)). Contains (fieldLine d f) ''context.'')) \<and>
    (quoted ''fmt'' \<in> set (main_imports adk d) \<longleftrightarrow>
      (\<exists>f \<in> set (sortedFields (ga_declared d)). Contains (fieldLine d f) ''fmt.'')) \<and>
    (\<forall>m. mset m = mset (ga_declared d) \<longrightarrow> generateMain name adk (d \<lparr>ga_declared := m\<rparr>) = generateMain name adk d)"
proof -
  from scan_result [OF assms] have ok: "decls_ok d" and dcl: "declares d ''ID''" "declares d ''Start''" by blast+
  note fs = fields_sorted [OF ok]
  have ctx: "quoted ''context'' \<in> set (main_imports adk d) \<longleftrightarrow> needsContextImport d"
    by (auto simp: main_imports_def quoted_def)
  have fmt: "quoted ''fmt'' \<in> set (main_imports adk d) \<longleftrightarrow> needsFmtImport d"
    by (auto simp: main_imports_def quoted_def)
  have same: "generateMain name adk (d \<lparr>ga_declared := m\<rparr>) = generateMain name adk d" if "mset m = mset (ga_declared d)" for m
  proof -
    have k: "mset (keys m) = mset (keys (ga_declared d))" using that by (simp add: keys_def)
    then have "gomap_ok m" using ok by (auto simp: decls_ok_def gomap_ok_def dest: mset_eq_imp_distinct_iff)
    then have mo: "map_of m = map_of (ga_declared d)"
      using that ok by (intro map_of_inject_set [THEN iffD2]) (auto simp: decls_ok_def gomap_ok_def keys_def dest: mset_eq_setD)
    have "sortedFields m = sortedFields (ga_declared d)"
      unfolding sortedFields_def by (rule properties_for_sort) (use k in auto)
    moreover have "fieldLine (d \<lparr>ga_declared := m\<rparr>) = fieldLine d" by (rule ext) (simp add: fieldLine_def mo)
    ultimately show ?thesis
      by (simp add: generateMain_def main_imports_def needsContextImport_def needsFmtImport_def declares_def mo)
  qed
  have "(\<exists>f \<in> set (sortedFields (ga_declared d)). Contains (fieldLine d f) ''context.'') \<longleftrightarrow> needsContextImport d"
    using fs dcl line_uses(1) [OF ok] by (auto simp: needsContextImport_def)
  moreover have "(\<exists>f \<in> set (sortedFields (ga_declared d)). Contains (fieldLine d f) ''fmt.'') \<longleftrightarrow> needsFmtImport d"
    using fs line_uses(2) [OF ok] by (auto simp: needsFmtImport_def)
  ultimately show ?thesis using ctx fmt fs dcl same by blast
qed

section \<open>Where a file goes\<close>

lemma Contains_middle: "Contains (a @ p @ b) p"
  unfolding Contains_iff by blast

lemma scaffold_routed:
  assumes "map_of agentScaffolds (lang, typ) = Some (template, fileName)"
  shows "(lang = ''go'' \<and> isGoAgentFile (fileName n)) \<or> (lang = ''python'' \<and> is_python_unit (fileName n))"
    "HasSuffix (fileName n) (''.'' @ typ)"
proof -
  have g: "Contains (langFile ''go'' t n) ''.go.''" for t
    using Contains_middle [of n "''.go.''" t] by (simp add: langFile_def)
  have p: "Contains (langFile ''py'' t n) ''.py.''" for t
    using Contains_middle [of n "''.py.''" t] by (simp add: langFile_def)
  have sf: "HasSuffix (langFile l t n) (''.'' @ t)" for l t
    unfolding HasSuffix_iff langFile_def by (rule exI [of _ "n @ ''.'' @ l"]) simp
  from assms show "(lang = ''go'' \<and> isGoAgentFile (fileName n)) \<or> (lang = ''python'' \<and> is_python_unit (fileName n))"
    "HasSuffix (fileName n) (''.'' @ typ)"
    by (auto simp: agentScaffolds_def isGoAgentFile_def is_python_unit_def goAgentTypes_def g p
        sf [unfolded append.simps] split: if_splits)
qed

lemma Ext_suffix: "CHR ''.'' \<notin> set t \<Longrightarrow> HasSuffix n (''.'' @ t) \<Longrightarrow> Ext n = ''.'' @ t"
proof -
  assume t: "CHR ''.'' \<notin> set t" and "HasSuffix n (''.'' @ t)"
  then obtain a where n: "n = a @ ''.'' @ t" by (auto simp: HasSuffix_iff)
  have "takeWhile (\<lambda>c. c \<noteq> CHR ''.'') (rev n) = rev t" using t unfolding n by (induction t rule: rev_induct) auto
  then show ?thesis by (simp add: Ext_def n)
qed

text \<open>A built Go agent keeps the name of its source, so discovery runs it and asks it to describe
  itself - unless the name also has \<^verbatim>\<open>.py.\<close> in it, when it is given to the Python runner instead.\<close>

theorem built_agent_routed:
  assumes "isGoAgentFile (w_name e)" "w_mode e = Some mode" "mode AND 0x49 \<noteq> 0"
  shows "visit h am e agents =
    (case (if Contains (w_name e) ''.py.'' then pythonDescribe h am (w_path e) else binaryDescribe h am (w_path e)) of
       Inl _ \<Rightarrow> agents | Inr d \<Rightarrow> processDiscovered am (w_path e) d agents)"
proof -
  have "is_python_unit (w_name e) \<longleftrightarrow> Contains (w_name e) ''.py.''"
    using assms(1) by (auto simp: isGoAgentFile_def is_python_unit_def goAgentTypes_def)
  moreover have "Ext (w_name e) \<in> {''.service'', ''.timer'', ''.socket''}"
    using assms(1) Ext_suffix [of "''service''"] Ext_suffix [of "''timer''"] Ext_suffix [of "''socket''"]
    by (auto simp: isGoAgentFile_def goAgentTypes_def)
  ultimately show ?thesis using assms(2, 3) by (auto simp: visit_def)
qed

end
