(* ===== verification/AgentBuild.thy ===== *)
theory AgentBuild
  imports AdkPath AgentSource Signing
begin

text \<open>
  Building Go agents: the staging of \<^verbatim>\<open>pkg/cli/agent_go_adk.go\<close>, the build of
  \<^verbatim>\<open>agent_go_build.go\<close> and \<^verbatim>\<open>agent_go_cgo.go\<close>, and the commands of \<^verbatim>\<open>agent.go\<close>. What the
  host answers - the listing of directories, which of them can be made and which files written, Go's
  parser and compiler - is a \<open>build_env\<close>; the files are \<open>host_files\<close>.
\<close>

section \<open>Staging\<close>

text \<open>The entries of a tree in the order of a walk, each with its depth below the root.\<close>

record tree_entry =
  te_depth :: nat
  te_path :: string
  te_isDir :: bool
  te_regular :: bool
  te_failed :: bool

record build_env =
  be_product :: string
  be_mkdir :: "string \<Rightarrow> bool"
  be_writable :: "string \<Rightarrow> bool"
  be_list :: "string \<Rightarrow> (string \<times> bool) list option"
  be_walk :: "string \<Rightarrow> tree_entry list"
  be_parse :: "string \<Rightarrow> (string, go_file) result"
  be_hasGo :: bool
  be_adk :: "(go_adk_error, goADK) result"
  be_temp :: "string option"
  be_hashed :: "host_files \<Rightarrow> (string \<times> bool) list option"
  be_digest :: "string \<Rightarrow> string"
  be_cgoFlag :: "bool option"
  be_env :: "string \<Rightarrow> string option"
  be_lookPath :: "string \<Rightarrow> bool"
  be_compile :: "string \<Rightarrow> string \<Rightarrow> host_files \<Rightarrow> string option"

definition adkModulePath :: string where "adkModulePath = ''github.com/goppydae/gapi/adk/go''"
definition adkImportPath :: string where "adkImportPath = adkModulePath @ ''/agent''"
definition sharedModulePath :: string where "sharedModulePath = ''github.com/goppydae/gapi''"
definition protobufModulePath :: string where "protobufModulePath = ''google.golang.org/protobuf''"
definition sharedStageDir :: string where "sharedStageDir = ''sdk''"
definition protobufStageDir :: string where "protobufStageDir = ''protobuf''"

datatype stage_error = StageDirFailed string | SourceUnlisted string | SuspiciousEntry string | EntryUnread string safeio_error
  | EntryEscapes string safeio_error | EntryUnwritten string | NoGoSources string string | WalkBroken | NotRelative string
  | StageUnwritten string | BadSource source_error

definition is_compiled :: "string \<times> bool \<Rightarrow> bool" where
  "is_compiled e \<longleftrightarrow> \<not> snd e \<and> HasSuffix (fst e) ''.go'' \<and> \<not> HasSuffix (fst e) ''_test.go''"

fun copy_entries :: "build_env \<Rightarrow> string \<Rightarrow> string \<Rightarrow> (string \<times> bool) list \<Rightarrow> nat \<Rightarrow> host_files
    \<Rightarrow> (stage_error, nat) result \<times> host_files" where
  "copy_entries env src dst [] copied h = (Inr copied, h)"
| "copy_entries env src dst (e # es) copied h =
     (let name = Base (fst e) in
      if name \<noteq> fst e then (Inl (SuspiciousEntry (fst e)), h)
      else if \<not> is_compiled e then copy_entries env src dst es copied h
      else case ReadFileUnder (cwd h) (file_content h) src (JoinPath [src, name]) of
        Inl er \<Rightarrow> (Inl (EntryUnread name er), h)
      | Inr data \<Rightarrow>
        (case ResolveUnder (cwd h) dst (JoinPath [dst, name]) of
           Inl er \<Rightarrow> (Inl (EntryEscapes name er), h)
         | Inr out \<Rightarrow>
           if \<not> be_writable env out then (Inl (EntryUnwritten name), h)
           else copy_entries env src dst es (Suc copied) (put_file out data h)))"

definition copyGoPackage :: "build_env \<Rightarrow> string \<Rightarrow> string \<Rightarrow> string \<Rightarrow> host_files \<Rightarrow> stage_error option \<times> host_files" where
  "copyGoPackage env src dst origin h =
     (if \<not> be_mkdir env dst then (Some (StageDirFailed dst), h)
      else case be_list env src of
        None \<Rightarrow> (Some (SourceUnlisted src), h)
      | Some entries \<Rightarrow>
        (case copy_entries env src dst entries 0 h of
           (Inl e, h1) \<Rightarrow> (Some e, h1)
         | (Inr copied, h1) \<Rightarrow> (if copied = 0 then Some (NoGoSources src origin) else None, h1)))"

fun copy_tree :: "build_env \<Rightarrow> string \<Rightarrow> string \<Rightarrow> tree_entry list \<Rightarrow> host_files \<Rightarrow> stage_error option \<times> host_files" where
  "copy_tree env src dst [] h = (None, h)"
| "copy_tree env src dst (e # es) h =
     (if te_failed e then (Some WalkBroken, h)
      else case Rel src (te_path e) of
        None \<Rightarrow> (Some (NotRelative (te_path e)), h)
      | Some rel \<Rightarrow>
        (case ResolveUnder (cwd h) dst (JoinPath [dst, rel]) of
           Inl er \<Rightarrow> (Some (EntryEscapes rel er), h)
         | Inr target \<Rightarrow>
           if te_isDir e then
             (if be_mkdir env target then copy_tree env src dst es h else (Some (StageDirFailed target), h))
           else if \<not> te_regular e then copy_tree env src dst es h
           else (case ReadFileUnder (cwd h) (file_content h) src (te_path e) of
               Inl er \<Rightarrow> (Some (EntryUnread rel er), h)
             | Inr data \<Rightarrow>
               if be_writable env target then copy_tree env src dst es (put_file target data h)
               else (Some (StageUnwritten target), h))))"

definition copyTree :: "build_env \<Rightarrow> string \<Rightarrow> string \<Rightarrow> host_files \<Rightarrow> stage_error option \<times> host_files" where
  "copyTree env src dst h = copy_tree env src dst (be_walk env src) h"

fun write_all :: "build_env \<Rightarrow> (string, string) gomap \<Rightarrow> host_files \<Rightarrow> stage_error option \<times> host_files" where
  "write_all env [] h = (None, h)"
| "write_all env ((path, body) # ms) h =
     (if be_writable env path then write_all env ms (put_file path body h) else (Some (StageUnwritten path), h))"

text \<open>One step after another, the first error ending them.\<close>

definition and_then :: "stage_error option \<times> host_files \<Rightarrow> (host_files \<Rightarrow> stage_error option \<times> host_files)
    \<Rightarrow> stage_error option \<times> host_files" where
  "and_then r f = (case r of (Some e, h) \<Rightarrow> (Some e, h) | (None, h) \<Rightarrow> f h)"

text \<open>The files of the map are written in one of its orders.\<close>

definition stage_mods :: "string \<Rightarrow> goADK \<Rightarrow> (string, string) gomap" where
  "stage_mods dir adk =
     (let root = JoinPath [dir, sharedStageDir] in
      [(JoinPath [dir, ''go.mod''],
         ''module agentbuild.local/agent'' @ newline @ newline @ ''go '' @ go_Directive adk @ newline @ newline @
         ''require ('' @ newline @ tab @ sharedModulePath @ '' v0.0.0'' @ newline @ tab @ protobufModulePath @ '' v0.0.0'' @ newline @ '')'' @
         newline @ newline @ ''replace '' @ sharedModulePath @ '' => ./'' @ sharedStageDir @ newline @ newline @
         ''replace '' @ protobufModulePath @ '' => ./'' @ protobufStageDir @ newline),
       (JoinPath [root, ''go.mod''],
         ''module '' @ sharedModulePath @ newline @ newline @ ''go '' @ go_Directive adk @ newline @ newline @
         ''require '' @ protobufModulePath @ '' v0.0.0'' @ newline),
       (JoinPath [dir, protobufStageDir, ''go.mod''],
         ''module '' @ protobufModulePath @ newline @ newline @ ''go '' @ go_Directive adk @ newline)])"

definition stageADK :: "build_env \<Rightarrow> string \<Rightarrow> goADK \<Rightarrow> host_files \<Rightarrow> stage_error option \<times> host_files" where
  "stageADK env dir adk h =
     (let root = JoinPath [dir, sharedStageDir] in
      and_then (copyGoPackage env (JoinPath [go_Dir adk, adkRelDir]) (JoinPath [root, adkRelDir]) (go_Dir adk) h) (\<lambda>h.
      and_then (copyGoPackage env (JoinPath [go_Dir adk, protoRelDir]) (JoinPath [root, protoRelDir]) (go_Dir adk) h) (\<lambda>h.
      and_then (copyTree env (JoinPath [go_Dir adk, protobufRelDir]) (JoinPath [dir, protobufStageDir]) h) (\<lambda>h.
      write_all env (stage_mods dir adk) h))))"

definition assembleGoAgent :: "build_env \<Rightarrow> string \<Rightarrow> string \<Rightarrow> goADK \<Rightarrow> host_files \<Rightarrow> stage_error option \<times> host_files" where
  "assembleGoAgent env srcPath dir adk h =
     (case scanGoAgent h (be_parse env) srcPath of
        Inl e \<Rightarrow> (Some (BadSource e), h)
      | Inr d \<Rightarrow>
        and_then (write_all env [(JoinPath [dir, ''agent.go''], sourceAsMain d)] h) (\<lambda>h.
        and_then (write_all env [(JoinPath [dir, ''main.go''], generateMain (be_product env) adkImportPath d)] h) (\<lambda>h.
        stageADK env dir adk h)))"

section \<open>Building\<close>

definition stagedCGOEnv :: "build_env \<Rightarrow> string" where
  "stagedCGOEnv env =
     (case be_cgoFlag env of
        Some True \<Rightarrow> ''CGO_ENABLED=1''
      | Some False \<Rightarrow> ''CGO_ENABLED=0''
      | None \<Rightarrow>
        (case be_env env ''CGO_ENABLED'' of
           Some v \<Rightarrow> if v \<noteq> [] then ''CGO_ENABLED='' @ v else ''CGO_ENABLED=0''
         | None \<Rightarrow> ''CGO_ENABLED=0''))"

text \<open>The compiler that is missing, if one is.\<close>

definition preflightCGO :: "build_env \<Rightarrow> string \<Rightarrow> string option" where
  "preflightCGO env cgoEnv =
     (if cgoEnv \<noteq> ''CGO_ENABLED=1'' then None
      else
        let cc = (case be_env env ''CC'' of Some v \<Rightarrow> if v = [] then ''gcc'' else v | None \<Rightarrow> ''gcc'')
        in if be_lookPath env cc then None else Some cc)"

datatype build_error = NoToolchain | NoKit go_adk_error | NoStageDir | NotAssembled stage_error | NotHashed hash_dir_error
  | OutputDirFailed string | OutputUnresolved | NoCompiler string | CompileFailed string | NotAGoAgent string
  | BinaryUnhashed safeio_error | BuildUnwritten string | SignNeedsKey | SigningKeyBad string
  | NoAgentsIn string | ScanFailed | SomeFailed nat nat | SourceMissing

definition remove_all :: "string \<Rightarrow> host_files \<Rightarrow> host_files" where
  "remove_all dir h = h \<lparr>file_content := (\<lambda>p. if p = dir \<or> HasPrefix p (dir @ ''/'') then None else file_content h p)\<rparr>"

text \<open>The binary's path and the hash of what was compiled; the stage is gone in every case.\<close>

definition buildGoAgent :: "build_env \<Rightarrow> string \<Rightarrow> string \<Rightarrow> host_files \<Rightarrow> (build_error, string \<times> string) result \<times> host_files" where
  "buildGoAgent env srcPath outDir h =
     (if \<not> be_hasGo env then (Inl NoToolchain, h)
      else case be_adk env of
        Inl e \<Rightarrow> (Inl (NoKit e), h)
      | Inr adk \<Rightarrow>
        (case be_temp env of
           None \<Rightarrow> (Inl NoStageDir, h)
         | Some stage \<Rightarrow>
           (case assembleGoAgent env srcPath stage adk h of
              (Some e, h1) \<Rightarrow> (Inl (NotAssembled e), remove_all stage h1)
            | (None, h1) \<Rightarrow>
              (case HashDirectory (be_digest env) h1 (be_hashed env h1) stage of
                 Inl e \<Rightarrow> (Inl (NotHashed e), remove_all stage h1)
               | Inr sourceHash \<Rightarrow>
                 if \<not> be_mkdir env outDir then (Inl (OutputDirFailed outDir), remove_all stage h1)
                 else case Abs (cwd h1) (JoinPath [outDir, goAgentArtifact srcPath]) of
                   None \<Rightarrow> (Inl OutputUnresolved, remove_all stage h1)
                 | Some out \<Rightarrow>
                   (case preflightCGO env (stagedCGOEnv env) of
                      Some cc \<Rightarrow> (Inl (NoCompiler cc), remove_all stage h1)
                    | None \<Rightarrow>
                      (case be_compile env (''-X '' @ adkImportPath @ ''.SourceHash='' @ sourceHash) (stagedCGOEnv env) h1 of
                         None \<Rightarrow> (Inl (CompileFailed (Base srcPath)), remove_all stage h1)
                       | Some bin \<Rightarrow> (Inr (out, sourceHash), remove_all stage (put_file out bin h1))))))))"

text \<open>\<open>signing\<close> is \<open>None\<close> without \<^verbatim>\<open>--sign\<close>, otherwise the path of the key.\<close>

definition buildAgent :: "build_env \<Rightarrow> (string \<Rightarrow> (string, string) result) \<Rightarrow> (string \<Rightarrow> string \<Rightarrow> string) \<Rightarrow> string
    \<Rightarrow> string option \<Rightarrow> string \<Rightarrow> host_files \<Rightarrow> build_error option \<times> host_files" where
  "buildAgent env load_private sign outputDir signing sourcePath h =
     (if \<not> isGoAgentFile (Base sourcePath) then (Some (NotAGoAgent sourcePath), h)
      else case buildGoAgent env sourcePath outputDir h of
        (Inl e, h1) \<Rightarrow> (Some e, h1)
      | (Inr (out, _), h1) \<Rightarrow>
        (case HashFile (be_digest env) h1 out of
           Inl e \<Rightarrow> (Some (BinaryUnhashed e), h1)
         | Inr hash \<Rightarrow>
           if \<not> be_writable env (out @ ''.b3'') then (Some (BuildUnwritten (out @ ''.b3'')), h1)
           else
             let h2 = put_file (out @ ''.b3'') (hash @ newline) h1 in
             case signing of
               None \<Rightarrow> (None, h2)
             | Some keyPath \<Rightarrow>
               if keyPath = [] then (Some SignNeedsKey, h2)
               else (case load_private keyPath of
                   Inl e \<Rightarrow> (Some (SigningKeyBad e), h2)
                 | Inr priv \<Rightarrow>
                   if \<not> be_writable env (out @ ''.sig'') then (Some (BuildUnwritten (out @ ''.sig'')), h2)
                   else (None, put_file (out @ ''.sig'') (EncodeToString (sign priv hash) @ newline) h2))))"

text \<open>Every source is built, in the order found; \<open>build\<close> is \<^verbatim>\<open>buildAgent\<close> with the flags of the command.\<close>

fun build_each :: "(string \<Rightarrow> host_files \<Rightarrow> build_error option \<times> host_files) \<Rightarrow> string list \<Rightarrow> nat \<Rightarrow> host_files \<Rightarrow> nat \<times> host_files" where
  "build_each build [] failed h = (failed, h)"
| "build_each build (src # srcs) failed h =
     (case build src h of (e, h1) \<Rightarrow> build_each build srcs (if e = None then failed else Suc failed) h1)"

definition buildDirectory :: "(string \<Rightarrow> host_files \<Rightarrow> build_error option \<times> host_files) \<Rightarrow> walk_entry list \<Rightarrow> string
    \<Rightarrow> host_files \<Rightarrow> build_error option \<times> host_files" where
  "buildDirectory build walk dir h =
     (case findGoAgents walk of
        None \<Rightarrow> (Some ScanFailed, h)
      | Some [] \<Rightarrow> (Some (NoAgentsIn dir), h)
      | Some sources \<Rightarrow>
        (case build_each build sources 0 h of
           (failed, h1) \<Rightarrow> (if failed > 0 then Some (SomeFailed failed (length sources)) else None, h1)))"

text \<open>Without \<^verbatim>\<open>--watch\<close>; \<open>kind\<close> tells whether the path is a directory, \<open>None\<close> when it is not there.\<close>

definition runAgentBuild :: "(string \<Rightarrow> host_files \<Rightarrow> build_error option \<times> host_files) \<Rightarrow> bool option \<Rightarrow> walk_entry list \<Rightarrow> string
    \<Rightarrow> host_files \<Rightarrow> build_error option \<times> host_files" where
  "runAgentBuild build kind walk sourcePath h =
     (case kind of
        None \<Rightarrow> (Some SourceMissing, h)
      | Some isDir \<Rightarrow> if isDir then buildDirectory build walk sourcePath h else build sourcePath h)"

definition buildDirs :: "string list" where "buildDirs = [''agents/build/go'']"

definition clean_dir :: "(string \<Rightarrow> bool) \<Rightarrow> string \<Rightarrow> host_files \<Rightarrow> host_files" where
  "clean_dir missing dir h =
     (if missing dir then h else case Abs (cwd h) dir of None \<Rightarrow> h | Some d \<Rightarrow> remove_all d h)"

definition runAgentClean :: "(string \<Rightarrow> bool) \<Rightarrow> host_files \<Rightarrow> host_files" where
  "runAgentClean missing h = fold (clean_dir missing) buildDirs h"

section \<open>Watching\<close>

text \<open>The directories watched, \<open>None\<close> when the walk fails. What is below a skipped
  directory is deeper than it; adding a directory to the watcher is taken to succeed.\<close>

function add_watch :: "tree_entry list \<Rightarrow> string list \<Rightarrow> string list option" where
  "add_watch [] acc = Some acc"
| "add_watch (e # es) acc =
     (if te_failed e then None
      else if te_isDir e then
        (if hd (Base (te_path e)) = CHR ''.'' \<or> Base (te_path e) = ''build''
         then add_watch (dropWhile (\<lambda>x. te_depth x > te_depth e) es) acc
         else add_watch es (acc @ [te_path e]))
      else add_watch es acc)"
  by pat_completeness auto
termination
  by (relation "measure (length \<circ> fst)") (auto simp: le_imp_less_Suc [OF length_dropWhile_le])

definition addWatchRecursive :: "tree_entry list \<Rightarrow> string list option" where
  "addWatchRecursive walk = add_watch walk []"

text \<open>What reaches the loop: a change with whether it is a write or a creation, the end of 300 ms
  without one, an error of the watcher, or the end of a channel. The result is the changes that
  started a rebuild.\<close>

datatype watch_event = Changed string bool | Debounced | Watcher_error | Watcher_closed

fun watch_loop :: "string option \<Rightarrow> watch_event list \<Rightarrow> string list" where
  "watch_loop pending [] = []"
| "watch_loop pending (Changed n op # es) =
     (if \<not> isGoAgentFile (Base n) then watch_loop pending es
      else if hd (Base n) = CHR ''.'' then watch_loop pending es
      else if op then watch_loop (Some n) es else watch_loop pending es)"
| "watch_loop pending (Debounced # es) =
     (case pending of None \<Rightarrow> watch_loop None es | Some n \<Rightarrow> n # watch_loop None es)"
| "watch_loop pending (Watcher_error # es) = watch_loop pending es"
| "watch_loop pending (Watcher_closed # es) = []"

section \<open>Components of paths\<close>

lemma split_on_at: "split_on sep (a @ sep # b) = split_on sep a @ split_on sep b"
  by (induction a) (auto split: list.splits)

lemma comps_slash: "comps (a @ ''/'' @ b) = comps a @ comps b"
  by (simp add: comps_def split_on_at)

lemma clean_comps_comp_ok: "\<forall>c \<in> set cs. comp_ok c \<Longrightarrow> \<forall>c \<in> set (clean_comps r cs). comp_ok c"
proof -
  assume cs: "\<forall>c \<in> set cs. comp_ok c"
  have dd: "comp_ok ''..''" by (simp add: comp_ok_def)
  have "\<forall>x \<in> set (fold (clean_step r) cs st). comp_ok x" if "\<forall>x \<in> set st. comp_ok x" for st
    using cs that
  proof (induction cs arbitrary: st)
    case (Cons c cs)
    then have "\<forall>x \<in> set (clean_step r c st). comp_ok x" using dd by (auto split: list.splits)
    with Cons show ?case by (simp del: clean_step.simps)
  qed simp
  from this [of "[]"] show ?thesis by (simp add: clean_comps_def)
qed

lemma comps_Clean: "comps (Clean p) = clean_comps (IsAbs p) (comps p)"
proof -
  let ?cs = "clean_comps (IsAbs p) (comps p)"
  have "\<forall>c \<in> set ?cs. comp_ok c" by (rule clean_comps_comp_ok) (simp add: comps_ok)
  from comps_Join [OF this] show ?thesis
    by (auto simp: Clean_def of_comps_def comps_rooted) (simp add: comps_def)
qed

lemma clean_comps_last: "b \<noteq> ''..'' \<Longrightarrow> clean_comps r (cs @ [b]) = clean_comps r cs @ [b]"
  by (simp add: clean_comps_def)

definition last_comp :: "string \<Rightarrow> string \<Rightarrow> bool" where
  "last_comp b p \<longleftrightarrow> (\<exists>ds. comps p = ds @ [b])"

lemma last_comp_Clean: "last_comp b p \<Longrightarrow> b \<noteq> ''..'' \<Longrightarrow> last_comp b (Clean p)"
  by (auto simp: last_comp_def comps_Clean clean_comps_last)

lemma last_comp_Join: "last_comp b p \<Longrightarrow> b \<noteq> ''..'' \<Longrightarrow> last_comp b (JoinPath [a, p])"
proof -
  assume b: "last_comp b p" "b \<noteq> ''..''"
  then have "p \<noteq> []" by (auto simp: last_comp_def comps_def)
  moreover have "last_comp b (a @ ''/'' @ p)" using b(1) by (auto simp: last_comp_def comps_slash [simplified])
  ultimately show ?thesis using b last_comp_Clean by (cases "a = []") (auto simp: JoinPath_def)
qed

lemma last_comp_Abs: "Abs wd p = Some a \<Longrightarrow> last_comp b p \<Longrightarrow> b \<noteq> ''..'' \<Longrightarrow> last_comp b a"
  by (auto simp: Abs_def last_comp_Clean last_comp_Join split: if_splits)

lemma resolved_again: "\<forall>c \<in> set cs. name_ok c \<Longrightarrow> ResolvePath wd (abs_path cs) = Inr (abs_path cs)"
  using abs_path_facts [of cs] by (simp add: ResolvePath_def Abs_def) (simp add: abs_path_def)

section \<open>Where the staging writes\<close>

definition below :: "string \<Rightarrow> string \<Rightarrow> bool" where
  "below root p \<longleftrightarrow> (\<exists>rs ps. (\<forall>c \<in> set (rs @ ps). name_ok c) \<and> root = abs_path rs \<and> p = abs_path (rs @ ps))"

lemma ResolvePath_names:
  assumes "ResolvePath wd p = Inr q" "pred_option IsAbs wd"
  obtains cs where "q = abs_path cs" "\<forall>c \<in> set cs. name_ok c"
proof -
  from assms(1) have "Abs wd (Clean p) = Some q" by (auto simp: ResolvePath_def split: if_splits option.splits)
  from Abs_cases [OF this assms(2)] that show ?thesis by blast
qed

lemma ResolveUnder_below:
  assumes "ResolveUnder wd root p = Inr q" "pred_option IsAbs wd"
  shows "\<exists>r. ResolvePath wd root = Inr r \<and> below r q \<and> ResolvePath wd q = Inr q"
proof -
  from assms(1) obtain r where r: "ResolvePath wd root = Inr r" "ResolvePath wd p = Inr q"
    by (auto simp: ResolveUnder_def result_simps split: option.splits if_splits)
  obtain rs where rs: "r = abs_path rs" "\<forall>c \<in> set rs. name_ok c" using ResolvePath_names [OF r(1) assms(2)] .
  obtain qs where qs: "q = abs_path qs" "\<forall>c \<in> set qs. name_ok c" using ResolvePath_names [OF r(2) assms(2)] .
  have "prefix rs qs" using assms(1) r Rel_abs_paths [OF rs(2) qs(2)]
    by (auto simp: ResolveUnder_def rs(1) qs(1) split: option.splits if_splits)
  then obtain ps where ps: "qs = rs @ ps" by (auto simp: prefix_def)
  from rs qs have "below r q" unfolding below_def ps by blast
  then show ?thesis using r(1) resolved_again [OF qs(2)] qs(1) by auto
qed

lemma content_put: "ResolvePath (cwd h) q = Inr q \<Longrightarrow> file_content (put_file q c h) p = (if p = q then Some c else file_content h p)"
  by (simp add: put_file_def)

definition only_below :: "host_files \<Rightarrow> string \<Rightarrow> host_files \<Rightarrow> bool" where
  "only_below h dst h' \<longleftrightarrow> cwd h' = cwd h \<and>
     (\<forall>p. file_content h' p \<noteq> file_content h p \<longrightarrow> (\<exists>r. ResolvePath (cwd h) dst = Inr r \<and> below r p))"

lemma only_below_refl: "only_below h dst h"
  by (simp add: only_below_def)

lemma only_below_put:
  assumes "pred_option IsAbs (cwd h)" "ResolveUnder (cwd h) dst x = Inr q" "only_below (put_file q c h) dst h'"
  shows "only_below h dst h'"
proof -
  obtain r where r: "ResolvePath (cwd h) dst = Inr r" "below r q" "ResolvePath (cwd h) q = Inr q"
    using ResolveUnder_below [OF assms(2, 1)] by blast
  have "\<exists>r. ResolvePath (cwd h) dst = Inr r \<and> below r p" if "file_content h' p \<noteq> file_content h p" for p
    using assms(3) that r content_put [OF r(3), of c p] by (cases "p = q") (auto simp: only_below_def)
  with assms(3) show ?thesis by (auto simp: only_below_def)
qed

lemma copy_entries_below:
  "pred_option IsAbs (cwd h) \<Longrightarrow> only_below h dst (snd (copy_entries env src dst es n h))"
proof (induction env src dst es n h rule: copy_entries.induct)
  case (2 env src dst e es n h)
  show ?case
  proof (cases "is_compiled e \<and> Base (fst e) = fst e")
    case False
    then show ?thesis using 2 by (auto simp: only_below_refl Let_def)
  next
    case True
    show ?thesis
    proof (cases "ReadFileUnder (cwd h) (file_content h) src (JoinPath [src, fst e])")
      case (Inr d)
      show ?thesis
      proof (cases "ResolveUnder (cwd h) dst (JoinPath [dst, fst e])")
        case (Inr out)
        show ?thesis
        proof (cases "be_writable env out")
          case w: True
          have "only_below (put_file out d h) dst (snd (copy_entries env src dst es (Suc n) (put_file out d h)))"
            using "2.IH"(2) [OF refl] True \<open>ReadFileUnder _ _ _ _ = Inr d\<close> Inr w 2(3) by simp
          from only_below_put [OF 2(3) Inr this] show ?thesis
            using True \<open>ReadFileUnder _ _ _ _ = Inr d\<close> Inr w by (simp add: Let_def)
        next
          case False
          then show ?thesis using True \<open>ReadFileUnder _ _ _ _ = Inr d\<close> Inr by (simp add: only_below_refl Let_def)
        qed
      next
        case (Inl er)
        then show ?thesis using True \<open>ReadFileUnder _ _ _ _ = Inr d\<close> by (simp add: only_below_refl Let_def)
      qed
    next
      case (Inl er)
      then show ?thesis using True by (simp add: only_below_refl Let_def)
    qed
  qed
qed (simp add: only_below_refl)

lemma copy_tree_below:
  "pred_option IsAbs (cwd h) \<Longrightarrow> only_below h dst (snd (copy_tree env src dst es h))"
proof (induction env src dst es h rule: copy_tree.induct)
  case (2 env src dst e es h)
  have put: "only_below h dst (snd (copy_tree env src dst es (put_file t d h)))"
    if "ResolveUnder (cwd h) dst x = Inr t" "only_below (put_file t d h) dst (snd (copy_tree env src dst es (put_file t d h)))" for t d x
    by (rule only_below_put [OF 2(4) that])
  show ?case
    using 2 by (auto simp: only_below_refl intro: put split: option.split sum.split)
qed (simp add: only_below_refl)

text \<open>Whatever the names in the source trees are, the copies write only at or below their
  destinations; no file elsewhere changes, also when a copy fails half way.\<close>

theorem staging_confined:
  assumes "pred_option IsAbs (cwd h)"
    and "copyGoPackage env src dst origin h = (r, h') \<or> copyTree env src dst h = (r, h')"
    and "file_content h' p \<noteq> file_content h p"
  shows "\<exists>root. ResolvePath (cwd h) dst = Inr root \<and> below root p"
proof -
  have "only_below h dst h'" using assms(2)
  proof
    assume "copyGoPackage env src dst origin h = (r, h')"
    then show ?thesis using copy_entries_below [OF assms(1), of dst env src _ 0]
      by (auto simp: copyGoPackage_def only_below_refl split: if_splits option.splits prod.splits sum.splits) (metis snd_conv)+
  next
    assume "copyTree env src dst h = (r, h')"
    then show ?thesis using copy_tree_below [OF assms(1), of dst env src "be_walk env src"] by (simp add: copyTree_def)
  qed
  with assms(3) show ?thesis by (auto simp: only_below_def)
qed

section \<open>What a build leaves\<close>

lemma go_file_name:
  assumes "isGoAgentFile b" "CHR ''/'' \<notin> set b"
  shows "name_ok b" "name_ok (b @ ''.b3'')" "name_ok (b @ ''.sig'')" "comps b = [b]"
proof -
  from assms(1) obtain x y where "b = x @ ''.go.'' @ y" by (auto simp: isGoAgentFile_def Contains_iff)
  then have l: "4 \<le> length b" by simp
  then have "b \<noteq> []" "b \<noteq> ''.''" "b \<noteq> ''..''" by auto
  then show "name_ok b" using assms(2) by (simp add: name_ok_def comp_ok_def)
  from l have "length (b @ z) > 2" for z by simp
  then have "b @ z \<notin> {[], ''.'', ''..''}" for z by (metis insertE empty_iff length_Cons list.size(3) less_Suc_eq_0_disj not_less_eq numeral_2_eq_2)
  then show "name_ok (b @ ''.b3'')" "name_ok (b @ ''.sig'')" using assms(2) by (auto simp: name_ok_def comp_ok_def)
  show "comps b = [b]" using assms(2) \<open>b \<noteq> []\<close> \<open>b \<noteq> ''.''\<close> by (simp add: comps_def split_on_no_sep)
qed

lemma Base_no_slash: "Base p = ''/'' \<or> CHR ''/'' \<notin> set (Base p)"
proof -
  let ?s = "rev (dropWhile (\<lambda>c. c = CHR ''/'') (rev p))"
  have "CHR ''/'' \<notin> set (last (split_on CHR ''/'' ?s))"
    by (rule split_on_pieces [of _ _ ?s]) (simp add: last_in_set)
  then show ?thesis by (auto simp: Base_def Let_def)
qed

lemma artifact_plain:
  assumes "isGoAgentFile (Base src)" "Abs (cwd h) (JoinPath [outDir, goAgentArtifact src]) = Some out" "pred_option IsAbs (cwd h)"
  shows "plain_name h out"
proof -
  let ?b = "Base src"
  have ns: "CHR ''/'' \<notin> set ?b" using Base_no_slash [of src] assms(1) by (auto simp: isGoAgentFile_def HasPrefix_def)
  note b = go_file_name [OF assms(1) ns]
  have dd: "?b \<noteq> ''..''" using b(1) by (simp add: name_ok_def)
  have "last_comp ?b ?b" by (simp add: last_comp_def b(4))
  then have "last_comp ?b out" using last_comp_Abs [OF assms(2) _ dd] last_comp_Join [OF _ dd] by (simp add: goAgentArtifact_def)
  moreover obtain cs where cs: "out = abs_path cs" "\<forall>c \<in> set cs. name_ok c" using Abs_cases [OF assms(2, 3)] .
  ultimately obtain ds where ds: "cs = ds @ [?b]" using abs_path_facts(2) [OF cs(2)] by (auto simp: last_comp_def)
  have app: "abs_path (ds @ [c]) @ x = abs_path (ds @ [c @ x])" for c x
    by (cases "ds = []") (simp_all add: abs_path_def Join_snoc)
  have nd: "\<forall>c \<in> set ds. name_ok c" using cs(2) by (simp add: ds)
  have R: "ResolvePath (cwd h) (out @ x) = Inr (out @ x)" if "name_ok (?b @ x)" for x
    unfolding cs(1) ds app by (rule resolved_again) (use nd that in simp)
  show ?thesis unfolding plain_name_def
    using R [of "[]"] R [of "''.b3''"] R [of "''.sig''"] b by (simp only: append_Nil2 ball_simps simp_thms)
qed

lemma cwd_copy_entries [simp]: "cwd (snd (copy_entries env src dst es n h)) = cwd h"
  by (induction env src dst es n h rule: copy_entries.induct) (auto simp: Let_def split: sum.splits)

lemma cwd_copyGoPackage [simp]: "cwd (snd (copyGoPackage env src dst origin h)) = cwd h"
  by (auto simp: copyGoPackage_def split: option.splits prod.splits sum.splits) (metis cwd_copy_entries snd_conv)+

lemma cwd_copy_tree [simp]: "cwd (snd (copy_tree env src dst es h)) = cwd h"
  by (induction env src dst es h rule: copy_tree.induct) (auto split: sum.splits option.splits)

lemma cwd_write_all [simp]: "cwd (snd (write_all env ms h)) = cwd h"
  by (induction env ms h rule: write_all.induct) auto

lemma cwd_and_then: "cwd (snd r) = w \<Longrightarrow> (\<And>h. cwd h = w \<Longrightarrow> cwd (snd (f h)) = w) \<Longrightarrow> cwd (snd (and_then r f)) = w"
  by (cases r) (auto simp: and_then_def split: option.splits)

lemma cwd_assemble: "assembleGoAgent env srcPath dir adk h = (r, h1) \<Longrightarrow> cwd h1 = cwd h"
proof -
  have st: "cwd (snd (stageADK env dir adk g)) = cwd h" if "cwd g = cwd h" for g
    unfolding stageADK_def Let_def copyTree_def by (intro cwd_and_then) (simp_all add: that)
  have "cwd (snd (assembleGoAgent env srcPath dir adk h)) = cwd h"
    unfolding assembleGoAgent_def by (auto intro!: cwd_and_then simp: st split: sum.split)
  then show "assembleGoAgent env srcPath dir adk h = (r, h1) \<Longrightarrow> cwd h1 = cwd h" by simp
qed

lemma cwd_remove_all [simp]: "cwd (remove_all d h) = cwd h"
  by (simp add: remove_all_def)

lemma build_output:
  assumes "buildGoAgent env src outDir h = (Inr (out, sh), h1)"
  shows "cwd h1 = cwd h \<and> Abs (cwd h) (JoinPath [outDir, goAgentArtifact src]) = Some out"
  using assms by (auto simp: buildGoAgent_def dest: cwd_assemble split: if_splits sum.splits option.splits prod.splits)

text \<open>What \<^verbatim>\<open>agent build --sign\<close> leaves the daemon accepts under the key it was signed with, as long as
  the binary keeps its digest, and with any other content it reports the mismatch.\<close>

theorem built_agent_accepted:
  assumes built: "buildAgent env load_private sign outDir (Some keyPath) src h = (None, h2)"
    and key: "load_private keyPath = Inr priv" "pred_option IsAbs (cwd h)"
    and scheme: "\<forall>m. verify pub m (sign priv m)" "\<forall>m. int (length (sign priv m)) = SignatureSize" "int (length pub) = PublicKeySize"
  shows "\<exists>out bin. Abs (cwd h) (JoinPath [outDir, Base src]) = Some out \<and>
    ReadFile (cwd h2) (file_content h2) out = Inr bin \<and>
    (\<forall>c. VerifySignedBinary verify (be_digest env) (put_file out c h2) out pub =
       (if be_digest env c = be_digest env bin then Inr () else Inl DigestMismatch))"
proof -
  from built obtain out sh h1 where b: "isGoAgentFile (Base src)" "buildGoAgent env src outDir h = (Inr (out, sh), h1)"
    by (auto simp: buildAgent_def split: if_splits prod.splits sum.splits)
  from build_output [OF b(2)] have w: "cwd h1 = cwd h" "Abs (cwd h) (JoinPath [outDir, goAgentArtifact src]) = Some out" by blast+
  from built b obtain hash where hash: "HashFile (be_digest env) h1 out = Inr hash"
    by (auto simp: buildAgent_def split: sum.splits)
  then obtain bin where bin: "ReadFile (cwd h1) (file_content h1) out = Inr bin" "hash = EncodeToString (be_digest env bin)"
    by (auto simp: HashFile_def result_simps)
  let ?h = "put_file (out @ ''.b3'') (hash @ newline) h1"
  have h2: "h2 = put_file (out @ ''.sig'') (EncodeToString (sign priv hash) @ newline) ?h"
    using built b hash key(1) by (auto simp: buildAgent_def Let_def split: if_splits)
  have "plain_name h out" by (rule artifact_plain [OF b(1) w(2) key(2)])
  then have p: "plain_name h1 out" using w(1) by (simp add: plain_name_def)
  have q: "plain_name ?h out" "plain_name h2 out" using p by (simp_all add: h2)
  note r = read_put [OF p, where x = "''.b3''"] read_put [OF q(1), where x = "''.sig''"] read_put [OF q(2), where x = "[]"]
  have rd: "ReadFile (cwd (put_file out c h2)) (file_content (put_file out c h2)) out = Inr c"
    "ReadFile (cwd (put_file out c h2)) (file_content (put_file out c h2)) (out @ ''.b3'') = Inr (EncodeToString (be_digest env bin) @ newline)"
    "ReadFile (cwd (put_file out c h2)) (file_content (put_file out c h2)) (out @ ''.sig'') =
       Inr (EncodeToString (sign priv (EncodeToString (be_digest env bin))) @ newline)" for c
    using r(1) [of "''.b3''"] r(2) [of "''.b3''"] r(2) [of "''.sig''"] r(3) [of "[]"] r(3) [of "''.b3''"] r(3) [of "''.sig''"] bin(2)
    by (simp_all add: h2)
  have nl: "newline \<in> {[], [CHR 0x0A]}" by (simp add: newline_def)
  have "VerifySignedBinary verify (be_digest env) (put_file out c h2) out pub =
       (if be_digest env c = be_digest env bin then Inr () else Inl DigestMismatch)" for c
    by (rule signed_binary_verifies [where verify = verify and digest = "be_digest env" and priv = priv and sign = sign
          and original = bin and nl = newline and nl' = newline, OF _ _ scheme(3) rd nl nl])
      (use scheme in blast)+
  moreover have "ReadFile (cwd h2) (file_content h2) out = Inr bin"
    using r(1) [of "[]"] r(2) [of "[]"] bin(1) by (simp add: h2)
  ultimately show ?thesis using w(2) by (auto simp: goAgentArtifact_def)
qed

text \<open>A directory is built to the end whatever fails on the way: every source gets its build, in the
  state the one before it left, and what is reported is how many of them failed.\<close>

fun build_states :: "(string \<Rightarrow> host_files \<Rightarrow> build_error option \<times> host_files) \<Rightarrow> string list \<Rightarrow> host_files
    \<Rightarrow> (string \<times> build_error option) list" where
  "build_states build [] h = []"
| "build_states build (s # ss) h = (s, fst (build s h)) # build_states build ss (snd (build s h))"

lemma build_states_all: "map fst (build_states build ss h) = ss"
  by (induction ss arbitrary: h) auto

lemma build_each_counts:
  "fst (build_each build ss n h) = n + length (filter (\<lambda>x. snd x \<noteq> None) (build_states build ss h))"
  by (induction ss arbitrary: n h) (auto split: prod.split)

lemma buildDirectory_result:
  assumes "findGoAgents walk = Some ss" "ss \<noteq> []"
  shows "fst (buildDirectory build walk dir h) =
    (let bad = length (filter (\<lambda>x. snd x \<noteq> None) (build_states build ss h))
     in if bad > 0 then Some (SomeFailed bad (length ss)) else None)"
  using assms build_each_counts [of build ss 0 h]
  by (auto simp: buildDirectory_def Let_def split: list.splits prod.splits)

text \<open>\<^verbatim>\<open>agent clean\<close> removes nothing of it: builds go to \<^verbatim>\<open>agents\<close>, the directory that is removed is
  \<^verbatim>\<open>agents/build/go\<close>.\<close>

lemma clean_keeps_built:
  assumes "cwd h = Some (abs_path cs)" "\<forall>c \<in> set cs. name_ok c" "name_ok n"
  shows "file_content (runAgentClean missing h) (abs_path (cs @ [''agents'', n])) = file_content h (abs_path (cs @ [''agents'', n]))"
proof -
  let ?p = "abs_path (cs @ [''agents'', n])" let ?d = "JoinPath [abs_path cs, ''agents/build/go'']"
  have ap: "abs_path cs \<noteq> []" by (simp add: abs_path_def)
  have bg: "comps ''agents/build/go'' = [''agents'', ''build'', ''go'']" by code_simp
  have nm: "name_ok ''agents''" "name_ok ''build''" "name_ok ''go''" by code_simp+
  have j: "?d = Clean (abs_path cs @ ''/'' @ ''agents/build/go'')" using ap by (simp add: JoinPath_def)
  have "IsAbs (abs_path cs @ ''/'' @ ''agents/build/go'')" by (simp add: IsAbs_iff abs_path_def)
  then have "comps ?d = clean_comps True (cs @ [''agents'', ''build'', ''go''])"
    unfolding j comps_Clean comps_slash bg abs_path_facts(2) [OF assms(2)] by (simp only:)
  also have "\<dots> = cs @ [''agents'', ''build'', ''go'']"
    by (rule clean_names) (use assms(2) nm in \<open>simp add: ball_Un\<close>)
  finally have d: "comps ?d = cs @ [''agents'', ''build'', ''go'']" .
  have p: "comps ?p = cs @ [''agents'', n]" by (rule abs_path_facts(2)) (use assms(2, 3) nm in \<open>simp add: ball_Un\<close>)
  have "length (comps ?p) < length (comps ?d)" unfolding p d by simp
  then have "?p \<noteq> ?d" by (metis less_irrefl)
  have ia: "\<not> IsAbs ''agents/build/go''" by (simp add: IsAbs_iff)
  have "\<not> HasPrefix ?p (?d @ ''/'')"
  proof
    assume "HasPrefix ?p (?d @ ''/'')"
    then obtain s where "?p = ?d @ ''/'' @ s" unfolding HasPrefix_iff append_assoc by blast
    then have "comps ?p = comps ?d @ comps s" by (metis comps_slash)
    then have "length (comps ?p) \<ge> length (comps ?d)" by (simp only: length_append)
    with \<open>length (comps ?p) < length (comps ?d)\<close> show False by linarith
  qed
  with \<open>?p \<noteq> ?d\<close> show ?thesis
    using assms(1) ia by (simp add: runAgentClean_def buildDirs_def clean_dir_def Abs_def remove_all_def)
qed

section \<open>What a watch sees\<close>

text \<open>Watching a single agent file, as the help of the command shows it, or a directory named with a
  leading dot - the working directory among them - watches nothing.\<close>

lemma watch_of_file: "\<not> te_failed e \<Longrightarrow> \<not> te_isDir e \<Longrightarrow> addWatchRecursive [e] = Some []"
  by (simp add: addWatchRecursive_def)

lemma watch_of_dot:
  assumes "\<not> te_failed e" "te_isDir e" "te_path e \<in> {''.'', ''..''}" "\<forall>x \<in> set es. te_depth x > te_depth e"
  shows "addWatchRecursive (e # es) = Some []"
proof -
  have "Base ''.'' = ''.''" "Base ''..'' = ''..''" by code_simp+
  then have "hd (Base (te_path e)) = CHR ''.''" using assms(3) by auto
  moreover have "dropWhile (\<lambda>x. te_depth x > te_depth e) es = []" unfolding dropWhile_eq_Nil_conv by (rule assms(4))
  ultimately show ?thesis using assms(1, 2) by (simp only: addWatchRecursive_def add_watch.simps simp_thms if_True if_False)
qed

text \<open>However many changes come in a burst, one rebuild follows it, and only a visible agent file that
  was written or created starts one.\<close>

lemma watch_debounced: "length (watch_loop pending es) \<le> length (filter (\<lambda>x. x = Debounced) es)"
  by (induction pending es rule: watch_loop.induct) (auto split: option.split)

lemma watch_rebuilds:
  "n \<in> set (watch_loop pending es) \<Longrightarrow> pending = Some n \<or>
    (Changed n True \<in> set es \<and> isGoAgentFile (Base n) \<and> hd (Base n) \<noteq> CHR ''.'')"
  by (induction pending es rule: watch_loop.induct) (auto split: if_splits option.splits)

end
